(* ===== verification/Go_Prelude.thy ===== *)
theory Go_Prelude
  imports Main
    "HOL-Library.AList" "HOL-Library.Char_ord" "HOL-Library.List_Lexorder"
    "HOL-Library.Sublist"
begin

text \<open>
  Shared vocabulary of the development: the part of the Go language and of its standard
  library (\<open>strings\<close>, \<open>sort\<close>, maps, optional pointers, 64-bit integers) that the modelled
  packages use, with the generic lemmas the component theories rely on.

  A Go string is its list of UTF-8 bytes (\<^typ>\<open>string\<close>); a Go map is an association list
  with distinct keys whose list order stands for one iteration order of \<open>range\<close> (Go leaves
  that order unspecified, and every theorem quantifies over all lists); a pointer that may
  be \<open>nil\<close> is an option; a function returning \<open>(T, error)\<close> returns a sum whose left part is
  the error.
\<close>

named_theorems go_map_simps "lookup in Go maps after an update"
named_theorems trim_simps "facts on TrimSpace"

subsection \<open>Results and maps\<close>

type_synonym ('e, 'a) result = "'e + 'a"

type_synonym 'v gomap = "(string \<times> 'v) list"

abbreviation keys :: "'v gomap \<Rightarrow> string list" where
  "keys m \<equiv> map fst m"

abbreviation wf_map :: "'v gomap \<Rightarrow> bool" where
  "wf_map m \<equiv> distinct (keys m)"

text \<open>\<open>m[k] = v\<close>: replaces in place or appends.\<close>

definition put :: "string \<Rightarrow> 'v \<Rightarrow> 'v gomap \<Rightarrow> 'v gomap" where
  "put k v m = AList.update k v m"

lemma map_of_put [go_map_simps, simp]: "map_of (put k v m) = (map_of m)(k \<mapsto> v)"
  by (simp add: put_def update_conv fun_eq_iff)

lemma keys_put: "set (keys (put k v m)) = insert k (set (keys m))"
  by (simp add: put_def dom_update)

lemma wf_map_put [simp]: "wf_map m \<Longrightarrow> wf_map (put k v m)"
  by (simp add: put_def distinct_update)

text \<open>A map whose values are pointers: absent keys and nil values are treated alike.\<close>

definition deref :: "'v option gomap \<Rightarrow> string \<Rightarrow> 'v option" where
  "deref m k = (case map_of m k of None \<Rightarrow> None | Some p \<Rightarrow> p)"

lemma deref_SomeD: "deref m k = Some v \<Longrightarrow> (k, Some v) \<in> set m"
  by (auto simp: deref_def split: option.splits dest: map_of_SomeD)

lemma deref_in_keys: "deref m k = Some v \<Longrightarrow> k \<in> set (keys m)"
  by (force dest: deref_SomeD)

text \<open>Stable sorting by a key.\<close>

lemma insort_key_map: "insort_key f (g x) (map g xs) = map g (insort_key (\<lambda>x. f (g x)) x xs)"
  by (induction xs) auto

lemma sort_key_map: "sort_key f (map g xs) = map g (sort_key (\<lambda>x. f (g x)) xs)"
  by (induction xs) (simp_all add: insort_key_map)

lemma sort_key_idem: "sort_key f (sort_key f xs) = sort_key f xs"
  by (rule sort_key_id_if_sorted) (rule sorted_sort_key)

text \<open>\<open>sortedKeys\<close>: the keys in byte order.\<close>

definition sortedKeys :: "'v gomap \<Rightarrow> string list" where
  "sortedKeys m = sort (keys m)"

lemma set_sortedKeys [simp]: "set (sortedKeys m) = set (keys m)"
  by (simp add: sortedKeys_def)

subsection \<open>Strings\<close>

text \<open>
  The UTF-8 encodings of the code points for which \<open>unicode.IsSpace\<close> holds. \<open>TrimSpace\<close>
  decodes one rune at a time from either end; a byte sequence decodes to one of these code
  points exactly when it is the encoding listed here.
\<close>

definition space_encodings :: "string list" where
  "space_encodings =
     [[CHR 0x20], [CHR 0x09], [CHR 0x0A], [CHR 0x0B], [CHR 0x0C], [CHR 0x0D],
      [CHR 0xC2, CHR 0x85], [CHR 0xC2, CHR 0xA0], [CHR 0xE1, CHR 0x9A, CHR 0x80],
      [CHR 0xE2, CHR 0x80, CHR 0x80], [CHR 0xE2, CHR 0x80, CHR 0x81],
      [CHR 0xE2, CHR 0x80, CHR 0x82], [CHR 0xE2, CHR 0x80, CHR 0x83],
      [CHR 0xE2, CHR 0x80, CHR 0x84], [CHR 0xE2, CHR 0x80, CHR 0x85],
      [CHR 0xE2, CHR 0x80, CHR 0x86], [CHR 0xE2, CHR 0x80, CHR 0x87],
      [CHR 0xE2, CHR 0x80, CHR 0x88], [CHR 0xE2, CHR 0x80, CHR 0x89],
      [CHR 0xE2, CHR 0x80, CHR 0x8A], [CHR 0xE2, CHR 0x80, CHR 0xA8],
      [CHR 0xE2, CHR 0x80, CHR 0xA9], [CHR 0xE2, CHR 0x80, CHR 0xAF],
      [CHR 0xE2, CHR 0x81, CHR 0x9F], [CHR 0xE3, CHR 0x80, CHR 0x80]]"

function trimPrefixes :: "string list \<Rightarrow> string \<Rightarrow> string" where
  "trimPrefixes encs s =
     (case find (\<lambda>w. w \<noteq> [] \<and> prefix w s) encs of
        None \<Rightarrow> s
      | Some w \<Rightarrow> trimPrefixes encs (drop (length w) s))"
  by pat_completeness auto
termination
  by (relation "measure (\<lambda>(encs, s). length s)")
    (auto simp: find_Some_iff prefix_def)

declare trimPrefixes.simps [simp del]

definition TrimSpace :: "string \<Rightarrow> string" where
  "TrimSpace s =
     rev (trimPrefixes (map rev space_encodings) (rev (trimPrefixes space_encodings s)))"

definition TrimPrefix :: "string \<Rightarrow> string \<Rightarrow> string" where
  "TrimPrefix s p = (if prefix p s then drop (length p) s else s)"

text \<open>\<open>strings.IndexByte\<close>; \<open>None\<close> stands for \<open>-1\<close>.\<close>

fun IndexByte :: "string \<Rightarrow> char \<Rightarrow> nat option" where
  "IndexByte [] c = None"
| "IndexByte (x # xs) c = (if x = c then Some 0 else map_option Suc (IndexByte xs c))"

fun Join :: "string list \<Rightarrow> string \<Rightarrow> string" where
  "Join [] sep = []"
| "Join [s] sep = s"
| "Join (s # t # ss) sep = s @ sep @ Join (t # ss) sep"

subsection \<open>Runes and case\<close>

text \<open>
  \<open>utf8.DecodeRuneInString\<close>: the number of bytes of the well-formed encoding that starts a
  string, or \<open>None\<close> when its first byte starts none (Go then yields \<open>RuneError\<close> and
  consumes one byte).
\<close>

definition between :: "nat \<Rightarrow> nat \<Rightarrow> char \<Rightarrow> bool" where
  "between lo hi c = (lo \<le> of_char c \<and> of_char c \<le> hi)"

definition contBytes :: "char list \<Rightarrow> bool" where
  "contBytes cs = list_all (between 0x80 0xBF) cs"

fun runeSize :: "string \<Rightarrow> nat option" where
  "runeSize [] = None"
| "runeSize (b # bs) =
     (if between 0 0x7F b then Some 1
      else if between 0xC2 0xDF b then
        (case bs of c # _ \<Rightarrow> if contBytes [c] then Some 2 else None | _ \<Rightarrow> None)
      else if between 0xE0 0xEF b then
        (case bs of
           c # d # _ \<Rightarrow>
             (let lo = (if b = CHR 0xE0 then 0xA0 else 0x80);
                  hi = (if b = CHR 0xED then 0x9F else 0xBF)
              in if between lo hi c \<and> contBytes [d] then Some 3 else None)
         | _ \<Rightarrow> None)
      else if between 0xF0 0xF4 b then
        (case bs of
           c # d # e # _ \<Rightarrow>
             (let lo = (if b = CHR 0xF0 then 0x90 else 0x80);
                  hi = (if b = CHR 0xF4 then 0x8F else 0xBF)
              in if between lo hi c \<and> contBytes [d, e] then Some 4 else None)
         | _ \<Rightarrow> None)
      else None)"

lemma runeSize_pos: "runeSize s = Some n \<Longrightarrow> 0 < n \<and> n \<le> length s"
  by (cases s) (auto simp: Let_def split: if_splits list.splits)

text \<open>
  \<open>strings.ToLower\<close> where its result is compared with ASCII text: ASCII letters, and the two
  non-ASCII code points whose lower case is an ASCII letter (U+0130 and U+212A). Other
  non-ASCII letters are left as they are.
\<close>

definition lowerByte :: "char \<Rightarrow> char" where
  "lowerByte c = (if between 0x41 0x5A c then char_of (of_char c + 32 :: nat) else c)"

fun ToLower :: "string \<Rightarrow> string" where
  "ToLower [] = []"
| "ToLower (a # b # c # s) =
     (if [a, b] = [CHR 0xC4, CHR 0xB0] then CHR ''i'' # ToLower (c # s)
      else if [a, b, c] = [CHR 0xE2, CHR 0x84, CHR 0xAA] then CHR ''k'' # ToLower s
      else lowerByte a # ToLower (b # c # s))"
| "ToLower (a # b # s) =
     (if [a, b] = [CHR 0xC4, CHR 0xB0] then CHR ''i'' # ToLower s
      else lowerByte a # ToLower (b # s))"
| "ToLower (a # s) = lowerByte a # ToLower s"

text \<open>The lower-case hexadecimal digits of \<open>encoding/hex\<close> and of JSON escapes.\<close>

definition hexDigit :: "nat \<Rightarrow> char" where
  "hexDigit n = ''0123456789abcdef'' ! n"

subsection \<open>Trimming\<close>

lemma trimPrefixes_suffix: "\<exists>p. s = p @ trimPrefixes encs s"
proof (induction encs s rule: trimPrefixes.induct)
  case (1 encs s)
  show ?case
  proof (cases "find (\<lambda>w. w \<noteq> [] \<and> prefix w s) encs")
    case None
    then show ?thesis by (simp add: trimPrefixes.simps [of encs s])
  next
    case (Some w)
    with "1.IH" obtain p where p: "drop (length w) s = p @ trimPrefixes encs (drop (length w) s)"
      by blast
    have "s = (take (length w) s @ p) @ trimPrefixes encs s"
      using Some p append_take_drop_id [of "length w" s]
      by (simp add: trimPrefixes.simps [of encs s])
    then show ?thesis by blast
  qed
qed

lemma trimPrefixes_stuck:
  "w \<in> set encs \<Longrightarrow> w \<noteq> [] \<Longrightarrow> \<not> prefix w (trimPrefixes encs s)"
proof (induction encs s rule: trimPrefixes.induct)
  case (1 encs s)
  show ?case
  proof (cases "find (\<lambda>w. w \<noteq> [] \<and> prefix w s) encs")
    case None
    then have "\<not> prefix w s" using "1.prems" by (auto simp: find_None_iff)
    with None show ?thesis by (simp add: trimPrefixes.simps [of encs s])
  next
    case (Some v)
    with "1.IH" "1.prems" show ?thesis by (simp add: trimPrefixes.simps [of encs s])
  qed
qed

lemma trimPrefixes_id:
  assumes "\<And>w. w \<in> set encs \<Longrightarrow> w \<noteq> [] \<Longrightarrow> \<not> prefix w s"
  shows "trimPrefixes encs s = s"
proof -
  have "find (\<lambda>w. w \<noteq> [] \<and> prefix w s) encs = None"
    using assms by (auto simp: find_None_iff)
  then show ?thesis by (simp add: trimPrefixes.simps [of encs s])
qed

text \<open>A string is trimmed when no space encoding starts or ends it.\<close>

definition trimmed :: "string \<Rightarrow> bool" where
  "trimmed s \<longleftrightarrow> (\<forall>w \<in> set space_encodings. \<not> prefix w s \<and> \<not> suffix w s)"

lemma space_encodings_nonempty: "w \<in> set space_encodings \<Longrightarrow> w \<noteq> []"
  by (auto simp: space_encodings_def)

lemma trimmed_TrimSpace [trim_simps, simp]: "trimmed (TrimSpace s)"
proof -
  let ?l = "trimPrefixes space_encodings s"
  let ?r = "trimPrefixes (map rev space_encodings) (rev ?l)"
  obtain p where p: "rev ?l = p @ ?r"
    using trimPrefixes_suffix by blast
  then have "?l = rev ?r @ rev p"
    by (metis rev_append rev_rev_ident)
  then have pre: "prefix (TrimSpace s) ?l"
    unfolding TrimSpace_def by (rule prefixI)
  have "\<not> prefix w (TrimSpace s) \<and> \<not> suffix w (TrimSpace s)" if w: "w \<in> set space_encodings" for w
  proof
    have "\<not> prefix w ?l" using w space_encodings_nonempty trimPrefixes_stuck by blast
    then show "\<not> prefix w (TrimSpace s)" using pre prefix_order.trans by blast
    have "\<not> prefix (rev w) ?r"
      using w space_encodings_nonempty [OF w] trimPrefixes_stuck [of "rev w"] by simp
    then show "\<not> suffix w (TrimSpace s)"
      by (simp add: TrimSpace_def suffix_to_prefix)
  qed
  then show ?thesis by (simp add: trimmed_def)
qed

lemma TrimSpace_trimmed [trim_simps]: "trimmed s \<Longrightarrow> TrimSpace s = s"
proof -
  assume t: "trimmed s"
  have l: "trimPrefixes space_encodings s = s"
    using t by (intro trimPrefixes_id) (auto simp: trimmed_def)
  have r: "trimPrefixes (map rev space_encodings) (rev s) = rev s"
    using t by (intro trimPrefixes_id) (auto simp: trimmed_def suffix_to_prefix)
  show ?thesis by (simp add: TrimSpace_def l r)
qed

lemma TrimSpace_idem [trim_simps, simp]: "TrimSpace (TrimSpace s) = TrimSpace s"
  by (simp add: TrimSpace_trimmed)

lemma TrimSpace_Nil [trim_simps, simp]: "TrimSpace [] = []"
  by (rule TrimSpace_trimmed) (auto simp: trimmed_def space_encodings_def)

subsection \<open>Splitting at a byte\<close>

lemma IndexByte_None: "IndexByte s c = None \<longleftrightarrow> c \<notin> set s"
  by (induction s) auto

lemma IndexByte_Some:
  "IndexByte s c = Some i \<Longrightarrow> i < length s \<and> s ! i = c \<and> c \<notin> set (take i s)"
  by (induction s arbitrary: i) (auto split: if_splits)

lemma IndexByte_split:
  "IndexByte s c = Some i \<Longrightarrow> s = take i s @ c # drop (Suc i) s"
  by (metis IndexByte_Some id_take_nth_drop)

lemma IndexByte_append: "c \<notin> set a \<Longrightarrow> IndexByte (a @ c # b) c = Some (length a)"
  by (induction a) auto

subsection \<open>De-duplication in first-occurrence order\<close>

text \<open>
  The loop \<open>if _, ok := seen[s]; ok { continue }; seen[s] = \<dots>; out = append(out, s)\<close>, which
  several packages repeat.
\<close>

fun dedupFrom :: "'a list \<Rightarrow> 'a list \<Rightarrow> 'a list" where
  "dedupFrom seen [] = []"
| "dedupFrom seen (x # xs) =
     (if x \<in> set seen then dedupFrom seen xs else x # dedupFrom (x # seen) xs)"

lemma set_dedupFrom: "set (dedupFrom seen xs) = set xs - set seen"
  by (induction xs arbitrary: seen) auto

lemma distinct_dedupFrom: "distinct (dedupFrom seen xs)"
  by (induction xs arbitrary: seen) (auto simp: set_dedupFrom)

abbreviation dedup :: "'a list \<Rightarrow> 'a list" where
  "dedup xs \<equiv> dedupFrom [] xs"

text \<open>The variant that trims every string first and drops the blank ones.\<close>

definition trimDedup :: "string list \<Rightarrow> string list" where
  "trimDedup xs = dedup (filter (\<lambda>s. s \<noteq> []) (map TrimSpace xs))"

lemma set_trimDedup: "set (trimDedup xs) = TrimSpace ` set xs - {[]}"
  by (auto simp: trimDedup_def set_dedupFrom)

lemma distinct_trimDedup: "distinct (trimDedup xs)"
  by (simp add: trimDedup_def distinct_dedupFrom)

lemma trimDedup_trimmed: "s \<in> set (trimDedup xs) \<Longrightarrow> TrimSpace s = s \<and> s \<noteq> []"
  by (auto simp: set_trimDedup)

end
