(* ===== verification/Spec_Types.thy ===== *)
theory Spec_Types
  imports Go_Prelude Complex_Main
begin

text \<open>
  The resource model of \<open>internal/spec\<close> (\<open>kinds.go\<close>, \<open>types.go\<close>, \<open>hitl.go\<close>,
  \<open>approval.go\<close>): one record per Go struct, with the fields that the modelled operations
  read or write. Source positions (\<open>Pos\<close> fields) are diagnostic metadata, not identity, and
  are left out, as are the transport, retry, schema and prompt fields no modelled operation
  touches. A field name carries a short prefix for its struct, since record fields are global.
\<close>

subsection \<open>Numbers\<close>

text \<open>
  A \<open>float64\<close> as the comparisons of the program see it: NaN, the infinities, and finite
  values as exact rationals (both zeros compare equal, so one rational stands for them).
\<close>

datatype float64 = NaN | NegInf | PosInf | Fin rat

fun f64_less :: "float64 \<Rightarrow> float64 \<Rightarrow> bool" where
  "f64_less NaN y = False"
| "f64_less x NaN = False"
| "f64_less (Fin a) (Fin b) = (a < b)"
| "f64_less NegInf y = (y \<noteq> NegInf)"
| "f64_less x PosInf = (x \<noteq> PosInf)"
| "f64_less x y = False"

abbreviation f64_zero :: float64 where
  "f64_zero \<equiv> Fin 0"

text \<open>Two's complement wrap-around of an \<open>int64\<close> result (Go \<open>int\<close> is 64 bits wide here).\<close>

definition wrap64 :: "int \<Rightarrow> int" where
  "wrap64 x = (x + 2 ^ 63) mod 2 ^ 64 - 2 ^ 63"

lemma wrap64_id: "- (2 ^ 63) \<le> x \<Longrightarrow> x < 2 ^ 63 \<Longrightarrow> wrap64 x = x"
  by (simp add: wrap64_def)

subsection \<open>Dynamic values (\<open>any\<close>)\<close>

text \<open>The JSON-shaped values a \<open>map[string]any\<close> holds.\<close>

datatype any =
    ANil
  | ABool bool
  | AInt int
  | AFloat float64
  | AStr string
  | AArr "any list"
  | AObj "(string \<times> any) list"

subsection \<open>Tool resources\<close>

record tool_operation =
  op_Effects :: "string list"
  op_Schema :: string

record tool_safety =
  sf_Trusted :: "bool option"
  sf_SideEffects :: "bool option"
  sf_RequiresApproval :: "bool option"

record resolved_tool_safety =
  rs_Trusted :: bool
  rs_SideEffects :: bool
  rs_RequiresApproval :: bool

record tool_spec =
  ts_Type :: string
  ts_Safety :: "tool_safety option"
  ts_Operations :: "tool_operation gomap"
  ts_OperationsDeclared :: bool

record tool_resource =
  tr_Name :: string
  tr_Spec :: tool_spec

subsection \<open>Agent resources\<close>

record agent_constraints =
  ac_MaxIterations :: int
  ac_MaxTokens :: int
  ac_TimeoutSeconds :: int
  ac_Temperature :: "float64 option"
  ac_RequireStructuredOutput :: bool

record agent_spec =
  as_Model :: string
  as_Tools :: "string list"
  as_Policy :: string
  as_Constraints :: "agent_constraints option"

record agent_resource =
  ar_Name :: string
  ar_Spec :: agent_spec

subsection \<open>Workflow resources\<close>

record workflow_approval_config =
  wa_Description :: string
  wa_RedactKeys :: "string list"

record workflow_approval_value =
  wv_Enabled :: bool
  wv_Config :: "workflow_approval_config option"

record workflow_step =
  st_ID :: string
  st_Uses :: string
  st_Agent :: string
  st_Workflow :: string
  st_Approval :: "workflow_approval_value option"
  st_Needs :: "string list"
  st_NeedsDeclared :: bool

record workflow_spec =
  ws_Policy :: string
  ws_Steps :: "workflow_step list"

record workflow_resource =
  wr_Name :: string
  wr_Spec :: workflow_spec

definition StepIsApproval :: "workflow_step \<Rightarrow> bool" where
  "StepIsApproval st = (case st_Approval st of None \<Rightarrow> False | Some v \<Rightarrow> wv_Enabled v)"

definition DefaultApprovalStepDescription :: string where
  "DefaultApprovalStepDescription = ''Workflow step requires approval''"

definition ApprovalStepDescription :: "workflow_step \<Rightarrow> string" where
  "ApprovalStepDescription st =
     (case st_Approval st of
        None \<Rightarrow> DefaultApprovalStepDescription
      | Some v \<Rightarrow>
          (case wv_Config v of
             None \<Rightarrow> DefaultApprovalStepDescription
           | Some c \<Rightarrow>
               (let d = TrimSpace (wa_Description c)
                in if d \<noteq> [] then d else DefaultApprovalStepDescription)))"

subsection \<open>Human-in-the-loop configuration\<close>

text \<open>
  \<open>HitlDecisionKind\<close> is a string type in the source. The four authorable kinds, the
  deny-all sentinel of \<open>internal/policy\<close> and any other string are kept apart here.
\<close>

datatype hitl_decision =
    HitlApprove | HitlReject | HitlEdit | HitlSwitch
  | HitlNone
  | HitlOther string

record hitl_interrupt_config =
  hc_AllowedDecisions :: "hitl_decision list"
  hc_Description :: string
  hc_AllowedEditArgs :: "string list"
  hc_DeniedEditArgs :: "string list"
  hc_AllowedEditPaths :: "string list"
  hc_DeniedEditPaths :: "string list"
  hc_AllowedEditTools :: "string list"
  hc_SwitchMap :: "string list gomap"
  hc_RedactKeys :: "string list"

record hitl_interrupt_value =
  hv_Enabled :: bool
  hv_Config :: "hitl_interrupt_config option"

record hitl_policy =
  hp_InterruptOn :: "hitl_interrupt_value gomap"
  hp_DescriptionPrefix :: string
  hp_ToolSwitchMap :: "string list gomap"
  hp_RedactKeys :: "string list"

definition AllHitlDecisionKinds :: "hitl_decision list" where
  "AllHitlDecisionKinds = [HitlApprove, HitlReject, HitlEdit, HitlSwitch]"

definition IsValidHitlDecisionKind :: "hitl_decision \<Rightarrow> bool" where
  "IsValidHitlDecisionKind k = list_ex (\<lambda>known. k = known) AllHitlDecisionKinds"

subsection \<open>Policy resources\<close>

record policy_execution =
  pe_MaxWallClockSeconds :: int
  pe_MaxTotalCostUsd :: float64
  pe_MaxIterations :: int
  pe_RequireStructuredOutput :: bool

record policy_tools =
  pt_ForbidUnknownTools :: bool

record policy_approvals =
  pa_RequiredFor :: "string list"
  pa_RequireAllTools :: "bool option"
  pa_Permissive :: "bool option"

record policy_effects =
  px_Permit :: "string list"
  px_PermitWithApproval :: "string list"

record policy_spec =
  ps_Preset :: string
  ps_ResolvedPreset :: string
  ps_Execution :: "policy_execution option"
  ps_Tools :: "policy_tools option"
  ps_Approvals :: "policy_approvals option"
  ps_Effects :: "policy_effects option"
  ps_Hitl :: "hitl_policy option"

record policy_resource =
  pr_Name :: string
  pr_Spec :: policy_spec

text \<open>The zero values of the structs (Go's \<open>T{}\<close>).\<close>

definition zero_execution :: policy_execution where
  "zero_execution = \<lparr>pe_MaxWallClockSeconds = 0, pe_MaxTotalCostUsd = f64_zero,
     pe_MaxIterations = 0, pe_RequireStructuredOutput = False\<rparr>"

definition zero_policy :: policy_spec where
  "zero_policy = \<lparr>ps_Preset = [], ps_ResolvedPreset = [], ps_Execution = None,
     ps_Tools = None, ps_Approvals = None, ps_Effects = None, ps_Hitl = None\<rparr>"

definition zero_approvals :: policy_approvals where
  "zero_approvals = \<lparr>pa_RequiredFor = [], pa_RequireAllTools = None, pa_Permissive = None\<rparr>"

subsection \<open>The project graph\<close>

record project_defaults =
  pd_Runtime :: string
  pd_Model :: string
  pd_Policy :: string

text \<open>
  Resources are held by pointer, so a map entry may be nil. The \<open>Tools\<close> map itself may be
  nil, which \<open>ResolveAgentAdvertisedTools\<close> tells apart from an empty one.
\<close>

record project_graph =
  g_Defaults :: "project_defaults option"
  g_Agents :: "agent_resource option gomap"
  g_Tools :: "tool_resource option gomap option"
  g_Workflows :: "workflow_resource option gomap"
  g_Policies :: "policy_resource option gomap"

definition toolsOf :: "project_graph \<Rightarrow> tool_resource option gomap" where
  "toolsOf g = (case g_Tools g of None \<Rightarrow> [] | Some m \<Rightarrow> m)"

text \<open>
  \<open>tr, ok := g.Tools[name]; if !ok || tr == nil\<close> with the nil checks on \<open>g\<close> and its map:
  the lookup every consumer of the graph repeats.
\<close>

definition graphTool :: "project_graph option \<Rightarrow> string \<Rightarrow> tool_resource option" where
  "graphTool g name = (case g of None \<Rightarrow> None | Some p \<Rightarrow> deref (toolsOf p) name)"

lemma graphTool_None [simp]: "graphTool None name = None"
  by (simp add: graphTool_def)

lemma graphTool_Some: "graphTool (Some g) name = deref (toolsOf g) name"
  by (simp add: graphTool_def)

end
