(* ===== verification/Spec_Effects.thy ===== *)
theory Spec_Effects
  imports Spec_Types
begin

text \<open>
  Declared effects of tools (\<open>internal/spec/effects.go\<close>) and tool safety metadata
  (\<open>internal/spec/safety.go\<close>): the fail-closed resolution of both, and the conservative
  merges.
\<close>

subsection \<open>Effect identifiers\<close>

definition EffectDestructive :: string where
  "EffectDestructive = ''destructive''"

text \<open>
  \<open>uniqueSortedEffectsWithPos\<close> without the position column: trim, drop blanks, keep first
  occurrences, sort by bytes.
\<close>

definition uniqueSortedEffects :: "string list \<Rightarrow> string list" where
  "uniqueSortedEffects xs = sort (trimDedup xs)"

text \<open>The regular expression \<open>[a-z][a-z0-9_]*(\.[a-z][a-z0-9_]*)*\<close>, anchored at both ends.\<close>

definition identStart :: "char \<Rightarrow> bool" where
  "identStart c = between 0x61 0x7A c"

definition identRest :: "char \<Rightarrow> bool" where
  "identRest c = (between 0x61 0x7A c \<or> between 0x30 0x39 c \<or> c = CHR ''_'')"

fun identTail :: "string \<Rightarrow> bool" where
  "identTail [] = True"
| "identTail [c] = identRest c"
| "identTail (c # d # s) =
     (if c = CHR ''.'' then identStart d \<and> identTail s else identRest c \<and> identTail (d # s))"

definition effectIdent :: "string \<Rightarrow> bool" where
  "effectIdent s = (case s of [] \<Rightarrow> False | c # cs \<Rightarrow> identStart c \<and> identTail cs)"

datatype ident_error = IdentEmpty | IdentToolPrefix string | IdentInvalid string

definition ValidateEffectIdent :: "string \<Rightarrow> ident_error option" where
  "ValidateEffectIdent id0 =
     (let i = TrimSpace id0 in
      if i = [] then Some IdentEmpty
      else if prefix ''tool.'' i then Some (IdentToolPrefix i)
      else if \<not> effectIdent i then Some (IdentInvalid i)
      else None)"

definition ValidateOperationName :: "string \<Rightarrow> ident_error option" where
  "ValidateOperationName name0 =
     (let name = TrimSpace name0 in
      if name = [] then Some IdentEmpty
      else if prefix ''tool.'' name then Some (IdentToolPrefix name)
      else if \<not> effectIdent name then Some (IdentInvalid name)
      else None)"

definition EffectCovers :: "string \<Rightarrow> string \<Rightarrow> bool" where
  "EffectCovers declared0 candidate0 =
     (let declared = TrimSpace declared0; candidate = TrimSpace candidate0 in
      if declared = [] \<or> candidate = [] then False
      else if declared = candidate then True
      else prefix (declared @ ''.'') candidate)"

subsection \<open>Effects of a tool and of one operation\<close>

definition toolHasDeclaredEffects :: "tool_spec option \<Rightarrow> bool" where
  "toolHasDeclaredEffects sp =
     (case sp of
        None \<Rightarrow> False
      | Some t \<Rightarrow> list_ex (\<lambda>(_, op). list_ex (\<lambda>e. TrimSpace e \<noteq> []) (op_Effects op))
          (ts_Operations t))"

definition toolDeclaresEffect :: "tool_spec \<Rightarrow> string \<Rightarrow> bool" where
  "toolDeclaresEffect t ident =
     list_ex (\<lambda>(_, op). list_ex (\<lambda>e. TrimSpace e = TrimSpace ident) (op_Effects op))
       (ts_Operations t)"

datatype effect_message =
    ToolUndeclared string \<comment> \<open>\<open>Tool/%s: no declared effects \<dots>\<close>\<close>
  | OperationUndeclared string string \<comment> \<open>\<open>Tool/%s: operation %q has no declared effects \<dots>\<close>\<close>

record resolved_tool_effects =
  re_ByOperation :: "string list gomap"
  re_Unknown :: bool
  re_Message :: "effect_message option"

definition ResolveToolEffects :: "string \<Rightarrow> tool_spec option \<Rightarrow> resolved_tool_effects" where
  "ResolveToolEffects toolName sp =
     (let name = (let n = TrimSpace toolName in if n = [] then ''(unnamed)'' else n) in
      case sp of
        None \<Rightarrow> \<lparr>re_ByOperation = [], re_Unknown = True, re_Message = Some (ToolUndeclared name)\<rparr>
      | Some t \<Rightarrow>
          if \<not> toolHasDeclaredEffects sp
          then \<lparr>re_ByOperation = [], re_Unknown = True, re_Message = Some (ToolUndeclared name)\<rparr>
          else \<lparr>re_ByOperation =
                   fold (\<lambda>(op, opSpec) out. put (TrimSpace op) (uniqueSortedEffects (op_Effects opSpec)) out)
                     (ts_Operations t) [],
                 re_Unknown = False, re_Message = None\<rparr>)"

record resolved_op_effects =
  ro_Effects :: "string list"
  ro_Unknown :: bool

definition ResolveOperationEffects ::
  "string \<Rightarrow> string \<Rightarrow> tool_spec option \<Rightarrow> resolved_op_effects" where
  "ResolveOperationEffects toolName operation sp =
     (let te = ResolveToolEffects toolName sp in
      if re_Unknown te then \<lparr>ro_Effects = [], ro_Unknown = True\<rparr>
      else case map_of (re_ByOperation te) (TrimSpace operation) of
          None \<Rightarrow> \<lparr>ro_Effects = [], ro_Unknown = True\<rparr>
        | Some effects \<Rightarrow>
            if effects = [] then \<lparr>ro_Effects = [], ro_Unknown = True\<rparr>
            else \<lparr>ro_Effects = effects, ro_Unknown = False\<rparr>)"

text \<open>\<open>NormalizeToolEffects\<close> and \<open>NormalizePolicyEffects\<close>, without the position columns.\<close>

definition NormalizeToolEffects :: "tool_spec \<Rightarrow> tool_spec" where
  "NormalizeToolEffects t =
     (if ts_Operations t = [] then t
      else t\<lparr>ts_Operations :=
        fold (\<lambda>(k, op) out.
               put (TrimSpace k) (op\<lparr>op_Effects := uniqueSortedEffects (op_Effects op)\<rparr>) out)
          (ts_Operations t) []\<rparr>)"

definition NormalizePolicyEffects :: "policy_spec \<Rightarrow> policy_spec" where
  "NormalizePolicyEffects pol =
     (case ps_Effects pol of
        None \<Rightarrow> pol
      | Some e \<Rightarrow> pol\<lparr>ps_Effects := Some
          \<lparr>px_Permit = uniqueSortedEffects (px_Permit e),
           px_PermitWithApproval = uniqueSortedEffects (px_PermitWithApproval e)\<rparr>\<rparr>)"

subsection \<open>Tool safety\<close>

definition deriveRequiresApproval :: "bool \<Rightarrow> bool \<Rightarrow> bool" where
  "deriveRequiresApproval trusted sideEffects =
     (if trusted then False else if \<not> sideEffects then False else True)"

definition ResolveToolSafety :: "tool_safety option \<Rightarrow> resolved_tool_safety" where
  "ResolveToolSafety s =
     (let r = \<lparr>rs_Trusted = False, rs_SideEffects = True, rs_RequiresApproval = False\<rparr> in
      case s of
        None \<Rightarrow> r\<lparr>rs_RequiresApproval := deriveRequiresApproval (rs_Trusted r) (rs_SideEffects r)\<rparr>
      | Some f \<Rightarrow>
          let r1 = (case sf_Trusted f of None \<Rightarrow> r | Some b \<Rightarrow> r\<lparr>rs_Trusted := b\<rparr>);
              r2 = (case sf_SideEffects f of None \<Rightarrow> r1 | Some b \<Rightarrow> r1\<lparr>rs_SideEffects := b\<rparr>)
          in (case sf_RequiresApproval f of
                Some b \<Rightarrow> r2\<lparr>rs_RequiresApproval := b\<rparr>
              | None \<Rightarrow> r2\<lparr>rs_RequiresApproval :=
                  deriveRequiresApproval (rs_Trusted r2) (rs_SideEffects r2)\<rparr>))"

definition NormalizeToolSafety :: "tool_spec \<Rightarrow> tool_spec" where
  "NormalizeToolSafety sp =
     (let safety1 =
        (if toolDeclaresEffect sp EffectDestructive then
           (let f = (case ts_Safety sp of
                       None \<Rightarrow> \<lparr>sf_Trusted = None, sf_SideEffects = None, sf_RequiresApproval = None\<rparr>
                     | Some f \<Rightarrow> f)
            in Some (if sf_SideEffects f = None then f\<lparr>sf_SideEffects := Some True\<rparr> else f))
         else ts_Safety sp);
        resolved = ResolveToolSafety safety1
      in sp\<lparr>ts_Safety := Some
           \<lparr>sf_Trusted = Some (rs_Trusted resolved),
            sf_SideEffects = Some (rs_SideEffects resolved),
            sf_RequiresApproval = Some (rs_RequiresApproval resolved)\<rparr>\<rparr>)"

definition noFlags :: "tool_safety \<Rightarrow> bool" where
  "noFlags f = (sf_Trusted f = None \<and> sf_SideEffects f = None \<and> sf_RequiresApproval f = None)"

definition orElse :: "'a option \<Rightarrow> 'a option \<Rightarrow> 'a option" where
  "orElse a b = (case a of None \<Rightarrow> b | Some x \<Rightarrow> Some x)"

definition MergeToolSafety :: "tool_safety option \<Rightarrow> tool_safety option \<Rightarrow> tool_safety option" where
  "MergeToolSafety author mcp =
     (if author = None \<and> mcp = None then None
      else
        let z = \<lparr>sf_Trusted = None, sf_SideEffects = None, sf_RequiresApproval = None\<rparr>;
            base = (case mcp of None \<Rightarrow> z | Some m \<Rightarrow> m);
            out = (case author of
                     None \<Rightarrow> base
                   | Some a \<Rightarrow>
                       \<lparr>sf_Trusted = orElse (sf_Trusted a) (sf_Trusted base),
                        sf_SideEffects = orElse (sf_SideEffects a) (sf_SideEffects base),
                        sf_RequiresApproval = orElse (sf_RequiresApproval a) (sf_RequiresApproval base)\<rparr>)
        in if noFlags out then None else Some out)"

datatype safetyField = fieldTrusted | fieldSideEffects | fieldRequiresApproval

fun safetyFieldPtr :: "tool_safety \<Rightarrow> safetyField \<Rightarrow> bool option" where
  "safetyFieldPtr s fieldTrusted = sf_Trusted s"
| "safetyFieldPtr s fieldSideEffects = sf_SideEffects s"
| "safetyFieldPtr s fieldRequiresApproval = sf_RequiresApproval s"

fun restrictiveBool :: "bool \<Rightarrow> safetyField \<Rightarrow> bool" where
  "restrictiveBool v fieldTrusted = (\<not> v)"
| "restrictiveBool v _ = v"

fun restrictiveValue :: "safetyField \<Rightarrow> bool" where
  "restrictiveValue fieldTrusted = False"
| "restrictiveValue _ = True"

fun permissiveValue :: "safetyField \<Rightarrow> bool" where
  "permissiveValue fieldTrusted = True"
| "permissiveValue _ = False"

text \<open>The scan of \<open>mergeBoolFieldConservative\<close>, with the number of parts that set the field.\<close>

fun mergeBoolScan :: "safetyField \<Rightarrow> nat \<Rightarrow> nat \<Rightarrow> tool_safety list \<Rightarrow> bool option" where
  "mergeBoolScan field n setCount [] =
     (if setCount = 0 then None
      else if setCount = n then Some (permissiveValue field) else None)"
| "mergeBoolScan field n setCount (p # ps) =
     (case safetyFieldPtr p field of
        None \<Rightarrow> mergeBoolScan field n setCount ps
      | Some b \<Rightarrow>
          if restrictiveBool b field then Some (restrictiveValue field)
          else mergeBoolScan field n (Suc setCount) ps)"

definition mergeBoolFieldConservative :: "tool_safety list \<Rightarrow> safetyField \<Rightarrow> bool option" where
  "mergeBoolFieldConservative parts field = mergeBoolScan field (length parts) 0 parts"

definition MergeMCPToolSafetyFlags :: "tool_safety option list \<Rightarrow> tool_safety option" where
  "MergeMCPToolSafetyFlags flags =
     (let parts = List.map_filter (\<lambda>f. f) flags in
      if parts = [] then None
      else let out =
             \<lparr>sf_Trusted = mergeBoolFieldConservative parts fieldTrusted,
              sf_SideEffects = mergeBoolFieldConservative parts fieldSideEffects,
              sf_RequiresApproval = mergeBoolFieldConservative parts fieldRequiresApproval\<rparr>
           in if noFlags out then None else Some out)"

definition boolFromMeta :: "any option \<Rightarrow> bool option" where
  "boolFromMeta v = (case v of Some (ABool b) \<Rightarrow> Some b | _ \<Rightarrow> None)"

definition SafetyFromMCPMeta :: "any gomap option \<Rightarrow> tool_safety option" where
  "SafetyFromMCPMeta meta =
     (case meta of
        None \<Rightarrow> None
      | Some m \<Rightarrow>
          (case map_of m ''mcp_flags'' of
             Some (AObj flags) \<Rightarrow>
               (let s = \<lparr>sf_Trusted = boolFromMeta (map_of flags ''trusted''),
                         sf_SideEffects = boolFromMeta (map_of flags ''side_effects''),
                         sf_RequiresApproval = boolFromMeta (map_of flags ''requires_approval'')\<rparr>
                in if noFlags s then None else Some s)
           | _ \<Rightarrow> None))"

subsection \<open>Facts on effect sets\<close>

lemma set_uniqueSortedEffects: "set (uniqueSortedEffects xs) = TrimSpace ` set xs - {[]}"
  by (simp add: uniqueSortedEffects_def set_trimDedup)

lemma sorted_uniqueSortedEffects:
  "sorted (uniqueSortedEffects xs) \<and> distinct (uniqueSortedEffects xs)"
  by (simp add: uniqueSortedEffects_def distinct_trimDedup)

lemma uniqueSortedEffects_trimmed:
  "e \<in> set (uniqueSortedEffects xs) \<Longrightarrow> TrimSpace e = e \<and> e \<noteq> []"
  by (auto simp: set_uniqueSortedEffects)

text \<open>What a fold of \<open>put\<close> over trimmed keys returns: the last binding of the key.\<close>

lemma fold_put_lookup:
  "map_of (fold (\<lambda>(k, v) out. put (f k) (h v) out) xs acc) k =
     (case map_of (rev (map (\<lambda>(k, v). (f k, h v)) xs)) k of
        None \<Rightarrow> map_of acc k | Some v \<Rightarrow> Some v)"
proof (induction xs arbitrary: acc)
  case (Cons x xs)
  obtain a b where x: "x = (a, b)" by fastforce
  show ?case
    using Cons.IH [of "put (f a) (h b) acc"] by (auto simp: x map_add_def split: option.splits)
qed simp

lemma fold_put_lookupD:
  assumes "map_of (fold (\<lambda>(k, v) out. put (f k) (h v) out) xs []) k = Some w"
  shows "\<exists>k' v. (k', v) \<in> set xs \<and> f k' = k \<and> h v = w"
proof -
  from assms have "map_of (rev (map (\<lambda>(k, v). (f k, h v)) xs)) k = Some w"
    by (simp add: fold_put_lookup split: option.splits)
  then have "(k, w) \<in> set (rev (map (\<lambda>(k, v). (f k, h v)) xs))" by (rule map_of_SomeD)
  then show ?thesis by auto
qed

lemma fold_put_keys:
  "set (keys (fold (\<lambda>(k, v) out. put (f k) (h v) out) xs acc)) = f ` fst ` set xs \<union> set (keys acc)"
  by (induction xs arbitrary: acc) (auto simp: keys_put simp del: set_map)

lemma ResolveToolEffects_lookupD:
  assumes "\<not> re_Unknown (ResolveToolEffects n sp)"
    and "map_of (re_ByOperation (ResolveToolEffects n sp)) op = Some es"
  shows "\<exists>t k o'. sp = Some t \<and> (k, o') \<in> set (ts_Operations t) \<and> TrimSpace k = op
    \<and> es = uniqueSortedEffects (op_Effects o')"
proof -
  from assms(1) obtain t where t: "sp = Some t" and d: "toolHasDeclaredEffects sp"
    by (auto simp: ResolveToolEffects_def Let_def split: option.splits if_splits)
  with assms(2) have "map_of (fold (\<lambda>(op, opSpec) out.
      put (TrimSpace op) (uniqueSortedEffects (op_Effects opSpec)) out) (ts_Operations t) []) op = Some es"
    by (simp add: ResolveToolEffects_def Let_def)
  from fold_put_lookupD [where f = TrimSpace and h = "\<lambda>o'. uniqueSortedEffects (op_Effects o')", OF this]
  show ?thesis using t by auto
qed

lemma ResolveOperationEffects_known:
  assumes "\<not> ro_Unknown (ResolveOperationEffects n op sp)"
  shows "ro_Effects (ResolveOperationEffects n op sp) \<noteq> []"
    and "\<exists>t k o'. sp = Some t \<and> (k, o') \<in> set (ts_Operations t) \<and> TrimSpace k = TrimSpace op
      \<and> ro_Effects (ResolveOperationEffects n op sp) = uniqueSortedEffects (op_Effects o')"
proof -
  let ?te = "ResolveToolEffects n sp"
  from assms obtain es where u: "\<not> re_Unknown ?te"
    and m: "map_of (re_ByOperation ?te) (TrimSpace op) = Some es" and e: "es \<noteq> []"
    by (auto simp: ResolveOperationEffects_def Let_def split: if_splits option.splits)
  then have eq: "ro_Effects (ResolveOperationEffects n op sp) = es"
    by (simp add: ResolveOperationEffects_def Let_def)
  show "ro_Effects (ResolveOperationEffects n op sp) \<noteq> []" using eq e by simp
  show "\<exists>t k o'. sp = Some t \<and> (k, o') \<in> set (ts_Operations t) \<and> TrimSpace k = TrimSpace op
      \<and> ro_Effects (ResolveOperationEffects n op sp) = uniqueSortedEffects (op_Effects o')"
    using ResolveToolEffects_lookupD [OF u m] eq by blast
qed

lemma ResolveOperationEffects_trimmed:
  "e \<in> set (ro_Effects (ResolveOperationEffects n op sp)) \<Longrightarrow> TrimSpace e = e \<and> e \<noteq> []"
proof -
  assume e: "e \<in> set (ro_Effects (ResolveOperationEffects n op sp))"
  then have "\<not> ro_Unknown (ResolveOperationEffects n op sp)"
    by (auto simp: ResolveOperationEffects_def Let_def split: if_splits option.splits)
  from ResolveOperationEffects_known(2) [OF this] e show ?thesis
    by (metis uniqueSortedEffects_trimmed)
qed

lemma EffectCovers_refl: "TrimSpace e \<noteq> [] \<Longrightarrow> EffectCovers e e"
  by (simp add: EffectCovers_def)

lemma EffectCovers_trans:
  "EffectCovers a b \<Longrightarrow> EffectCovers b c \<Longrightarrow> EffectCovers a c"
  by (auto simp: EffectCovers_def Let_def prefix_def split: if_splits) metis

subsection \<open>Facts on safety\<close>

lemma ResolveToolSafety_requires:
  "rs_RequiresApproval (ResolveToolSafety (Some f)) \<longleftrightarrow>
     (case sf_RequiresApproval f of
        Some b \<Rightarrow> b
      | None \<Rightarrow> sf_Trusted f \<noteq> Some True \<and> sf_SideEffects f \<noteq> Some False)"
  by (auto simp: ResolveToolSafety_def Let_def deriveRequiresApproval_def split: option.splits)

lemma ResolveToolSafety_dimensions:
  "rs_Trusted (ResolveToolSafety (Some f)) \<longleftrightarrow> sf_Trusted f = Some True"
  "rs_SideEffects (ResolveToolSafety (Some f)) \<longleftrightarrow> sf_SideEffects f \<noteq> Some False"
  by (auto simp: ResolveToolSafety_def Let_def split: option.splits)

lemma ResolveToolSafety_None:
  "ResolveToolSafety None = \<lparr>rs_Trusted = False, rs_SideEffects = True, rs_RequiresApproval = True\<rparr>"
  by (simp add: ResolveToolSafety_def deriveRequiresApproval_def)

lemma mergeBoolScan_restrictive:
  "p \<in> set ps \<Longrightarrow> safetyFieldPtr p field = Some b \<Longrightarrow> restrictiveBool b field \<Longrightarrow>
     mergeBoolScan field n k ps = Some (restrictiveValue field)"
  by (induction ps arbitrary: k) (auto split: option.splits)

lemma mergeBoolScan_unset:
  "p \<in> set ps \<Longrightarrow> safetyFieldPtr p field = None \<Longrightarrow> n = k + length ps \<Longrightarrow>
     mergeBoolScan field n k ps \<in> {None, Some (restrictiveValue field)}"
proof (induction ps arbitrary: n k p)
  case (Cons q qs)
  have short: "mergeBoolScan field n j qs \<in> {None, Some (restrictiveValue field)}"
    if "j + length qs < n" for j
    using that
  proof (induction qs arbitrary: j)
    case (Cons r rs)
    then show ?case by (auto split: option.splits)
  qed simp
  show ?case
  proof (cases "safetyFieldPtr q field")
    case None
    with Cons.prems short [of k] show ?thesis by simp
  next
    case (Some b)
    with Cons.prems have "p \<in> set qs" by auto
    with Some Cons.IH [of p n "Suc k"] Cons.prems show ?thesis by simp
  qed
qed simp

subsection \<open>Properties\<close>

text \<open>
  Effect coverage is transitive: a permit of a namespace covers whatever any of its
  members covers, so nesting permits never widens them.
\<close>

theorem effect_covers_transitive:
  "EffectCovers a b \<Longrightarrow> EffectCovers b c \<Longrightarrow> EffectCovers a c"
  by (rule EffectCovers_trans)

theorem effect_covers_transitive_witness:
  "EffectCovers ''repo'' ''repo.write.force''"
proof (rule effect_covers_transitive)
  show "EffectCovers ''repo'' ''repo.write''" by code_simp
  show "EffectCovers ''repo.write'' ''repo.write.force''" by code_simp
qed

text \<open>
  The effects of an operation are either unknown or a non-empty, sorted, duplicate-free
  list of trimmed identifiers that the tool declares for that operation: an operation
  without a declaration is never taken for one without effects.
\<close>

theorem operation_effects_declared_or_unknown:
  "ro_Unknown (ResolveOperationEffects n op sp) \<or>
     (let es = ro_Effects (ResolveOperationEffects n op sp)
      in es \<noteq> [] \<and> sorted es \<and> distinct es \<and> (\<exists>t k o'. sp = Some t \<and> (k, o') \<in> set (ts_Operations t)
           \<and> TrimSpace k = TrimSpace op \<and> set es = TrimSpace ` set (op_Effects o') - {[]}))"
proof (rule disjCI)
  assume "\<not> (let es = ro_Effects (ResolveOperationEffects n op sp)
      in es \<noteq> [] \<and> sorted es \<and> distinct es \<and> (\<exists>t k o'. sp = Some t \<and> (k, o') \<in> set (ts_Operations t)
           \<and> TrimSpace k = TrimSpace op \<and> set es = TrimSpace ` set (op_Effects o') - {[]}))"
  then show "ro_Unknown (ResolveOperationEffects n op sp)"
    using ResolveOperationEffects_known [of n op sp] sorted_uniqueSortedEffects set_uniqueSortedEffects
    unfolding Let_def by metis
qed

text \<open>
  C37. Merging the safety flags of the MCP descriptors of one server is conservative in every
  dimension: if one of the descriptors that carry flags resolves to \<open>untrusted\<close>, to \<open>side effects\<close> or to
  \<open>requires approval\<close>, so does the merged declaration; and if no descriptor carries flags, the merged
  declaration resolves to all three. Descriptors without flags are skipped next to ones with flags.
\<close>

theorem mcp_merge_conservative:
  "(\<forall>p. Some p \<in> set flags \<longrightarrow>
      (\<not> rs_Trusted (ResolveToolSafety (Some p)) \<longrightarrow> \<not> rs_Trusted (ResolveToolSafety (MergeMCPToolSafetyFlags flags))) \<and>
      (rs_SideEffects (ResolveToolSafety (Some p)) \<longrightarrow> rs_SideEffects (ResolveToolSafety (MergeMCPToolSafetyFlags flags))) \<and>
      (rs_RequiresApproval (ResolveToolSafety (Some p)) \<longrightarrow>
         rs_RequiresApproval (ResolveToolSafety (MergeMCPToolSafetyFlags flags)))) \<and>
   ((\<forall>f \<in> set flags. f = None) \<longrightarrow>
      ResolveToolSafety (MergeMCPToolSafetyFlags flags) =
        \<lparr>rs_Trusted = False, rs_SideEffects = True, rs_RequiresApproval = True\<rparr>)"
proof (intro conjI allI impI)
  fix p assume mem: "Some p \<in> set flags"
  define parts where "parts = List.map_filter (\<lambda>f. f) flags"
  have p: "p \<in> set parts" using mem by (force simp: parts_def List.map_filter_def)
  let ?m = "mergeBoolFieldConservative parts"
  let ?out = "\<lparr>sf_Trusted = ?m fieldTrusted, sf_SideEffects = ?m fieldSideEffects,
      sf_RequiresApproval = ?m fieldRequiresApproval\<rparr>"
  have merge: "MergeMCPToolSafetyFlags flags = (if noFlags ?out then None else Some ?out)"
    using p by (auto simp: MergeMCPToolSafetyFlags_def Let_def parts_def [symmetric])
  note open_merge = merge ResolveToolSafety_None ResolveToolSafety_dimensions ResolveToolSafety_requires
  have restrictive: "?m f = Some (restrictiveValue f)"
    if "safetyFieldPtr p f = Some b" "restrictiveBool b f" for f b
    unfolding mergeBoolFieldConservative_def by (rule mergeBoolScan_restrictive [OF p that])
  have unset: "?m f \<in> {None, Some (restrictiveValue f)}" if "safetyFieldPtr p f = None" for f
    unfolding mergeBoolFieldConservative_def by (rule mergeBoolScan_unset [OF p that]) simp
  have trusted: "?m fieldTrusted \<noteq> Some True" if "sf_Trusted p \<noteq> Some True"
    using that restrictive [of fieldTrusted False] unset [of fieldTrusted] by (cases "sf_Trusted p") auto
  have effects: "?m fieldSideEffects \<noteq> Some False" if "sf_SideEffects p \<noteq> Some False"
    using that restrictive [of fieldSideEffects True] unset [of fieldSideEffects] by (cases "sf_SideEffects p") auto
  show "\<not> rs_Trusted (ResolveToolSafety (MergeMCPToolSafetyFlags flags))" if "\<not> rs_Trusted (ResolveToolSafety (Some p))"
    using that trusted by (simp add: open_merge)
  show "rs_SideEffects (ResolveToolSafety (MergeMCPToolSafetyFlags flags))" if "rs_SideEffects (ResolveToolSafety (Some p))"
    using that effects by (simp add: open_merge)
  show "rs_RequiresApproval (ResolveToolSafety (MergeMCPToolSafetyFlags flags))"
    if req: "rs_RequiresApproval (ResolveToolSafety (Some p))"
  proof (cases "sf_RequiresApproval p")
    case (Some b)
    then have "?m fieldRequiresApproval = Some True"
      using req restrictive [of fieldRequiresApproval b] by (auto simp: ResolveToolSafety_requires)
    then show ?thesis by (simp add: open_merge)
  next
    case None
    then have "sf_Trusted p \<noteq> Some True" "sf_SideEffects p \<noteq> Some False"
      using req by (simp_all add: ResolveToolSafety_requires)
    then show ?thesis using None trusted effects unset [of fieldRequiresApproval]
      by (cases "?m fieldRequiresApproval") (auto simp: open_merge)
  qed
next
  assume "\<forall>f \<in> set flags. f = None"
  then have "List.map_filter (\<lambda>f. f) flags = []" by (induction flags) (simp_all add: map_filter_simps)
  then show "ResolveToolSafety (MergeMCPToolSafetyFlags flags) =
      \<lparr>rs_Trusted = False, rs_SideEffects = True, rs_RequiresApproval = True\<rparr>"
    by (simp add: MergeMCPToolSafetyFlags_def ResolveToolSafety_None)
qed

theorem mcp_merge_conservative_witness:
  "rs_RequiresApproval (ResolveToolSafety (MergeMCPToolSafetyFlags
     [Some \<lparr>sf_Trusted = Some True, sf_SideEffects = Some False, sf_RequiresApproval = Some False\<rparr>,
      Some \<lparr>sf_Trusted = None, sf_SideEffects = Some True, sf_RequiresApproval = None\<rparr>])) \<and>
   ResolveToolSafety (MergeMCPToolSafetyFlags [None, None]) =
     \<lparr>rs_Trusted = False, rs_SideEffects = True, rs_RequiresApproval = True\<rparr>"
proof
  let ?p = "\<lparr>sf_Trusted = None, sf_SideEffects = Some True, sf_RequiresApproval = None\<rparr>"
  let ?fs = "[Some \<lparr>sf_Trusted = Some True, sf_SideEffects = Some False, sf_RequiresApproval = Some False\<rparr>, Some ?p]"
  have "Some ?p \<in> set ?fs" "rs_RequiresApproval (ResolveToolSafety (Some ?p))"
    by (simp_all add: ResolveToolSafety_requires)
  then show "rs_RequiresApproval (ResolveToolSafety (MergeMCPToolSafetyFlags ?fs))"
    using mcp_merge_conservative [of ?fs] by blast
  show "ResolveToolSafety (MergeMCPToolSafetyFlags [None, None]) =
     \<lparr>rs_Trusted = False, rs_SideEffects = True, rs_RequiresApproval = True\<rparr>"
    using mcp_merge_conservative [of "[None, None]"] by simp
qed

text \<open>
  A descriptor without recognized flags fails closed when it is alone; next to a descriptor with
  permissive flags it is dropped, and the server as a whole needs no approval.
\<close>

lemma mcp_merge_drops_unflagged:
  "rs_RequiresApproval (ResolveToolSafety (MergeMCPToolSafetyFlags [None]))"
  "\<not> rs_RequiresApproval (ResolveToolSafety (MergeMCPToolSafetyFlags
     [None, Some \<lparr>sf_Trusted = Some True, sf_SideEffects = None, sf_RequiresApproval = None\<rparr>]))"
  by code_simp+

end
