(* ===== verification/Tool_Uses.thy ===== *)
theory Tool_Uses
  imports Spec_Types
begin

text \<open>
  Tool identities: \<open>tools.ParseUses\<close> (\<open>internal/tools/registry.go\<close>), which splits
  \<open>tool.<name>.<operation>\<close>, and the operations an agent's grant list advertises
  (\<open>internal/spec/agent_tools.go\<close>).
\<close>

subsection \<open>ParseUses\<close>

datatype uses_error = UsesPrefixMissing string | UsesMalformed string

definition ParseUses :: "string \<Rightarrow> (uses_error, string \<times> string) result" where
  "ParseUses uses0 =
     (let uses = TrimSpace uses0 in
      if \<not> prefix ''tool.'' uses then Inl (UsesPrefixMissing uses)
      else let rest = TrimPrefix uses ''tool.'' in
        case IndexByte rest CHR ''.'' of
          None \<Rightarrow> Inl (UsesMalformed uses)
        | Some i \<Rightarrow>
            if i = 0 \<or> length rest \<le> Suc i then Inl (UsesMalformed uses)
            else let toolName = take i rest; operation = drop (Suc i) rest in
              if TrimSpace toolName = [] \<or> TrimSpace operation = []
              then Inl (UsesMalformed uses)
              else Inr (toolName, operation))"

definition usesOf :: "string \<Rightarrow> string \<Rightarrow> string" where
  "usesOf tool op = ''tool.'' @ tool @ ''.'' @ op"

lemma ParseUses_InrD:
  assumes "ParseUses u = Inr (t, p)"
  shows "TrimSpace u = usesOf t p" "CHR ''.'' \<notin> set t" "t \<noteq> []" "p \<noteq> []"
    "TrimSpace t \<noteq> []" "TrimSpace p \<noteq> []"
proof -
  let ?u = "TrimSpace u"
  let ?r = "TrimPrefix ?u ''tool.''"
  from assms have pre: "prefix ''tool.'' ?u"
    by (auto simp: ParseUses_def Let_def split: if_splits)
  then obtain i where i: "IndexByte ?r CHR ''.'' = Some i"
    using assms by (auto simp: ParseUses_def Let_def split: option.splits)
  have tp: "t = take i ?r" "p = drop (Suc i) ?r" "i \<noteq> 0" "Suc i < length ?r"
    "TrimSpace t \<noteq> []" "TrimSpace p \<noteq> []"
    using assms pre i by (auto simp: ParseUses_def Let_def split: if_splits)
  have "?u = ''tool.'' @ ?r"
    using pre by (auto simp: TrimPrefix_def prefix_def)
  also have "?r = t @ CHR ''.'' # p"
    using IndexByte_split [OF i] tp by simp
  finally show "?u = usesOf t p" by (simp add: usesOf_def)
  show "CHR ''.'' \<notin> set t" using IndexByte_Some [OF i] tp by simp
  show "t \<noteq> []" "p \<noteq> []" "TrimSpace t \<noteq> []" "TrimSpace p \<noteq> []"
    using tp by auto
qed

lemma ParseUses_TrimSpace [simp]: "ParseUses (TrimSpace u) = ParseUses u"
  by (simp add: ParseUses_def)

text \<open>The spelling \<open>tool.<name>.<operation>\<close> parses back to its parts.\<close>

lemma ParseUses_usesOf:
  assumes "trimmed (usesOf t p)" "CHR ''.'' \<notin> set t" "TrimSpace t \<noteq> []" "TrimSpace p \<noteq> []"
  shows "ParseUses (usesOf t p) = Inr (t, p)"
proof -
  have ne: "t \<noteq> []" "p \<noteq> []" using assms(3,4) by auto
  have "TrimSpace (usesOf t p) = usesOf t p" using assms(1) by (rule TrimSpace_trimmed)
  moreover have "prefix ''tool.'' (usesOf t p)" by (simp add: usesOf_def)
  moreover have "TrimPrefix (usesOf t p) ''tool.'' = t @ CHR ''.'' # p"
    by (simp add: usesOf_def TrimPrefix_def)
  ultimately show ?thesis
    using ne assms(2-4) by (simp add: ParseUses_def IndexByte_append)
qed

subsection \<open>Advertised agent tools\<close>

datatype agent_tool_error =
    GraphHasNoTools
  | InvalidToolEntry string
  | UnknownAgentTool string
  | HttpNeedsMethodPath string
  | ProviderNameCollision string string string

definition parseAgentToolEntry :: "string \<Rightarrow> (agent_tool_error, string \<times> string) result" where
  "parseAgentToolEntry entry0 =
     (let entry = TrimSpace entry0 in
      if prefix ''tool.'' entry then
        let rest = TrimPrefix entry ''tool.'' in
        if rest = [] then Inl (InvalidToolEntry entry)
        else case IndexByte rest CHR ''.'' of
            None \<Rightarrow> Inr (rest, [])
          | Some i \<Rightarrow>
              let name = take i rest; op = drop (Suc i) rest in
              if name = [] \<or> TrimSpace op = [] then Inl (InvalidToolEntry entry)
              else Inr (name, ''tool.'' @ name @ ''.'' @ op)
      else Inr (entry, []))"

definition advertisedAgentOperation ::
  "string \<Rightarrow> tool_resource option \<Rightarrow> (agent_tool_error, string) result" where
  "advertisedAgentOperation toolName tr =
     (case tr of
        None \<Rightarrow> Inr ''default''
      | Some t \<Rightarrow>
          let ty = ToLower (TrimSpace (ts_Type (tr_Spec t))) in
          if ty = ''native'' then Inr ''echo''
          else if ty = ''http'' then Inl (HttpNeedsMethodPath toolName)
          else Inr ''default'')"

definition advertisedAgentUses ::
  "string \<Rightarrow> tool_resource option \<Rightarrow> (agent_tool_error, string) result" where
  "advertisedAgentUses toolName tr =
     (case advertisedAgentOperation toolName tr of
        Inl e \<Rightarrow> Inl e
      | Inr op \<Rightarrow> Inr (''tool.'' @ toolName @ ''.'' @ op))"

definition operationFromUses :: "string \<Rightarrow> string \<Rightarrow> string" where
  "operationFromUses toolName uses =
     (let pre = ''tool.'' @ toolName @ ''.'' in
      if prefix pre uses then drop (length pre) uses else [])"

text \<open>\<open>strings.EqualFold\<close> against \<open>default\<close>, whose letters have no non-ASCII case variants.\<close>

definition httpOperationIsMethodPath :: "string \<Rightarrow> bool" where
  "httpOperationIsMethodPath op0 =
     (let op = TrimSpace op0 in
      if op = [] \<or> map lowerByte op = ''default'' then False
      else let verb = (case IndexByte op CHR ''.'' of None \<Rightarrow> op | Some i \<Rightarrow> take i op) in
        ToLower verb \<in> set [''get'', ''post'', ''put'', ''delete'', ''patch''])"

definition validatePinnedAgentUses ::
  "string \<Rightarrow> string \<Rightarrow> tool_resource option \<Rightarrow> agent_tool_error option" where
  "validatePinnedAgentUses toolName uses tr =
     (case tr of
        None \<Rightarrow> None
      | Some t \<Rightarrow>
          if ToLower (TrimSpace (ts_Type (tr_Spec t))) \<noteq> ''http'' then None
          else if \<not> httpOperationIsMethodPath (operationFromUses toolName uses)
          then Some (HttpNeedsMethodPath toolName) else None)"

text \<open>
  The first loop of \<open>ResolveAgentAdvertisedTools\<close>: the distinct \<open>(tool name, uses)\<close> entries
  in listing order, or the first error.
\<close>

definition resolveAgentEntry ::
  "tool_resource option gomap \<Rightarrow> string \<Rightarrow> (agent_tool_error, string \<times> string) result" where
  "resolveAgentEntry tools entry =
     (case parseAgentToolEntry entry of
        Inl e \<Rightarrow> Inl e
      | Inr (name, pinned) \<Rightarrow>
          (case deref tools name of
             None \<Rightarrow> Inl (UnknownAgentTool name)
           | Some tr \<Rightarrow>
               if pinned = [] then
                 (case advertisedAgentUses name (Some tr) of
                    Inl e \<Rightarrow> Inl e | Inr uses \<Rightarrow> Inr (name, uses))
               else (case validatePinnedAgentUses name pinned (Some tr) of
                       Some e \<Rightarrow> Inl e | None \<Rightarrow> Inr (name, pinned))))"

fun resolveAgentEntries ::
  "tool_resource option gomap \<Rightarrow> string list \<Rightarrow> string list \<Rightarrow>
     (agent_tool_error, (string \<times> string) list) result" where
  "resolveAgentEntries tools seenUses [] = Inr []"
| "resolveAgentEntries tools seenUses (raw # raws) =
     (let entry = TrimSpace raw in
      if entry = [] then resolveAgentEntries tools seenUses raws
      else case resolveAgentEntry tools entry of
          Inl e \<Rightarrow> Inl e
        | Inr (name, uses) \<Rightarrow>
            if uses \<in> set seenUses then resolveAgentEntries tools seenUses raws
            else (case resolveAgentEntries tools (uses # seenUses) raws of
                    Inl e \<Rightarrow> Inl e
                  | Inr es \<Rightarrow> Inr ((name, uses) # es)))"

function agentToolRunes :: "string \<Rightarrow> string" where
  "agentToolRunes [] = []"
| "agentToolRunes (c # cs) =
     (case runeSize (c # cs) of
        None \<Rightarrow> CHR ''_'' # agentToolRunes cs
      | Some n \<Rightarrow>
          (if between 0x61 0x7A c \<or> between 0x41 0x5A c \<or> between 0x30 0x39 c
              \<or> c = CHR ''_'' \<or> c = CHR ''-''
           then c else CHR ''_'') # agentToolRunes (drop n (c # cs)))"
  by pat_completeness auto
termination
  by (relation "measure length") (use runeSize_pos in \<open>fastforce+\<close>)

definition AgentToolName :: "string \<Rightarrow> string" where
  "AgentToolName name =
     (let s = agentToolRunes name;
          s' = (if s = [] then ''tool'' else s)
      in if 128 < length s' then take 128 s' else s')"

text \<open>The second loop: provider names, refusing two entries with one name.\<close>

fun advertiseEntries ::
  "(string \<times> string) list \<Rightarrow> string gomap \<Rightarrow> (string \<times> string) list \<Rightarrow>
     (agent_tool_error, (string \<times> string) list) result" where
  "advertiseEntries allEntries seenName [] = Inr []"
| "advertiseEntries allEntries seenName ((toolName, uses) # es) =
     (let defName = AgentToolName
            (if 1 < length (filter (\<lambda>e. fst e = toolName) allEntries)
             then toolName @ ''.'' @ operationFromUses toolName uses else toolName) in
      case map_of seenName defName of
        Some prev \<Rightarrow> Inl (ProviderNameCollision defName prev uses)
      | None \<Rightarrow>
          (case advertiseEntries allEntries (put defName uses seenName) es of
             Inl e \<Rightarrow> Inl e
           | Inr out \<Rightarrow> Inr ((defName, uses) # out)))"

definition ResolveAgentAdvertisedTools ::
  "agent_resource option \<Rightarrow> tool_resource option gomap option \<Rightarrow>
     (agent_tool_error, (string \<times> string) list) result" where
  "ResolveAgentAdvertisedTools agent tools =
     (case agent of
        None \<Rightarrow> Inr []
      | Some a \<Rightarrow>
          if as_Tools (ar_Spec a) = [] then Inr []
          else case tools of
              None \<Rightarrow> Inl GraphHasNoTools
            | Some m \<Rightarrow>
                (case resolveAgentEntries m [] (as_Tools (ar_Spec a)) of
                   Inl e \<Rightarrow> Inl e
                 | Inr entries \<Rightarrow> advertiseEntries entries [] entries))"

subsection \<open>What a resolved grant list advertises\<close>

lemma resolveAgentEntries_distinct:
  "resolveAgentEntries tools seen raws = Inr es \<Longrightarrow>
     distinct (map snd es) \<and> set (map snd es) \<inter> set seen = {}"
proof (induction tools seen raws arbitrary: es rule: resolveAgentEntries.induct)
  case (2 tools seen raw raws)
  then show ?case
    by (fastforce simp: Let_def split: if_splits sum.splits prod.splits)
qed simp

lemma advertiseEntries_uses:
  "advertiseEntries allE seen es = Inr out \<Longrightarrow> map snd out = map snd es"
  by (induction allE seen es arbitrary: out rule: advertiseEntries.induct)
    (auto simp: Let_def split: option.splits sum.splits)

lemma advertiseEntries_names:
  "advertiseEntries allE seen es = Inr out \<Longrightarrow>
     distinct (map fst out) \<and> set (map fst out) \<inter> set (keys seen) = {}"
proof (induction allE seen es arbitrary: out rule: advertiseEntries.induct)
  case (2 allE seen toolName uses es)
  let ?n = "AgentToolName (if 1 < length (filter (\<lambda>e. fst e = toolName) allE)
     then toolName @ ''.'' @ operationFromUses toolName uses else toolName)"
  from "2.prems" obtain out' where new: "map_of seen ?n = None"
    and out': "advertiseEntries allE (put ?n uses seen) es = Inr out'"
    and out: "out = (?n, uses) # out'"
    by (auto simp: Let_def split: option.splits sum.splits)
  have "distinct (map fst out') \<and> set (map fst out') \<inter> set (keys (put ?n uses seen)) = {}"
    using "2.IH" [OF refl new out'] .
  moreover have "?n \<notin> set (keys seen)" using new by (simp add: map_of_eq_None_iff)
  ultimately show ?case using out by (auto simp: keys_put simp del: set_map)
qed simp

lemma resolveAgentEntries_shape:
  "resolveAgentEntries tools seen raws = Inr es \<Longrightarrow> (n, u) \<in> set es \<Longrightarrow>
     \<exists>raw \<in> set raws. resolveAgentEntry tools (TrimSpace raw) = Inr (n, u)"
proof (induction tools seen raws arbitrary: es rule: resolveAgentEntries.induct)
  case (2 tools seen raw raws)
  then show ?case
    by (fastforce simp: Let_def split: if_splits sum.splits prod.splits)
qed simp

subsection \<open>Properties\<close>

text \<open>
  \<open>ParseUses\<close> accepts exactly the strings that, once trimmed, spell
  \<open>tool.<name>.<operation>\<close> with a name free of dots and neither part blank, and it returns
  these two parts: parsing and printing are inverse.
\<close>

theorem parse_uses_exact:
  "ParseUses u = Inr (t, p) \<longleftrightarrow>
     TrimSpace u = usesOf t p \<and> CHR ''.'' \<notin> set t \<and> TrimSpace t \<noteq> [] \<and> TrimSpace p \<noteq> []"
  using ParseUses_InrD [of u t p] ParseUses_usesOf [of t p] ParseUses_TrimSpace [of u]
    trimmed_TrimSpace [of u]
  by metis

text \<open>
  C38. When an agent's grant list resolves, the advertised functions have pairwise different
  provider names and pairwise different operations, and every operation comes from an entry
  of the list that names a tool of the graph.
\<close>

theorem advertised_tools_unambiguous:
  assumes "ResolveAgentAdvertisedTools (Some a) (Some m) = Inr out"
  shows "distinct (map fst out) \<and> distinct (map snd out) \<and>
    (\<forall>u \<in> set (map snd out). \<exists>raw \<in> set (as_Tools (ar_Spec a)). \<exists>n.
       resolveAgentEntry m (TrimSpace raw) = Inr (n, u))"
proof (cases "as_Tools (ar_Spec a) = []")
  case True
  with assms show ?thesis by (simp add: ResolveAgentAdvertisedTools_def)
next
  case False
  with assms obtain es where es: "resolveAgentEntries m [] (as_Tools (ar_Spec a)) = Inr es"
    "advertiseEntries es [] es = Inr out"
    by (auto simp: ResolveAgentAdvertisedTools_def split: sum.splits)
  note u = advertiseEntries_uses [OF es(2)]
  have "\<exists>raw \<in> set (as_Tools (ar_Spec a)). \<exists>n. resolveAgentEntry m (TrimSpace raw) = Inr (n, x)"
    if "x \<in> set (map snd out)" for x
  proof -
    from that u obtain n where "(n, x) \<in> set es" by auto
    with resolveAgentEntries_shape [OF es(1)] show ?thesis by blast
  qed
  then show ?thesis
    using advertiseEntries_names [OF es(2)] resolveAgentEntries_distinct [OF es(1)] u by auto
qed

definition demo_tools :: "tool_resource option gomap" where
  "demo_tools = [(''fs'', Some \<lparr>tr_Name = ''fs'', tr_Spec = \<lparr>ts_Type = ''mcp'', ts_Safety = None,
     ts_Operations = [], ts_OperationsDeclared = False\<rparr>\<rparr>)]"

definition demo_agent :: agent_resource where
  "demo_agent = \<lparr>ar_Name = ''writer'', ar_Spec = \<lparr>as_Model = [], as_Tools = [''tool.fs.read'', ''tool.fs.write''],
     as_Policy = [], as_Constraints = None\<rparr>\<rparr>"

theorem advertised_tools_unambiguous_witness:
  "distinct (map fst [(''fs_read'', ''tool.fs.read''), (''fs_write'', ''tool.fs.write'')])"
proof -
  have "ResolveAgentAdvertisedTools (Some demo_agent) (Some demo_tools) =
      Inr [(''fs_read'', ''tool.fs.read''), (''fs_write'', ''tool.fs.write'')]"
    by code_simp
  from advertised_tools_unambiguous [OF this] show ?thesis by blast
qed

end
