(* ===== verification/Effect_Walk.thy ===== *)
theory Effect_Walk
  imports Spec_Effects Tool_Uses
begin

text \<open>
  The static effect analysis of \<open>internal/effects\<close> (\<open>types.go\<close>, \<open>compute.go\<close>), first half: the
  data of a bound and the depth-first walk of a workflow's steps, agents and subworkflows. The
  specification is reachability in the project graph, an inductive relation that knows nothing
  of the walk; the walk is shown to terminate and to collect exactly the reachable grants.
\<close>

subsection \<open>Data\<close>

datatype reachability = Static | Autonomous

datatype hop_kind = KindWorkflow | KindStep | KindAgent | KindToolOperation

record hop =
  h_Kind :: hop_kind
  h_Name :: string
  h_ID :: string
  h_Reachability :: reachability

record grant =
  gr_tool :: string
  gr_op :: string
  gr_uses :: string
  gr_unknown :: bool

record reached_op =
  rx_grant :: grant
  rx_witness :: "hop list"

record effect_occurrence =
  oc_uses :: string
  oc_witness :: "hop list"

record effect_entry =
  fx_Ident :: string
  fx_Unknown :: bool
  fx_Message :: "effect_message option"
  fx_Uses :: string
  fx_Witness :: "hop list"
  fx_occurrences :: "effect_occurrence list"

record unreachable_entry =
  un_Ident :: string
  un_Unknown :: bool
  un_Tool :: string
  un_Operation :: string
  un_Uses :: string

record bound =
  b_RootKind :: hop_kind
  b_RootName :: string
  b_Effects :: "effect_entry list"
  b_Unreachable :: "unreachable_entry list"

record graph_bounds =
  gb_Agents :: "bound gomap"
  gb_Workflows :: "bound gomap"

text \<open>
  The mutable part of \<open>walker\<close>. Its \<open>stack\<close> is emptied again by the \<open>defer\<close> of every call, so
  it is an argument of the functions below, extended for the calls made inside.
\<close>

record walk_state =
  wk_seen :: "string list"
  wk_reached :: "reached_op list"

definition mkHop :: "hop_kind \<Rightarrow> string \<Rightarrow> reachability \<Rightarrow> hop" where
  "mkHop k n r = \<lparr>h_Kind = k, h_Name = n, h_ID = [], h_Reachability = r\<rparr>"

definition appendHop :: "hop list \<Rightarrow> hop \<Rightarrow> hop list" where
  "appendHop pre h = pre @ [h]"

definition pathReachability :: "hop list \<Rightarrow> reachability" where
  "pathReachability hops =
     (if list_ex (\<lambda>h. h_Reachability h = Autonomous) hops then Autonomous else Static)"

subsection \<open>Grants\<close>

definition unknownGrant :: "string \<Rightarrow> grant" where
  "unknownGrant uses = \<lparr>gr_tool = [], gr_op = [], gr_uses = uses, gr_unknown = True\<rparr>"

definition parseGrant :: "string \<Rightarrow> grant" where
  "parseGrant uses =
     (case ParseUses uses of
        Inl _ \<Rightarrow> unknownGrant uses
      | Inr (tn, op) \<Rightarrow> \<lparr>gr_tool = tn, gr_op = op, gr_uses = uses, gr_unknown = False\<rparr>)"

definition advertisedGrants :: "project_graph \<Rightarrow> agent_resource \<Rightarrow> grant list" where
  "advertisedGrants g agent =
     (case ResolveAgentAdvertisedTools (Some agent) (g_Tools g) of
        Inr listed \<Rightarrow> map (\<lambda>(_, uses). parseGrant uses) listed
      | Inl _ \<Rightarrow>
          (let out = map parseGrant (filter (\<lambda>raw. raw \<noteq> []) (map TrimSpace (as_Tools (ar_Spec agent))))
           in if out = [] then [unknownGrant (ar_Name agent)] else out))"

definition addReached :: "hop list \<Rightarrow> grant \<Rightarrow> reachability \<Rightarrow> walk_state \<Rightarrow> walk_state" where
  "addReached pre gr reach w =
     (let name = (if gr_uses gr = [] then gr_tool gr else gr_uses gr)
      in w\<lparr>wk_reached := wk_reached w @
            [\<lparr>rx_grant = gr, rx_witness = appendHop pre (mkHop KindToolOperation name reach)\<rparr>]\<rparr>)"

subsection \<open>The walk\<close>

definition agentKey :: "string \<Rightarrow> string" where
  "agentKey name = ''agent:'' @ name"

definition workflowKey :: "string \<Rightarrow> string" where
  "workflowKey name = ''workflow:'' @ name"

lemma keys_inject [simp]:
  "agentKey a = agentKey b \<longleftrightarrow> a = b" "workflowKey a = workflowKey b \<longleftrightarrow> a = b"
  "agentKey a \<noteq> workflowKey b" "workflowKey b \<noteq> agentKey a"
  by (simp_all add: agentKey_def workflowKey_def)

definition walkAgent ::
  "project_graph \<Rightarrow> string list \<Rightarrow> string \<Rightarrow> hop list \<Rightarrow> walk_state \<Rightarrow> walk_state" where
  "walkAgent g stack name pre w =
     (if agentKey name \<in> set stack then w
      else if agentKey name \<in> set (wk_seen w) then w
      else
        let w' = (case deref (g_Agents g) name of
                    None \<Rightarrow> addReached pre (unknownGrant name) Autonomous w
                  | Some agent \<Rightarrow>
                      fold (\<lambda>gr. addReached pre gr Autonomous) (advertisedGrants g agent) w)
        in w'\<lparr>wk_seen := agentKey name # wk_seen w'\<rparr>)"

text \<open>The part of \<open>walkStep\<close> before the call of another workflow.\<close>

definition walkStepLocal ::
  "project_graph \<Rightarrow> string list \<Rightarrow> workflow_step \<Rightarrow> hop list \<Rightarrow> walk_state \<Rightarrow> walk_state" where
  "walkStepLocal g stack step p w =
     (let uses = TrimSpace (st_Uses step);
          w1 = (if uses \<noteq> [] then addReached p (parseGrant uses) Static w else w);
          ag = TrimSpace (st_Agent step)
      in if ag \<noteq> [] then walkAgent g stack ag (appendHop p (mkHop KindAgent ag Static)) w1 else w1)"

definition stepHops :: "workflow_step \<Rightarrow> hop list \<Rightarrow> hop list" where
  "stepHops step pre =
     (let i = TrimSpace (st_ID step)
      in appendHop pre \<lparr>h_Kind = KindStep, h_Name = i, h_ID = i, h_Reachability = Static\<rparr>)"

definition callsOf :: "string list gomap \<Rightarrow> string \<Rightarrow> string list" where
  "callsOf calls name = (case map_of calls name of None \<Rightarrow> [] | Some xs \<Rightarrow> xs)"

definition offStack :: "project_graph \<Rightarrow> string list \<Rightarrow> nat" where
  "offStack g stack = card {n \<in> set (keys (g_Workflows g)). workflowKey n \<notin> set stack}"

lemma offStack_push:
  assumes "deref (g_Workflows g) name = Some wfr" "workflowKey name \<notin> set stack"
  shows "offStack g (workflowKey name # stack) < offStack g stack"
proof -
  have "name \<in> set (keys (g_Workflows g))" using assms(1) by (rule deref_in_keys)
  then have "{n \<in> set (keys (g_Workflows g)). workflowKey n \<notin> set (workflowKey name # stack)}
      \<subset> {n \<in> set (keys (g_Workflows g)). workflowKey n \<notin> set stack}"
    using assms(2) by auto
  then show ?thesis unfolding offStack_def by (intro psubset_card_mono) simp_all
qed

function (sequential)
  walkWorkflow :: "project_graph \<Rightarrow> string list gomap \<Rightarrow> string list \<Rightarrow> string \<Rightarrow> hop list \<Rightarrow> walk_state \<Rightarrow> walk_state"
  and walkStep :: "project_graph \<Rightarrow> string list gomap \<Rightarrow> string list \<Rightarrow> workflow_step \<Rightarrow> hop list \<Rightarrow> walk_state \<Rightarrow> walk_state"
  and walkSteps :: "project_graph \<Rightarrow> string list gomap \<Rightarrow> string list \<Rightarrow> workflow_step list \<Rightarrow> hop list \<Rightarrow> walk_state \<Rightarrow> walk_state"
  and walkCalls :: "project_graph \<Rightarrow> string list gomap \<Rightarrow> string list \<Rightarrow> string list \<Rightarrow> hop list \<Rightarrow> walk_state \<Rightarrow> walk_state"
where
  "walkWorkflow g calls stack name pre w =
     (if workflowKey name \<in> set stack then w
      else if workflowKey name \<in> set (wk_seen w) then w
      else
        let w' = (case deref (g_Workflows g) name of
                    None \<Rightarrow> w
                  | Some wfr \<Rightarrow>
                      walkCalls g calls (workflowKey name # stack) (callsOf calls name) pre
                        (walkSteps g calls (workflowKey name # stack) (ws_Steps (wr_Spec wfr)) pre w))
        in w'\<lparr>wk_seen := workflowKey name # wk_seen w'\<rparr>)"
| "walkStep g calls stack step pre w =
     (let p = stepHops step pre;
          w1 = walkStepLocal g stack step p w;
          callee = TrimSpace (st_Workflow step)
      in if callee \<noteq> []
         then walkWorkflow g calls stack callee (appendHop p (mkHop KindWorkflow callee Static)) w1
         else w1)"
| "walkSteps g calls stack [] pre w = w"
| "walkSteps g calls stack (step # steps) pre w =
     walkSteps g calls stack steps pre (walkStep g calls stack step pre w)"
| "walkCalls g calls stack [] pre w = w"
| "walkCalls g calls stack (other0 # others) pre w =
     (let other = TrimSpace other0;
          w1 = (if other = [] then w
                else walkWorkflow g calls stack other
                       (appendHop pre (mkHop KindWorkflow other Static)) w)
      in walkCalls g calls stack others pre w1)"
  by pat_completeness auto

termination
proof (relation "measures [
    \<lambda>x. case x of
        Inl (Inl (g, calls, stack, name, pre, w)) \<Rightarrow> offStack g stack
      | Inl (Inr (g, calls, stack, step, pre, w)) \<Rightarrow> offStack g stack
      | Inr (Inl (g, calls, stack, steps, pre, w)) \<Rightarrow> offStack g stack
      | Inr (Inr (g, calls, stack, others, pre, w)) \<Rightarrow> offStack g stack,
    \<lambda>x. case x of
        Inl (Inl _) \<Rightarrow> 0
      | Inl (Inr _) \<Rightarrow> 1
      | Inr (Inl (g, calls, stack, steps, pre, w)) \<Rightarrow> 2 + length steps
      | Inr (Inr (g, calls, stack, others, pre, w)) \<Rightarrow> 2 + length others]")
qed (auto simp: offStack_push)

declare walkWorkflow.simps [simp del] walkStep.simps [simp del]

definition emptyWalk :: walk_state where
  "emptyWalk = \<lparr>wk_seen = [], wk_reached = []\<rparr>"

subsection \<open>Reachability in the graph\<close>

definition calleesOf :: "project_graph \<Rightarrow> string list gomap \<Rightarrow> string \<Rightarrow> workflow_resource \<Rightarrow> string set" where
  "calleesOf g calls name wfr =
     TrimSpace ` (st_Workflow ` set (ws_Steps (wr_Spec wfr)) \<union> set (callsOf calls name)) - {[]}"

inductive reachesWorkflow :: "project_graph \<Rightarrow> string list gomap \<Rightarrow> string \<Rightarrow> string \<Rightarrow> bool"
  for g calls rt where
  start: "reachesWorkflow g calls rt rt"
| call: "reachesWorkflow g calls rt n \<Longrightarrow> deref (g_Workflows g) n = Some wfr \<Longrightarrow>
    m \<in> calleesOf g calls n wfr \<Longrightarrow> reachesWorkflow g calls rt m"

definition agentGrants :: "project_graph \<Rightarrow> string \<Rightarrow> grant set" where
  "agentGrants g name =
     (case deref (g_Agents g) name of
        None \<Rightarrow> {unknownGrant name}
      | Some agent \<Rightarrow> set (advertisedGrants g agent))"

definition stepGrants :: "project_graph \<Rightarrow> workflow_step \<Rightarrow> grant set" where
  "stepGrants g step =
     (if TrimSpace (st_Uses step) \<noteq> [] then {parseGrant (TrimSpace (st_Uses step))} else {})
     \<union> (if TrimSpace (st_Agent step) \<noteq> [] then agentGrants g (TrimSpace (st_Agent step)) else {})"

text \<open>The grants some step of a reachable workflow uses, or its agent may choose.\<close>

inductive reachesGrant :: "project_graph \<Rightarrow> string list gomap \<Rightarrow> string \<Rightarrow> grant \<Rightarrow> bool"
  for g calls rt where
  step: "reachesWorkflow g calls rt n \<Longrightarrow> deref (g_Workflows g) n = Some wfr \<Longrightarrow>
    st \<in> set (ws_Steps (wr_Spec wfr)) \<Longrightarrow> gr \<in> stepGrants g st \<Longrightarrow> reachesGrant g calls rt gr"

inductive_cases reachesGrantE: "reachesGrant g calls rt gr"

subsection \<open>The walk adds only reachable grants\<close>

definition grantsIn :: "walk_state \<Rightarrow> grant set" where
  "grantsIn w = rx_grant ` set (wk_reached w)"

lemma grantsIn_add [simp]: "grantsIn (addReached pre gr r w) = insert gr (grantsIn w)"
  by (simp add: grantsIn_def addReached_def Let_def)

lemma seen_add [simp]: "wk_seen (addReached pre gr r w) = wk_seen w"
  by (simp add: addReached_def Let_def)

lemma grantsIn_seen [simp]: "grantsIn (w\<lparr>wk_seen := s\<rparr>) = grantsIn w"
  by (simp add: grantsIn_def)

lemma grantsIn_fold [simp]:
  "grantsIn (fold (\<lambda>gr. addReached pre gr r) grs w) = grantsIn w \<union> set grs"
  by (induction grs arbitrary: w) auto

lemma seen_fold [simp]: "wk_seen (fold (\<lambda>gr. addReached pre gr r) grs w) = wk_seen w"
  by (induction grs arbitrary: w) simp_all

lemma walkAgent_grants:
  "grantsIn (walkAgent g stack name pre w) \<subseteq> grantsIn w \<union> agentGrants g name"
  "grantsIn w \<subseteq> grantsIn (walkAgent g stack name pre w)"
  by (auto simp: walkAgent_def agentGrants_def Let_def split: option.splits)

lemma walkStepLocal_grants:
  "grantsIn (walkStepLocal g stack st p w) \<subseteq> grantsIn w \<union> stepGrants g st"
proof (cases "TrimSpace (st_Agent st) = []")
  case True
  then show ?thesis by (simp add: walkStepLocal_def stepGrants_def Let_def)
next
  case False
  let ?w = "if TrimSpace (st_Uses st) \<noteq> [] then addReached p (parseGrant (TrimSpace (st_Uses st))) Static w else w"
  show ?thesis
    using False walkAgent_grants(1) [of g stack "TrimSpace (st_Agent st)" _ ?w]
    by (fastforce simp: walkStepLocal_def stepGrants_def Let_def split: if_splits)
qed

lemma walk_sound:
  "reachesWorkflow g calls rt name \<Longrightarrow>
     grantsIn (walkWorkflow g calls stack name pre w) \<subseteq> grantsIn w \<union> Collect (reachesGrant g calls rt)"
  "reachesWorkflow g calls rt n \<Longrightarrow> deref (g_Workflows g) n = Some wfr \<Longrightarrow>
     st \<in> set (ws_Steps (wr_Spec wfr)) \<Longrightarrow>
     grantsIn (walkStep g calls stack st pre w) \<subseteq> grantsIn w \<union> Collect (reachesGrant g calls rt)"
  "reachesWorkflow g calls rt n \<Longrightarrow> deref (g_Workflows g) n = Some wfr \<Longrightarrow>
     set sts \<subseteq> set (ws_Steps (wr_Spec wfr)) \<Longrightarrow>
     grantsIn (walkSteps g calls stack sts pre w) \<subseteq> grantsIn w \<union> Collect (reachesGrant g calls rt)"
  "reachesWorkflow g calls rt n \<Longrightarrow> deref (g_Workflows g) n = Some wfr \<Longrightarrow>
     set others \<subseteq> set (callsOf calls n) \<Longrightarrow>
     grantsIn (walkCalls g calls stack others pre w) \<subseteq> grantsIn w \<union> Collect (reachesGrant g calls rt)"
proof (induction g calls stack name pre w and g calls stack st pre w and g calls stack sts pre w
    and g calls stack others pre w arbitrary: and n wfr and n wfr and n wfr
    rule: walkWorkflow_walkStep_walkSteps_walkCalls.induct)
  case (1 g calls stack name pre w)
  show ?case
  proof (cases "workflowKey name \<in> set stack \<or> workflowKey name \<in> set (wk_seen w)")
    case True
    then show ?thesis by (auto simp: walkWorkflow.simps)
  next
    case new: False
    show ?thesis
    proof (cases "deref (g_Workflows g) name")
      case None
      with new show ?thesis by (auto simp: walkWorkflow.simps)
    next
      case (Some wfr)
      let ?s = "walkSteps g calls (workflowKey name # stack) (ws_Steps (wr_Spec wfr)) pre w"
      have "grantsIn ?s \<subseteq> grantsIn w \<union> Collect (reachesGrant g calls rt)"
        using "1.IH"(1) new Some "1.prems" by blast
      moreover have "grantsIn (walkCalls g calls (workflowKey name # stack) (callsOf calls name) pre ?s)
          \<subseteq> grantsIn ?s \<union> Collect (reachesGrant g calls rt)"
        using "1.IH"(2) new Some "1.prems" by blast
      ultimately show ?thesis using new Some by (auto simp: walkWorkflow.simps Let_def)
    qed
  qed
next
  case (2 g calls stack step pre w)
  let ?w = "walkStepLocal g stack step (stepHops step pre) w"
  have "stepGrants g step \<subseteq> Collect (reachesGrant g calls rt)"
    using 2(2-4) by (auto intro: reachesGrant.step)
  then have local: "grantsIn ?w \<subseteq> grantsIn w \<union> Collect (reachesGrant g calls rt)"
    using walkStepLocal_grants by fast
  show ?case
  proof (cases "TrimSpace (st_Workflow step) = []")
    case True
    with local show ?thesis by (simp add: walkStep.simps Let_def)
  next
    case False
    with 2(2-4) have "reachesWorkflow g calls rt (TrimSpace (st_Workflow step))"
      by (auto intro: reachesWorkflow.call simp: calleesOf_def)
    from 2(1) [OF refl refl refl False this] local False show ?thesis
      by (auto simp: walkStep.simps Let_def)
  qed
next
  case (4 g calls stack step steps pre w)
  then show ?case by fastforce
next
  case (6 g calls stack other0 others pre w)
  let ?w = "if TrimSpace other0 = [] then w
    else walkWorkflow g calls stack (TrimSpace other0)
           (appendHop pre (mkHop KindWorkflow (TrimSpace other0) Static)) w"
  have "TrimSpace other0 \<noteq> [] \<Longrightarrow> reachesWorkflow g calls rt (TrimSpace other0)"
    using "6.prems" by (auto intro: reachesWorkflow.call simp: calleesOf_def)
  then have "grantsIn ?w \<subseteq> grantsIn w \<union> Collect (reachesGrant g calls rt)"
    using "6.IH"(1) [OF refl] by simp
  moreover have "grantsIn (walkCalls g calls stack others pre ?w)
      \<subseteq> grantsIn ?w \<union> Collect (reachesGrant g calls rt)"
    using "6.IH"(2) [OF refl refl] "6.prems" by simp
  ultimately show ?case by (simp only: walkCalls.simps Let_def) blast
qed simp_all

subsection \<open>The walk misses no reachable grant\<close>

definition stepDone :: "string set \<Rightarrow> grant set \<Rightarrow> workflow_step \<Rightarrow> bool" where
  "stepDone D G st \<longleftrightarrow>
     (TrimSpace (st_Uses st) \<noteq> [] \<longrightarrow> parseGrant (TrimSpace (st_Uses st)) \<in> G)
     \<and> (TrimSpace (st_Agent st) \<noteq> [] \<longrightarrow> agentKey (TrimSpace (st_Agent st)) \<in> D)
     \<and> (TrimSpace (st_Workflow st) \<noteq> [] \<longrightarrow> workflowKey (TrimSpace (st_Workflow st)) \<in> D)"

definition callsDone :: "string set \<Rightarrow> string list \<Rightarrow> bool" where
  "callsDone D others \<longleftrightarrow> (\<forall>x \<in> set others. TrimSpace x \<noteq> [] \<longrightarrow> workflowKey (TrimSpace x) \<in> D)"

abbreviation doneKeys :: "string list \<Rightarrow> walk_state \<Rightarrow> string set" where
  "doneKeys stack w \<equiv> set stack \<union> set (wk_seen w)"

definition bodyDone ::
  "project_graph \<Rightarrow> string list gomap \<Rightarrow> string set \<Rightarrow> grant set \<Rightarrow> string \<Rightarrow> bool" where
  "bodyDone g calls D G n \<longleftrightarrow>
     (\<forall>wfr. deref (g_Workflows g) n = Some wfr \<longrightarrow>
        (\<forall>st \<in> set (ws_Steps (wr_Spec wfr)). stepDone D G st) \<and> callsDone D (callsOf calls n))"

text \<open>
  What has been seen has been walked: its own grants are collected, and what it calls is
  either seen or still on the stack.
\<close>

definition walkInv :: "project_graph \<Rightarrow> string list gomap \<Rightarrow> string list \<Rightarrow> walk_state \<Rightarrow> bool" where
  "walkInv g calls stack w \<longleftrightarrow>
     (\<forall>n. workflowKey n \<in> set (wk_seen w) \<longrightarrow> bodyDone g calls (doneKeys stack w) (grantsIn w) n)
     \<and> (\<forall>a. agentKey a \<in> set (wk_seen w) \<longrightarrow> agentGrants g a \<subseteq> grantsIn w)"

definition grows :: "walk_state \<Rightarrow> walk_state \<Rightarrow> bool" where
  "grows w w' \<longleftrightarrow> set (wk_seen w) \<subseteq> set (wk_seen w') \<and> grantsIn w \<subseteq> grantsIn w'"

lemma grows_refl [simp]: "grows w w"
  by (simp add: grows_def)

lemma grows_trans: "grows u v \<Longrightarrow> grows v w \<Longrightarrow> grows u w"
  by (auto simp: grows_def)

lemma stepDone_mono: "stepDone D G st \<Longrightarrow> D \<subseteq> D' \<Longrightarrow> G \<subseteq> G' \<Longrightarrow> stepDone D' G' st"
  by (auto simp: stepDone_def)

lemma callsDone_mono: "callsDone D xs \<Longrightarrow> D \<subseteq> D' \<Longrightarrow> callsDone D' xs"
  by (auto simp: callsDone_def)

lemma bodyDone_mono: "bodyDone g calls D G n \<Longrightarrow> D \<subseteq> D' \<Longrightarrow> G \<subseteq> G' \<Longrightarrow> bodyDone g calls D' G' n"
  unfolding bodyDone_def by (blast intro: stepDone_mono callsDone_mono)

lemma walkInv_push: "walkInv g calls stack w \<Longrightarrow> walkInv g calls (k # stack) w"
  unfolding walkInv_def by (auto elim: bodyDone_mono)

lemma walkInv_add: "walkInv g calls stack w \<Longrightarrow> walkInv g calls stack (addReached pre gr r w)"
  unfolding walkInv_def by (auto elim: bodyDone_mono)

lemma walkInv_fold:
  "walkInv g calls stack w \<Longrightarrow> walkInv g calls stack (fold (\<lambda>gr. addReached pre gr r) grs w)"
  by (induction grs arbitrary: w) (simp_all add: walkInv_add)

lemma walkInv_agent_seen:
  assumes "walkInv g calls stack w" "agentGrants g a \<subseteq> grantsIn w" "s = wk_seen w"
  shows "walkInv g calls stack (w\<lparr>wk_seen := agentKey a # s\<rparr>)"
  using assms unfolding walkInv_def by (auto elim: bodyDone_mono)

lemma walkInv_workflow_seen:
  assumes "walkInv g calls (workflowKey n # stack) w"
    and "bodyDone g calls (doneKeys (workflowKey n # stack) w) (grantsIn w) n"
  shows "walkInv g calls stack (w\<lparr>wk_seen := workflowKey n # wk_seen w\<rparr>)"
  using assms unfolding walkInv_def by (auto elim: bodyDone_mono)

lemma walkAgent_inv:
  assumes "walkInv g calls stack w"
  shows "walkInv g calls stack (walkAgent g stack a pre w)" "grows w (walkAgent g stack a pre w)"
    "agentKey a \<in> doneKeys stack (walkAgent g stack a pre w)"
proof -
  show "walkInv g calls stack (walkAgent g stack a pre w)"
    using assms
    by (auto simp: walkAgent_def Let_def agentGrants_def walkInv_add walkInv_fold
        intro!: walkInv_agent_seen split: option.split)
  show "grows w (walkAgent g stack a pre w)"
    by (auto simp: walkAgent_def Let_def grows_def split: option.split)
  show "agentKey a \<in> doneKeys stack (walkAgent g stack a pre w)"
    by (auto simp: walkAgent_def Let_def)
qed

lemma walkStepLocal_inv:
  assumes "walkInv g calls stack w"
  shows "walkInv g calls stack (walkStepLocal g stack st p w)" "grows w (walkStepLocal g stack st p w)"
    "TrimSpace (st_Uses st) \<noteq> [] \<Longrightarrow>
       parseGrant (TrimSpace (st_Uses st)) \<in> grantsIn (walkStepLocal g stack st p w)"
    "TrimSpace (st_Agent st) \<noteq> [] \<Longrightarrow>
       agentKey (TrimSpace (st_Agent st)) \<in> doneKeys stack (walkStepLocal g stack st p w)"
proof -
  define w1 where "w1 = (if TrimSpace (st_Uses st) \<noteq> []
    then addReached p (parseGrant (TrimSpace (st_Uses st))) Static w else w)"
  have w1: "walkInv g calls stack w1" "grows w w1"
    using assms by (auto simp: w1_def walkInv_add grows_def)
  have eq: "walkStepLocal g stack st p w =
      (if TrimSpace (st_Agent st) \<noteq> []
       then walkAgent g stack (TrimSpace (st_Agent st)) (appendHop p (mkHop KindAgent (TrimSpace (st_Agent st)) Static)) w1
       else w1)"
    by (simp add: walkStepLocal_def w1_def Let_def)
  note a = walkAgent_inv [OF w1(1)]
  show "walkInv g calls stack (walkStepLocal g stack st p w)" using a(1) w1(1) by (simp add: eq)
  show g: "grows w (walkStepLocal g stack st p w)" using a(2) w1(2) grows_trans by (auto simp: eq)
  show "agentKey (TrimSpace (st_Agent st)) \<in> doneKeys stack (walkStepLocal g stack st p w)"
    if "TrimSpace (st_Agent st) \<noteq> []"
    using that a(3) by (simp add: eq)
  show "parseGrant (TrimSpace (st_Uses st)) \<in> grantsIn (walkStepLocal g stack st p w)"
    if "TrimSpace (st_Uses st) \<noteq> []"
  proof -
    have "parseGrant (TrimSpace (st_Uses st)) \<in> grantsIn w1" using that by (simp add: w1_def)
    then show ?thesis using a(2) by (auto simp: eq grows_def)
  qed
qed

lemma walk_complete:
  "walkInv g calls stack w \<Longrightarrow>
     walkInv g calls stack (walkWorkflow g calls stack name pre w)
     \<and> grows w (walkWorkflow g calls stack name pre w)
     \<and> workflowKey name \<in> doneKeys stack (walkWorkflow g calls stack name pre w)"
  "walkInv g calls stack w \<Longrightarrow>
     walkInv g calls stack (walkStep g calls stack st pre w)
     \<and> grows w (walkStep g calls stack st pre w)
     \<and> stepDone (doneKeys stack (walkStep g calls stack st pre w))
          (grantsIn (walkStep g calls stack st pre w)) st"
  "walkInv g calls stack w \<Longrightarrow>
     walkInv g calls stack (walkSteps g calls stack sts pre w)
     \<and> grows w (walkSteps g calls stack sts pre w)
     \<and> (\<forall>st \<in> set sts. stepDone (doneKeys stack (walkSteps g calls stack sts pre w))
          (grantsIn (walkSteps g calls stack sts pre w)) st)"
  "walkInv g calls stack w \<Longrightarrow>
     walkInv g calls stack (walkCalls g calls stack others pre w)
     \<and> grows w (walkCalls g calls stack others pre w)
     \<and> callsDone (doneKeys stack (walkCalls g calls stack others pre w)) others"
proof (induction g calls stack name pre w and g calls stack st pre w and g calls stack sts pre w
    and g calls stack others pre w rule: walkWorkflow_walkStep_walkSteps_walkCalls.induct)
  case (1 g calls stack name pre w)
  show ?case
  proof (cases "workflowKey name \<in> set stack \<or> workflowKey name \<in> set (wk_seen w)")
    case True
    with "1.prems" show ?thesis by (auto simp: walkWorkflow.simps)
  next
    case new: False
    let ?stack = "workflowKey name # stack"
    show ?thesis
    proof (cases "deref (g_Workflows g) name")
      case None
      have "walkInv g calls stack (w\<lparr>wk_seen := workflowKey name # wk_seen w\<rparr>)"
        using None "1.prems" by (intro walkInv_workflow_seen walkInv_push) (simp_all add: bodyDone_def)
      with new None show ?thesis by (simp add: walkWorkflow.simps Let_def grows_def subset_insertI)
    next
      case (Some wfr)
      define w1 where "w1 = walkSteps g calls ?stack (ws_Steps (wr_Spec wfr)) pre w"
      define w2 where "w2 = walkCalls g calls ?stack (callsOf calls name) pre w1"
      have s: "walkInv g calls ?stack w1" "grows w w1"
        "\<forall>st \<in> set (ws_Steps (wr_Spec wfr)). stepDone (doneKeys ?stack w1) (grantsIn w1) st"
        using "1.IH"(1) new Some walkInv_push [OF "1.prems"] unfolding w1_def by blast+
      have c: "walkInv g calls ?stack w2" "grows w1 w2" "callsDone (doneKeys ?stack w2) (callsOf calls name)"
        using "1.IH"(2) new Some s(1) unfolding w2_def w1_def by blast+
      have "bodyDone g calls (doneKeys ?stack w2) (grantsIn w2) name"
        using s(3) c(2,3) Some unfolding bodyDone_def grows_def by (auto elim!: stepDone_mono)
      then have "walkInv g calls stack (w2\<lparr>wk_seen := workflowKey name # wk_seen w2\<rparr>)"
        using c(1) by (intro walkInv_workflow_seen)
      moreover have "grows w w2" using s(2) c(2) by (rule grows_trans)
      ultimately show ?thesis
        using new Some by (auto simp: walkWorkflow.simps Let_def w1_def w2_def grows_def)
    qed
  qed
next
  case (2 g calls stack step pre w)
  define w1 where "w1 = walkStepLocal g stack step (stepHops step pre) w"
  note l = walkStepLocal_inv [OF "2.prems", of step "stepHops step pre", folded w1_def]
  show ?case
  proof (cases "TrimSpace (st_Workflow step) = []")
    case True
    with l show ?thesis by (simp add: walkStep.simps Let_def w1_def stepDone_def)
  next
    case False
    let ?w = "walkWorkflow g calls stack (TrimSpace (st_Workflow step))
      (appendHop (stepHops step pre) (mkHop KindWorkflow (TrimSpace (st_Workflow step)) Static)) w1"
    have eq: "walkStep g calls stack step pre w = ?w"
      using False by (simp add: walkStep.simps Let_def w1_def)
    have r: "walkInv g calls stack ?w" "grows w1 ?w"
      "workflowKey (TrimSpace (st_Workflow step)) \<in> doneKeys stack ?w"
      using "2.IH" [OF refl refl refl False] l(1) unfolding w1_def by blast+
    show ?thesis
      unfolding eq stepDone_def using r l(2-4) grows_trans [OF l(2) r(2)] by (auto simp: grows_def)
  qed
next
  case (4 g calls stack step steps pre w)
  let ?w = "walkStep g calls stack step pre w"
  from "4.IH"(1) [OF "4.prems"] have a: "walkInv g calls stack ?w" "grows w ?w"
    "stepDone (doneKeys stack ?w) (grantsIn ?w) step" by blast+
  from "4.IH"(2) [OF a(1)] a show ?case
    by (auto simp: grows_def elim!: stepDone_mono)
next
  case (6 g calls stack other0 others pre w)
  let ?w = "if TrimSpace other0 = [] then w
    else walkWorkflow g calls stack (TrimSpace other0)
           (appendHop pre (mkHop KindWorkflow (TrimSpace other0) Static)) w"
  have a: "walkInv g calls stack ?w" "grows w ?w"
    "TrimSpace other0 \<noteq> [] \<Longrightarrow> workflowKey (TrimSpace other0) \<in> doneKeys stack ?w"
    using "6.IH"(1) [OF refl _ "6.prems"] "6.prems" by simp_all
  let ?r = "walkCalls g calls stack others pre ?w"
  have b: "walkInv g calls stack ?r" "grows ?w ?r" "callsDone (doneKeys stack ?r) others"
    using "6.IH"(2) [OF refl refl a(1)] by blast+
  have "callsDone (doneKeys stack ?r) (other0 # others)"
    using a(3) b(2,3) by (auto simp: callsDone_def grows_def)
  with b grows_trans [OF a(2) b(2)] show ?case by (simp only: walkCalls.simps Let_def)
qed (simp_all add: callsDone_def)

definition rootWalk :: "project_graph \<Rightarrow> string list gomap \<Rightarrow> string \<Rightarrow> walk_state" where
  "rootWalk g calls name = walkWorkflow g calls [] name [mkHop KindWorkflow name Static] emptyWalk"

lemma rootWalk_seen:
  "reachesWorkflow g calls rt n \<Longrightarrow> workflowKey n \<in> set (wk_seen (rootWalk g calls rt))"
proof (induction rule: reachesWorkflow.induct)
  have inv: "walkInv g calls [] emptyWalk" by (simp add: walkInv_def emptyWalk_def)
  note c = walk_complete(1) [OF inv, of rt "[mkHop KindWorkflow rt Static]", folded rootWalk_def]
  {
    case start
    show ?case using c by simp
  next
    case (call n wfr m)
    then have "bodyDone g calls (set (wk_seen (rootWalk g calls rt))) (grantsIn (rootWalk g calls rt)) n"
      using c by (simp add: walkInv_def)
    with call.hyps(2) call.hyps(3) show ?case
      by (auto simp: bodyDone_def calleesOf_def stepDone_def callsDone_def)
  }
qed

lemma rootWalk_exact: "grantsIn (rootWalk g calls rt) = Collect (reachesGrant g calls rt)"
proof
  show "grantsIn (rootWalk g calls rt) \<subseteq> Collect (reachesGrant g calls rt)"
    using walk_sound(1) [OF reachesWorkflow.start [of g calls rt], of "[]" "[mkHop KindWorkflow rt Static]" emptyWalk]
    by (simp add: rootWalk_def emptyWalk_def grantsIn_def)
  have inv: "walkInv g calls [] emptyWalk" by (simp add: walkInv_def emptyWalk_def)
  note c = walk_complete(1) [OF inv, of rt "[mkHop KindWorkflow rt Static]", folded rootWalk_def]
  show "Collect (reachesGrant g calls rt) \<subseteq> grantsIn (rootWalk g calls rt)"
  proof
    fix gr
    assume "gr \<in> Collect (reachesGrant g calls rt)"
    then obtain n wfr st where r: "reachesWorkflow g calls rt n" "deref (g_Workflows g) n = Some wfr"
      "st \<in> set (ws_Steps (wr_Spec wfr))" "gr \<in> stepGrants g st"
      by (auto elim: reachesGrantE)
    then have "stepDone (set (wk_seen (rootWalk g calls rt))) (grantsIn (rootWalk g calls rt)) st"
      using rootWalk_seen [OF r(1)] c by (auto simp: walkInv_def bodyDone_def)
    with r(4) c show "gr \<in> grantsIn (rootWalk g calls rt)"
      by (auto simp: stepGrants_def stepDone_def walkInv_def split: if_splits)
  qed
qed

subsection \<open>Properties\<close>

text \<open>
  C15. The depth-first walk from a workflow collects exactly the grants that are reachable
  in the project graph, through any number of nested and mutually recursive workflows: the
  cycle cut and the visited set lose nothing, and nothing unreachable is added.
\<close>

theorem walk_collects_exactly_reachable:
  "grantsIn (rootWalk g calls name) = {gr. reachesGrant g calls name gr}"
  by (rule rootWalk_exact)

end
