(* ===== verification/Effect_Bound.thy ===== *)
theory Effect_Bound
  imports Effect_Walk "HOL-Library.Product_Lexorder"
begin

text \<open>
  The static effect analysis, second half (\<open>finish\<close>, \<open>unreachableFrom\<close> and \<open>Compute\<close> of
  \<open>internal/effects/compute.go\<close>): the reached operations are merged into one entry per effect
  identifier, with an explicit entry for every unknown. The bound of a root is shown to leave
  out no effect of an operation the root can reach.
\<close>

subsection \<open>From reached operations to a bound\<close>

definition preferAutonomousReached :: "reached_op \<Rightarrow> reached_op \<Rightarrow> reached_op" where
  "preferAutonomousReached prev next =
     (if pathReachability (rx_witness next) = Autonomous \<and> pathReachability (rx_witness prev) \<noteq> Autonomous
      then next else prev)"

definition preferAutonomousEffect :: "reached_op \<Rightarrow> effect_entry \<Rightarrow> effect_entry" where
  "preferAutonomousEffect r e =
     (if pathReachability (rx_witness r) = Autonomous \<and> pathReachability (fx_Witness e) \<noteq> Autonomous
      then e\<lparr>fx_Witness := rx_witness r, fx_Uses := gr_uses (rx_grant r)\<rparr> else e)"

definition appendOccurrence ::
  "effect_occurrence list \<Rightarrow> string \<Rightarrow> hop list \<Rightarrow> effect_occurrence list" where
  "appendOccurrence dst uses witness =
     (if list_ex (\<lambda>oc. oc_uses oc = uses) dst then dst
      else dst @ [\<lparr>oc_uses = uses, oc_witness = witness\<rparr>])"

text \<open>The message of an unknown effect; the format strings become constructors.\<close>

definition unknownMessage :: "string \<Rightarrow> string \<Rightarrow> string \<Rightarrow> tool_spec option \<Rightarrow> effect_message" where
  "unknownMessage tool op uses tsp =
     (let name = (if TrimSpace tool \<noteq> [] then TrimSpace tool
                  else if TrimSpace uses \<noteq> [] then TrimSpace uses else ''(unnamed)'');
          te = ResolveToolEffects name tsp
      in if re_Unknown te \<and> re_Message te \<noteq> None then the (re_Message te)
         else if TrimSpace op = [] then ToolUndeclared name
         else OperationUndeclared name op)"

definition reachedKey :: "reached_op \<Rightarrow> string" where
  "reachedKey r =
     (let gr = rx_grant r
      in if gr_uses gr = [] then gr_tool gr @ [CHR 0x00] @ gr_op gr else gr_uses gr)"

text \<open>The first loop of \<open>finish\<close>: one reached operation per key, in order of first arrival.\<close>

definition collectStep ::
  "reached_op \<Rightarrow> reached_op gomap \<times> string list \<Rightarrow> reached_op gomap \<times> string list" where
  "collectStep r acc =
     (case acc of (first, order) \<Rightarrow>
        let key = reachedKey r in
        (case map_of first key of
           Some prev \<Rightarrow> (put key (preferAutonomousReached prev r) first, order)
         | None \<Rightarrow> (put key r first, order @ [key])))"

definition collectReached :: "reached_op list \<Rightarrow> reached_op gomap \<times> string list" where
  "collectReached reached = fold collectStep reached ([], [])"

definition toolSpecOf :: "project_graph \<Rightarrow> string \<Rightarrow> tool_spec option" where
  "toolSpecOf g tool = map_option tr_Spec (deref (toolsOf g) tool)"

definition unknownEffect :: "reached_op \<Rightarrow> tool_spec option \<Rightarrow> effect_entry" where
  "unknownEffect r tsp =
     (let gr = rx_grant r
      in \<lparr>fx_Ident = [], fx_Unknown = True,
          fx_Message = Some (unknownMessage (gr_tool gr) (gr_op gr) (gr_uses gr) tsp),
          fx_Uses = gr_uses gr, fx_Witness = rx_witness r, fx_occurrences = []\<rparr>)"

text \<open>One identifier of a reached operation; \<open>seenIdent\<close> holds positions in \<open>effects\<close>.\<close>

definition addIdent ::
  "reached_op \<Rightarrow> string \<Rightarrow> effect_entry list \<times> nat gomap \<Rightarrow> effect_entry list \<times> nat gomap" where
  "addIdent r ident acc =
     (case acc of (effects, seenIdent) \<Rightarrow>
        let uses = gr_uses (rx_grant r) in
        (case map_of seenIdent ident of
           Some i \<Rightarrow>
             (let e = effects ! i;
                  e' = e\<lparr>fx_occurrences := appendOccurrence (fx_occurrences e) uses (rx_witness r)\<rparr>
              in (effects[i := preferAutonomousEffect r e'], seenIdent))
         | None \<Rightarrow>
             (effects @ [\<lparr>fx_Ident = ident, fx_Unknown = False, fx_Message = None, fx_Uses = uses,
                fx_Witness = rx_witness r,
                fx_occurrences = [\<lparr>oc_uses = uses, oc_witness = rx_witness r\<rparr>]\<rparr>],
              put ident (length effects) seenIdent)))"

definition addReachedEffects ::
  "project_graph \<Rightarrow> reached_op \<Rightarrow> effect_entry list \<times> nat gomap \<Rightarrow> effect_entry list \<times> nat gomap" where
  "addReachedEffects g r acc =
     (case acc of (effects, seenIdent) \<Rightarrow>
        let gr = rx_grant r in
        if gr_unknown gr then (effects @ [unknownEffect r None], seenIdent)
        else
          let tsp = toolSpecOf g (gr_tool gr);
              re = ResolveOperationEffects (gr_tool gr) (gr_op gr) tsp
          in if ro_Unknown re then (effects @ [unknownEffect r tsp], seenIdent)
             else fold (addIdent r) (ro_Effects re) (effects, seenIdent))"

text \<open>\<open>sort.Slice\<close>: unknown effects first by their uses, then the others by identifier.\<close>

definition effectOrder :: "effect_entry \<Rightarrow> bool \<times> string" where
  "effectOrder e = (\<not> fx_Unknown e, if fx_Unknown e then fx_Uses e else fx_Ident e)"

definition unreachableOps ::
  "string \<Rightarrow> string list gomap \<Rightarrow> reached_op gomap \<Rightarrow> string \<Rightarrow> unreachable_entry list" where
  "unreachableOps toolName byOp reached op =
     (let uses = ''tool.'' @ toolName @ ''.'' @ op;
          idents = (case map_of byOp op of None \<Rightarrow> [] | Some xs \<Rightarrow> xs);
          entry = (\<lambda>i u. \<lparr>un_Ident = i, un_Unknown = u, un_Tool = toolName, un_Operation = op, un_Uses = uses\<rparr>)
      in if map_of reached uses \<noteq> None then []
         else if idents = [] then [entry [] True]
         else map (\<lambda>i. entry i False) idents)"

definition unreachableFrom :: "project_graph \<Rightarrow> reached_op gomap \<Rightarrow> unreachable_entry list" where
  "unreachableFrom g reached =
     sort_key (\<lambda>u. (un_Uses u, un_Ident u))
       (concat (map (\<lambda>toolName.
          (case deref (toolsOf g) toolName of
             None \<Rightarrow> []
           | Some tr \<Rightarrow>
               (let te = ResolveToolEffects toolName (Some (tr_Spec tr))
                in if re_Unknown te then []
                   else concat (map (unreachableOps toolName (re_ByOperation te) reached)
                          (sortedKeys (re_ByOperation te))))))
        (sortedKeys (toolsOf g))))"

definition collectEffects :: "project_graph \<Rightarrow> reached_op list \<Rightarrow> effect_entry list" where
  "collectEffects g reached =
     (case collectReached reached of (first, order) \<Rightarrow>
        fst (fold (\<lambda>key acc.
               (case map_of first key of None \<Rightarrow> acc | Some r \<Rightarrow> addReachedEffects g r acc))
             order ([], [])))"

definition finish :: "project_graph \<Rightarrow> hop_kind \<Rightarrow> string \<Rightarrow> reached_op list \<Rightarrow> bound" where
  "finish g rootKind rootName reached =
     \<lparr>b_RootKind = rootKind, b_RootName = rootName,
      b_Effects = sort_key effectOrder (collectEffects g reached),
      b_Unreachable = unreachableFrom g (fst (collectReached reached))\<rparr>"

definition boundAgent :: "project_graph \<Rightarrow> string \<Rightarrow> bound" where
  "boundAgent g name =
     finish g KindAgent name
       (wk_reached (walkAgent g [] name [mkHop KindAgent name Static] emptyWalk))"

definition boundWorkflow :: "project_graph \<Rightarrow> string \<Rightarrow> string list gomap \<Rightarrow> bound" where
  "boundWorkflow g name calls = finish g KindWorkflow name (wk_reached (rootWalk g calls name))"

definition compute :: "project_graph option \<Rightarrow> string list gomap \<Rightarrow> graph_bounds" where
  "compute g0 calls =
     (case g0 of
        None \<Rightarrow> \<lparr>gb_Agents = [], gb_Workflows = []\<rparr>
      | Some g \<Rightarrow>
          \<lparr>gb_Agents = map (\<lambda>name. (name, boundAgent g name)) (sortedKeys (g_Agents g)),
           gb_Workflows = map (\<lambda>name. (name, boundWorkflow g name calls)) (sortedKeys (g_Workflows g))\<rparr>)"

definition Compute :: "project_graph option \<Rightarrow> graph_bounds" where
  "Compute g = compute g []"

subsection \<open>The bound leaves out no effect\<close>

abbreviation autonomous :: "hop list \<Rightarrow> bool" where
  "autonomous hops \<equiv> pathReachability hops = Autonomous"

lemma collectReached_inv:
  assumes "collectReached xs = (first, order)"
  shows "\<forall>r \<in> set xs. reachedKey r \<in> set order \<and>
      (\<exists>r'. map_of first (reachedKey r) = Some r' \<and> (autonomous (rx_witness r) \<longrightarrow> autonomous (rx_witness r')))"
    and "\<forall>k r. map_of first k = Some r \<longrightarrow> r \<in> set xs \<and> reachedKey r = k"
  using assms
proof (induction xs arbitrary: first order rule: rev_induct)
  case (snoc x xs)
  {
    case 1
    obtain f1 o1 where c: "collectReached xs = (f1, o1)" by fastforce
    from snoc.IH(1) [OF c] snoc.IH(2) [OF c] 1 c show ?case
      by (fastforce simp: collectReached_def collectStep_def Let_def preferAutonomousReached_def
          split: option.splits if_splits)
  next
    case 2
    obtain f1 o1 where c: "collectReached xs = (f1, o1)" by fastforce
    from snoc.IH(2) [OF c] 2 c show ?case
      by (auto simp: collectReached_def collectStep_def Let_def preferAutonomousReached_def
          split: option.splits if_splits)
  }
qed (simp_all add: collectReached_def)

definition identInv :: "effect_entry list \<Rightarrow> nat gomap \<Rightarrow> bool" where
  "identInv effects seenIdent \<longleftrightarrow>
     (\<forall>k i. map_of seenIdent k = Some i \<longrightarrow>
        i < length effects \<and> fx_Ident (effects ! i) = k \<and> \<not> fx_Unknown (effects ! i))"

text \<open>Later effect lists keep what earlier ones had.\<close>

definition entryLe :: "effect_entry \<Rightarrow> effect_entry \<Rightarrow> bool" where
  "entryLe e e' \<longleftrightarrow> fx_Unknown e' = fx_Unknown e \<and> fx_Ident e' = fx_Ident e
     \<and> (fx_Unknown e \<longrightarrow> fx_Uses e' = fx_Uses e)
     \<and> oc_uses ` set (fx_occurrences e) \<subseteq> oc_uses ` set (fx_occurrences e')
     \<and> (autonomous (fx_Witness e) \<longrightarrow> autonomous (fx_Witness e'))"

definition effectsLe :: "effect_entry list \<Rightarrow> effect_entry list \<Rightarrow> bool" where
  "effectsLe es es' \<longleftrightarrow> (\<forall>e \<in> set es. \<exists>e' \<in> set es'. entryLe e e')"

lemma entryLe_refl [simp]: "entryLe e e"
  by (simp add: entryLe_def)

lemma entryLe_trans: "entryLe a b \<Longrightarrow> entryLe b c \<Longrightarrow> entryLe a c"
  by (auto simp: entryLe_def)

lemma effectsLe_refl [simp]: "effectsLe es es"
  using entryLe_refl unfolding effectsLe_def by blast

lemma effectsLe_trans: "effectsLe a b \<Longrightarrow> effectsLe b c \<Longrightarrow> effectsLe a c"
  unfolding effectsLe_def by (meson entryLe_trans)

lemma effectsLe_append [simp]: "effectsLe es (es @ fs)"
  using entryLe_refl unfolding effectsLe_def set_append by blast

lemma effectsLe_update: "i < length es \<Longrightarrow> entryLe (es ! i) e \<Longrightarrow> effectsLe es (es[i := e])"
  unfolding effectsLe_def
  by (metis entryLe_refl in_set_conv_nth length_list_update nth_list_update_eq nth_list_update_neq)

text \<open>The entry of an identifier that lists a given use.\<close>

definition hasIdent :: "effect_entry list \<Rightarrow> string \<Rightarrow> string \<Rightarrow> bool \<Rightarrow> bool" where
  "hasIdent es ident uses auto_path \<longleftrightarrow>
     (\<exists>e \<in> set es. \<not> fx_Unknown e \<and> fx_Ident e = ident \<and> uses \<in> oc_uses ` set (fx_occurrences e)
        \<and> (auto_path \<longrightarrow> autonomous (fx_Witness e)))"

definition hasUnknown :: "effect_entry list \<Rightarrow> string \<Rightarrow> bool" where
  "hasUnknown es uses \<longleftrightarrow> (\<exists>e \<in> set es. fx_Unknown e \<and> fx_Uses e = uses)"

lemma hasIdent_mono: "hasIdent es i u a \<Longrightarrow> effectsLe es es' \<Longrightarrow> hasIdent es' i u a"
  unfolding hasIdent_def effectsLe_def entryLe_def by blast

lemma hasUnknown_mono: "hasUnknown es u \<Longrightarrow> effectsLe es es' \<Longrightarrow> hasUnknown es' u"
  unfolding hasUnknown_def effectsLe_def entryLe_def by metis

lemma appendOccurrence_uses:
  "oc_uses ` set (appendOccurrence dst u w) = insert u (oc_uses ` set dst)"
  by (auto simp: appendOccurrence_def list_ex_iff)

lemma addIdent_entry:
  fixes e r
  defines "e' \<equiv> preferAutonomousEffect r
    (e\<lparr>fx_occurrences := appendOccurrence (fx_occurrences e) (gr_uses (rx_grant r)) (rx_witness r)\<rparr>)"
  assumes "\<not> fx_Unknown e"
  shows "entryLe e e'" "\<not> fx_Unknown e'" "fx_Ident e' = fx_Ident e"
    "gr_uses (rx_grant r) \<in> oc_uses ` set (fx_occurrences e')"
    "autonomous (rx_witness r) \<Longrightarrow> autonomous (fx_Witness e')"
  using assms
  by (auto simp: e'_def preferAutonomousEffect_def entryLe_def appendOccurrence_uses)

lemma identInv_append: "identInv es seen \<Longrightarrow> identInv (es @ fs) seen"
  unfolding identInv_def by (metis length_append nth_append trans_less_add1)

lemma identInv_snoc:
  assumes "identInv es seen" "\<not> fx_Unknown e" "fx_Ident e = k"
  shows "identInv (es @ [e]) (put k (length es) seen)"
  unfolding identInv_def
proof (intro allI impI)
  fix k' i
  assume "map_of (put k (length es) seen) k' = Some i"
  then show "i < length (es @ [e]) \<and> fx_Ident ((es @ [e]) ! i) = k' \<and> \<not> fx_Unknown ((es @ [e]) ! i)"
    using assms identInv_append [OF assms(1), of "[e]"]
    by (cases "k' = k") (auto simp: identInv_def)
qed

lemma addIdent_step:
  assumes "identInv es seen" "addIdent r ident (es, seen) = (es', seen')"
  shows "identInv es' seen'" "effectsLe es es'"
    "hasIdent es' ident (gr_uses (rx_grant r)) (autonomous (rx_witness r))"
proof -
  have "identInv es' seen' \<and> effectsLe es es'
      \<and> hasIdent es' ident (gr_uses (rx_grant r)) (autonomous (rx_witness r))"
  proof (cases "map_of seen ident")
    case None
    with assms show ?thesis
      by (auto simp: addIdent_def Let_def hasIdent_def intro!: identInv_snoc)
  next
    case (Some i)
    with assms(1) have i: "i < length es" "fx_Ident (es ! i) = ident" "\<not> fx_Unknown (es ! i)"
      by (auto simp: identInv_def)
    note e = addIdent_entry [OF i(3), of r]
    let ?e = "preferAutonomousEffect r ((es ! i)\<lparr>fx_occurrences :=
      appendOccurrence (fx_occurrences (es ! i)) (gr_uses (rx_grant r)) (rx_witness r)\<rparr>)"
    have es': "es' = es[i := ?e]" "seen' = seen"
      using assms(2) Some by (auto simp: addIdent_def Let_def)
    have "identInv es' seen'"
      using assms(1) i e unfolding es' identInv_def by (auto simp: nth_list_update)
    moreover have "effectsLe es es'" unfolding es' using i(1) e(1) by (rule effectsLe_update)
    moreover have "?e \<in> set es'" unfolding es' using i(1) by (rule set_update_memI)
    ultimately show ?thesis using e i(2) unfolding hasIdent_def by metis
  qed
  then show "identInv es' seen'" "effectsLe es es'"
    "hasIdent es' ident (gr_uses (rx_grant r)) (autonomous (rx_witness r))" by blast+
qed

lemma addIdents_step:
  "identInv es seen \<Longrightarrow> fold (addIdent r) idents (es, seen) = (es', seen') \<Longrightarrow>
     identInv es' seen' \<and> effectsLe es es' \<and>
     (\<forall>i \<in> set idents. hasIdent es' i (gr_uses (rx_grant r)) (autonomous (rx_witness r)))"
proof (induction idents arbitrary: es seen)
  case (Cons i idents)
  obtain es1 seen1 where s: "addIdent r i (es, seen) = (es1, seen1)" by fastforce
  note a = addIdent_step [OF Cons.prems(1) s]
  have b: "identInv es' seen' \<and> effectsLe es1 es' \<and>
      (\<forall>i \<in> set idents. hasIdent es' i (gr_uses (rx_grant r)) (autonomous (rx_witness r)))"
    using Cons.IH [OF a(1)] Cons.prems(2) s by simp
  then show ?case using a effectsLe_trans hasIdent_mono by fastforce
qed simp

text \<open>What one reached operation contributes.\<close>

definition contributes :: "project_graph \<Rightarrow> reached_op \<Rightarrow> effect_entry list \<Rightarrow> bool" where
  "contributes g r es \<longleftrightarrow>
     (let gr = rx_grant r; re = ResolveOperationEffects (gr_tool gr) (gr_op gr) (toolSpecOf g (gr_tool gr))
      in if gr_unknown gr \<or> ro_Unknown re then hasUnknown es (gr_uses gr)
         else \<forall>i \<in> set (ro_Effects re). hasIdent es i (gr_uses gr) (autonomous (rx_witness r)))"

lemma contributes_mono: "contributes g r es \<Longrightarrow> effectsLe es es' \<Longrightarrow> contributes g r es'"
  unfolding contributes_def Let_def
  by (simp split: if_splits) (meson hasIdent_mono hasUnknown_mono)+

lemma addReachedEffects_step:
  assumes "identInv es seen" "addReachedEffects g r (es, seen) = (es', seen')"
  shows "identInv es' seen' \<and> effectsLe es es' \<and> contributes g r es'"
proof -
  have unk: "hasUnknown (es @ [unknownEffect r t]) (gr_uses (rx_grant r))" for t
    by (simp add: hasUnknown_def unknownEffect_def Let_def)
  show ?thesis
    using assms unk
    by (auto simp: addReachedEffects_def contributes_def Let_def identInv_append
        dest: addIdents_step split: if_splits)
qed

lemma fold_effects:
  "identInv es seen \<Longrightarrow>
     fold (\<lambda>key acc. (case map_of first key of None \<Rightarrow> acc | Some r \<Rightarrow> addReachedEffects g r acc))
       order (es, seen) = (es', seen') \<Longrightarrow>
     effectsLe es es' \<and> (\<forall>key \<in> set order. \<forall>r. map_of first key = Some r \<longrightarrow> contributes g r es')"
proof (induction order arbitrary: es seen)
  case (Cons key order)
  show ?case
  proof (cases "map_of first key")
    case None
    with Cons show ?thesis by simp
  next
    case (Some r)
    obtain es1 seen1 where s: "addReachedEffects g r (es, seen) = (es1, seen1)" by fastforce
    note a = addReachedEffects_step [OF Cons.prems(1) s]
    have "effectsLe es1 es' \<and> (\<forall>key \<in> set order. \<forall>r. map_of first key = Some r \<longrightarrow> contributes g r es')"
      using Cons.IH [of es1 seen1] a Cons.prems(2) s Some by simp
    with a Some show ?thesis by (auto intro: effectsLe_trans contributes_mono)
  qed
qed simp

lemma collectEffects_contributes:
  assumes "r \<in> set reached"
  obtains r' where "r' \<in> set reached" "reachedKey r' = reachedKey r"
    "autonomous (rx_witness r) \<longrightarrow> autonomous (rx_witness r')" "contributes g r' (collectEffects g reached)"
proof -
  obtain first order where c: "collectReached reached = (first, order)" by fastforce
  note i = collectReached_inv [OF c]
  from i(1) assms obtain r' where r': "map_of first (reachedKey r) = Some r'" "reachedKey r \<in> set order"
    "autonomous (rx_witness r) \<longrightarrow> autonomous (rx_witness r')" by blast
  obtain es' seen' where f: "fold (\<lambda>key acc. (case map_of first key of
      None \<Rightarrow> acc | Some r \<Rightarrow> addReachedEffects g r acc)) order ([], []) = (es', seen')"
    by fastforce
  have "contributes g r' es'"
    using fold_effects [OF _ f] r' by (simp add: identInv_def)
  then have "contributes g r' (collectEffects g reached)"
    by (simp add: collectEffects_def c f)
  with r' i(2) that show ?thesis by blast
qed

subsection \<open>Bounds of workflows and agents\<close>

definition grantOk :: "grant \<Rightarrow> bool" where
  "grantOk gr \<longleftrightarrow>
     (if gr_unknown gr then gr_tool gr = [] \<and> gr_op gr = []
      else ParseUses (gr_uses gr) = Inr (gr_tool gr, gr_op gr))"

lemma grantOk_parse [simp]: "grantOk (parseGrant u)" "grantOk (unknownGrant u)"
  by (auto simp: grantOk_def parseGrant_def unknownGrant_def split: sum.split)

lemma grantOk_advertised: "gr \<in> set (advertisedGrants g agent) \<Longrightarrow> grantOk gr"
  by (auto simp: advertisedGrants_def Let_def split: sum.splits if_splits)

lemma grantOk_agent: "gr \<in> agentGrants g a \<Longrightarrow> grantOk gr"
  by (auto simp: agentGrants_def grantOk_advertised split: option.splits)

lemma grantOk_reaches: "reachesGrant g calls rt gr \<Longrightarrow> grantOk gr"
  by (auto elim!: reachesGrantE simp: stepGrants_def grantOk_agent split: if_splits)

lemma ParseUses_not_Inr: "ParseUses [] \<noteq> Inr x" "ParseUses [CHR 0x00] \<noteq> Inr x"
proof -
  have "ParseUses [] = Inl (UsesPrefixMissing [])" by code_simp
  then show "ParseUses [] \<noteq> Inr x" by simp
  have "ParseUses [CHR 0x00] = Inl (UsesPrefixMissing [CHR 0x00])" by code_simp
  then show "ParseUses [CHR 0x00] \<noteq> Inr x" by simp
qed

text \<open>The key of a well-formed operation is its uses string, and no unknown grant hides behind it.\<close>

lemma reachedKey_known:
  assumes "grantOk (rx_grant r)" "\<not> gr_unknown (rx_grant r)"
  shows "reachedKey r = gr_uses (rx_grant r)"
  using assms ParseUses_not_Inr by (auto simp: grantOk_def reachedKey_def Let_def)

lemma same_key:
  assumes "grantOk (rx_grant r)" "grantOk (rx_grant r')" "reachedKey r' = reachedKey r"
  shows "ParseUses (gr_uses (rx_grant r)) = Inr (t, op) \<Longrightarrow> gr_uses (rx_grant r') = gr_uses (rx_grant r)"
    and "ParseUses (gr_uses (rx_grant r)) = Inl err \<Longrightarrow> gr_unknown (rx_grant r')"
proof -
  have key: "reachedKey x = (if gr_uses (rx_grant x) = [] then [CHR 0x00] else gr_uses (rx_grant x))"
    if "grantOk (rx_grant x)" for x
    using that ParseUses_not_Inr by (auto simp: grantOk_def reachedKey_def Let_def split: if_splits)
  note k = key [OF assms(1)] key [OF assms(2)]
  show "gr_uses (rx_grant r') = gr_uses (rx_grant r)"
    if "ParseUses (gr_uses (rx_grant r)) = Inr (t, op)"
    using that assms(3) k ParseUses_not_Inr by (auto split: if_splits)
  show "gr_unknown (rx_grant r')" if "ParseUses (gr_uses (rx_grant r)) = Inl err"
  proof (rule ccontr)
    assume "\<not> gr_unknown (rx_grant r')"
    with assms(2) have p: "ParseUses (gr_uses (rx_grant r')) = Inr (gr_tool (rx_grant r'), gr_op (rx_grant r'))"
      by (simp add: grantOk_def)
    with ParseUses_not_Inr that assms(3) k show False by (auto split: if_splits)
  qed
qed

text \<open>What a bound says of one operation.\<close>

definition boundCovers :: "project_graph \<Rightarrow> bound \<Rightarrow> grant \<Rightarrow> bool" where
  "boundCovers g b gr \<longleftrightarrow>
     (case ParseUses (gr_uses gr) of
        Inl _ \<Rightarrow> (\<exists>e \<in> set (b_Effects b). fx_Unknown e)
      | Inr (t, op) \<Rightarrow>
          (let re = ResolveOperationEffects t op (toolSpecOf g t)
           in hasUnknown (b_Effects b) (gr_uses gr)
              \<or> (\<not> ro_Unknown re
                 \<and> (\<forall>i \<in> set (ro_Effects re). hasIdent (b_Effects b) i (gr_uses gr) False))))"

lemma hasIdent_weaken: "hasIdent es i u a \<Longrightarrow> hasIdent es i u False"
  by (auto simp: hasIdent_def)

lemma effects_sort [simp]:
  "hasIdent (sort_key f es) i u a \<longleftrightarrow> hasIdent es i u a" "hasUnknown (sort_key f es) u \<longleftrightarrow> hasUnknown es u"
  by (simp_all add: hasIdent_def hasUnknown_def)

lemma finish_covers:
  assumes "\<forall>r \<in> set reached. grantOk (rx_grant r)" "r \<in> set reached"
  shows "boundCovers g (finish g kind name reached) (rx_grant r)"
proof -
  obtain r' where r': "r' \<in> set reached" "reachedKey r' = reachedKey r"
    "contributes g r' (collectEffects g reached)"
    using collectEffects_contributes [OF assms(2)] by metis
  let ?es = "collectEffects g reached"
  have ok: "grantOk (rx_grant r)" "grantOk (rx_grant r')" using assms r'(1) by auto
  note k = same_key [OF ok r'(2)]
  show ?thesis
  proof (cases "ParseUses (gr_uses (rx_grant r))")
    case (Inl err)
    with k(2) r'(3) have "hasUnknown ?es (gr_uses (rx_grant r'))" by (auto simp: contributes_def Let_def)
    with Inl show ?thesis by (auto simp: boundCovers_def finish_def hasUnknown_def)
  next
    case (Inr p)
    obtain t op where p: "p = (t, op)" by fastforce
    with Inr k(1) have u: "gr_uses (rx_grant r') = gr_uses (rx_grant r)" by blast
    show ?thesis
    proof (cases "gr_unknown (rx_grant r')")
      case True
      with r'(3) u Inr p show ?thesis
        by (simp add: boundCovers_def finish_def contributes_def Let_def)
    next
      case False
      then have "gr_tool (rx_grant r') = t" "gr_op (rx_grant r') = op"
        using ok(2) u Inr p by (simp_all add: grantOk_def)
      with False r'(3) u Inr p hasIdent_weaken show ?thesis
        by (fastforce simp: boundCovers_def finish_def contributes_def Let_def split: if_splits)
    qed
  qed
qed

lemma boundWorkflow_covers:
  assumes "reachesGrant g calls rt gr"
  shows "boundCovers g (boundWorkflow g rt calls) gr"
proof -
  have "\<forall>r \<in> set (wk_reached (rootWalk g calls rt)). grantOk (rx_grant r)"
    using rootWalk_exact [of g calls rt] grantOk_reaches by (fastforce simp: grantsIn_def)
  moreover have "gr \<in> grantsIn (rootWalk g calls rt)" using assms by (simp add: rootWalk_exact)
  then obtain r where "r \<in> set (wk_reached (rootWalk g calls rt))" "rx_grant r = gr"
    by (auto simp: grantsIn_def)
  ultimately show ?thesis unfolding boundWorkflow_def using finish_covers by blast
qed

lemma agentWalk_grants:
  "grantsIn (walkAgent g [] name pre emptyWalk) = agentGrants g name"
  by (auto simp: walkAgent_def emptyWalk_def Let_def agentGrants_def grantsIn_def [of "\<lparr>wk_seen = [], wk_reached = []\<rparr>"]
      split: option.splits)

lemma boundAgent_covers:
  assumes "gr \<in> agentGrants g name"
  shows "boundCovers g (boundAgent g name) gr"
proof -
  let ?w = "walkAgent g [] name [mkHop KindAgent name Static] emptyWalk"
  have "\<forall>r \<in> set (wk_reached ?w). grantOk (rx_grant r)"
    using agentWalk_grants [of g name] grantOk_agent by (fastforce simp: grantsIn_def)
  moreover have "gr \<in> grantsIn ?w" using assms by (simp add: agentWalk_grants)
  then obtain r where "r \<in> set (wk_reached ?w)" "rx_grant r = gr" by (auto simp: grantsIn_def)
  ultimately show ?thesis unfolding boundAgent_def using finish_covers by blast
qed

subsection \<open>Properties\<close>

text \<open>
  C24. The effect bound of a workflow leaves out no effect: for every reachable operation
  the bound has an entry for each declared effect that lists the operation, or an explicit
  unknown entry for it; a reachable use that names no operation makes the bound unknown.
\<close>

theorem workflow_bound_complete:
  assumes "reachesGrant g calls name gr"
  shows "boundCovers g (boundWorkflow g name calls) gr"
  using assms by (rule boundWorkflow_covers)

definition demo_fs :: tool_resource where
  "demo_fs = \<lparr>tr_Name = ''fs'', tr_Spec = \<lparr>ts_Type = ''mcp'', ts_Safety = Some
     \<lparr>sf_Trusted = Some True, sf_SideEffects = None, sf_RequiresApproval = None\<rparr>,
     ts_Operations = [(''read'', \<lparr>op_Effects = [''workspace.read''], op_Schema = []\<rparr>)],
     ts_OperationsDeclared = True\<rparr>\<rparr>"

definition demo_use :: "string \<Rightarrow> string \<Rightarrow> workflow_step" where
  "demo_use i u = \<lparr>st_ID = i, st_Uses = u, st_Agent = [], st_Workflow = [], st_Approval = None,
     st_Needs = [], st_NeedsDeclared = False\<rparr>"

definition demo_workflow :: "workflow_step list \<Rightarrow> workflow_resource" where
  "demo_workflow steps = \<lparr>wr_Name = ''main'', wr_Spec = \<lparr>ws_Policy = ''p'', ws_Steps = steps\<rparr>\<rparr>"

definition demo_effect_graph :: "workflow_step list \<Rightarrow> project_graph" where
  "demo_effect_graph steps = \<lparr>g_Defaults = None, g_Agents = [], g_Tools = Some [(''fs'', Some demo_fs)],
     g_Workflows = [(''main'', Some (demo_workflow steps))],
     g_Policies = [(''p'', Some \<lparr>pr_Name = ''p'', pr_Spec = zero_policy\<lparr>ps_Effects := Some
       \<lparr>px_Permit = [''workspace''], px_PermitWithApproval = []\<rparr>\<rparr>\<rparr>)]\<rparr>"

lemma demo_reaches:
  assumes "TrimSpace u \<noteq> []" "demo_use i u \<in> set steps"
  shows "reachesGrant (demo_effect_graph steps) [] ''main'' (parseGrant (TrimSpace u))"
proof (rule reachesGrant.step [OF reachesWorkflow.start])
  show "deref (g_Workflows (demo_effect_graph steps)) ''main'' = Some (demo_workflow steps)"
    by (simp add: demo_effect_graph_def deref_def)
  show "demo_use i u \<in> set (ws_Steps (wr_Spec (demo_workflow steps)))"
    using assms(2) by (simp add: demo_workflow_def)
  show "parseGrant (TrimSpace u) \<in> stepGrants (demo_effect_graph steps) (demo_use i u)"
    using assms(1) by (simp add: stepGrants_def demo_use_def)
qed

theorem workflow_bound_complete_witness:
  "boundCovers (demo_effect_graph [demo_use ''a'' ''tool.fs.read''])
     (boundWorkflow (demo_effect_graph [demo_use ''a'' ''tool.fs.read'']) ''main'' [])
     (parseGrant (TrimSpace ''tool.fs.read''))"
proof (rule workflow_bound_complete, rule demo_reaches)
  show "TrimSpace ''tool.fs.read'' \<noteq> []" by code_simp
qed simp

text \<open>
  C34. Witness paths are path-maximal: if any reached occurrence of an operation is an
  agent's autonomous choice, the entry of each of its declared effects shows an autonomous
  path, unless the operation is reported as unknown.
\<close>

theorem autonomous_paths_are_shown:
  assumes "r \<in> set (wk_reached (rootWalk g calls name))" "autonomous (rx_witness r)"
    and "ParseUses (gr_uses (rx_grant r)) = Inr (t, op)"
    and "i \<in> set (ro_Effects (ResolveOperationEffects t op (toolSpecOf g t)))"
  shows "hasUnknown (b_Effects (boundWorkflow g name calls)) (gr_uses (rx_grant r))
    \<or> hasIdent (b_Effects (boundWorkflow g name calls)) i (gr_uses (rx_grant r)) True"
proof -
  let ?reached = "wk_reached (rootWalk g calls name)"
  have ok: "grantOk (rx_grant x)" if "x \<in> set ?reached" for x
    using that rootWalk_exact [of g calls name] grantOk_reaches by (fastforce simp: grantsIn_def)
  obtain r' where r': "r' \<in> set ?reached" "reachedKey r' = reachedKey r" "autonomous (rx_witness r')"
    "contributes g r' (collectEffects g ?reached)"
    using collectEffects_contributes [OF assms(1)] assms(2) by metis
  have u: "gr_uses (rx_grant r') = gr_uses (rx_grant r)"
    using same_key(1) [OF ok [OF assms(1)] ok [OF r'(1)] r'(2) assms(3)] .
  show ?thesis
  proof (cases "gr_unknown (rx_grant r')")
    case True
    with r'(4) u show ?thesis by (simp add: contributes_def boundWorkflow_def finish_def Let_def)
  next
    case False
    then have "gr_tool (rx_grant r') = t" "gr_op (rx_grant r') = op"
      using ok [OF r'(1)] u assms(3) by (simp_all add: grantOk_def)
    with False r'(3,4) u assms(4) show ?thesis
      by (auto simp: contributes_def boundWorkflow_def finish_def Let_def split: if_splits)
  qed
qed

definition demo_chooser_graph :: project_graph where
  "demo_chooser_graph = (demo_effect_graph
     [demo_use ''a'' ''tool.fs.read'', (demo_use ''b'' [])\<lparr>st_Agent := ''bot''\<rparr>])
     \<lparr>g_Agents := [(''bot'', Some \<lparr>ar_Name = ''bot'', ar_Spec = \<lparr>as_Model = [], as_Tools = [''tool.fs.read''],
       as_Policy = [], as_Constraints = None\<rparr>\<rparr>)]\<rparr>"

theorem autonomous_paths_are_shown_witness:
  "hasUnknown (b_Effects (boundWorkflow demo_chooser_graph ''main'' [])) ''tool.fs.read''
   \<or> hasIdent (b_Effects (boundWorkflow demo_chooser_graph ''main'' [])) ''workspace.read'' ''tool.fs.read'' True"
proof -
  let ?r = "wk_reached (rootWalk demo_chooser_graph [] ''main'') ! 1"
  have l: "1 < length (wk_reached (rootWalk demo_chooser_graph [] ''main''))" by code_simp
  have a: "autonomous (rx_witness ?r)" by code_simp
  have u: "gr_uses (rx_grant ?r) = ''tool.fs.read''" by code_simp
  have p: "ParseUses (gr_uses (rx_grant ?r)) = Inr (''fs'', ''read'')" by code_simp
  have i: "''workspace.read'' \<in> set (ro_Effects (ResolveOperationEffects ''fs'' ''read''
      (toolSpecOf demo_chooser_graph ''fs'')))" by code_simp
  from autonomous_paths_are_shown [OF nth_mem [OF l] a p i] show ?thesis unfolding u .
qed

end
