(* ===== verification/Spec_Presets.thy ===== *)
theory Spec_Presets
  imports Spec_Types
begin

text \<open>
  Built-in policy presets (\<open>internal/spec/policy_presets.go\<close>) and their expansion in a
  project graph (\<open>internal/spec/policy_expand.go\<close>).
\<close>

abbreviation PresetStrict :: string where "PresetStrict \<equiv> ''strict''"
abbreviation PresetPermissive :: string where "PresetPermissive \<equiv> ''permissive''"
abbreviation PresetShellSafe :: string where "PresetShellSafe \<equiv> ''shell_safe''"

subsection \<open>Approval flags\<close>

definition ApprovalPermissive :: "policy_approvals option \<Rightarrow> bool" where
  "ApprovalPermissive a = (case a of None \<Rightarrow> False | Some p \<Rightarrow> pa_Permissive p = Some True)"

definition ApprovalRequireAllTools :: "policy_approvals option \<Rightarrow> bool" where
  "ApprovalRequireAllTools a = (case a of None \<Rightarrow> False | Some p \<Rightarrow> pa_RequireAllTools p = Some True)"

definition ResolvedPresetName :: "policy_spec option \<Rightarrow> string" where
  "ResolvedPresetName pol =
     (case pol of
        None \<Rightarrow> []
      | Some p \<Rightarrow> if ps_ResolvedPreset p \<noteq> [] then ps_ResolvedPreset p else TrimSpace (ps_Preset p))"

subsection \<open>Presets\<close>

definition buildStrictPreset :: policy_spec where
  "buildStrictPreset = zero_policy\<lparr>ps_ResolvedPreset := PresetStrict,
     ps_Approvals := Some (zero_approvals\<lparr>pa_RequireAllTools := Some True\<rparr>)\<rparr>"

definition buildPermissivePreset :: policy_spec where
  "buildPermissivePreset = zero_policy\<lparr>ps_ResolvedPreset := PresetPermissive,
     ps_Approvals := Some (zero_approvals\<lparr>pa_Permissive := Some True\<rparr>)\<rparr>"

definition buildShellSafePreset :: policy_spec where
  "buildShellSafePreset = zero_policy\<lparr>ps_ResolvedPreset := PresetShellSafe\<rparr>"

definition builtinPresetBuilders :: "policy_spec gomap" where
  "builtinPresetBuilders =
     [(PresetStrict, buildStrictPreset), (PresetPermissive, buildPermissivePreset),
      (PresetShellSafe, buildShellSafePreset)]"

definition BuiltinPresetNames :: "string list" where
  "BuiltinPresetNames = sort (keys builtinPresetBuilders)"

definition IsBuiltinPreset :: "string \<Rightarrow> bool" where
  "IsBuiltinPreset name0 =
     (let name = TrimSpace name0 in
      if name = [] then False else map_of builtinPresetBuilders name \<noteq> None)"

datatype preset_error = ErrUnknownPreset string

definition BuildPreset :: "string \<Rightarrow> (preset_error, policy_spec) result" where
  "BuildPreset name0 =
     (let name = TrimSpace name0 in
      case map_of builtinPresetBuilders name of
        None \<Rightarrow> Inl (ErrUnknownPreset name)
      | Some p \<Rightarrow> Inr p)"

subsection \<open>Layering a policy on its preset\<close>

definition toolNameFromPresetRequiredFor :: "string \<Rightarrow> string" where
  "toolNameFromPresetRequiredFor entry0 =
     (let entry = TrimSpace entry0 in
      if \<not> prefix ''tool.'' entry then []
      else let rest = TrimPrefix entry ''tool.'' in
        case IndexByte rest CHR ''.'' of
          None \<Rightarrow> []
        | Some i \<Rightarrow> if i = 0 then [] else take i rest)"

definition mergePresetRequiredFor :: "string list \<Rightarrow> string list \<Rightarrow> string list" where
  "mergePresetRequiredFor base overlay =
     (if overlay = [] then base
      else if base = [] then overlay
      else
        let overrideTools = filter (\<lambda>tn. tn \<noteq> []) (map toolNameFromPresetRequiredFor overlay);
            kept = filter (\<lambda>r. let tn = toolNameFromPresetRequiredFor r
                               in \<not> (tn \<noteq> [] \<and> tn \<in> set overrideTools)) base
        in trimDedup (sort (kept @ overlay)))"

definition mergeOptionalBool :: "bool option \<Rightarrow> bool option \<Rightarrow> bool option" where
  "mergeOptionalBool base overlay = (case overlay of Some b \<Rightarrow> Some b | None \<Rightarrow> base)"

text \<open>
  \<open>RequiredFor == nil\<close> holds for the merged list exactly when both input lists are empty.
\<close>

definition mergePolicyApprovals ::
  "policy_approvals option \<Rightarrow> policy_approvals option \<Rightarrow> policy_approvals option" where
  "mergePolicyApprovals base overlay =
     (case overlay of
        None \<Rightarrow> base
      | Some ov \<Rightarrow>
          let b = (case base of None \<Rightarrow> zero_approvals | Some b \<Rightarrow> b);
              requireAll = mergeOptionalBool (pa_RequireAllTools b) (pa_RequireAllTools ov);
              permissive = mergeOptionalBool (pa_Permissive b) (pa_Permissive ov)
          in if pa_RequiredFor b = [] \<and> pa_RequiredFor ov = [] \<and> requireAll = None \<and> permissive = None
             then None
             else Some \<lparr>pa_RequiredFor = mergePresetRequiredFor (pa_RequiredFor b) (pa_RequiredFor ov),
                        pa_RequireAllTools = requireAll, pa_Permissive = permissive\<rparr>)"

definition MergePolicySpec :: "policy_spec \<Rightarrow> policy_spec \<Rightarrow> policy_spec" where
  "MergePolicySpec base overlay =
     (let out = base;
          out = (if ps_Execution overlay \<noteq> None then out\<lparr>ps_Execution := ps_Execution overlay\<rparr> else out);
          out = (if ps_Tools overlay \<noteq> None then out\<lparr>ps_Tools := ps_Tools overlay\<rparr> else out);
          out = (if ps_Approvals overlay \<noteq> None
                 then out\<lparr>ps_Approvals := mergePolicyApprovals (ps_Approvals base) (ps_Approvals overlay)\<rparr>
                 else out);
          out = (if ps_Effects overlay \<noteq> None then out\<lparr>ps_Effects := ps_Effects overlay\<rparr> else out);
          out = (if ps_ResolvedPreset overlay \<noteq> []
                 then out\<lparr>ps_ResolvedPreset := ps_ResolvedPreset overlay\<rparr> else out)
      in out)"

definition ResolvePolicySpec ::
  "policy_spec option \<Rightarrow> (preset_error, policy_spec option) result" where
  "ResolvePolicySpec pol =
     (case pol of
        None \<Rightarrow> Inr None
      | Some p \<Rightarrow>
          let presetName = TrimSpace (ps_Preset p) in
          if presetName = [] then Inr (Some p)
          else case BuildPreset presetName of
              Inl e \<Rightarrow> Inl e
            | Inr base \<Rightarrow>
                Inr (Some ((MergePolicySpec base p)\<lparr>ps_Preset := presetName,
                            ps_ResolvedPreset := presetName\<rparr>)))"

subsection \<open>Expansion in the graph\<close>

text \<open>The names are collected into a set; the list stands for one iteration order of it.\<close>

definition collectReferencedPolicyNames :: "project_graph \<Rightarrow> string list" where
  "collectReferencedPolicyNames g =
     trimDedup
       ((case g_Defaults g of None \<Rightarrow> [] | Some d \<Rightarrow> [pd_Policy d])
        @ List.map_filter (\<lambda>(_, ar). map_option (\<lambda>a. as_Policy (ar_Spec a)) ar) (g_Agents g)
        @ List.map_filter (\<lambda>(_, wr). map_option (\<lambda>w. ws_Policy (wr_Spec w)) wr) (g_Workflows g)
        @ keys (g_Policies g))"

definition resolvePolicyResourcePreset ::
  "policy_spec \<Rightarrow> (preset_error, policy_spec option) result" where
  "resolvePolicyResourcePreset pol =
     (let presetName = TrimSpace (ps_Preset pol) in
      if presetName = [] \<or> ps_ResolvedPreset pol \<noteq> [] then Inr None
      else if \<not> IsBuiltinPreset presetName then Inr None
      else ResolvePolicySpec (Some pol))"

definition addPreset :: "string \<Rightarrow> policy_resource option gomap \<Rightarrow> policy_resource option gomap" where
  "addPreset name pols =
     (if \<not> IsBuiltinPreset name then pols
      else if map_of pols name \<noteq> None then pols
      else case BuildPreset name of
          Inl _ \<Rightarrow> put name (Some \<lparr>pr_Name = name, pr_Spec = zero_policy\<rparr>) pols
        | Inr preset \<Rightarrow> put name (Some \<lparr>pr_Name = name, pr_Spec = preset\<rparr>) pols)"

definition expandResource :: "policy_resource option \<Rightarrow> policy_resource option" where
  "expandResource pr =
     (case pr of
        None \<Rightarrow> None
      | Some r \<Rightarrow>
          (case resolvePolicyResourcePreset (pr_Spec r) of
             Inr (Some resolved) \<Rightarrow> Some (r\<lparr>pr_Spec := resolved\<rparr>)
           | _ \<Rightarrow> Some r))"

definition ExpandPresetsInGraph :: "project_graph \<Rightarrow> project_graph" where
  "ExpandPresetsInGraph g =
     (let pols = fold addPreset (collectReferencedPolicyNames g) (g_Policies g)
      in g\<lparr>g_Policies := map (\<lambda>(k, pr). (k, expandResource pr)) pols\<rparr>)"

subsection \<open>Facts\<close>

lemma BuildPreset_cases:
  assumes "BuildPreset n = Inr p"
  obtains "TrimSpace n = PresetStrict" "p = buildStrictPreset"
  | "TrimSpace n = PresetPermissive" "p = buildPermissivePreset"
  | "TrimSpace n = PresetShellSafe" "p = buildShellSafePreset"
  using assms
  by (auto simp: BuildPreset_def builtinPresetBuilders_def Let_def split: option.splits if_splits)

lemmas preset_defs = buildStrictPreset_def buildPermissivePreset_def buildShellSafePreset_def
  zero_policy_def zero_approvals_def

lemma BuildPreset_fields:
  assumes "BuildPreset n = Inr p"
  shows "ps_ResolvedPreset p = TrimSpace n" "ps_Hitl p = None" "ps_Effects p = None"
    "ps_Execution p = None" "ps_Tools p = None"
  using assms by (auto elim!: BuildPreset_cases simp: preset_defs)

lemma MergePolicySpec_fields:
  "ps_Hitl (MergePolicySpec base ov) = ps_Hitl base"
  "ps_Execution (MergePolicySpec base ov) =
     (if ps_Execution ov = None then ps_Execution base else ps_Execution ov)"
  "ps_Tools (MergePolicySpec base ov) = (if ps_Tools ov = None then ps_Tools base else ps_Tools ov)"
  "ps_Effects (MergePolicySpec base ov) = (if ps_Effects ov = None then ps_Effects base else ps_Effects ov)"
  "ps_Approvals (MergePolicySpec base ov) =
     (if ps_Approvals ov = None then ps_Approvals base
      else mergePolicyApprovals (ps_Approvals base) (ps_Approvals ov))"
  by (auto simp: MergePolicySpec_def Let_def)

lemma ResolvePolicySpec_presetD:
  assumes "ResolvePolicySpec (Some p) = Inr (Some m)" "TrimSpace (ps_Preset p) \<noteq> []"
  obtains base where "BuildPreset (TrimSpace (ps_Preset p)) = Inr base"
    "m = (MergePolicySpec base p)\<lparr>ps_Preset := TrimSpace (ps_Preset p),
        ps_ResolvedPreset := TrimSpace (ps_Preset p)\<rparr>"
  using assms by (auto simp: ResolvePolicySpec_def Let_def split: sum.splits)

lemma ResolvePolicySpec_resolved:
  "ResolvePolicySpec (Some p) = Inr (Some m) \<Longrightarrow> TrimSpace (ps_Preset p) \<noteq> [] \<Longrightarrow>
     ps_ResolvedPreset m = TrimSpace (ps_Preset p)"
  by (auto elim: ResolvePolicySpec_presetD)

subsection \<open>Properties\<close>

text \<open>
  Every policy that names a built-in preset loses its \<open>hitl\<close> block when it is resolved:
  \<open>MergePolicySpec\<close> starts from the preset, which has none, and copies no \<open>Hitl\<close> from the
  author's policy, so its review rules, edit denials and redaction keys have no effect.
\<close>

theorem preset_drops_hitl:
  assumes "ResolvePolicySpec (Some p) = Inr (Some m)" "TrimSpace (ps_Preset p) \<noteq> []"
  shows "ps_Hitl m = None"
  using assms by (auto elim!: ResolvePolicySpec_presetD simp: MergePolicySpec_fields BuildPreset_fields)

definition demo_preset_policy :: policy_spec where
  "demo_preset_policy = zero_policy\<lparr>ps_Preset := ''strict'', ps_Hitl := Some
     \<lparr>hp_InterruptOn = [], hp_DescriptionPrefix = [], hp_ToolSwitchMap = [], hp_RedactKeys = [''token'']\<rparr>\<rparr>"

theorem preset_drops_hitl_witness:
  "\<exists>m. ResolvePolicySpec (Some demo_preset_policy) = Inr (Some m)
     \<and> ps_Hitl demo_preset_policy \<noteq> None \<and> ps_Hitl m = None"
proof -
  let ?m = "(MergePolicySpec buildStrictPreset demo_preset_policy)
    \<lparr>ps_Preset := ''strict'', ps_ResolvedPreset := ''strict''\<rparr>"
  have t: "TrimSpace ''strict'' = ''strict''" by code_simp
  have "BuildPreset ''strict'' = Inr buildStrictPreset"
    by (simp add: BuildPreset_def builtinPresetBuilders_def t)
  then have r: "ResolvePolicySpec (Some demo_preset_policy) = Inr (Some ?m)"
    by (simp add: ResolvePolicySpec_def demo_preset_policy_def zero_policy_def t Let_def)
  have "ps_Hitl ?m = None"
    by (rule preset_drops_hitl [OF r]) (simp add: demo_preset_policy_def t)
  with r show ?thesis by (simp add: demo_preset_policy_def)
qed

end
