(* ===== verification/Spec_Limits.thy ===== *)
theory Spec_Limits
  imports Spec_Types
begin

text \<open>
  Bounds: agent iteration and token limits (\<open>internal/spec/constraints.go\<close>) and the byte,
  nesting and loop limits merged over project, workflow and tool
  (\<open>internal/spec/limits.go\<close>).
\<close>

subsection \<open>Iteration and token bounds\<close>

definition DefaultAgentMaxIterations :: int where "DefaultAgentMaxIterations = 8"
definition HardAgentMaxIterations :: int where "HardAgentMaxIterations = 32"
definition DefaultAgentMaxTokens :: int where "DefaultAgentMaxTokens = 16384"

definition EffectiveMaxIterationsCeiling :: "int \<Rightarrow> int" where
  "EffectiveMaxIterationsCeiling n = (if 0 < n then n else HardAgentMaxIterations)"

definition ResolveMaxIterations :: "agent_constraints option \<Rightarrow> int \<Rightarrow> int" where
  "ResolveMaxIterations c policyCeiling =
     (let ceiling = EffectiveMaxIterationsCeiling policyCeiling;
          n = (case c of
                 Some k \<Rightarrow> if 0 < ac_MaxIterations k then ac_MaxIterations k else DefaultAgentMaxIterations
               | None \<Rightarrow> DefaultAgentMaxIterations)
      in if ceiling < n then ceiling else n)"

definition PolicyMaxIterations :: "policy_execution option \<Rightarrow> int" where
  "PolicyMaxIterations exec = (case exec of None \<Rightarrow> 0 | Some e \<Rightarrow> pe_MaxIterations e)"

definition ResolveMaxTokens :: "agent_constraints option \<Rightarrow> int" where
  "ResolveMaxTokens c =
     (case c of
        Some k \<Rightarrow> if 0 < ac_MaxTokens k then ac_MaxTokens k else DefaultAgentMaxTokens
      | None \<Rightarrow> DefaultAgentMaxTokens)"

subsection \<open>Execution limits\<close>

abbreviation LimitExceedTruncate :: string where "LimitExceedTruncate \<equiv> ''truncate''"
abbreviation LimitExceedFail :: string where "LimitExceedFail \<equiv> ''fail''"

record execution_limits =
  el_MaxToolInputBytes :: int
  el_MaxToolOutputBytes :: int
  el_MaxCheckpointBytes :: int
  el_MaxStateBytes :: int
  el_MaxWorkflowNesting :: int
  el_MaxLoopIterations :: int
  el_ToolInputExceedPolicy :: string
  el_ToolOutputExceedPolicy :: string
  el_CheckpointExceedPolicy :: string

record resolved_limits =
  rl_MaxToolInputBytes :: int
  rl_MaxToolOutputBytes :: int
  rl_MaxCheckpointBytes :: int
  rl_MaxWorkflowNesting :: int
  rl_MaxLoopIterations :: int
  rl_ToolInputExceedPolicy :: string
  rl_ToolOutputExceedPolicy :: string
  rl_CheckpointExceedPolicy :: string

definition DefaultExecutionLimits :: resolved_limits where
  "DefaultExecutionLimits =
     \<lparr>rl_MaxToolInputBytes = 262144, rl_MaxToolOutputBytes = 262144,
      rl_MaxCheckpointBytes = 1048576, rl_MaxWorkflowNesting = 8, rl_MaxLoopIterations = 1000,
      rl_ToolInputExceedPolicy = LimitExceedTruncate,
      rl_ToolOutputExceedPolicy = LimitExceedTruncate,
      rl_CheckpointExceedPolicy = LimitExceedFail\<rparr>"

definition NormalizeExecutionLimits :: "execution_limits \<Rightarrow> execution_limits" where
  "NormalizeExecutionLimits l =
     (if el_MaxCheckpointBytes l \<le> 0 \<and> 0 < el_MaxStateBytes l
      then l\<lparr>el_MaxCheckpointBytes := el_MaxStateBytes l\<rparr> else l)"

definition orPos :: "int \<Rightarrow> int \<Rightarrow> int" where
  "orPos new old = (if 0 < new then new else old)"

definition orNonblank :: "string \<Rightarrow> string \<Rightarrow> string" where
  "orNonblank new old = (let p = TrimSpace new in if p \<noteq> [] then p else old)"

definition MergeExecutionLimits ::
  "execution_limits \<Rightarrow> execution_limits option \<Rightarrow> execution_limits" where
  "MergeExecutionLimits base override =
     (case override of
        None \<Rightarrow> base
      | Some o0 \<Rightarrow>
          let ov = NormalizeExecutionLimits o0 in
          NormalizeExecutionLimits
            (base\<lparr>el_MaxToolInputBytes := orPos (el_MaxToolInputBytes ov) (el_MaxToolInputBytes base),
                  el_MaxToolOutputBytes := orPos (el_MaxToolOutputBytes ov) (el_MaxToolOutputBytes base),
                  el_MaxCheckpointBytes := orPos (el_MaxCheckpointBytes ov) (el_MaxCheckpointBytes base),
                  el_MaxWorkflowNesting := orPos (el_MaxWorkflowNesting ov) (el_MaxWorkflowNesting base),
                  el_MaxLoopIterations := orPos (el_MaxLoopIterations ov) (el_MaxLoopIterations base),
                  el_ToolInputExceedPolicy :=
                    orNonblank (el_ToolInputExceedPolicy ov) (el_ToolInputExceedPolicy base),
                  el_ToolOutputExceedPolicy :=
                    orNonblank (el_ToolOutputExceedPolicy ov) (el_ToolOutputExceedPolicy base),
                  el_CheckpointExceedPolicy :=
                    orNonblank (el_CheckpointExceedPolicy ov) (el_CheckpointExceedPolicy base)\<rparr>))"

definition limitsOfDefaults :: execution_limits where
  "limitsOfDefaults =
     (let def = DefaultExecutionLimits in
      \<lparr>el_MaxToolInputBytes = rl_MaxToolInputBytes def,
       el_MaxToolOutputBytes = rl_MaxToolOutputBytes def,
       el_MaxCheckpointBytes = rl_MaxCheckpointBytes def,
       el_MaxStateBytes = 0,
       el_MaxWorkflowNesting = rl_MaxWorkflowNesting def,
       el_MaxLoopIterations = rl_MaxLoopIterations def,
       el_ToolInputExceedPolicy = rl_ToolInputExceedPolicy def,
       el_ToolOutputExceedPolicy = rl_ToolOutputExceedPolicy def,
       el_CheckpointExceedPolicy = rl_CheckpointExceedPolicy def\<rparr>)"

text \<open>The three optional blocks are the \<open>Limits\<close> fields of the project, workflow and tool.\<close>

definition ResolveExecutionLimits ::
  "execution_limits option \<Rightarrow> execution_limits option \<Rightarrow> execution_limits option \<Rightarrow> resolved_limits" where
  "ResolveExecutionLimits project workflow tool =
     (let merged = MergeExecutionLimits
            (MergeExecutionLimits (MergeExecutionLimits limitsOfDefaults project) workflow) tool in
      \<lparr>rl_MaxToolInputBytes = el_MaxToolInputBytes merged,
       rl_MaxToolOutputBytes = el_MaxToolOutputBytes merged,
       rl_MaxCheckpointBytes = el_MaxCheckpointBytes merged,
       rl_MaxWorkflowNesting = el_MaxWorkflowNesting merged,
       rl_MaxLoopIterations = el_MaxLoopIterations merged,
       rl_ToolInputExceedPolicy = el_ToolInputExceedPolicy merged,
       rl_ToolOutputExceedPolicy = el_ToolOutputExceedPolicy merged,
       rl_CheckpointExceedPolicy = el_CheckpointExceedPolicy merged\<rparr>)"

definition ResolveMaxWorkflowNesting ::
  "execution_limits option \<Rightarrow> execution_limits option \<Rightarrow> int" where
  "ResolveMaxWorkflowNesting project workflow =
     rl_MaxWorkflowNesting (ResolveExecutionLimits project workflow None)"

datatype limit_error =
    LimitNegative string int | ExceedPolicyInvalid string string | CheckpointTruncateUnsafe

definition validateLimitBytes :: "string \<Rightarrow> int \<Rightarrow> limit_error option" where
  "validateLimitBytes field n = (if n < 0 then Some (LimitNegative field n) else None)"

definition validateExceedPolicy :: "string \<Rightarrow> string \<Rightarrow> limit_error option" where
  "validateExceedPolicy field p =
     (if TrimSpace p \<in> {[], LimitExceedTruncate, LimitExceedFail} then None
      else Some (ExceedPolicyInvalid field p))"

fun firstError :: "'e option list \<Rightarrow> 'e option" where
  "firstError [] = None"
| "firstError (Some e # _) = Some e"
| "firstError (None # es) = firstError es"

definition ValidateExecutionLimits :: "execution_limits option \<Rightarrow> limit_error option" where
  "ValidateExecutionLimits l0 =
     (case l0 of
        None \<Rightarrow> None
      | Some l1 \<Rightarrow>
          let l = NormalizeExecutionLimits l1 in
          firstError
            [validateLimitBytes ''maxToolInputBytes'' (el_MaxToolInputBytes l),
             validateLimitBytes ''maxToolOutputBytes'' (el_MaxToolOutputBytes l),
             validateLimitBytes ''maxCheckpointBytes'' (el_MaxCheckpointBytes l),
             validateLimitBytes ''maxWorkflowNesting'' (el_MaxWorkflowNesting l),
             validateLimitBytes ''maxLoopIterations'' (el_MaxLoopIterations l),
             validateLimitBytes ''maxStateBytes'' (el_MaxStateBytes l),
             validateExceedPolicy ''toolInputExceedPolicy'' (el_ToolInputExceedPolicy l),
             validateExceedPolicy ''toolOutputExceedPolicy'' (el_ToolOutputExceedPolicy l),
             validateExceedPolicy ''checkpointExceedPolicy'' (el_CheckpointExceedPolicy l),
             (if el_CheckpointExceedPolicy l = LimitExceedTruncate
              then Some CheckpointTruncateUnsafe else None)])"

subsection \<open>Facts\<close>

definition limits_positive :: "execution_limits \<Rightarrow> bool" where
  "limits_positive l \<longleftrightarrow> 0 < el_MaxToolInputBytes l \<and> 0 < el_MaxToolOutputBytes l
     \<and> 0 < el_MaxCheckpointBytes l \<and> 0 < el_MaxWorkflowNesting l \<and> 0 < el_MaxLoopIterations l"

lemma orPos_positive: "0 < old \<Longrightarrow> 0 < orPos new old"
  by (simp add: orPos_def)

lemma MergeExecutionLimits_positive:
  "limits_positive base \<Longrightarrow> limits_positive (MergeExecutionLimits base ov)"
  by (auto simp: MergeExecutionLimits_def limits_positive_def Let_def NormalizeExecutionLimits_def
      orPos_positive split: option.splits)

lemma limits_positive_defaults: "limits_positive limitsOfDefaults"
  by (simp add: limits_positive_def limitsOfDefaults_def DefaultExecutionLimits_def Let_def)

lemma firstError_None: "firstError es = None \<longleftrightarrow> (\<forall>e \<in> set es. e = None)"
  by (induction es rule: firstError.induct) auto

lemma EffectiveMaxIterationsCeiling_positive: "0 < EffectiveMaxIterationsCeiling n"
  by (simp add: EffectiveMaxIterationsCeiling_def HardAgentMaxIterations_def)

subsection \<open>Properties\<close>

text \<open>
  Whatever the project, workflow and tool declare, every resolved execution limit is
  positive: no configuration switches a limit off.
\<close>

theorem resolved_limits_positive:
  "let r = ResolveExecutionLimits project workflow tool
   in 0 < rl_MaxToolInputBytes r \<and> 0 < rl_MaxToolOutputBytes r \<and> 0 < rl_MaxCheckpointBytes r
      \<and> 0 < rl_MaxWorkflowNesting r \<and> 0 < rl_MaxLoopIterations r"
  using MergeExecutionLimits_positive [OF MergeExecutionLimits_positive
      [OF MergeExecutionLimits_positive [OF limits_positive_defaults]], of project workflow tool]
  by (simp add: ResolveExecutionLimits_def limits_positive_def Let_def)

text \<open>
  An agent runs at least one and at most as many iterations as the policy's effective
  ceiling, whatever its own constraints say.
\<close>

theorem max_iterations_within_ceiling:
  "0 < ResolveMaxIterations c policyCeiling
   \<and> ResolveMaxIterations c policyCeiling \<le> EffectiveMaxIterationsCeiling policyCeiling"
  using EffectiveMaxIterationsCeiling_positive [of policyCeiling]
  by (auto simp: ResolveMaxIterations_def Let_def DefaultAgentMaxIterations_def split: option.split)

text \<open>
  The guard against truncated checkpoints compares the untrimmed text, so a padded
  \<open>truncate\<close> passes validation and still resolves to the unsafe policy.
\<close>

lemma padded_truncate_passes_validation:
  "\<exists>l. ValidateExecutionLimits (Some l) = None
     \<and> rl_CheckpointExceedPolicy (ResolveExecutionLimits (Some l) None None) = ''truncate''"
proof -
  let ?l = "\<lparr>el_MaxToolInputBytes = 0, el_MaxToolOutputBytes = 0, el_MaxCheckpointBytes = 0,
    el_MaxStateBytes = 0, el_MaxWorkflowNesting = 0, el_MaxLoopIterations = 0,
    el_ToolInputExceedPolicy = [], el_ToolOutputExceedPolicy = [],
    el_CheckpointExceedPolicy = '' truncate''\<rparr>"
  have "ValidateExecutionLimits (Some ?l) = None" by code_simp
  moreover have "rl_CheckpointExceedPolicy (ResolveExecutionLimits (Some ?l) None None) = ''truncate''"
    by code_simp
  ultimately show ?thesis by blast
qed

end
