(* ===== verification/Shell_Safe.thy ===== *)
theory Shell_Safe
  imports Spec_Types
begin

text \<open>
  The \<open>shell_safe\<close> command classifier of \<open>internal/spec/shell_tokens.go\<close>: which command
  strings run unattended. It is a first-token test with a metacharacter check.
\<close>

definition ShellCommandOperations :: "string list" where
  "ShellCommandOperations = [''command.run'', ''run'', ''exec'', ''shell'']"

definition shellReadOnlyTokens :: "string list" where
  "shellReadOnlyTokens = [''ls'', ''cat'', ''grep'', ''head'', ''tail'', ''stat'',
     ''find'', ''pwd'', ''wc'', ''which'']"

definition shellGateTokens :: "string list" where
  "shellGateTokens = [''rm'', ''mv'', ''cp'', ''chmod'', ''chown'', ''mkfifo'', ''dd'',
     ''curl'', ''wget'', ''ssh'', ''exec'', ''eval'', ''write'', ''delete'']"

datatype ShellTokenClass = ShellTokenUnknown | ShellTokenReadOnly | ShellTokenGate

text \<open>\<open>strings.Trim(s, "\"'")\<close>.\<close>

definition isQuote :: "char \<Rightarrow> bool" where
  "isQuote c = (c = CHR 0x22 \<or> c = CHR 0x27)"

definition trimQuotes :: "string \<Rightarrow> string" where
  "trimQuotes s = rev (dropWhile isQuote (rev (dropWhile isQuote s)))"

text \<open>\<open>strings.Fields\<close> up to its first element: the bytes before the next space encoding.\<close>

fun firstField :: "string \<Rightarrow> string" where
  "firstField [] = []"
| "firstField (c # cs) =
     (if list_ex (\<lambda>w. prefix w (c # cs)) space_encodings then [] else c # firstField cs)"

definition FirstShellToken :: "string \<Rightarrow> string" where
  "FirstShellToken command0 =
     (let command = TrimSpace command0 in
      if command = [] then [] else trimQuotes (firstField command))"

text \<open>\<open>token[i+1:]\<close> for the last \<open>/\<close> or backslash, and \<open>token[:idx]\<close> for the first \<open>=\<close>.\<close>

definition afterLastSlash :: "string \<Rightarrow> string" where
  "afterLastSlash s = rev (takeWhile (\<lambda>c. c \<noteq> CHR ''/'' \<and> c \<noteq> CHR 0x5C) (rev s))"

definition beforeEquals :: "string \<Rightarrow> string" where
  "beforeEquals s = takeWhile (\<lambda>c. c \<noteq> CHR ''='') s"

definition normalizeShellToken :: "string \<Rightarrow> string" where
  "normalizeShellToken token0 =
     (let token = TrimSpace token0 in
      if token = [] then []
      else ToLower (TrimSpace (beforeEquals (afterLastSlash (trimQuotes token)))))"

definition ClassifyShellToken :: "string \<Rightarrow> ShellTokenClass" where
  "ClassifyShellToken token0 =
     (let token = normalizeShellToken token0 in
      if token = [] then ShellTokenUnknown
      else if token \<in> set shellReadOnlyTokens then ShellTokenReadOnly
      else if token \<in> set shellGateTokens then ShellTokenGate
      else ShellTokenUnknown)"

definition shellMetacharacters :: "char list" where
  "shellMetacharacters = [CHR '';'', CHR ''|'', CHR ''&'', CHR 0x0A, CHR 0x0D, CHR 0x60, CHR ''$'']"

definition containsShellMetacharacters :: "string \<Rightarrow> bool" where
  "containsShellMetacharacters command =
     (sublist ''$('' command \<or> list_ex (\<lambda>r. r \<in> set shellMetacharacters) command)"

definition ShellCommandRequiresApproval :: "string \<Rightarrow> bool" where
  "ShellCommandRequiresApproval command0 =
     (let command = TrimSpace command0 in
      if command = [] then True
      else if containsShellMetacharacters command then True
      else case ClassifyShellToken (FirstShellToken command) of
          ShellTokenReadOnly \<Rightarrow> False
        | _ \<Rightarrow> True)"

fun extractFirst :: "any gomap \<Rightarrow> string list \<Rightarrow> string" where
  "extractFirst m [] = []"
| "extractFirst m (k # ks) =
     (case map_of m k of Some (AStr s) \<Rightarrow> TrimSpace s | _ \<Rightarrow> extractFirst m ks)"

text \<open>A nil \<open>with\<close> map behaves as the empty map.\<close>

definition ExtractShellCommand :: "any gomap \<Rightarrow> string" where
  "ExtractShellCommand m = extractFirst m [''command'', ''cmd'', ''script'']"

definition IsShellCommandOperation :: "string \<Rightarrow> bool" where
  "IsShellCommandOperation operation =
     (ToLower (TrimSpace operation) \<in> set ShellCommandOperations)"

subsection \<open>What passes unattended\<close>

lemma containsShellMetacharacters_iff:
  "containsShellMetacharacters command \<longleftrightarrow> set command \<inter> set shellMetacharacters \<noteq> {}"
proof -
  have "CHR ''$'' \<in> set command" if "sublist ''$('' command" using set_mono_sublist [OF that] by simp
  then show ?thesis
    by (auto simp: containsShellMetacharacters_def list_ex_iff shellMetacharacters_def)
qed

lemma ShellCommand_unattended:
  "\<not> ShellCommandRequiresApproval command \<longleftrightarrow>
     TrimSpace command \<noteq> [] \<and> set (TrimSpace command) \<inter> set shellMetacharacters = {} \<and>
     normalizeShellToken (FirstShellToken (TrimSpace command)) \<in> set shellReadOnlyTokens"
proof -
  have token: "ClassifyShellToken x = ShellTokenReadOnly \<longleftrightarrow> normalizeShellToken x \<in> set shellReadOnlyTokens" for x
    by (auto simp: ClassifyShellToken_def Let_def shellReadOnlyTokens_def)
  show ?thesis
    unfolding token [symmetric] ShellCommandRequiresApproval_def Let_def containsShellMetacharacters_iff
    by (cases "ClassifyShellToken (FirstShellToken (TrimSpace command))") auto
qed

lemma TrimSpace_extracted [simp]: "TrimSpace (ExtractShellCommand m) = ExtractShellCommand m"
proof -
  have "TrimSpace (extractFirst m ks) = extractFirst m ks" for ks
    by (induction ks) (auto split: option.split any.split)
  then show ?thesis by (simp only: ExtractShellCommand_def)
qed

text \<open>
  The read-only heuristic can be passed by a destructive command: \<open>normalizeShellToken\<close>
  cuts an assignment word at its equals sign, so \<open>cat=1 rm -rf x\<close> is judged by \<open>cat\<close> and
  needs no approval.
\<close>

lemma assignment_prefix_bypasses_gate:
  "\<not> ShellCommandRequiresApproval ''cat=1 rm -rf x''"
  by code_simp

end
