(* ===== verification/Go_Sha256.thy ===== *)
theory Go_Sha256
  imports Go_Prelude "HOL-Library.Word"
begin

text \<open>
  \<open>crypto/sha256.Sum256\<close> (FIPS 180-4) on byte strings, and \<open>encoding/hex.EncodeToString\<close>:
  the digest every content-addressed part of the program uses. The padding, the message
  schedule and the compression function are the standard's, on 32-bit words.
\<close>

unbundle bit_operations_syntax

type_synonym w32 = "32 word"

definition sha_K :: "w32 list" where
  "sha_K =
    [1116352408, 1899447441, 3049323471, 3921009573, 961987163, 1508970993, 2453635748, 2870763221,
     3624381080, 310598401, 607225278, 1426881987, 1925078388, 2162078206, 2614888103, 3248222580,
     3835390401, 4022224774, 264347078, 604807628, 770255983, 1249150122, 1555081692, 1996064986,
     2554220882, 2821834349, 2952996808, 3210313671, 3336571891, 3584528711, 113926993, 338241895,
     666307205, 773529912, 1294757372, 1396182291, 1695183700, 1986661051, 2177026350, 2456956037,
     2730485921, 2820302411, 3259730800, 3345764771, 3516065817, 3600352804, 4094571909, 275423344,
     430227734, 506948616, 659060556, 883997877, 958139571, 1322822218, 1537002063, 1747873779,
     1955562222, 2024104815, 2227730452, 2361852424, 2428436474, 2756734187, 3204031479, 3329325298]"

definition sha_H0 :: "w32 list" where
  "sha_H0 =
    [1779033703, 3144134277, 1013904242, 2773480762, 1359893119, 2600822924, 528734635, 1541459225]"

definition rotr32 :: "nat \<Rightarrow> w32 \<Rightarrow> w32" where
  "rotr32 n x = drop_bit n x OR push_bit (32 - n) x"

definition sigma0 :: "w32 \<Rightarrow> w32" where
  "sigma0 x = rotr32 7 x XOR rotr32 18 x XOR drop_bit 3 x"

definition sigma1 :: "w32 \<Rightarrow> w32" where
  "sigma1 x = rotr32 17 x XOR rotr32 19 x XOR drop_bit 10 x"

definition Sigma0 :: "w32 \<Rightarrow> w32" where
  "Sigma0 x = rotr32 2 x XOR rotr32 13 x XOR rotr32 22 x"

definition Sigma1 :: "w32 \<Rightarrow> w32" where
  "Sigma1 x = rotr32 6 x XOR rotr32 11 x XOR rotr32 25 x"

definition shaCh :: "w32 \<Rightarrow> w32 \<Rightarrow> w32 \<Rightarrow> w32" where
  "shaCh x y z = (x AND y) XOR (NOT x AND z)"

definition shaMaj :: "w32 \<Rightarrow> w32 \<Rightarrow> w32 \<Rightarrow> w32" where
  "shaMaj x y z = (x AND y) XOR (x AND z) XOR (y AND z)"

subsection \<open>Padding\<close>

definition be64 :: "int \<Rightarrow> string" where
  "be64 n = map (\<lambda>i. char_of (n div 256 ^ (7 - i) mod 256)) [0..<8]"

definition sha_pad :: "string \<Rightarrow> string" where
  "sha_pad msg =
     msg @ CHR 0x80 # replicate ((119 - length msg mod 64) mod 64) (CHR 0x00)
         @ be64 (8 * int (length msg) mod 2 ^ 64)"

fun words_of :: "string \<Rightarrow> w32 list" where
  "words_of (a # b # c # d # s) =
     word_of_int (((of_char a * 256 + of_char b) * 256 + of_char c) * 256 + of_char d) # words_of s"
| "words_of _ = []"

subsection \<open>Compression\<close>

text \<open>The message schedule, newest word first.\<close>

fun sha_extend :: "nat \<Rightarrow> w32 list \<Rightarrow> w32 list" where
  "sha_extend 0 ws = ws"
| "sha_extend (Suc n) ws =
     sha_extend n ((sigma1 (ws ! 1) + ws ! 6 + sigma0 (ws ! 14) + ws ! 15) # ws)"

fun sha_rounds :: "(w32 \<times> w32) list \<Rightarrow> w32 list \<Rightarrow> w32 list" where
  "sha_rounds ((k, w) # kws) [a, b, c, d, e, f, g, h] =
     (let t1 = h + Sigma1 e + shaCh e f g + k + w;
          t2 = Sigma0 a + shaMaj a b c
      in sha_rounds kws [t1 + t2, a, b, c, d + t1, e, f, g])"
| "sha_rounds _ st = st"

definition sha_block :: "w32 list \<Rightarrow> w32 list \<Rightarrow> w32 list" where
  "sha_block block hs =
     map2 (+) hs (sha_rounds (zip sha_K (rev (sha_extend 48 (rev block)))) hs)"

fun sha_blocks :: "nat \<Rightarrow> w32 list \<Rightarrow> w32 list \<Rightarrow> w32 list" where
  "sha_blocks 0 ws hs = hs"
| "sha_blocks (Suc n) ws hs = sha_blocks n (drop 16 ws) (sha_block (take 16 ws) hs)"

subsection \<open>Hexadecimal output\<close>

definition hexWord :: "w32 \<Rightarrow> string" where
  "hexWord w = map (\<lambda>i. hexDigit (nat (uint w div 16 ^ (7 - i) mod 16))) [0..<8]"

definition hashHex :: "string \<Rightarrow> string" where
  "hashHex msg =
     (let ws = words_of (sha_pad msg)
      in concat (map hexWord (sha_blocks (length ws div 16) ws sha_H0)))"

subsection \<open>Shape of a digest\<close>

lemma length_hexWord [simp]: "length (hexWord w) = 8"
  by (simp add: hexWord_def)

lemma length_sha_rounds: "length (sha_rounds kws st) = length st"
  by (induction kws st rule: sha_rounds.induct) (auto simp: Let_def)

lemma length_sha_blocks: "length hs = 8 \<Longrightarrow> length (sha_blocks n ws hs) = 8"
  by (induction n ws hs rule: sha_blocks.induct) (auto simp: sha_block_def length_sha_rounds)

lemma length_concat_hexWord: "length (concat (map hexWord ws)) = 8 * length ws"
  by (induction ws) auto

lemma length_hashHex [simp]: "length (hashHex m) = 64"
  by (simp add: hashHex_def Let_def length_concat_hexWord length_sha_blocks sha_H0_def)

lemma hashHex_nonempty [simp]: "hashHex m \<noteq> []"
  by (metis length_hashHex list.size(3) zero_neq_numeral)

lemma set_hexWord: "set (hexWord w) \<subseteq> set ''0123456789abcdef''"
  unfolding hexWord_def hexDigit_def by (auto intro!: nth_mem simp del: list.set)

end
