(* ===== verification/Tool_Manifest.thy ===== *)
theory Tool_Manifest
  imports Spec_Effects Go_Sha256
begin

text \<open>
  The capability manifest of a tool (\<open>internal/tools/manifest.go\<close>): the closed set of
  operations that may be called, derived from the declared operations and never from what a
  live server advertises.
\<close>

record manifest_operation =
  mo_Name :: string
  mo_Effects :: "string list"
  mo_Schema :: string

record capability_manifest =
  cm_Tool :: string
  cm_Closed :: bool
  cm_Operations :: "manifest_operation list"

definition open_manifest :: "string \<Rightarrow> capability_manifest" where
  "open_manifest name = \<lparr>cm_Tool = name, cm_Closed = False, cm_Operations = []\<rparr>"

definition manifestOperation :: "resolved_tool_effects \<Rightarrow> string \<times> tool_operation \<Rightarrow> manifest_operation" where
  "manifestOperation re kv =
     (let op = TrimSpace (fst kv);
          eff = (if re_Unknown re then []
                 else case map_of (re_ByOperation re) op of None \<Rightarrow> [] | Some fx \<Rightarrow> fx)
      in \<lparr>mo_Name = op, mo_Effects = eff, mo_Schema = TrimSpace (op_Schema (snd kv))\<rparr>)"

text \<open>\<open>sort.Slice\<close> by name; equal names keep one of Go's possible orders (here the stable one).\<close>

definition DeriveManifest :: "string \<Rightarrow> tool_spec option \<Rightarrow> capability_manifest" where
  "DeriveManifest name ts =
     (let m = open_manifest (TrimSpace name) in
      case ts of
        None \<Rightarrow> m
      | Some t \<Rightarrow>
          let m1 = m\<lparr>cm_Closed := (ts_OperationsDeclared t \<or> 0 < length (ts_Operations t))\<rparr> in
          if ts_Operations t = [] then m1
          else let re = ResolveToolEffects name ts in
            m1\<lparr>cm_Operations := sort_key mo_Name (map (manifestOperation re) (ts_Operations t))\<rparr>)"

definition Allows :: "capability_manifest \<Rightarrow> string \<Rightarrow> bool" where
  "Allows m op0 =
     (if \<not> cm_Closed m then True
      else list_ex (\<lambda>mo. mo_Name mo = TrimSpace op0) (cm_Operations m))"

text \<open>The pre-image of \<open>CapabilityManifest.Digest\<close>.\<close>

definition manifestOpBytes :: "manifest_operation \<Rightarrow> string" where
  "manifestOpBytes op =
     mo_Name op @ [CHR 0x00] @ Join (sort (mo_Effects op)) '','' @ [CHR 0x00] @ mo_Schema op
       @ [CHR 0x0A]"

definition manifestBytes :: "capability_manifest \<Rightarrow> string" where
  "manifestBytes m =
     cm_Tool m @ [CHR 0x00] @ (if cm_Closed m then ''closed'' else []) @ [CHR 0x00]
       @ concat (map manifestOpBytes (sort_key mo_Name (cm_Operations m)))"

definition ManifestDigest :: "capability_manifest \<Rightarrow> string" where
  "ManifestDigest m = hashHex (manifestBytes m)"

definition GraphManifestDigest :: "project_graph option \<Rightarrow> string" where
  "GraphManifestDigest g =
     hashHex (case g of
        None \<Rightarrow> []
      | Some p \<Rightarrow> concat (map (\<lambda>name.
            case deref (toolsOf p) name of
              None \<Rightarrow> []
            | Some tr \<Rightarrow> ManifestDigest (DeriveManifest name (Some (tr_Spec tr))) @ [CHR 0x0A])
          (sortedKeys (toolsOf p))))"

definition ManifestFor :: "project_graph option \<Rightarrow> string \<Rightarrow> capability_manifest" where
  "ManifestFor g name0 =
     (let name = TrimSpace name0 in
      case graphTool g name of
        None \<Rightarrow> open_manifest name
      | Some tr \<Rightarrow> DeriveManifest name (Some (tr_Spec tr)))"

subsection \<open>Membership\<close>

definition declaredOperations :: "tool_spec \<Rightarrow> string set" where
  "declaredOperations t = TrimSpace ` fst ` set (ts_Operations t)"

definition closedWorld :: "tool_spec \<Rightarrow> bool" where
  "closedWorld t = (ts_OperationsDeclared t \<or> ts_Operations t \<noteq> [])"

lemma DeriveManifest_closed:
  "cm_Closed (DeriveManifest n (Some t)) = closedWorld t"
  by (auto simp: DeriveManifest_def closedWorld_def open_manifest_def Let_def)

lemma DeriveManifest_names:
  "mo_Name ` set (cm_Operations (DeriveManifest n (Some t))) = declaredOperations t"
  by (auto simp: DeriveManifest_def declaredOperations_def open_manifest_def manifestOperation_def
      Let_def image_image)

lemma Allows_DeriveManifest:
  "Allows (DeriveManifest n (Some t)) op \<longleftrightarrow>
     (closedWorld t \<longrightarrow> TrimSpace op \<in> declaredOperations t)"
  unfolding Allows_def DeriveManifest_closed DeriveManifest_names [of n t, symmetric]
  by (force simp: list_ex_iff)

lemma Allows_open: "Allows (open_manifest n) op"
  by (simp add: Allows_def open_manifest_def)

lemma Allows_ManifestFor:
  "Allows (ManifestFor g n) op \<longleftrightarrow>
     (\<forall>tr. graphTool g (TrimSpace n) = Some tr \<longrightarrow> closedWorld (tr_Spec tr) \<longrightarrow>
        TrimSpace op \<in> declaredOperations (tr_Spec tr))"
  by (cases "graphTool g (TrimSpace n)")
    (simp_all add: ManifestFor_def Allows_open Allows_DeriveManifest)

subsection \<open>Properties\<close>

text \<open>
  The capability manifest of a tool is a closed world exactly when the tool has an
  \<open>operations\<close> block: then an operation is allowed only if, trimmed, it is one of the
  declared names; a tool without the block or one the graph does not have allows anything.
\<close>

theorem manifest_allows_exactly_declared:
  "Allows (ManifestFor g n) op \<longleftrightarrow>
     (\<forall>tr. graphTool g (TrimSpace n) = Some tr \<longrightarrow> closedWorld (tr_Spec tr) \<longrightarrow>
        TrimSpace op \<in> declaredOperations (tr_Spec tr))"
  by (rule Allows_ManifestFor)

definition demo_closed_tool :: tool_resource where
  "demo_closed_tool = \<lparr>tr_Name = ''fs'', tr_Spec = \<lparr>ts_Type = ''mcp'', ts_Safety = None,
     ts_Operations = [(''read'', \<lparr>op_Effects = [''workspace.read''], op_Schema = []\<rparr>)],
     ts_OperationsDeclared = True\<rparr>\<rparr>"

definition demo_closed_graph :: project_graph where
  "demo_closed_graph = \<lparr>g_Defaults = None, g_Agents = [], g_Tools = Some [(''fs'', Some demo_closed_tool)],
     g_Workflows = [], g_Policies = []\<rparr>"

theorem manifest_allows_exactly_declared_witness:
  "\<not> Allows (ManifestFor (Some demo_closed_graph) ''fs'') ''write''"
proof -
  have t: "TrimSpace ''fs'' = ''fs''" "TrimSpace ''write'' = ''write''" "TrimSpace ''read'' = ''read''"
    by code_simp+
  show ?thesis
    unfolding manifest_allows_exactly_declared t
    by (simp add: graphTool_def demo_closed_graph_def toolsOf_def deref_def demo_closed_tool_def
        closedWorld_def declaredOperations_def t)
qed

end
