(* ===== verification/Policy_Eval.thy ===== *)
theory Policy_Eval
  imports Spec_Presets Spec_Limits Shell_Safe Tool_Uses Tool_Manifest
begin

text \<open>
  The policy engine of \<open>internal/policy\<close> for one run: the budget checks (\<open>budget.go\<close>), the
  closed-world manifest check (\<open>manifest.go\<close>), \<open>forbidUnknownTools\<close>
  (\<open>permissions.go\<close>), explicit approvals (\<open>approvals.go\<close>), the decision derived from safety
  metadata (\<open>derive.go\<close>), \<open>shell_safe\<close>, and the evaluator that composes them
  (\<open>evaluator.go\<close>, \<open>engine.go\<close>).
\<close>

subsection \<open>Contexts and denials\<close>

record run_context =
  rc_Elapsed :: int \<comment> \<open>\<open>time.Duration\<close>, nanoseconds\<close>
  rc_AccumulatedCostUSD :: float64
  rc_ApprovedActions :: "string list"

record step_context =
  sc_StepID :: string
  sc_OutputIsStructured :: bool

record tool_call =
  tc_Run :: run_context
  tc_StepID :: string
  tc_Uses :: string
  tc_With :: "any gomap"

datatype reason =
    ReasonMaxWallClock | ReasonMaxCost | ReasonStructuredOutput | ReasonUnknownTool
  | ReasonApprovalRequired | ReasonInvalidUses | ReasonDenied | ReasonOperationNotInManifest

text \<open>
  \<open>DeniedError\<close> without its message text. \<open>Extra\<close> is the trace payload; the budget denials
  carry only measured numbers there, which are left out.
\<close>

record denied_error =
  de_Reason :: reason
  de_Uses :: string
  de_Extra :: "any gomap"

definition denied :: "reason \<Rightarrow> string \<Rightarrow> any gomap \<Rightarrow> denied_error option" where
  "denied r uses extra = Some \<lparr>de_Reason = r, de_Uses = uses, de_Extra = extra\<rparr>"

lemma denied_simps [simp]: "denied r u x \<noteq> None" "denied r u x = Some d \<longleftrightarrow> d = \<lparr>de_Reason = r, de_Uses = u, de_Extra = x\<rparr>"
  by (auto simp: denied_def)

subsection \<open>Budgets\<close>

definition second :: int where
  "second = 1000000000"

definition checkExecutionBudgets :: "run_context \<Rightarrow> policy_execution option \<Rightarrow> denied_error option" where
  "checkExecutionBudgets run ex =
     (case ex of
        None \<Rightarrow> None
      | Some e \<Rightarrow>
          if 0 < pe_MaxWallClockSeconds e
             \<and> wrap64 (pe_MaxWallClockSeconds e * second) < rc_Elapsed run
          then denied ReasonMaxWallClock [] []
          else if f64_less f64_zero (pe_MaxTotalCostUsd e)
             \<and> f64_less (pe_MaxTotalCostUsd e) (rc_AccumulatedCostUSD run)
          then denied ReasonMaxCost [] []
          else None)"

definition checkStructuredOutputRequired ::
  "step_context \<Rightarrow> policy_execution option \<Rightarrow> denied_error option" where
  "checkStructuredOutputRequired step ex =
     (case ex of
        None \<Rightarrow> None
      | Some e \<Rightarrow>
          if \<not> pe_RequireStructuredOutput e then None
          else if sc_OutputIsStructured step then None
          else denied ReasonStructuredOutput [] [(''stepId'', AStr (sc_StepID step))])"

subsection \<open>Approvals\<close>

definition actionApproved :: "string \<Rightarrow> string list \<Rightarrow> bool" where
  "actionApproved uses approved = list_ex (\<lambda>a. TrimSpace a = TrimSpace uses) approved"

definition approvalRequired :: "string \<Rightarrow> policy_approvals option \<Rightarrow> bool" where
  "approvalRequired uses approvals =
     (case approvals of
        None \<Rightarrow> False
      | Some a \<Rightarrow> list_ex (\<lambda>r. TrimSpace r = TrimSpace uses) (pa_RequiredFor a))"

definition checkApprovalGranted ::
  "string \<Rightarrow> policy_approvals option \<Rightarrow> string list \<Rightarrow> denied_error option" where
  "checkApprovalGranted uses approvals approved =
     (if \<not> approvalRequired uses approvals then None
      else if actionApproved uses approved then None
      else denied ReasonApprovalRequired uses [(''requiredFor'', AStr uses)])"

subsection \<open>Known tools and the closed world\<close>

definition checkKnownTool ::
  "project_graph option \<Rightarrow> string \<Rightarrow> policy_tools option \<Rightarrow> denied_error option" where
  "checkKnownTool graph uses toolsPol =
     (case toolsPol of
        None \<Rightarrow> None
      | Some tp \<Rightarrow>
          if \<not> pt_ForbidUnknownTools tp then None
          else case ParseUses uses of
              Inl _ \<Rightarrow> denied ReasonInvalidUses uses []
            | Inr (toolName, _) \<Rightarrow>
                (case graph of
                   None \<Rightarrow> denied ReasonUnknownTool uses [(''tool'', AStr toolName)]
                 | Some g \<Rightarrow>
                     if toolName \<in> set (keys (toolsOf g)) then None
                     else denied ReasonUnknownTool uses [(''tool'', AStr toolName)]))"

definition checkOperationInManifest :: "project_graph option \<Rightarrow> string \<Rightarrow> denied_error option" where
  "checkOperationInManifest graph uses =
     (case ParseUses uses of
        Inl _ \<Rightarrow> None
      | Inr (toolName, operation) \<Rightarrow>
          if Allows (ManifestFor graph toolName) operation then None
          else denied ReasonOperationNotInManifest uses
                 [(''tool'', AStr toolName), (''operation'', AStr operation)])"

subsection \<open>Decisions from safety metadata\<close>

datatype decision = DecisionAllow | DecisionRequireApproval | DecisionDeny

datatype decision_source =
  SourceExplicitPolicyRule | SourceSafetyMetadata | SourceFailClosedDefault | SourcePresetBase

fun sourceString :: "decision_source \<Rightarrow> string" where
  "sourceString SourceExplicitPolicyRule = ''explicit_policy_rule''"
| "sourceString SourceSafetyMetadata = ''safety_metadata''"
| "sourceString SourceFailClosedDefault = ''fail_closed_default''"
| "sourceString SourcePresetBase = ''preset_base''"

record tool_decision =
  td_Decision :: decision
  td_Source :: decision_source
  td_Safety :: resolved_tool_safety

definition Derive :: "resolved_tool_safety \<Rightarrow> decision" where
  "Derive safety = (if rs_RequiresApproval safety then DecisionRequireApproval else DecisionAllow)"

definition resolvedSafetyForTool :: "project_graph option \<Rightarrow> string \<Rightarrow> resolved_tool_safety" where
  "resolvedSafetyForTool graph toolName =
     (case graphTool graph toolName of
        None \<Rightarrow> ResolveToolSafety None
      | Some tr \<Rightarrow> ResolveToolSafety (ts_Safety (tr_Spec tr)))"

definition toolUsesPrefix :: "string \<Rightarrow> string" where
  "toolUsesPrefix toolName = ''tool.'' @ TrimSpace toolName @ ''.''"

definition metadataSource :: "project_graph option \<Rightarrow> string \<Rightarrow> decision_source" where
  "metadataSource graph toolName =
     (case graphTool graph toolName of
        None \<Rightarrow> SourceFailClosedDefault
      | Some tr \<Rightarrow> if ts_Safety (tr_Spec tr) = None then SourceFailClosedDefault else SourceSafetyMetadata)"

definition EffectiveToolDecision ::
  "project_graph option \<Rightarrow> policy_spec option \<Rightarrow> string \<Rightarrow> tool_decision" where
  "EffectiveToolDecision graph pol toolName0 =
     (let toolName = TrimSpace toolName0;
          safety = resolvedSafetyForTool graph toolName;
          explicit = (\<lambda>d. \<lparr>td_Decision = d, td_Source = SourceExplicitPolicyRule, td_Safety = safety\<rparr>);
          approvals = (case pol of None \<Rightarrow> None | Some p \<Rightarrow> ps_Approvals p);
          fromSafety = \<lparr>td_Decision = Derive safety, td_Source = metadataSource graph toolName,
                        td_Safety = safety\<rparr>
      in if pol \<noteq> None \<and> ResolvedPresetName pol = PresetShellSafe
            \<and> (rs_RequiresApproval safety \<or> rs_SideEffects safety)
         then explicit DecisionRequireApproval
         else if approvals \<noteq> None \<and> ApprovalPermissive approvals then explicit DecisionAllow
         else if approvals \<noteq> None \<and> ApprovalRequireAllTools approvals
         then explicit DecisionRequireApproval
         else case approvals of
             None \<Rightarrow> fromSafety
           | Some a \<Rightarrow>
               if list_ex (\<lambda>r. TrimSpace r = toolUsesPrefix toolName
                    \<or> prefix (toolUsesPrefix toolName) (TrimSpace r)) (pa_RequiredFor a)
               then explicit DecisionRequireApproval
               else fromSafety)"

definition checkSafetyDerived :: "project_graph option \<Rightarrow> tool_call \<Rightarrow> denied_error option" where
  "checkSafetyDerived graph call =
     (case ParseUses (tc_Uses call) of
        Inl _ \<Rightarrow> denied ReasonInvalidUses (tc_Uses call) []
      | Inr (toolName, _) \<Rightarrow>
          let td = EffectiveToolDecision graph None toolName in
          (case td_Decision td of
             DecisionAllow \<Rightarrow> None
           | DecisionRequireApproval \<Rightarrow>
               if actionApproved (tc_Uses call) (rc_ApprovedActions (tc_Run call)) then None
               else denied ReasonApprovalRequired (tc_Uses call)
                      [(''tool'', AStr toolName), (''source'', AStr (sourceString (td_Source td)))]
           | DecisionDeny \<Rightarrow> denied ReasonDenied (tc_Uses call) [(''tool'', AStr toolName)]))"

subsection \<open>\<open>shell_safe\<close>\<close>

definition shellSafeRequiresApproval :: "project_graph option \<Rightarrow> tool_call \<Rightarrow> bool" where
  "shellSafeRequiresApproval graph call =
     (case ParseUses (tc_Uses call) of
        Inl _ \<Rightarrow> True
      | Inr (toolName, operation) \<Rightarrow>
          if IsShellCommandOperation operation
          then ShellCommandRequiresApproval (ExtractShellCommand (tc_With call))
          else let safety = resolvedSafetyForTool graph toolName
               in rs_RequiresApproval safety \<or> rs_SideEffects safety)"

subsection \<open>The evaluator\<close>

record evaluator =
  ev_graph :: "project_graph option"
  ev_policy :: "policy_spec option"

definition execOf :: "policy_spec option \<Rightarrow> policy_execution option" where
  "execOf pol = (case pol of None \<Rightarrow> None | Some p \<Rightarrow> ps_Execution p)"

definition CheckRun :: "evaluator \<Rightarrow> run_context \<Rightarrow> denied_error option" where
  "CheckRun e run = checkExecutionBudgets run (execOf (ev_policy e))"

definition CheckStep :: "evaluator \<Rightarrow> step_context \<Rightarrow> denied_error option" where
  "CheckStep e step = checkStructuredOutputRequired step (execOf (ev_policy e))"

definition toolCallApprovalDenied :: "tool_call \<Rightarrow> policy_spec option \<Rightarrow> denied_error option" where
  "toolCallApprovalDenied call pol =
     denied ReasonApprovalRequired (tc_Uses call)
       ((''requiredFor'', AStr (tc_Uses call)) #
        (if ResolvedPresetName pol \<noteq> [] then [(''preset'', AStr (ResolvedPresetName pol))] else []))"

definition requiresToolCallApproval :: "policy_spec option \<Rightarrow> bool" where
  "requiresToolCallApproval pol =
     (case pol of None \<Rightarrow> False | Some p \<Rightarrow> ApprovalRequireAllTools (ps_Approvals p))"

text \<open>The call once the manifest, the known-tool check and the permissive flag have passed.\<close>

definition checkApprovalStage ::
  "project_graph option \<Rightarrow> policy_spec option \<Rightarrow> tool_call \<Rightarrow> denied_error option" where
  "checkApprovalStage graph pol call =
     (let uses = tc_Uses call;
          approved = rc_ApprovedActions (tc_Run call);
          approvals = (case pol of None \<Rightarrow> None | Some p \<Rightarrow> ps_Approvals p)
      in if pol \<noteq> None \<and> ResolvedPresetName pol = PresetShellSafe then
           (if shellSafeRequiresApproval graph call \<or> approvalRequired uses approvals then
              (if actionApproved uses approved then None else toolCallApprovalDenied call pol)
            else None)
         else if requiresToolCallApproval pol then
           (if actionApproved uses approved then None else toolCallApprovalDenied call pol)
         else if pol \<noteq> None \<and> approvalRequired uses approvals then
           checkApprovalGranted uses approvals approved
         else checkSafetyDerived graph call)"

definition CheckToolCall :: "evaluator \<Rightarrow> tool_call \<Rightarrow> denied_error option" where
  "CheckToolCall e call =
     (case checkOperationInManifest (ev_graph e) (tc_Uses call) of
        Some d \<Rightarrow> Some d
      | None \<Rightarrow>
          (case ev_policy e of
             None \<Rightarrow> checkApprovalStage (ev_graph e) None call
           | Some p \<Rightarrow>
               (case checkKnownTool (ev_graph e) (tc_Uses call) (ps_Tools p) of
                  Some d \<Rightarrow> Some d
                | None \<Rightarrow>
                    if ps_Approvals p \<noteq> None \<and> ApprovalPermissive (ps_Approvals p) then None
                    else checkApprovalStage (ev_graph e) (Some p) call)))"

subsection \<open>Resolving a policy by name\<close>

definition resolvePolicy :: "project_graph option \<Rightarrow> string \<Rightarrow> policy_spec option" where
  "resolvePolicy g name0 =
     (let name = TrimSpace name0 in
      if name = [] then None
      else case g of
          None \<Rightarrow> None
        | Some p \<Rightarrow> map_option pr_Spec (deref (g_Policies p) name))"

definition engineEvaluator :: "project_graph option \<Rightarrow> string \<Rightarrow> evaluator" where
  "engineEvaluator g policyName = \<lparr>ev_graph = g, ev_policy = resolvePolicy g policyName\<rparr>"

subsection \<open>Properties\<close>

text \<open>
  A large \<open>maxWallClockSeconds\<close> turns into an immediate denial: its conversion to a
  \<open>time.Duration\<close> wraps around, so from 9223372037 seconds on the limit is a negative
  number and a run that has just started exceeds it.
\<close>

lemma wall_clock_overflow_denies:
  "\<exists>d. checkExecutionBudgets \<lparr>rc_Elapsed = 0, rc_AccumulatedCostUSD = f64_zero, rc_ApprovedActions = []\<rparr>
         (Some (zero_execution\<lparr>pe_MaxWallClockSeconds := 9223372037\<rparr>)) = Some d
       \<and> de_Reason d = ReasonMaxWallClock"
  by (simp add: checkExecutionBudgets_def zero_execution_def wrap64_def second_def denied_def)

end
