(* ===== verification/Effect_Check.thy ===== *)
theory Effect_Check
  imports Effect_Bound Policy_Eval
begin

text \<open>
  Static enforcement on the effect bound: \<open>Check\<close> compares every root's bound with the permit
  lists of its policy (\<open>internal/effects/enforce.go\<close>), and capability assertions state
  invariants over the bound (\<open>assert.go\<close>). The rendering of violations as text is left out.
\<close>

subsection \<open>Policies of roots\<close>

definition lookupPolicy :: "project_graph \<Rightarrow> string \<Rightarrow> string \<times> policy_spec option" where
  "lookupPolicy g name0 =
     (let name = TrimSpace name0
      in if name = [] then (''(none)'', None)
         else (name, map_option pr_Spec (deref (g_Policies g) name)))"

definition policyFor :: "project_graph \<Rightarrow> workflow_resource option \<Rightarrow> string \<times> policy_spec option" where
  "policyFor g wfr =
     lookupPolicy g (case wfr of None \<Rightarrow> [] | Some w \<Rightarrow> TrimSpace (ws_Policy (wr_Spec w)))"

definition policyForAgent :: "project_graph \<Rightarrow> agent_resource option \<Rightarrow> string \<times> policy_spec option" where
  "policyForAgent g ar =
     lookupPolicy g (case ar of None \<Rightarrow> [] | Some a \<Rightarrow> TrimSpace (as_Policy (ar_Spec a)))"

definition workflowAgentNames :: "project_graph \<Rightarrow> string list" where
  "workflowAgentNames g =
     concat (map (\<lambda>(_, wfr).
       (case wfr of
          None \<Rightarrow> []
        | Some w \<Rightarrow> filter (\<lambda>a. a \<noteq> []) (map (\<lambda>st. TrimSpace (st_Agent st)) (ws_Steps (wr_Spec w)))))
     (g_Workflows g))"

definition anyDeclaredToolEffects :: "project_graph \<Rightarrow> bool" where
  "anyDeclaredToolEffects g =
     list_ex (\<lambda>(name, tr).
       (case tr of
          None \<Rightarrow> False
        | Some t \<Rightarrow> \<not> re_Unknown (ResolveToolEffects name (Some (tr_Spec t))))) (toolsOf g)"

subsection \<open>Checking one bound\<close>

record violation =
  vi_Policy :: string
  vi_RootKind :: hop_kind
  vi_RootName :: string
  vi_Ident :: string
  vi_Unknown :: bool
  vi_Message :: "effect_message option"
  vi_Uses :: string
  vi_Witness :: "hop list"
  vi_Permits :: string
  vi_RuleApplied :: string

definition permitLists :: "policy_spec option \<Rightarrow> string list \<times> string list" where
  "permitLists pol =
     (case pol of
        None \<Rightarrow> ([], [])
      | Some p \<Rightarrow>
          (case ps_Effects p of
             None \<Rightarrow> ([], [])
           | Some e \<Rightarrow> (px_Permit e, px_PermitWithApproval e)))"

definition identCovered :: "string list \<Rightarrow> string \<Rightarrow> bool" where
  "identCovered xs ident0 =
     (let ident = TrimSpace ident0
      in if ident = [] then False else list_ex (\<lambda>p. EffectCovers p ident) xs)"

definition displayPermits :: "string list \<Rightarrow> string list \<Rightarrow> string" where
  "displayPermits permit withApproval =
     (let parts = permit @
        (if withApproval \<noteq> [] then [''permitWithApproval: '' @ Join withApproval '', ''] else [])
      in if parts = [] then ''(none)'' else Join parts '', '')"

definition witnessingRequiresApproval ::
  "project_graph \<Rightarrow> policy_spec option \<Rightarrow> string \<Rightarrow> bool" where
  "witnessingRequiresApproval g pol uses =
     (let approvals = (case pol of None \<Rightarrow> None | Some p \<Rightarrow> ps_Approvals p)
      in if ApprovalPermissive approvals then False
         else if ApprovalRequireAllTools approvals then True
         else if (case approvals of
                    None \<Rightarrow> False
                  | Some a \<Rightarrow> list_ex (\<lambda>r. TrimSpace r = TrimSpace uses) (pa_RequiredFor a))
         then True
         else case ParseUses uses of
             Inl _ \<Rightarrow> True
           | Inr (tn, _) \<Rightarrow>
               rs_RequiresApproval (ResolveToolSafety
                 (case deref (toolsOf g) tn of None \<Rightarrow> None | Some tr \<Rightarrow> ts_Safety (tr_Spec tr))))"

definition occurrencesOf :: "effect_entry \<Rightarrow> effect_occurrence list" where
  "occurrencesOf e =
     (if fx_occurrences e \<noteq> [] then fx_occurrences e
      else if TrimSpace (fx_Uses e) \<noteq> [] then [\<lparr>oc_uses = fx_Uses e, oc_witness = fx_Witness e\<rparr>]
      else [])"

definition firstOccurrenceRequiringApproval ::
  "project_graph \<Rightarrow> policy_spec option \<Rightarrow> effect_entry \<Rightarrow> effect_occurrence option" where
  "firstOccurrenceRequiringApproval g pol e =
     find (\<lambda>oc. witnessingRequiresApproval g pol (oc_uses oc)) (occurrencesOf e)"

text \<open>The body of the loop of \<open>checkBound\<close>: at most one violation per effect.\<close>

definition checkEffect ::
  "project_graph \<Rightarrow> bound \<Rightarrow> string \<Rightarrow> policy_spec option \<Rightarrow> effect_entry \<Rightarrow> violation list" where
  "checkEffect g b policyName pol e =
     (case permitLists pol of (permit, withApproval) \<Rightarrow>
        let base = \<lparr>vi_Policy = policyName, vi_RootKind = b_RootKind b, vi_RootName = b_RootName b,
              vi_Ident = fx_Ident e, vi_Unknown = False, vi_Message = None, vi_Uses = fx_Uses e,
              vi_Witness = fx_Witness e, vi_Permits = displayPermits permit withApproval,
              vi_RuleApplied = []\<rparr>;
            inPermit = identCovered permit (fx_Ident e);
            inApproval = identCovered withApproval (fx_Ident e)
        in if fx_Unknown e then [base\<lparr>vi_Ident := [], vi_Unknown := True, vi_Message := fx_Message e\<rparr>]
           else if \<not> inPermit \<and> \<not> inApproval then [base]
           else if inApproval then []
           else case firstOccurrenceRequiringApproval g pol e of
               Some oc \<Rightarrow> [base\<lparr>vi_Uses := oc_uses oc, vi_Witness := oc_witness oc,
                               vi_RuleApplied := ''requiresApproval''\<rparr>]
             | None \<Rightarrow> [])"

definition checkBound ::
  "project_graph \<Rightarrow> bound \<Rightarrow> string \<Rightarrow> policy_spec option \<Rightarrow> violation list" where
  "checkBound g b policyName pol = concat (map (checkEffect g b policyName pol) (b_Effects b))"

text \<open>\<open>Check\<close>: the list of errors that \<open>errors.Join\<close> receives; it is nil when the list is empty.\<close>

definition boundOf :: "bound gomap \<Rightarrow> string \<Rightarrow> bound" where
  "boundOf m name =
     (case map_of m name of
        Some b \<Rightarrow> b
      | None \<Rightarrow> \<lparr>b_RootKind = KindWorkflow, b_RootName = [], b_Effects = [], b_Unreachable = []\<rparr>)"

definition checkWorkflowRoot :: "project_graph \<Rightarrow> graph_bounds \<Rightarrow> string \<Rightarrow> violation list" where
  "checkWorkflowRoot g bounds name =
     (case policyFor g (deref (g_Workflows g) name) of
        (polName, pol) \<Rightarrow> checkBound g (boundOf (gb_Workflows bounds) name) polName pol)"

definition checkAgentRoot :: "project_graph \<Rightarrow> graph_bounds \<Rightarrow> string \<Rightarrow> violation list" where
  "checkAgentRoot g bounds name =
     (case policyForAgent g (deref (g_Agents g) name) of
        (polName, pol) \<Rightarrow> checkBound g (boundOf (gb_Agents bounds) name) polName pol)"

definition Check :: "project_graph option \<Rightarrow> violation list" where
  "Check g0 =
     (case g0 of
        None \<Rightarrow> []
      | Some g \<Rightarrow>
          if \<not> anyDeclaredToolEffects g then []
          else
            let bounds = Compute (Some g); usedAgents = workflowAgentNames g
            in concat (map (checkWorkflowRoot g bounds) (sortedKeys (g_Workflows g)))
               @ concat (map (checkAgentRoot g bounds)
                   (filter (\<lambda>name. name \<notin> set usedAgents) (sortedKeys (g_Agents g)))))"

subsection \<open>What a passing check guarantees\<close>

text \<open>
  An operation a policy permits: its effects are declared, each is covered by a permit list,
  and one that is only covered by the unattended list needs no approval.
\<close>

definition grantPermitted :: "project_graph \<Rightarrow> policy_spec option \<Rightarrow> grant \<Rightarrow> bool" where
  "grantPermitted g pol gr \<longleftrightarrow>
     (case ParseUses (gr_uses gr) of
        Inl _ \<Rightarrow> False
      | Inr (t, op) \<Rightarrow>
          (let re = ResolveOperationEffects t op (toolSpecOf g t)
           in \<not> ro_Unknown re \<and>
              (\<forall>i \<in> set (ro_Effects re).
                 identCovered (snd (permitLists pol)) i
                 \<or> (identCovered (fst (permitLists pol)) i
                    \<and> \<not> witnessingRequiresApproval g pol (gr_uses gr)))))"

lemma find_None_ball: "find P xs = None \<longleftrightarrow> (\<forall>x \<in> set xs. \<not> P x)"
  by (auto simp: find_None_iff)

lemma checkEffect_Nil:
  "checkEffect g b n pol e = [] \<longleftrightarrow>
     \<not> fx_Unknown e \<and>
     (identCovered (snd (permitLists pol)) (fx_Ident e)
      \<or> (identCovered (fst (permitLists pol)) (fx_Ident e)
         \<and> (\<forall>oc \<in> set (occurrencesOf e). \<not> witnessingRequiresApproval g pol (oc_uses oc))))"
  unfolding find_None_ball [where P = "\<lambda>oc. witnessingRequiresApproval g pol (oc_uses oc)", symmetric]
  by (auto simp: checkEffect_def Let_def firstOccurrenceRequiringApproval_def split: prod.split option.split)

lemma checkBound_permits:
  assumes "checkBound g b n pol = []" "boundCovers g b gr"
  shows "grantPermitted g pol gr"
proof -
  have e: "checkEffect g b n pol e = []" if "e \<in> set (b_Effects b)" for e
    using assms(1) that by (auto simp: checkBound_def)
  then have known: "\<not> fx_Unknown e" if "e \<in> set (b_Effects b)" for e
    using that checkEffect_Nil by blast
  show ?thesis
  proof (cases "ParseUses (gr_uses gr)")
    case (Inl err)
    with assms(2) known show ?thesis by (auto simp: boundCovers_def)
  next
    case (Inr p)
    obtain t op where p: "p = (t, op)" by fastforce
    let ?re = "ResolveOperationEffects t op (toolSpecOf g t)"
    have re: "\<not> ro_Unknown ?re" "\<forall>i \<in> set (ro_Effects ?re). hasIdent (b_Effects b) i (gr_uses gr) False"
      using assms(2) Inr p known by (auto simp: boundCovers_def hasUnknown_def Let_def)
    have "identCovered (snd (permitLists pol)) i
        \<or> (identCovered (fst (permitLists pol)) i \<and> \<not> witnessingRequiresApproval g pol (gr_uses gr))"
      if "i \<in> set (ro_Effects ?re)" for i
    proof -
      from re(2) that obtain x where x: "x \<in> set (b_Effects b)" "fx_Ident x = i"
        "gr_uses gr \<in> oc_uses ` set (fx_occurrences x)" by (auto simp: hasIdent_def)
      then have "gr_uses gr \<in> oc_uses ` set (occurrencesOf x)" by (auto simp: occurrencesOf_def)
      with e [OF x(1)] x(2) show ?thesis by (auto simp: checkEffect_Nil)
    qed
    with re(1) Inr p show ?thesis by (simp add: grantPermitted_def Let_def)
  qed
qed

lemma boundOf_workflow:
  "name \<in> set (keys (g_Workflows g)) \<Longrightarrow>
     boundOf (gb_Workflows (Compute (Some g))) name = boundWorkflow g name []"
  by (simp add: boundOf_def Compute_def compute_def map_of_map_restrict restrict_map_def)

lemma boundOf_agent:
  "name \<in> set (keys (g_Agents g)) \<Longrightarrow>
     boundOf (gb_Agents (Compute (Some g))) name = boundAgent g name"
  by (simp add: boundOf_def Compute_def compute_def map_of_map_restrict restrict_map_def)

lemma Check_workflow:
  assumes "Check (Some g) = []" "anyDeclaredToolEffects g" "name \<in> set (keys (g_Workflows g))"
  shows "checkBound g (boundWorkflow g name [])
    (fst (policyFor g (deref (g_Workflows g) name))) (snd (policyFor g (deref (g_Workflows g) name))) = []"
  using assms boundOf_workflow [OF assms(3)]
  by (auto simp: Check_def Let_def checkWorkflowRoot_def checkAgentRoot_def case_prod_beta)

lemma Check_agent:
  assumes "Check (Some g) = []" "anyDeclaredToolEffects g" "name \<in> set (keys (g_Agents g))"
    and "name \<notin> set (workflowAgentNames g)"
  shows "checkBound g (boundAgent g name)
    (fst (policyForAgent g (deref (g_Agents g) name))) (snd (policyForAgent g (deref (g_Agents g) name))) = []"
  using assms boundOf_agent [OF assms(3)]
  by (auto simp: Check_def Let_def checkWorkflowRoot_def checkAgentRoot_def case_prod_beta)

subsection \<open>Capability assertions\<close>

record root_effect =
  re_Root :: string
  re_Effect :: string

record capability_assertions =
  ca_ForbidEffect :: "root_effect list"
  ca_ExpectAutonomous :: "root_effect list"
  ca_ExpectGated :: "string list"

datatype assert_kind = ForbidEffect | ExpectAutonomous | ExpectGated

text \<open>\<open>AssertViolation\<close>: the kind, and a constructor for each format string of \<open>Detail\<close>.\<close>

datatype assert_violation =
    MalformedIdent assert_kind string
  | UnrecognizedIdent assert_kind string
  | RootNotFound assert_kind string
  | CanReach string string
  | CannotReach string string
  | OnlyStatically string string
  | NotReachable string
  | Ungated string string

definition boundForRoot :: "graph_bounds \<Rightarrow> string \<Rightarrow> bound option" where
  "boundForRoot gb name0 =
     (let name = TrimSpace name0
      in case map_of (gb_Agents gb) name of
           Some b \<Rightarrow> Some b
         | None \<Rightarrow> map_of (gb_Workflows gb) name)"

definition related :: "string \<Rightarrow> string \<Rightarrow> bool" where
  "related a b = (a = b \<or> EffectCovers a b \<or> EffectCovers b a)"

definition effectByIdent :: "bound \<Rightarrow> string \<Rightarrow> effect_entry option" where
  "effectByIdent b ident0 =
     find (\<lambda>e. \<not> fx_Unknown e \<and> related (fx_Ident e) (TrimSpace ident0)) (b_Effects b)"

definition declaredEffectIdents :: "project_graph option \<Rightarrow> string list" where
  "declaredEffectIdents g0 =
     (case g0 of
        None \<Rightarrow> []
      | Some g \<Rightarrow>
          trimDedup (concat (map (\<lambda>(name, tr).
            (case tr of
               None \<Rightarrow> []
             | Some t \<Rightarrow> concat (map snd (re_ByOperation (ResolveToolEffects name (Some (tr_Spec t)))))))
            (toolsOf g))))"

definition effectIdentRecognized :: "string \<Rightarrow> string list \<Rightarrow> bool" where
  "effectIdentRecognized ident vocab = list_ex (\<lambda>d. related d (TrimSpace ident)) vocab"

definition witnessIsAutonomous :: "hop list \<Rightarrow> bool" where
  "witnessIsAutonomous hops = list_ex (\<lambda>h. h_Reachability h = Autonomous) hops"

definition hasAutonomousWitness :: "effect_entry \<Rightarrow> bool" where
  "hasAutonomousWitness e =
     (witnessIsAutonomous (fx_Witness e)
      \<or> list_ex (\<lambda>oc. witnessIsAutonomous (oc_witness oc)) (fx_occurrences e))"

definition identViolation :: "string list \<Rightarrow> assert_kind \<Rightarrow> string \<Rightarrow> assert_violation option" where
  "identViolation vocab kind ident0 =
     (let ident = TrimSpace ident0
      in if ValidateEffectIdent ident \<noteq> None then Some (MalformedIdent kind ident)
         else if \<not> effectIdentRecognized ident vocab then Some (UnrecognizedIdent kind ident)
         else None)"

definition checkForbid :: "graph_bounds \<Rightarrow> string list \<Rightarrow> root_effect \<Rightarrow> assert_violation list" where
  "checkForbid bounds vocab re =
     (case identViolation vocab ForbidEffect (re_Effect re) of
        Some v \<Rightarrow> [v]
      | None \<Rightarrow>
          (case boundForRoot bounds (re_Root re) of
             None \<Rightarrow> [RootNotFound ForbidEffect (re_Root re)]
           | Some b \<Rightarrow>
               (case effectByIdent b (re_Effect re) of
                  Some _ \<Rightarrow> [CanReach (re_Root re) (re_Effect re)]
                | None \<Rightarrow> [])))"

definition checkAutonomous :: "graph_bounds \<Rightarrow> string list \<Rightarrow> root_effect \<Rightarrow> assert_violation list" where
  "checkAutonomous bounds vocab re =
     (case identViolation vocab ExpectAutonomous (re_Effect re) of
        Some v \<Rightarrow> [v]
      | None \<Rightarrow>
          (case boundForRoot bounds (re_Root re) of
             None \<Rightarrow> [RootNotFound ExpectAutonomous (re_Root re)]
           | Some b \<Rightarrow>
               (case effectByIdent b (re_Effect re) of
                  None \<Rightarrow> [CannotReach (re_Root re) (re_Effect re)]
                | Some e \<Rightarrow>
                    if \<not> hasAutonomousWitness e then [OnlyStatically (re_Root re) (re_Effect re)] else [])))"

text \<open>The roots \<open>gatingStatus\<close> visits, in order, each with its bound and its policy.\<close>

definition gatingRoots :: "project_graph \<Rightarrow> graph_bounds \<Rightarrow> (string \<times> bound \<times> policy_spec option) list" where
  "gatingRoots g bounds =
     map (\<lambda>name. (name, boundOf (gb_Workflows bounds) name, snd (policyFor g (deref (g_Workflows g) name))))
       (sortedKeys (g_Workflows g))
     @ map (\<lambda>name. (name, boundOf (gb_Agents bounds) name, snd (policyForAgent g (deref (g_Agents g) name))))
       (filter (\<lambda>name. name \<notin> set (workflowAgentNames g)) (sortedKeys (g_Agents g)))"

definition boundUses :: "bound \<Rightarrow> string \<Rightarrow> bool" where
  "boundUses b uses =
     list_ex (\<lambda>e. list_ex (\<lambda>oc. TrimSpace (oc_uses oc) = uses) (occurrencesOf e)) (b_Effects b)"

fun gatingVisit ::
  "project_graph \<Rightarrow> string \<Rightarrow> (string \<times> bound \<times> policy_spec option) list \<Rightarrow> bool \<times> string \<Rightarrow> bool \<times> string" where
  "gatingVisit g uses [] st = st"
| "gatingVisit g uses ((rootName, b, pol) # roots) (reachable, ungatedRoot) =
     gatingVisit g uses roots
       (if boundUses b uses then
          (True, if ungatedRoot = [] \<and> \<not> witnessingRequiresApproval g pol uses then rootName else ungatedRoot)
        else (reachable, ungatedRoot))"

definition gatingStatus :: "project_graph \<Rightarrow> graph_bounds \<Rightarrow> string \<Rightarrow> bool \<times> string" where
  "gatingStatus g bounds uses = gatingVisit g uses (gatingRoots g bounds) (False, [])"

definition checkGated :: "project_graph \<Rightarrow> graph_bounds \<Rightarrow> string \<Rightarrow> assert_violation list" where
  "checkGated g bounds uses0 =
     (let uses = TrimSpace uses0
      in case gatingStatus g bounds uses of (reachable, ungatedRoot) \<Rightarrow>
           if \<not> reachable then [NotReachable uses]
           else if ungatedRoot \<noteq> [] then [Ungated uses ungatedRoot]
           else [])"

definition Evaluate :: "capability_assertions \<Rightarrow> project_graph \<Rightarrow> assert_violation list" where
  "Evaluate a g =
     (let bounds = Compute (Some g); vocab = declaredEffectIdents (Some g)
      in concat (map (checkForbid bounds vocab) (ca_ForbidEffect a))
         @ concat (map (checkAutonomous bounds vocab) (ca_ExpectAutonomous a))
         @ concat (map (checkGated g bounds) (ca_ExpectGated a)))"

lemma effectByIdent_None:
  "effectByIdent b i = None \<longleftrightarrow>
     (\<forall>e \<in> set (b_Effects b). \<not> fx_Unknown e \<longrightarrow> \<not> related (fx_Ident e) (TrimSpace i))"
  by (auto simp: effectByIdent_def find_None_ball)

text \<open>A passing \<open>forbidEffect\<close> on a workflow: only operations with undeclared effects escape it.\<close>

lemma forbid_workflow:
  assumes "Evaluate a g = []" "re \<in> set (ca_ForbidEffect a)"
    and "TrimSpace (re_Root re) \<notin> set (keys (g_Agents g))"
    and "reachesGrant g [] (TrimSpace (re_Root re)) gr" "ParseUses (gr_uses gr) = Inr (t, op)"
    and "\<not> hasUnknown (b_Effects (boundWorkflow g (TrimSpace (re_Root re)) [])) (gr_uses gr)"
    and "i \<in> set (ro_Effects (ResolveOperationEffects t op (toolSpecOf g t)))"
  shows "\<not> related i (TrimSpace (re_Effect re))"
proof -
  let ?n = "TrimSpace (re_Root re)" and ?b = "boundWorkflow g (TrimSpace (re_Root re)) []"
  have f: "checkForbid (Compute (Some g)) (declaredEffectIdents (Some g)) re = []"
    using assms(1,2) by (auto simp: Evaluate_def Let_def)
  obtain b where b: "boundForRoot (Compute (Some g)) (re_Root re) = Some b" "effectByIdent b (re_Effect re) = None"
    using f by (auto simp: checkForbid_def split: option.splits)
  have noagent: "map_of (gb_Agents (Compute (Some g))) ?n = None"
    using assms(3) by (simp add: Compute_def compute_def map_of_map_restrict restrict_map_def)
  have "map_of (gb_Workflows (Compute (Some g))) ?n = Some b"
    using b(1) noagent by (simp add: boundForRoot_def Let_def)
  then have "b = ?b"
    by (simp add: Compute_def compute_def map_of_map_restrict restrict_map_def split: if_splits)
  moreover have "hasIdent (b_Effects ?b) i (gr_uses gr) False"
    using boundWorkflow_covers [OF assms(4)] assms(5-7) by (auto simp: boundCovers_def Let_def)
  ultimately show ?thesis using b(2) by (auto simp: effectByIdent_None hasIdent_def)
qed

subsection \<open>Properties\<close>

text \<open>
  C1. If the static check passes on a project that declares effects, then every operation
  any workflow can reach, through all nested workflows and every agent's grants, is
  permitted by that workflow's policy: it is a well-formed operation with declared effects,
  each covered by a permit list, and an effect covered only by the unattended list belongs
  to an operation that needs no approval.
\<close>

theorem check_bounds_every_workflow:
  assumes "Check (Some g) = []" "anyDeclaredToolEffects g" "name \<in> set (keys (g_Workflows g))"
    and "reachesGrant g [] name gr"
  shows "grantPermitted g (snd (policyFor g (deref (g_Workflows g) name))) gr"
  using checkBound_permits [OF Check_workflow [OF assms(1-3)] boundWorkflow_covers [OF assms(4)]] .

theorem check_bounds_every_workflow_witness:
  "grantPermitted (demo_effect_graph [demo_use ''a'' ''tool.fs.read''])
     (snd (policyFor (demo_effect_graph [demo_use ''a'' ''tool.fs.read''])
        (deref (g_Workflows (demo_effect_graph [demo_use ''a'' ''tool.fs.read''])) ''main'')))
     (parseGrant (TrimSpace ''tool.fs.read''))"
proof (rule check_bounds_every_workflow)
  show "Check (Some (demo_effect_graph [demo_use ''a'' ''tool.fs.read''])) = []" by code_simp
  show "anyDeclaredToolEffects (demo_effect_graph [demo_use ''a'' ''tool.fs.read''])" by code_simp
  show "''main'' \<in> set (keys (g_Workflows (demo_effect_graph [demo_use ''a'' ''tool.fs.read''])))"
    by (simp add: demo_effect_graph_def)
  show "reachesGrant (demo_effect_graph [demo_use ''a'' ''tool.fs.read'']) [] ''main''
      (parseGrant (TrimSpace ''tool.fs.read''))"
  proof (rule demo_reaches)
    show "TrimSpace ''tool.fs.read'' \<noteq> []" by code_simp
  qed simp
qed

text \<open>
  C33. The same for agents that no workflow step uses: a passing check covers everything
  such an agent may choose by that agent's own policy.
\<close>

theorem check_bounds_every_free_agent:
  assumes "Check (Some g) = []" "anyDeclaredToolEffects g" "name \<in> set (keys (g_Agents g))"
    and "name \<notin> set (workflowAgentNames g)" "gr \<in> agentGrants g name"
  shows "grantPermitted g (snd (policyForAgent g (deref (g_Agents g) name))) gr"
  using checkBound_permits [OF Check_agent [OF assms(1-4)] boundAgent_covers [OF assms(5)]] .

definition demo_agent_graph :: project_graph where
  "demo_agent_graph = (demo_effect_graph [])\<lparr>g_Workflows := [],
     g_Agents := [(''bot'', Some \<lparr>ar_Name = ''bot'', ar_Spec = \<lparr>as_Model = [], as_Tools = [''tool.fs.read''],
       as_Policy = ''p'', as_Constraints = None\<rparr>\<rparr>)]\<rparr>"

theorem check_bounds_every_free_agent_witness:
  "grantPermitted demo_agent_graph
     (snd (policyForAgent demo_agent_graph (deref (g_Agents demo_agent_graph) ''bot''))) (parseGrant ''tool.fs.read'')"
proof (rule check_bounds_every_free_agent)
  show d: "anyDeclaredToolEffects demo_agent_graph" by code_simp
  have k: "sortedKeys (g_Workflows demo_agent_graph) = []" "sortedKeys (g_Agents demo_agent_graph) = [''bot'']"
    by code_simp+
  have r: "checkAgentRoot demo_agent_graph (Compute (Some demo_agent_graph)) ''bot'' = []" by code_simp
  show "Check (Some demo_agent_graph) = []" by (simp add: Check_def Let_def d k r)
  show "''bot'' \<in> set (keys (g_Agents demo_agent_graph))" by (simp add: demo_agent_graph_def)
  show "''bot'' \<notin> set (workflowAgentNames demo_agent_graph)" by code_simp
  show "parseGrant ''tool.fs.read'' \<in> agentGrants demo_agent_graph ''bot''" by code_simp
qed

text \<open>
  C35. A passing \<open>forbidEffect\<close> assertion on a workflow holds for every reachable operation
  that is not reported as unknown: none of its declared effects equals, covers or is covered
  by the forbidden one.
\<close>

theorem forbid_effect_sound:
  assumes "Evaluate a g = []" "re \<in> set (ca_ForbidEffect a)"
    and "TrimSpace (re_Root re) \<notin> set (keys (g_Agents g))"
    and "reachesGrant g [] (TrimSpace (re_Root re)) gr" "ParseUses (gr_uses gr) = Inr (t, op)"
    and "\<not> hasUnknown (b_Effects (boundWorkflow g (TrimSpace (re_Root re)) [])) (gr_uses gr)"
    and "i \<in> set (ro_Effects (ResolveOperationEffects t op (toolSpecOf g t)))"
  shows "i \<noteq> TrimSpace (re_Effect re) \<and> \<not> EffectCovers i (TrimSpace (re_Effect re))
    \<and> \<not> EffectCovers (TrimSpace (re_Effect re)) i"
  using forbid_workflow [OF assms] by (simp add: related_def)

definition demo_rw_graph :: project_graph where
  "demo_rw_graph = (demo_effect_graph [demo_use ''a'' ''tool.fs.read''])\<lparr>g_Tools := Some [(''fs'', Some
     (demo_fs\<lparr>tr_Spec := (tr_Spec demo_fs)\<lparr>ts_Operations :=
        [(''read'', \<lparr>op_Effects = [''workspace.read''], op_Schema = []\<rparr>),
         (''write'', \<lparr>op_Effects = [''workspace.write''], op_Schema = []\<rparr>)]\<rparr>\<rparr>))]\<rparr>"

definition demo_forbid :: capability_assertions where
  "demo_forbid = \<lparr>ca_ForbidEffect = [\<lparr>re_Root = ''main'', re_Effect = ''workspace.write''\<rparr>],
     ca_ExpectAutonomous = [], ca_ExpectGated = []\<rparr>"

theorem forbid_effect_sound_witness:
  "\<not> EffectCovers ''workspace.read'' (TrimSpace ''workspace.write'')"
proof -
  let ?re = "\<lparr>re_Root = ''main'', re_Effect = ''workspace.write''\<rparr>"
  have t: "TrimSpace ''main'' = ''main''" "TrimSpace ''tool.fs.read'' = ''tool.fs.read''" by code_simp+
  have "reachesGrant demo_rw_graph [] ''main'' (parseGrant ''tool.fs.read'')"
  proof (rule reachesGrant.step [OF reachesWorkflow.start])
    show "deref (g_Workflows demo_rw_graph) ''main'' = Some (demo_workflow [demo_use ''a'' ''tool.fs.read''])"
      by (simp add: demo_rw_graph_def demo_effect_graph_def deref_def)
    show "demo_use ''a'' ''tool.fs.read'' \<in> set (ws_Steps (wr_Spec (demo_workflow [demo_use ''a'' ''tool.fs.read''])))"
      by (simp add: demo_workflow_def)
    show "parseGrant ''tool.fs.read'' \<in> stepGrants demo_rw_graph (demo_use ''a'' ''tool.fs.read'')"
      by (simp add: stepGrants_def demo_use_def t)
  qed
  then have r: "reachesGrant demo_rw_graph [] (TrimSpace (re_Root ?re)) (parseGrant ''tool.fs.read'')"
    by (simp add: t)
  have e: "Evaluate demo_forbid demo_rw_graph = []" by code_simp
  have m: "?re \<in> set (ca_ForbidEffect demo_forbid)" by (simp add: demo_forbid_def)
  have a: "TrimSpace (re_Root ?re) \<notin> set (keys (g_Agents demo_rw_graph))" by code_simp
  have p: "ParseUses (gr_uses (parseGrant ''tool.fs.read'')) = Inr (''fs'', ''read'')" by code_simp
  have h: "\<not> hasUnknown (b_Effects (boundWorkflow demo_rw_graph (TrimSpace (re_Root ?re)) []))
      (gr_uses (parseGrant ''tool.fs.read''))" by code_simp
  have i: "''workspace.read'' \<in> set (ro_Effects (ResolveOperationEffects ''fs'' ''read''
      (toolSpecOf demo_rw_graph ''fs'')))" by code_simp
  from forbid_effect_sound [OF e m a r p h i] show ?thesis by simp
qed

text \<open>
  \<open>forbidEffect\<close> does not fail on unknown effects: a workflow that uses an undeclared
  operation, whose bound is therefore unknown, still passes the assertion.
\<close>

lemma forbid_passes_on_unknown_effects:
  "Evaluate demo_forbid (demo_rw_graph\<lparr>g_Workflows := [(''main'', Some (demo_workflow
       [demo_use ''a'' ''tool.fs.erase'']))]\<rparr>) = []
   \<and> hasUnknown (b_Effects (boundWorkflow (demo_rw_graph\<lparr>g_Workflows := [(''main'', Some (demo_workflow
       [demo_use ''a'' ''tool.fs.erase'']))]\<rparr>) ''main'' [])) ''tool.fs.erase''"
proof
  show "Evaluate demo_forbid (demo_rw_graph\<lparr>g_Workflows := [(''main'', Some (demo_workflow
       [demo_use ''a'' ''tool.fs.erase'']))]\<rparr>) = []" by code_simp
  show "hasUnknown (b_Effects (boundWorkflow (demo_rw_graph\<lparr>g_Workflows := [(''main'', Some (demo_workflow
       [demo_use ''a'' ''tool.fs.erase'']))]\<rparr>) ''main'' [])) ''tool.fs.erase''" by code_simp
qed

end
