(* ===== verification/Policy_Gate.thy ===== *)
theory Policy_Gate
  imports Policy_Eval
begin

text \<open>
  The \<open>PolicyEvaluator\<close> interface as its clients use it: what every implementation of
  \<open>CheckToolCall\<close> promises, stated once as a locale, with the human-in-the-loop gate
  (\<open>hitl.go\<close>) and the stricter-of-two composition (\<open>stricter.go\<close>) proved against it. The
  interpreted evaluator is the first instance; the compiled evaluator follows in
  \<open>Policy_Compile\<close>.
\<close>

subsection \<open>Facts on the single checks\<close>

definition inManifest :: "project_graph option \<Rightarrow> string \<Rightarrow> bool" where
  "inManifest g uses =
     (case ParseUses uses of
        Inl _ \<Rightarrow> True
      | Inr (t, op) \<Rightarrow> Allows (ManifestFor g t) op)"

lemma checkOperationInManifest_None:
  "checkOperationInManifest g u = None \<longleftrightarrow> inManifest g u"
  by (simp add: checkOperationInManifest_def inManifest_def split: sum.split prod.split)

lemma checkOperationInManifest_reason:
  "checkOperationInManifest g u = Some d \<Longrightarrow> de_Reason d = ReasonOperationNotInManifest"
  by (auto simp: checkOperationInManifest_def split: sum.splits if_splits)

lemma checkKnownTool_reason:
  "checkKnownTool g u tp = Some d \<Longrightarrow> de_Reason d \<in> {ReasonInvalidUses, ReasonUnknownTool}"
  by (auto simp: checkKnownTool_def split: sum.splits if_splits option.splits)

lemma EffectiveToolDecision_None:
  "td_Decision (EffectiveToolDecision g None t) = Derive (resolvedSafetyForTool g (TrimSpace t))"
  by (simp add: EffectiveToolDecision_def Let_def)

lemma checkSafetyDerived_None:
  "checkSafetyDerived g c = None \<longleftrightarrow>
     (\<exists>t op. ParseUses (tc_Uses c) = Inr (t, op) \<and>
        (rs_RequiresApproval (resolvedSafetyForTool g (TrimSpace t)) \<longrightarrow>
           actionApproved (tc_Uses c) (rc_ApprovedActions (tc_Run c))))"
  by (auto simp: checkSafetyDerived_def EffectiveToolDecision_None Derive_def Let_def
      split: sum.splits if_splits)

lemma checkSafetyDerived_approved_reason:
  "actionApproved (tc_Uses c) (rc_ApprovedActions (tc_Run c)) \<Longrightarrow>
     checkSafetyDerived g c = Some d \<Longrightarrow> de_Reason d = ReasonInvalidUses"
  by (auto simp: checkSafetyDerived_def EffectiveToolDecision_None Derive_def Let_def
      split: sum.splits if_splits)

lemma checkApprovalStage_approved_reason:
  "actionApproved (tc_Uses c) (rc_ApprovedActions (tc_Run c)) \<Longrightarrow>
     checkApprovalStage g pol c = Some d \<Longrightarrow> de_Reason d = ReasonInvalidUses"
  by (auto simp: checkApprovalStage_def checkApprovalGranted_def Let_def
      dest: checkSafetyDerived_approved_reason split: if_splits)

subsection \<open>Approving more actions\<close>

definition withApproved :: "string list \<Rightarrow> tool_call \<Rightarrow> tool_call" where
  "withApproved as c = c\<lparr>tc_Run := (tc_Run c)\<lparr>rc_ApprovedActions := as\<rparr>\<rparr>"

lemma withApproved_simps [simp]:
  "tc_Uses (withApproved as c) = tc_Uses c" "tc_With (withApproved as c) = tc_With c"
  "rc_ApprovedActions (tc_Run (withApproved as c)) = as"
  by (simp_all add: withApproved_def)

definition approveAlso :: "string \<Rightarrow> tool_call \<Rightarrow> tool_call" where
  "approveAlso a c = withApproved (a # rc_ApprovedActions (tc_Run c)) c"

lemma actionApproved_mono:
  "actionApproved u as \<Longrightarrow> set as \<subseteq> set bs \<Longrightarrow> actionApproved u bs"
  by (auto simp: actionApproved_def list_ex_iff)

lemma actionApproved_approveAlso [simp]:
  "actionApproved (tc_Uses c) (rc_ApprovedActions (tc_Run (approveAlso (tc_Uses c) c)))"
  by (simp add: approveAlso_def actionApproved_def)

lemma shellSafeRequiresApproval_withApproved [simp]:
  "shellSafeRequiresApproval g (withApproved as c) = shellSafeRequiresApproval g c"
  by (simp add: shellSafeRequiresApproval_def split: sum.split prod.split)

lemma checkSafetyDerived_mono:
  "checkSafetyDerived g c = None \<Longrightarrow> set (rc_ApprovedActions (tc_Run c)) \<subseteq> set as \<Longrightarrow>
     checkSafetyDerived g (withApproved as c) = None"
  by (auto simp: checkSafetyDerived_None intro: actionApproved_mono)

lemma checkApprovalStage_mono:
  "checkApprovalStage g pol c = None \<Longrightarrow> set (rc_ApprovedActions (tc_Run c)) \<subseteq> set as \<Longrightarrow>
     checkApprovalStage g pol (withApproved as c) = None"
  by (cases pol)
    (auto simp: checkApprovalStage_def Let_def checkApprovalGranted_def toolCallApprovalDenied_def
      requiresToolCallApproval_def dest: actionApproved_mono checkSafetyDerived_mono split: if_splits)

subsection \<open>The contract\<close>

locale tool_gate =
  fixes graph :: "project_graph option"
    and check :: "tool_call \<Rightarrow> denied_error option"
  assumes closed_world: "check c = None \<Longrightarrow> inManifest graph (tc_Uses c)"
    and approved_not_gated:
      "actionApproved (tc_Uses c) (rc_ApprovedActions (tc_Run c)) \<Longrightarrow> check c = Some d \<Longrightarrow>
         de_Reason d \<noteq> ReasonApprovalRequired"
    and approvals_monotone:
      "check c = None \<Longrightarrow> set (rc_ApprovedActions (tc_Run c)) \<subseteq> set as \<Longrightarrow>
         check (withApproved as c) = None"

text \<open>
  \<open>ToolCallNeedsHitlWithEvaluator\<close>: does the call wait for a human? The left part is a
  denial that no approval lifts.
\<close>

definition ToolCallNeedsHitlWithEvaluator ::
  "(tool_call \<Rightarrow> denied_error option) \<Rightarrow> tool_call \<Rightarrow> (denied_error, bool) result" where
  "ToolCallNeedsHitlWithEvaluator check call =
     (if actionApproved (tc_Uses call) (rc_ApprovedActions (tc_Run call)) then Inr False
      else case check call of
          None \<Rightarrow> Inr False
        | Some d \<Rightarrow> if de_Reason d = ReasonApprovalRequired then Inr True else Inl d)"

context tool_gate
begin

lemma needs_hitl_iff:
  "ToolCallNeedsHitlWithEvaluator check c = Inr True \<longleftrightarrow>
     (\<exists>d. check c = Some d \<and> de_Reason d = ReasonApprovalRequired)"
  using approved_not_gated [of c]
  by (auto simp: ToolCallNeedsHitlWithEvaluator_def split: option.splits if_splits)

lemma no_hitl_no_denial:
  "ToolCallNeedsHitlWithEvaluator check c = Inr False \<Longrightarrow>
     check c = None \<or> actionApproved (tc_Uses c) (rc_ApprovedActions (tc_Run c))"
  by (auto simp: ToolCallNeedsHitlWithEvaluator_def split: option.splits if_splits)

text \<open>Once the human has approved the exact call, it never waits again.\<close>

lemma approval_lifts_gate:
  "ToolCallNeedsHitlWithEvaluator check (approveAlso (tc_Uses c) c) = Inr False"
  using actionApproved_approveAlso [of c]
  by (simp add: ToolCallNeedsHitlWithEvaluator_def approveAlso_def)

lemma approved_call_denied_for_good:
  "check (approveAlso (tc_Uses c) c) = Some d \<Longrightarrow> de_Reason d \<noteq> ReasonApprovalRequired"
  by (rule approved_not_gated [of "approveAlso (tc_Uses c) c"]) (simp_all add: approveAlso_def actionApproved_def)

lemma never_outside_manifest:
  assumes "ParseUses (tc_Uses c) = Inr (t, op)" "graphTool graph (TrimSpace t) = Some tr"
    "closedWorld (tr_Spec tr)" "TrimSpace op \<notin> declaredOperations (tr_Spec tr)"
  shows "check c \<noteq> None"
  using closed_world [of c] assms by (auto simp: inManifest_def Allows_ManifestFor)

end

subsection \<open>The interpreted evaluator\<close>

interpretation ev: tool_gate "ev_graph e" "CheckToolCall e" for e
proof
  fix c
  assume "CheckToolCall e c = None"
  then show "inManifest (ev_graph e) (tc_Uses c)"
    by (auto simp: CheckToolCall_def checkOperationInManifest_None [symmetric] split: option.splits)
next
  fix c d
  assume "actionApproved (tc_Uses c) (rc_ApprovedActions (tc_Run c))" "CheckToolCall e c = Some d"
  then show "de_Reason d \<noteq> ReasonApprovalRequired"
    by (auto simp: CheckToolCall_def dest: checkOperationInManifest_reason checkKnownTool_reason
        checkApprovalStage_approved_reason split: option.splits if_splits)
next
  fix c as
  assume "CheckToolCall e c = None" "set (rc_ApprovedActions (tc_Run c)) \<subseteq> set as"
  then show "CheckToolCall e (withApproved as c) = None"
    by (auto simp: CheckToolCall_def intro: checkApprovalStage_mono split: option.splits if_splits)
qed

subsection \<open>The stricter of two evaluators\<close>

definition stricterCheck ::
  "('c \<Rightarrow> denied_error option) \<Rightarrow> ('c \<Rightarrow> denied_error option) \<Rightarrow> 'c \<Rightarrow> denied_error option" where
  "stricterCheck a b c = (case a c of Some err \<Rightarrow> Some err | None \<Rightarrow> b c)"

lemma stricterCheck_None: "stricterCheck a b c = None \<longleftrightarrow> a c = None \<and> b c = None"
  by (auto simp: stricterCheck_def split: option.splits)

text \<open>\<open>StricterOf\<close>: a nil evaluator imposes nothing.\<close>

definition StricterOf ::
  "('c \<Rightarrow> denied_error option) option \<Rightarrow> ('c \<Rightarrow> denied_error option) option \<Rightarrow>
     ('c \<Rightarrow> denied_error option) option" where
  "StricterOf a b =
     (case a of
        None \<Rightarrow> b
      | Some f \<Rightarrow> (case b of None \<Rightarrow> a | Some h \<Rightarrow> Some (stricterCheck f h)))"

locale two_gates = a: tool_gate graph checkA + b: tool_gate graph checkB
  for graph checkA checkB

sublocale two_gates \<subseteq> stricter: tool_gate graph "stricterCheck checkA checkB"
proof
  fix c
  assume "stricterCheck checkA checkB c = None"
  then show "inManifest graph (tc_Uses c)"
    by (auto simp: stricterCheck_None dest: a.closed_world)
next
  fix c d
  assume "actionApproved (tc_Uses c) (rc_ApprovedActions (tc_Run c))"
    "stricterCheck checkA checkB c = Some d"
  then show "de_Reason d \<noteq> ReasonApprovalRequired"
    by (auto simp: stricterCheck_def dest: a.approved_not_gated b.approved_not_gated split: option.splits)
next
  fix c as
  assume "stricterCheck checkA checkB c = None" "set (rc_ApprovedActions (tc_Run c)) \<subseteq> set as"
  then show "stricterCheck checkA checkB (withApproved as c) = None"
    by (auto simp: stricterCheck_None intro: a.approvals_monotone b.approvals_monotone)
qed

interpretation ev2: two_gates "ev_graph e" "CheckToolCall e" "CheckToolCall \<lparr>ev_graph = ev_graph e, ev_policy = pol\<rparr>"
  for e pol
  using ev.tool_gate_axioms [of e] ev.tool_gate_axioms [of "\<lparr>ev_graph = ev_graph e, ev_policy = pol\<rparr>"]
  by (simp add: two_gates_def)

subsection \<open>Fail-closed metadata\<close>

lemma resolvedSafety_fail_closed:
  assumes "graphTool g t = None \<or> (\<exists>tr. graphTool g t = Some tr \<and> ts_Safety (tr_Spec tr) = None)"
  shows "resolvedSafetyForTool g t =
    \<lparr>rs_Trusted = False, rs_SideEffects = True, rs_RequiresApproval = True\<rparr>"
  using assms by (auto simp: resolvedSafetyForTool_def ResolveToolSafety_None)

subsection \<open>Properties\<close>

definition demo_call :: "string \<Rightarrow> string list \<Rightarrow> tool_call" where
  "demo_call uses approved =
     \<lparr>tc_Run = \<lparr>rc_Elapsed = 0, rc_AccumulatedCostUSD = f64_zero, rc_ApprovedActions = approved\<rparr>,
      tc_StepID = ''s1'', tc_Uses = uses, tc_With = []\<rparr>"

definition demo_evaluator :: evaluator where
  "demo_evaluator = \<lparr>ev_graph = Some demo_closed_graph, ev_policy = None\<rparr>"

text \<open>
  C19. The runtime gate is a closed world: a call it admits names an operation that its
  tool declares, whenever the tool declares operations at all, under every policy, the
  permissive ones included.
\<close>

theorem admitted_calls_are_declared:
  assumes "CheckToolCall e c = None" "ParseUses (tc_Uses c) = Inr (t, op)"
    and "graphTool (ev_graph e) (TrimSpace t) = Some tr" "closedWorld (tr_Spec tr)"
  shows "TrimSpace op \<in> declaredOperations (tr_Spec tr)"
  using ev.never_outside_manifest [of c t op e tr] assms by blast

theorem admitted_calls_are_declared_witness:
  "TrimSpace ''read'' \<in> declaredOperations (tr_Spec demo_closed_tool)"
proof (rule admitted_calls_are_declared)
  show "CheckToolCall demo_evaluator (demo_call ''tool.fs.read'' [''tool.fs.read'']) = None" by code_simp
  show "ParseUses (tc_Uses (demo_call ''tool.fs.read'' [''tool.fs.read''])) = Inr (''fs'', ''read'')" by code_simp
  show "graphTool (ev_graph demo_evaluator) (TrimSpace ''fs'') = Some demo_closed_tool" by code_simp
  show "closedWorld (tr_Spec demo_closed_tool)" by code_simp
qed

text \<open>
  C25. A call waits for a human exactly when the evaluator denies it for want of approval;
  once that very call has been approved it never waits again, and if it is still denied
  then for a reason no approval lifts.
\<close>

theorem approval_lifts_exactly_the_gate:
  "(ToolCallNeedsHitlWithEvaluator (CheckToolCall e) c = Inr True \<longleftrightarrow>
      (\<exists>d. CheckToolCall e c = Some d \<and> de_Reason d = ReasonApprovalRequired))
   \<and> ToolCallNeedsHitlWithEvaluator (CheckToolCall e) (approveAlso (tc_Uses c) c) = Inr False
   \<and> (\<forall>d. CheckToolCall e (approveAlso (tc_Uses c) c) = Some d \<longrightarrow> de_Reason d \<noteq> ReasonApprovalRequired)"
  using ev.needs_hitl_iff ev.approval_lifts_gate ev.approved_call_denied_for_good by blast

theorem approval_lifts_exactly_the_gate_witness:
  "ToolCallNeedsHitlWithEvaluator (CheckToolCall demo_evaluator) (demo_call ''tool.fs.read'' []) = Inr True
   \<and> ToolCallNeedsHitlWithEvaluator (CheckToolCall demo_evaluator)
       (approveAlso (tc_Uses (demo_call ''tool.fs.read'' [])) (demo_call ''tool.fs.read'' [])) = Inr False"
proof
  show "ToolCallNeedsHitlWithEvaluator (CheckToolCall demo_evaluator) (demo_call ''tool.fs.read'' []) = Inr True"
    by code_simp
  show "ToolCallNeedsHitlWithEvaluator (CheckToolCall demo_evaluator)
       (approveAlso (tc_Uses (demo_call ''tool.fs.read'' [])) (demo_call ''tool.fs.read'' [])) = Inr False"
    using approval_lifts_exactly_the_gate by blast
qed

text \<open>
  C40. Approvals are monotone: approving further actions never turns an admitted call into
  a denied one.
\<close>

theorem approvals_never_revoke:
  assumes "CheckToolCall e c = None" "set (rc_ApprovedActions (tc_Run c)) \<subseteq> set others"
  shows "CheckToolCall e (withApproved others c) = None"
  using assms by (rule ev.approvals_monotone)

theorem approvals_never_revoke_witness:
  "CheckToolCall demo_evaluator (withApproved [''tool.fs.list'', ''tool.fs.read'']
     (demo_call ''tool.fs.read'' [''tool.fs.read''])) = None"
proof (rule approvals_never_revoke)
  show "CheckToolCall demo_evaluator (demo_call ''tool.fs.read'' [''tool.fs.read'']) = None" by code_simp
qed (simp add: demo_call_def)

text \<open>
  C26. Without a policy the gate fails closed: a well-formed call to a tool that carries no
  safety metadata, or that the graph does not know, is never admitted unapproved.
\<close>

theorem no_metadata_fails_closed:
  assumes "ev_policy e = None" "ParseUses (tc_Uses c) = Inr (t, op)"
    and "graphTool (ev_graph e) (TrimSpace t) = None
      \<or> (\<exists>tr. graphTool (ev_graph e) (TrimSpace t) = Some tr \<and> ts_Safety (tr_Spec tr) = None)"
    and "\<not> actionApproved (tc_Uses c) (rc_ApprovedActions (tc_Run c))"
  shows "CheckToolCall e c \<noteq> None"
proof -
  have "checkSafetyDerived (ev_graph e) c \<noteq> None"
    using assms(2,4) resolvedSafety_fail_closed [OF assms(3)] by (auto simp: checkSafetyDerived_None)
  then show ?thesis
    using assms(1)
    by (auto simp: CheckToolCall_def checkApprovalStage_def Let_def requiresToolCallApproval_def
        split: option.split)
qed

theorem no_metadata_fails_closed_witness:
  "CheckToolCall demo_evaluator (demo_call ''tool.net.get'' []) \<noteq> None"
proof (rule no_metadata_fails_closed)
  show "ev_policy demo_evaluator = None" by code_simp
  show "ParseUses (tc_Uses (demo_call ''tool.net.get'' [])) = Inr (''net'', ''get'')" by code_simp
  have "graphTool (ev_graph demo_evaluator) (TrimSpace ''net'') = None" by code_simp
  then show "graphTool (ev_graph demo_evaluator) (TrimSpace ''net'') = None
      \<or> (\<exists>tr. graphTool (ev_graph demo_evaluator) (TrimSpace ''net'') = Some tr \<and> ts_Safety (tr_Spec tr) = None)"
    by blast
  show "\<not> actionApproved (tc_Uses (demo_call ''tool.net.get'' []))
      (rc_ApprovedActions (tc_Run (demo_call ''tool.net.get'' [])))" by code_simp
qed

text \<open>
  The composed evaluator of a subworkflow admits a call exactly when both its policies do, and a
  call it has approved does not wait again.
\<close>

lemma stricter_admits_iff_both:
  "(stricterCheck (CheckToolCall e) (CheckToolCall \<lparr>ev_graph = ev_graph e, ev_policy = pol\<rparr>) c = None \<longleftrightarrow>
      CheckToolCall e c = None \<and> CheckToolCall \<lparr>ev_graph = ev_graph e, ev_policy = pol\<rparr> c = None)
   \<and> ToolCallNeedsHitlWithEvaluator
       (stricterCheck (CheckToolCall e) (CheckToolCall \<lparr>ev_graph = ev_graph e, ev_policy = pol\<rparr>))
       (approveAlso (tc_Uses c) c) = Inr False"
  by (intro conjI stricterCheck_None ev2.stricter.approval_lifts_gate)





end
