(* ===== verification/Policy_Compile.thy ===== *)
theory Policy_Compile
  imports Policy_Gate
begin

text \<open>
  Compiled policy snapshots (\<open>internal/policy/compile.go\<close>) and the evaluator that a run uses
  on them (\<open>compiled_evaluator.go\<close>), with the refinement: a compiled snapshot decides every
  call, run and step as the policy it was compiled from.

  A snapshot's content digest is not part of the record here.
\<close>

subsection \<open>Snapshots\<close>

record compiled_decision =
  cd_Decision :: decision
  cd_Source :: decision_source

record residual_policy =
  rp_ForbidUnknownTools :: bool
  rp_Permissive :: bool
  rp_ShellSafe :: bool
  rp_RequireAllTools :: bool
  rp_RequiredForExact :: "string list"
  rp_Execution :: "policy_execution option"
  rp_Hitl :: "hitl_policy option"

record compiled_policy =
  cp_PolicyName :: string
  cp_Tools :: "compiled_decision gomap"
  cp_PlanTools :: "compiled_decision gomap"
  cp_Residual :: residual_policy

definition presetSource :: "policy_spec \<Rightarrow> decision_source" where
  "presetSource pol =
     (if ResolvedPresetName (Some pol) \<noteq> [] then SourcePresetBase else SourceExplicitPolicyRule)"

definition compileRuntimeTool ::
  "project_graph option \<Rightarrow> policy_spec \<Rightarrow> string \<Rightarrow> compiled_decision" where
  "compileRuntimeTool graph pol toolName0 =
     (let toolName = TrimSpace toolName0;
          safety = resolvedSafetyForTool graph toolName
      in if ps_Approvals pol \<noteq> None \<and> ApprovalPermissive (ps_Approvals pol)
         then \<lparr>cd_Decision = DecisionAllow, cd_Source = presetSource pol\<rparr>
         else if ps_Approvals pol \<noteq> None \<and> ApprovalRequireAllTools (ps_Approvals pol)
         then \<lparr>cd_Decision = DecisionRequireApproval, cd_Source = presetSource pol\<rparr>
         else if ResolvedPresetName (Some pol) = PresetShellSafe
                 \<and> (rs_RequiresApproval safety \<or> rs_SideEffects safety)
         then \<lparr>cd_Decision = DecisionRequireApproval, cd_Source = SourcePresetBase\<rparr>
         else \<lparr>cd_Decision = Derive safety, cd_Source = metadataSource graph toolName\<rparr>)"

definition sortedToolNames :: "project_graph option \<Rightarrow> string list" where
  "sortedToolNames graph = (case graph of None \<Rightarrow> [] | Some g \<Rightarrow> sortedKeys (toolsOf g))"

definition compileRuntimeToolDecisions ::
  "project_graph option \<Rightarrow> policy_spec \<Rightarrow> compiled_decision gomap" where
  "compileRuntimeToolDecisions graph pol =
     map (\<lambda>name. (name, compileRuntimeTool graph pol name)) (sortedToolNames graph)"

definition compilePlanToolDecisions ::
  "project_graph option \<Rightarrow> policy_spec \<Rightarrow> compiled_decision gomap" where
  "compilePlanToolDecisions graph pol =
     map (\<lambda>name. let td = EffectiveToolDecision graph (Some pol) name
                 in (name, \<lparr>cd_Decision = td_Decision td, cd_Source = td_Source td\<rparr>))
       (sortedToolNames graph)"

definition buildResidual :: "policy_spec \<Rightarrow> residual_policy" where
  "buildResidual pol =
     \<lparr>rp_ForbidUnknownTools = (case ps_Tools pol of None \<Rightarrow> False | Some t \<Rightarrow> pt_ForbidUnknownTools t),
      rp_Permissive = (ps_Approvals pol \<noteq> None \<and> ApprovalPermissive (ps_Approvals pol)),
      rp_ShellSafe = (ResolvedPresetName (Some pol) = PresetShellSafe),
      rp_RequireAllTools = (ps_Approvals pol \<noteq> None \<and> ApprovalRequireAllTools (ps_Approvals pol)),
      rp_RequiredForExact = (case ps_Approvals pol of None \<Rightarrow> [] | Some a \<Rightarrow> sort (pa_RequiredFor a)),
      rp_Execution = ps_Execution pol,
      rp_Hitl = ps_Hitl pol\<rparr>"

datatype compile_error =
    CompileEmptyName | CompileUnknownPolicy string | CompilePreset string preset_error
  | CompileNilGraph

text \<open>The policy a name denotes, with its preset expanded when that has not happened yet.\<close>

definition compileMerged :: "policy_spec \<Rightarrow> (preset_error, policy_spec) result" where
  "compileMerged raw =
     (if TrimSpace (ps_ResolvedPreset raw) = [] then
        (case ResolvePolicySpec (Some raw) of
           Inl e \<Rightarrow> Inl e
         | Inr None \<Rightarrow> Inr raw
         | Inr (Some resolved) \<Rightarrow> Inr resolved)
      else Inr raw)"

text \<open>
  \<open>Compile\<close>, without the digest of the encoded policy and the failure of its encoder: no decision
  reads the digest, and the policy consists of encodable values.
\<close>

definition Compile ::
  "project_graph option \<Rightarrow> string \<Rightarrow> (compile_error, compiled_policy) result" where
  "Compile graph policyName0 =
     (let policyName = TrimSpace policyName0 in
      if policyName = [] then Inl CompileEmptyName
      else case resolvePolicy graph policyName of
          None \<Rightarrow> Inl (CompileUnknownPolicy policyName)
        | Some raw \<Rightarrow>
            (case compileMerged raw of
               Inl e \<Rightarrow> Inl (CompilePreset policyName e)
             | Inr merged \<Rightarrow>
                 Inr \<lparr>cp_PolicyName = policyName,
                      cp_Tools = compileRuntimeToolDecisions graph merged,
                      cp_PlanTools = compilePlanToolDecisions graph merged,
                      cp_Residual = buildResidual merged\<rparr>))"

definition sortedReferencedPolicyNames :: "project_graph \<Rightarrow> string list" where
  "sortedReferencedPolicyNames g = sort (collectReferencedPolicyNames g)"

fun compileNames ::
  "project_graph option \<Rightarrow> string list \<Rightarrow> (compile_error, compiled_policy gomap) result" where
  "compileNames graph [] = Inr []"
| "compileNames graph (n # ns) =
     (case Compile graph n of
        Inl e \<Rightarrow> Inl e
      | Inr cp \<Rightarrow>
          (case compileNames graph ns of Inl e \<Rightarrow> Inl e | Inr out \<Rightarrow> Inr ((n, cp) # out)))"

definition CompileReferenced ::
  "project_graph option \<Rightarrow> (compile_error, compiled_policy gomap) result" where
  "CompileReferenced graph =
     (case graph of
        None \<Rightarrow> Inl CompileNilGraph
      | Some g \<Rightarrow> compileNames graph (sortedReferencedPolicyNames g))"

definition EffectivePolicyEntries :: "compiled_policy \<Rightarrow> (string \<times> decision \<times> decision_source) list" where
  "EffectivePolicyEntries cp =
     (let src = (if cp_PlanTools cp = [] then cp_Tools cp else cp_PlanTools cp) in
      List.map_filter (\<lambda>name. map_option (\<lambda>td. (name, cd_Decision td, cd_Source td)) (map_of src name))
        (sortedKeys src))"

definition DefaultPolicyName :: "project_graph option \<Rightarrow> string" where
  "DefaultPolicyName graph =
     (case graph of
        None \<Rightarrow> ''default''
      | Some g \<Rightarrow>
          (case g_Defaults g of
             None \<Rightarrow> ''default''
           | Some d \<Rightarrow> let p = TrimSpace (pd_Policy d) in if p \<noteq> [] then p else ''default''))"

subsection \<open>The evaluator on a snapshot\<close>

record compiled_evaluator =
  ce_graph :: "project_graph option"
  ce_cp :: "compiled_policy option"

definition compiledExecution :: "compiled_evaluator \<Rightarrow> policy_execution option" where
  "compiledExecution e = (case ce_cp e of None \<Rightarrow> None | Some cp \<Rightarrow> rp_Execution (cp_Residual cp))"

definition compiledCheckRun :: "compiled_evaluator \<Rightarrow> run_context \<Rightarrow> denied_error option" where
  "compiledCheckRun e run = checkExecutionBudgets run (compiledExecution e)"

definition compiledCheckStep :: "compiled_evaluator \<Rightarrow> step_context \<Rightarrow> denied_error option" where
  "compiledCheckStep e step = checkStructuredOutputRequired step (compiledExecution e)"

definition checkCompiledStatic ::
  "project_graph option \<Rightarrow> compiled_policy \<Rightarrow> tool_call \<Rightarrow> denied_error option" where
  "checkCompiledStatic graph cp call =
     (case ParseUses (tc_Uses call) of
        Inl _ \<Rightarrow> denied ReasonInvalidUses (tc_Uses call) []
      | Inr (toolName, _) \<Rightarrow>
          (case map_of (cp_Tools cp) toolName of
             None \<Rightarrow> checkSafetyDerived graph call
           | Some td \<Rightarrow>
               (case cd_Decision td of
                  DecisionAllow \<Rightarrow> None
                | DecisionRequireApproval \<Rightarrow>
                    if actionApproved (tc_Uses call) (rc_ApprovedActions (tc_Run call)) then None
                    else denied ReasonApprovalRequired (tc_Uses call)
                      [(''tool'', AStr toolName), (''source'', AStr (sourceString (cd_Source td)))]
                | DecisionDeny \<Rightarrow>
                    denied ReasonDenied (tc_Uses call)
                      [(''tool'', AStr toolName), (''source'', AStr (sourceString (cd_Source td)))])))"

definition residualApprovals :: "residual_policy \<Rightarrow> policy_approvals" where
  "residualApprovals res = zero_approvals\<lparr>pa_RequiredFor := rp_RequiredForExact res\<rparr>"

definition shellSafePolicySpec :: "residual_policy \<Rightarrow> policy_spec" where
  "shellSafePolicySpec res = zero_policy\<lparr>ps_ResolvedPreset := PresetShellSafe,
     ps_Approvals := Some (residualApprovals res)\<rparr>"

definition requireAllPolicySpec :: policy_spec where
  "requireAllPolicySpec = zero_policy\<lparr>ps_ResolvedPreset := PresetStrict\<rparr>"

definition compiledApprovalStage ::
  "project_graph option \<Rightarrow> compiled_policy \<Rightarrow> tool_call \<Rightarrow> denied_error option" where
  "compiledApprovalStage graph cp call =
     (let res = cp_Residual cp;
          uses = tc_Uses call;
          approved = rc_ApprovedActions (tc_Run call);
          exact = Some (residualApprovals res)
      in if rp_ShellSafe res then
           (if shellSafeRequiresApproval graph call \<or> approvalRequired uses exact then
              (if actionApproved uses approved then None
               else toolCallApprovalDenied call (Some (shellSafePolicySpec res)))
            else None)
         else if rp_RequireAllTools res then
           (if actionApproved uses approved then None
            else toolCallApprovalDenied call (Some requireAllPolicySpec))
         else if approvalRequired uses exact then checkApprovalGranted uses exact approved
         else checkCompiledStatic graph cp call)"

definition compiledCheckToolCall :: "compiled_evaluator \<Rightarrow> tool_call \<Rightarrow> denied_error option" where
  "compiledCheckToolCall e call =
     (case checkOperationInManifest (ce_graph e) (tc_Uses call) of
        Some d \<Rightarrow> Some d
      | None \<Rightarrow>
          (case ce_cp e of
             None \<Rightarrow> checkSafetyDerived (ce_graph e) call
           | Some cp \<Rightarrow>
               let res = cp_Residual cp in
               (case (if rp_ForbidUnknownTools res
                      then checkKnownTool (ce_graph e) (tc_Uses call)
                             (Some \<lparr>pt_ForbidUnknownTools = True\<rparr>)
                      else None) of
                  Some d \<Rightarrow> Some d
                | None \<Rightarrow>
                    if rp_Permissive res then None
                    else compiledApprovalStage (ce_graph e) cp call)))"

subsection \<open>Contract\<close>

lemma checkCompiledStatic_approved_reason:
  "actionApproved (tc_Uses c) (rc_ApprovedActions (tc_Run c)) \<Longrightarrow>
     checkCompiledStatic g cp c = Some d \<Longrightarrow> de_Reason d \<noteq> ReasonApprovalRequired"
  using checkSafetyDerived_approved_reason [of c g d]
  by (auto simp: checkCompiledStatic_def split: sum.splits option.splits decision.splits)

lemma checkCompiledStatic_mono:
  "checkCompiledStatic g cp c = None \<Longrightarrow> set (rc_ApprovedActions (tc_Run c)) \<subseteq> set as \<Longrightarrow>
     checkCompiledStatic g cp (withApproved as c) = None"
  using actionApproved_mono [of "tc_Uses c" "rc_ApprovedActions (tc_Run c)" as]
  by (auto simp: checkCompiledStatic_def intro: checkSafetyDerived_mono
      split: sum.splits option.splits decision.splits if_splits)

lemma compiledApprovalStage_mono:
  "compiledApprovalStage g cp c = None \<Longrightarrow> set (rc_ApprovedActions (tc_Run c)) \<subseteq> set as \<Longrightarrow>
     compiledApprovalStage g cp (withApproved as c) = None"
  by (auto simp: compiledApprovalStage_def Let_def checkApprovalGranted_def toolCallApprovalDenied_def
      intro: checkCompiledStatic_mono dest: actionApproved_mono split: if_splits)

interpretation cev: tool_gate "ce_graph e" "compiledCheckToolCall e" for e
proof
  fix c
  assume "compiledCheckToolCall e c = None"
  then show "inManifest (ce_graph e) (tc_Uses c)"
    by (auto simp: compiledCheckToolCall_def checkOperationInManifest_None [symmetric]
        split: option.splits)
next
  fix c d
  assume "actionApproved (tc_Uses c) (rc_ApprovedActions (tc_Run c))"
    "compiledCheckToolCall e c = Some d"
  then show "de_Reason d \<noteq> ReasonApprovalRequired"
    by (auto simp: compiledCheckToolCall_def compiledApprovalStage_def checkApprovalGranted_def Let_def
        dest: checkOperationInManifest_reason checkKnownTool_reason checkSafetyDerived_approved_reason
          checkCompiledStatic_approved_reason
        split: option.splits if_splits)
next
  fix c as
  assume "compiledCheckToolCall e c = None" "set (rc_ApprovedActions (tc_Run c)) \<subseteq> set as"
  then show "compiledCheckToolCall e (withApproved as c) = None"
    by (auto simp: compiledCheckToolCall_def Let_def intro: checkSafetyDerived_mono
        compiledApprovalStage_mono split: option.splits if_splits)
qed

subsection \<open>Refinement\<close>

lemma residual_approvalRequired:
  "approvalRequired u (Some (residualApprovals (buildResidual pol))) = approvalRequired u (ps_Approvals pol)"
  by (cases "ps_Approvals pol")
    (auto simp: approvalRequired_def residualApprovals_def buildResidual_def zero_approvals_def list_ex_iff)

lemma compileRuntimeToolDecisions_lookup:
  "map_of (compileRuntimeToolDecisions g pol) t =
     (if t \<in> set (sortedToolNames g) then Some (compileRuntimeTool g pol t) else None)"
  unfolding compileRuntimeToolDecisions_def by (induction "sortedToolNames g") (auto simp: map_of_map_restrict)

lemma compileRuntimeTool_metadata:
  assumes "\<not> ApprovalPermissive (ps_Approvals pol)" "\<not> ApprovalRequireAllTools (ps_Approvals pol)"
    "ResolvedPresetName (Some pol) \<noteq> PresetShellSafe"
  shows "cd_Decision (compileRuntimeTool g pol t) = Derive (resolvedSafetyForTool g (TrimSpace t))"
  using assms by (simp add: compileRuntimeTool_def Let_def)

definition decisionOf :: "denied_error option \<Rightarrow> reason option" where
  "decisionOf r = map_option de_Reason r"

lemma checkCompiledStatic_refines:
  assumes "cp_Tools cp = compileRuntimeToolDecisions g pol"
    "\<not> ApprovalPermissive (ps_Approvals pol)" "\<not> ApprovalRequireAllTools (ps_Approvals pol)"
    "ResolvedPresetName (Some pol) \<noteq> PresetShellSafe"
  shows "decisionOf (checkCompiledStatic g cp c) = decisionOf (checkSafetyDerived g c)"
  using assms(1) compileRuntimeTool_metadata [OF assms(2-4)]
  by (auto simp: checkCompiledStatic_def checkSafetyDerived_def compileRuntimeToolDecisions_lookup
      EffectiveToolDecision_None Derive_def decisionOf_def denied_def Let_def
      split: sum.split)

lemma compiledApprovalStage_refines:
  assumes "cp_Tools cp = compileRuntimeToolDecisions g pol" "cp_Residual cp = buildResidual pol"
    "\<not> ApprovalPermissive (ps_Approvals pol)"
  shows "decisionOf (compiledApprovalStage g cp c) = decisionOf (checkApprovalStage g (Some pol) c)"
proof -
  have req: "rp_RequireAllTools (buildResidual pol) = requiresToolCallApproval (Some pol)"
    by (auto simp: buildResidual_def requiresToolCallApproval_def ApprovalRequireAllTools_def
        split: option.splits)
  have sh: "rp_ShellSafe (buildResidual pol) = (ResolvedPresetName (Some pol) = PresetShellSafe)"
    by (simp add: buildResidual_def)
  consider (shell) "ResolvedPresetName (Some pol) = PresetShellSafe"
    | (all) "ResolvedPresetName (Some pol) \<noteq> PresetShellSafe" "requiresToolCallApproval (Some pol)"
    | (rest) "ResolvedPresetName (Some pol) \<noteq> PresetShellSafe" "\<not> requiresToolCallApproval (Some pol)"
    by blast
  then show ?thesis
  proof cases
    case rest
    then have "\<not> ApprovalRequireAllTools (ps_Approvals pol)"
      by (simp add: requiresToolCallApproval_def)
    with rest checkCompiledStatic_refines [OF assms(1,3) _ rest(1)] show ?thesis
      by (simp add: compiledApprovalStage_def checkApprovalStage_def Let_def assms(2) req sh
          residual_approvalRequired checkApprovalGranted_def)
  qed (simp_all add: compiledApprovalStage_def checkApprovalStage_def Let_def assms(2) req sh
      residual_approvalRequired toolCallApprovalDenied_def decisionOf_def denied_def)
qed

lemma compiledCheckToolCall_refines:
  assumes "cp_Tools cp = compileRuntimeToolDecisions g pol" "cp_Residual cp = buildResidual pol"
  shows "decisionOf (compiledCheckToolCall \<lparr>ce_graph = g, ce_cp = Some cp\<rparr> c) =
    decisionOf (CheckToolCall \<lparr>ev_graph = g, ev_policy = Some pol\<rparr> c)"
proof -
  have perm: "rp_Permissive (buildResidual pol) = ApprovalPermissive (ps_Approvals pol)"
    by (auto simp: buildResidual_def ApprovalPermissive_def split: option.splits)
  have known: "(if rp_ForbidUnknownTools (buildResidual pol)
      then checkKnownTool g (tc_Uses c) (Some \<lparr>pt_ForbidUnknownTools = True\<rparr>) else None) =
    checkKnownTool g (tc_Uses c) (ps_Tools pol)"
    by (auto simp: buildResidual_def checkKnownTool_def split: option.splits)
  have permissive: "(ps_Approvals pol \<noteq> None \<and> ApprovalPermissive (ps_Approvals pol)) =
      ApprovalPermissive (ps_Approvals pol)"
    by (auto simp: ApprovalPermissive_def split: option.splits)
  have comp: "compiledCheckToolCall \<lparr>ce_graph = g, ce_cp = Some cp\<rparr> c =
    (case checkOperationInManifest g (tc_Uses c) of Some d \<Rightarrow> Some d
     | None \<Rightarrow> (case checkKnownTool g (tc_Uses c) (ps_Tools pol) of Some d \<Rightarrow> Some d
       | None \<Rightarrow> if ApprovalPermissive (ps_Approvals pol) then None
                 else compiledApprovalStage g cp c))"
    by (cases "checkOperationInManifest g (tc_Uses c)")
      (simp_all only: compiledCheckToolCall_def Let_def assms(2) known perm option.case
        compiled_evaluator.simps)
  show ?thesis
    unfolding comp CheckToolCall_def
    using compiledApprovalStage_refines [OF assms, of c]
    by (simp add: permissive ApprovalPermissive_def split: option.split)
qed

subsection \<open>Properties\<close>

text \<open>
  C16. Compiling a policy preserves its decisions: when \<open>Compile\<close> accepts a policy name,
  the evaluator on the compiled snapshot admits, gates and denies every call with the same
  reason as the interpreting evaluator on the resolved policy.
\<close>

theorem compile_preserves_decisions:
  assumes "Compile graph name = Inr cp"
  shows "\<exists>raw pol. resolvePolicy graph (TrimSpace name) = Some raw \<and> compileMerged raw = Inr pol \<and>
    (\<forall>c. decisionOf (compiledCheckToolCall \<lparr>ce_graph = graph, ce_cp = Some cp\<rparr> c) =
       decisionOf (CheckToolCall \<lparr>ev_graph = graph, ev_policy = Some pol\<rparr> c))"
proof -
  from assms obtain raw pol where r: "resolvePolicy graph (TrimSpace name) = Some raw" "compileMerged raw = Inr pol"
    and cp: "cp_Tools cp = compileRuntimeToolDecisions graph pol" "cp_Residual cp = buildResidual pol"
    by (auto simp: Compile_def Let_def split: if_splits option.splits sum.splits)
  with compiledCheckToolCall_refines [OF cp] show ?thesis by blast
qed

definition demo_policy_graph :: project_graph where
  "demo_policy_graph = demo_closed_graph\<lparr>g_Policies :=
     [(''p'', Some \<lparr>pr_Name = ''p'', pr_Spec = zero_policy\<lparr>ps_Preset := ''strict''\<rparr>\<rparr>)]\<rparr>"

theorem compile_preserves_decisions_witness:
  "\<exists>cp raw pol. Compile (Some demo_policy_graph) ''p'' = Inr cp
     \<and> resolvePolicy (Some demo_policy_graph) (TrimSpace ''p'') = Some raw \<and> compileMerged raw = Inr pol
     \<and> (\<forall>c. decisionOf (compiledCheckToolCall \<lparr>ce_graph = Some demo_policy_graph, ce_cp = Some cp\<rparr> c) =
          decisionOf (CheckToolCall \<lparr>ev_graph = Some demo_policy_graph, ev_policy = Some pol\<rparr> c))"
proof -
  have "Compile (Some demo_policy_graph) ''p'' \<noteq> Inl (case Compile (Some demo_policy_graph) ''p'' of
      Inl e \<Rightarrow> e | Inr _ \<Rightarrow> CompileNilGraph)"
    by code_simp
  then obtain cp where cp: "Compile (Some demo_policy_graph) ''p'' = Inr cp"
    by (cases "Compile (Some demo_policy_graph) ''p''") auto
  from compile_preserves_decisions [OF this] cp show ?thesis by blast
qed

end
