(* ===== verification/Go_Json.thy ===== *)
theory Go_Json
  imports Spec_Types
begin

text \<open>
  \<open>encoding/json\<close>, \<open>strconv\<close> and \<open>time\<close> formatting as the program uses them: decimal
  integers, the encoding of strings (HTML escaping on, invalid UTF-8 replaced) with a decoder
  that inverts it, \<open>json.Marshal\<close> of dynamic values, \<open>reflect.DeepEqual\<close> and the
  \<open>RFC3339Nano\<close> layout. The spelling of a finite float is \<open>strconv\<close>'s shortest decimal; it is
  an argument of the encoder, since no result depends on which digits it prints.
\<close>

subsection \<open>Decimal integers\<close>

definition digitChar :: "nat \<Rightarrow> char" where
  "digitChar n = char_of (48 + n)"

fun showNat :: "nat \<Rightarrow> string" where
  "showNat n = (if n < 10 then [digitChar n] else showNat (n div 10) @ [digitChar (n mod 10)])"

declare showNat.simps [simp del]

definition showInt :: "int \<Rightarrow> string" where
  "showInt i = (if i < 0 then CHR ''-'' # showNat (nat (- i)) else showNat (nat i))"

definition isDigit :: "char \<Rightarrow> bool" where
  "isDigit c = between 48 57 c"

definition natOf :: "string \<Rightarrow> nat" where
  "natOf s = foldl (\<lambda>acc c. 10 * acc + (of_char c - 48)) 0 s"

lemma of_char_digitChar: "n < 10 \<Longrightarrow> of_char (digitChar n) = 48 + n"
  by (simp add: digitChar_def)

lemma isDigit_digitChar: "n < 10 \<Longrightarrow> isDigit (digitChar n)"
  by (simp add: isDigit_def between_def of_char_digitChar)

lemma showNat_digits: "list_all isDigit (showNat n)"
proof (induction n rule: showNat.induct)
  case (1 n)
  then show ?case
    by (cases "n < 10") (simp_all add: showNat.simps [of n] isDigit_digitChar)
qed

lemma showNat_nonempty: "showNat n \<noteq> []"
  by (simp add: showNat.simps [of n])

lemma natOf_snoc: "natOf (s @ [c]) = 10 * natOf s + (of_char c - 48)"
  by (simp add: natOf_def)

lemma natOf_showNat [simp]: "natOf (showNat n) = n"
proof (induction n rule: showNat.induct)
  case (1 n)
  show ?case
  proof (cases "n < 10")
    case True
    then show ?thesis by (simp add: showNat.simps [of n] natOf_def of_char_digitChar)
  next
    case False
    with 1 show ?thesis by (simp add: showNat.simps [of n] natOf_snoc of_char_digitChar)
  qed
qed

lemma not_digit_minus: "\<not> isDigit (CHR ''-'')"
  by (simp add: isDigit_def between_def)

lemma showNat_no_minus: "showNat n \<noteq> CHR ''-'' # s"
  using showNat_digits [of n] not_digit_minus by auto

lemma showInt_inject: "showInt i = showInt j \<longleftrightarrow> i = j"
proof
  assume eq: "showInt i = showInt j"
  then have sign: "i < 0 \<longleftrightarrow> j < 0"
    using showNat_no_minus by (auto simp: showInt_def split: if_splits dest: sym)
  have "showNat (nat \<bar>i\<bar>) = showNat (nat \<bar>j\<bar>)"
    using eq sign by (auto simp: showInt_def split: if_splits)
  then have "nat \<bar>i\<bar> = nat \<bar>j\<bar>" by (metis natOf_showNat)
  then show "i = j" using sign by (auto split: if_splits)
qed simp

lemma showInt_no_comma: "CHR '','' \<notin> set (showInt i)"
proof -
  have "CHR '','' \<notin> set (showNat n)" for n
    using showNat_digits [of n] by (auto simp: list_all_iff isDigit_def between_def)
  then show ?thesis by (simp add: showInt_def)
qed

text \<open>A run of characters free of a separator, followed by it, is read back uniquely.\<close>

lemma separated_inject:
  assumes "a @ c # r = b @ c # s" "c \<notin> set a" "c \<notin> set b"
  shows "a = b \<and> r = s"
proof -
  have "takeWhile ((\<noteq>) c) (a @ c # r) = a" "takeWhile ((\<noteq>) c) (b @ c # s) = b"
    using assms(2,3) by (subst takeWhile_append2; auto)+
  with assms(1) show ?thesis by auto
qed

lemma set_Join: "set (Join ss sep) \<subseteq> \<Union> (set ` set ss) \<union> set sep"
  by (induction ss sep rule: Join.induct) auto

lemma Join_inject:
  assumes "Join xs [c] = Join ys [c]" "\<forall>s \<in> set xs \<union> set ys. s \<noteq> [] \<and> c \<notin> set s"
  shows "xs = ys"
  using assms
proof (induction xs "[c]" arbitrary: ys rule: Join.induct)
  case 1
  then show ?case by (cases "(ys, [c])" rule: Join.cases) auto
next
  case (2 s)
  then have c: "c \<notin> set s" "s \<noteq> []" by simp_all
  show ?case
  proof (cases "(ys, [c])" rule: Join.cases)
    case (3 u v vs sep)
    then have "s = u @ c # Join (v # vs) [c]" using 2 by simp
    then show ?thesis using c by simp
  qed (use 2 c in auto)
next
  case (3 s t ss)
  show ?case
  proof (cases "(ys, [c])" rule: Join.cases)
    case (2 u sep)
    then have u: "u = s @ c # Join (t # ss) [c]" and "u \<in> set ys" using "3.prems"(1) by auto
    have "c \<in> set u" unfolding u by simp
    with \<open>u \<in> set ys\<close> "3.prems"(2) show ?thesis by blast
  next
    case ys: (3 u w vs sep)
    have "s @ c # Join (t # ss) [c] = u @ c # Join (w # vs) [c]" using 3 ys by simp
    moreover have "c \<notin> set s" "c \<notin> set u" using 3 ys by auto
    ultimately have "s = u \<and> Join (t # ss) [c] = Join (w # vs) [c]" by (rule separated_inject)
    moreover have "t # ss = w # vs"
      by (rule "3.hyps") (use calculation "3.prems"(2) ys in auto)
    ultimately show ?thesis using ys by simp
  qed (use 3 in auto)
qed

text \<open>\<open>appendInt(b, x, width)\<close> of \<open>time\<close>: zero-padded on the left.\<close>

definition zeroPad :: "nat \<Rightarrow> nat \<Rightarrow> string" where
  "zeroPad w n = replicate (w - length (showNat n)) CHR ''0'' @ showNat n"

lemma natOf_zeros: "natOf (replicate k CHR ''0'' @ s) = natOf s"
proof (induction k)
  case (Suc k)
  then show ?case by (simp add: natOf_def)
qed simp

lemma zeroPad_inject: "zeroPad w m = zeroPad w n \<longleftrightarrow> m = n"
  by (metis natOf_showNat natOf_zeros zeroPad_def)

lemma length_showNat: "0 < w \<Longrightarrow> n < 10 ^ w \<Longrightarrow> length (showNat n) \<le> w"
proof (induction n arbitrary: w rule: showNat.induct)
  case (1 n)
  show ?case
  proof (cases "n < 10")
    case True
    with 1 show ?thesis by (simp add: showNat.simps [of n])
  next
    case False
    with "1.prems" obtain v where v: "w = Suc v" "0 < v"
      by (cases w; cases "w - 1") auto
    then have "n div 10 < 10 ^ v" using "1.prems" by (simp add: less_mult_imp_div_less mult.commute)
    with 1 False v show ?thesis by (simp add: showNat.simps [of n])
  qed
qed

lemma length_zeroPad: "0 < w \<Longrightarrow> n < 10 ^ w \<Longrightarrow> length (zeroPad w n) = w"
  by (simp add: zeroPad_def length_showNat)

subsection \<open>Strings\<close>

definition hexVal :: "char \<Rightarrow> nat option" where
  "hexVal c =
     (if between 48 57 c then Some (of_char c - 48)
      else if between 97 102 c then Some (of_char c - 87)
      else None)"

text \<open>One ASCII byte inside a JSON string, with \<open>escapeHTML\<close> on.\<close>

definition quoteAscii :: "char \<Rightarrow> string" where
  "quoteAscii c =
     (if c = CHR 0x5C \<or> c = CHR 0x22 then [CHR 0x5C, c]
      else if c = CHR 0x08 then [CHR 0x5C, CHR ''b'']
      else if c = CHR 0x0C then [CHR 0x5C, CHR ''f'']
      else if c = CHR 0x0A then [CHR 0x5C, CHR ''n'']
      else if c = CHR 0x0D then [CHR 0x5C, CHR ''r'']
      else if c = CHR 0x09 then [CHR 0x5C, CHR ''t'']
      else if of_char c < (0x20 :: nat) \<or> c = CHR ''<'' \<or> c = CHR ''>'' \<or> c = CHR ''&''
      then CHR 0x5C # ''u00'' @ [hexDigit (of_char c div 16), hexDigit (of_char c mod 16)]
      else [c])"

definition lineSep :: string where
  "lineSep = [CHR 0xE2, CHR 0x80, CHR 0xA8]"

definition paraSep :: string where
  "paraSep = [CHR 0xE2, CHR 0x80, CHR 0xA9]"

text \<open>The UTF-8 encoding of U+FFFD.\<close>

definition runeError :: string where
  "runeError = [CHR 0xEF, CHR 0xBF, CHR 0xBD]"

text \<open>The encoding of one well-formed rune, given as its bytes.\<close>

definition quoteRune :: "string \<Rightarrow> string" where
  "quoteRune r =
     (case r of
        [c] \<Rightarrow> quoteAscii c
      | _ \<Rightarrow> if r = lineSep then CHR 0x5C # ''u2028''
              else if r = paraSep then CHR 0x5C # ''u2029''
              else r)"

function quoteBody :: "string \<Rightarrow> string" where
  "quoteBody s =
     (case runeSize s of
        None \<Rightarrow> (case s of [] \<Rightarrow> [] | _ # bs \<Rightarrow> (CHR 0x5C # ''ufffd'') @ quoteBody bs)
      | Some n \<Rightarrow> quoteRune (take n s) @ quoteBody (drop n s))"
  by pat_completeness auto
termination
  by (relation "measure length") (auto dest: runeSize_pos)

declare quoteBody.simps [simp del]

definition jsonQuote :: "string \<Rightarrow> string" where
  "jsonQuote s = CHR 0x22 # quoteBody s @ [CHR 0x22]"

text \<open>\<open>strings.ToValidUTF8\<close> with U+FFFD for every offending byte.\<close>

function toValid :: "string \<Rightarrow> string" where
  "toValid s =
     (case runeSize s of
        None \<Rightarrow> (case s of [] \<Rightarrow> [] | _ # bs \<Rightarrow> runeError @ toValid bs)
      | Some n \<Rightarrow> take n s @ toValid (drop n s))"
  by pat_completeness auto
termination
  by (relation "measure length") (auto dest: runeSize_pos)

declare toValid.simps [simp del]

function validUtf8 :: "string \<Rightarrow> bool" where
  "validUtf8 s =
     (case runeSize s of
        None \<Rightarrow> s = []
      | Some n \<Rightarrow> validUtf8 (drop n s))"
  by pat_completeness auto
termination
  by (relation "measure length") (auto dest: runeSize_pos)

declare validUtf8.simps [simp del]

lemma toValid_Nil [simp]: "toValid [] = []"
  by (simp add: toValid.simps [of "[]"])

lemma quoteBody_Nil [simp]: "quoteBody [] = []"
  by (simp add: quoteBody.simps [of "[]"])

lemma toValid_valid: "validUtf8 s \<Longrightarrow> toValid s = s"
proof (induction s rule: toValid.induct)
  case (1 s)
  then show ?case
    by (cases "runeSize s") (auto simp: toValid.simps [of s] validUtf8.simps [of s])
qed

text \<open>
  The reader of a string body up to its closing quote, on the escapes the encoder produces:
  the decoded bytes and what follows the quote.
\<close>

definition unescapeU :: "char \<Rightarrow> char \<Rightarrow> char \<Rightarrow> char \<Rightarrow> string option" where
  "unescapeU a b c d =
     (if [a, b, c, d] = ''fffd'' then Some runeError
      else if [a, b, c, d] = ''2028'' then Some lineSep
      else if [a, b, c, d] = ''2029'' then Some paraSep
      else if [a, b] = ''00'' then
        (case (hexVal c, hexVal d) of
           (Some h, Some l) \<Rightarrow> if h < 8 then Some [char_of (16 * h + l)] else None
         | _ \<Rightarrow> None)
      else None)"

definition unescape1 :: "char \<Rightarrow> char option" where
  "unescape1 c = map_of [(CHR 0x22, CHR 0x22), (CHR 0x5C, CHR 0x5C), (CHR ''b'', CHR 0x08),
     (CHR ''f'', CHR 0x0C), (CHR ''n'', CHR 0x0A), (CHR ''r'', CHR 0x0D), (CHR ''t'', CHR 0x09)] c"

fun unquoteBody :: "string \<Rightarrow> (string \<times> string) option" where
  "unquoteBody [] = None"
| "unquoteBody (c # s) =
     (if c = CHR 0x22 then Some ([], s)
      else if c \<noteq> CHR 0x5C then map_option (apfst ((#) c)) (unquoteBody s)
      else case s of
          [] \<Rightarrow> None
        | e # s' \<Rightarrow>
            if e \<noteq> CHR ''u'' then
              (case unescape1 e of
                 None \<Rightarrow> None
               | Some x \<Rightarrow> map_option (apfst ((#) x)) (unquoteBody s'))
            else case s' of
                h1 # h2 # h3 # h4 # s'' \<Rightarrow>
                  (case unescapeU h1 h2 h3 h4 of
                     None \<Rightarrow> None
                   | Some xs \<Rightarrow> map_option (apfst ((@) xs)) (unquoteBody s''))
              | _ \<Rightarrow> None)"

lemma hexVal_hexDigit: "n < 16 \<Longrightarrow> hexVal (hexDigit n) = Some n"
proof -
  assume "n < 16"
  moreover have "\<forall>n \<in> {0..<16}. hexVal (hexDigit n) = Some n" by code_simp
  ultimately show ?thesis by simp
qed

lemma append_Cons_fun: "(@) [c] = (#) c"
  by (simp add: fun_eq_iff)

lemma unquote_ascii:
  assumes "of_char c < (0x80 :: nat)"
  shows "unquoteBody (quoteAscii c @ s) = map_option (apfst ((#) c)) (unquoteBody s)"
proof -
  let ?n = "of_char c :: nat"
  have h: "hexVal (hexDigit (?n div 16)) = Some (?n div 16)"
    "hexVal (hexDigit (?n mod 16)) = Some (?n mod 16)"
    using assms by (simp_all add: hexVal_hexDigit)
  have c: "char_of (16 * (?n div 16) + ?n mod 16) = c" by simp
  have "?n div 16 < 8" using assms by simp
  then have u: "unescapeU (CHR ''0'') (CHR ''0'') (hexDigit (?n div 16)) (hexDigit (?n mod 16)) = Some [c]"
    by (simp add: unescapeU_def h c)
  show ?thesis
    by (simp add: quoteAscii_def unescape1_def u append_Cons_fun)
qed

lemma unquote_plain:
  "CHR 0x22 \<notin> set r \<Longrightarrow> CHR 0x5C \<notin> set r \<Longrightarrow>
     unquoteBody (r @ s) = map_option (apfst ((@) r)) (unquoteBody s)"
proof (induction r)
  case Nil
  then show ?case by (cases "unquoteBody s") (simp_all add: apfst_def map_prod_def)
next
  case (Cons c r)
  then show ?case by (cases "unquoteBody s") auto
qed

lemma runeSize_cases:
  assumes "runeSize s = Some n"
  obtains (ascii) c bs where "n = 1" "s = c # bs" "of_char c < (0x80 :: nat)"
  | (multi) "1 < n" "\<forall>c \<in> set (take n s). (0x80 :: nat) \<le> of_char c"
proof (cases s)
  case Nil
  with assms show ?thesis by simp
next
  case (Cons b bs)
  show ?thesis
  proof (cases "between 0 0x7F b")
    case True
    with assms Cons ascii show ?thesis by (simp add: between_def)
  next
    case False
    with assms Cons have "1 < n" "\<forall>c \<in> set (take n s). (0x80 :: nat) \<le> of_char c"
      by (auto simp: Let_def between_def contBytes_def split: if_splits list.splits)
    then show ?thesis by (rule multi)
  qed
qed

lemma high_bytes_plain:
  assumes "\<forall>c \<in> set r. (0x80 :: nat) \<le> of_char c"
  shows "CHR 0x22 \<notin> set r" "CHR 0x5C \<notin> set r"
  using assms by force+

lemma unquote_rune:
  assumes "runeSize s = Some n"
  shows "unquoteBody (quoteRune (take n s) @ t) = map_option (apfst ((@) (take n s))) (unquoteBody t)"
  using assms
proof (cases rule: runeSize_cases)
  case (ascii c bs)
  then show ?thesis by (simp add: quoteRune_def unquote_ascii append_Cons_fun)
next
  case multi
  have "length (take n s) = n" using runeSize_pos [OF assms] by simp
  with multi obtain a b r where r: "take n s = a # b # r"
    by (cases "take n s"; cases "tl (take n s)") auto
  have plain: "unquoteBody (take n s @ t) = map_option (apfst ((@) (take n s))) (unquoteBody t)"
    using high_bytes_plain [OF multi(2)] by (rule unquote_plain)
  show ?thesis
    using plain by (simp add: quoteRune_def r unescapeU_def lineSep_def paraSep_def)
qed

text \<open>Decoding an encoded string gives its bytes back, invalid ones replaced.\<close>

lemma unquote_quoteBody: "unquoteBody (quoteBody s @ CHR 0x22 # r) = Some (toValid s, r)"
proof (induction s rule: quoteBody.induct)
  case (1 s)
  show ?case
  proof (cases "runeSize s")
    case None
    show ?thesis
    proof (cases s)
      case (Cons b bs)
      with None 1 have "unquoteBody (quoteBody bs @ CHR 0x22 # r) = Some (toValid bs, r)" by blast
      with None Cons show ?thesis
        by (simp add: quoteBody.simps [of "b # bs"] toValid.simps [of "b # bs"] unescapeU_def
            del: runeSize.simps(2))
    qed simp
  next
    case (Some n)
    with 1 show ?thesis
      by (simp add: quoteBody.simps [of s] toValid.simps [of s] unquote_rune)
  qed
qed

lemma jsonQuote_inject:
  assumes "jsonQuote a @ r = jsonQuote b @ t"
  shows "toValid a = toValid b \<and> r = t"
proof -
  have "unquoteBody (quoteBody a @ CHR 0x22 # r) = unquoteBody (quoteBody b @ CHR 0x22 # t)"
    using assms by (simp add: jsonQuote_def)
  then show ?thesis by (simp add: unquote_quoteBody)
qed

subsection \<open>Dynamic values\<close>

text \<open>
  \<open>json.Marshal\<close> on a dynamic value: map keys in byte order, an error (\<open>None\<close>) on NaN and
  the infinities.
\<close>

fun marshal :: "(rat \<Rightarrow> string) \<Rightarrow> any \<Rightarrow> string option"
  and marshalList :: "(rat \<Rightarrow> string) \<Rightarrow> any list \<Rightarrow> string list option"
  and marshalFields :: "(rat \<Rightarrow> string) \<Rightarrow> (string \<times> any) list \<Rightarrow> (string \<times> string) list option" where
  "marshal ff ANil = Some ''null''"
| "marshal ff (ABool b) = Some (if b then ''true'' else ''false'')"
| "marshal ff (AInt i) = Some (showInt i)"
| "marshal ff (AFloat x) = (case x of Fin q \<Rightarrow> Some (ff q) | _ \<Rightarrow> None)"
| "marshal ff (AStr s) = Some (jsonQuote s)"
| "marshal ff (AArr xs) =
     map_option (\<lambda>ss. ''['' @ Join ss '','' @ '']'') (marshalList ff xs)"
| "marshal ff (AObj m) =
     map_option (\<lambda>fs. CHR 0x7B # Join (map (\<lambda>(k, s). jsonQuote k @ '':'' @ s) (sort_key fst fs)) '',''
        @ [CHR 0x7D]) (marshalFields ff m)"
| "marshalList ff [] = Some []"
| "marshalList ff (x # xs) =
     (case (marshal ff x, marshalList ff xs) of
        (Some s, Some ss) \<Rightarrow> Some (s # ss)
      | _ \<Rightarrow> None)"
| "marshalFields ff [] = Some []"
| "marshalFields ff ((k, x) # m) =
     (case (marshal ff x, marshalFields ff m) of
        (Some s, Some fs) \<Rightarrow> Some ((k, s) # fs)
      | _ \<Rightarrow> None)"

text \<open>\<open>reflect.DeepEqual\<close>: maps as sets of entries, NaN unequal to itself.\<close>

fun deepEqual :: "any \<Rightarrow> any \<Rightarrow> bool"
  and deepEqualList :: "any list \<Rightarrow> any list \<Rightarrow> bool"
  and deepEqualEntries :: "(string \<times> any) list \<Rightarrow> (string \<times> any) list \<Rightarrow> bool" where
  "deepEqual (AFloat x) y = (x \<noteq> NaN \<and> y = AFloat x)"
| "deepEqual (AArr xs) y = (case y of AArr ys \<Rightarrow> deepEqualList xs ys | _ \<Rightarrow> False)"
| "deepEqual (AObj m) y =
     (case y of AObj n \<Rightarrow> length m = length n \<and> deepEqualEntries m n | _ \<Rightarrow> False)"
| "deepEqual x y = (x = y)"
| "deepEqualList [] ys = (ys = [])"
| "deepEqualList (x # xs) ys = (case ys of [] \<Rightarrow> False | y # ys' \<Rightarrow> deepEqual x y \<and> deepEqualList xs ys')"
| "deepEqualEntries [] n = True"
| "deepEqualEntries ((k, v) # m) n =
     ((case map_of n k of None \<Rightarrow> False | Some w \<Rightarrow> deepEqual v w) \<and> deepEqualEntries m n)"

subsection \<open>Timestamps\<close>

text \<open>A \<open>time.Time\<close> in UTC, as the broken-down calendar time its layouts print.\<close>

record utc_time =
  ut_Year :: nat
  ut_Month :: nat
  ut_Day :: nat
  ut_Hour :: nat
  ut_Minute :: nat
  ut_Second :: nat
  ut_Nanosecond :: nat

definition wf_time :: "utc_time \<Rightarrow> bool" where
  "wf_time t = (ut_Year t < 10000 \<and> ut_Month t \<le> 12 \<and> ut_Day t \<le> 31 \<and> ut_Hour t < 24
     \<and> ut_Minute t < 60 \<and> ut_Second t < 60 \<and> ut_Nanosecond t < 1000000000)"

text \<open>The \<open>.999999999\<close> element: nine digits with trailing zeros dropped, nothing when zero.\<close>

definition fracSecond :: "nat \<Rightarrow> string" where
  "fracSecond n =
     (let ds = rev (dropWhile (\<lambda>c. c = CHR ''0'') (rev (zeroPad 9 n)))
      in if ds = [] then [] else CHR ''.'' # ds)"

definition RFC3339Nano :: "utc_time \<Rightarrow> string" where
  "RFC3339Nano t =
     zeroPad 4 (ut_Year t) @ ''-'' @ zeroPad 2 (ut_Month t) @ ''-'' @ zeroPad 2 (ut_Day t) @ ''T''
     @ zeroPad 2 (ut_Hour t) @ '':'' @ zeroPad 2 (ut_Minute t) @ '':'' @ zeroPad 2 (ut_Second t)
     @ fracSecond (ut_Nanosecond t) @ ''Z''"

lemma rstrip_inject:
  assumes "rev (dropWhile P (rev a)) = rev (dropWhile P (rev b))" "length a = length b"
    and "\<And>c. P c \<longleftrightarrow> c = z"
  shows "a = b"
proof -
  have split: "rev s = replicate (length (takeWhile P (rev s))) z @ dropWhile P (rev s)" for s
    by (metis (full_types) assms(3) replicate_length_same set_takeWhileD takeWhile_dropWhile_id)
  have len: "length (takeWhile P (rev s)) = length s - length (dropWhile P (rev s))" for s
    by (metis add_diff_cancel_right' length_append length_rev takeWhile_dropWhile_id)
  have "length (takeWhile P (rev a)) = length (takeWhile P (rev b))"
    using assms(1,2) by (simp add: len)
  with assms(1) split [of a] split [of b] show ?thesis by (metis rev_rev_ident)
qed

lemma fracSecond_inject:
  assumes "m < 1000000000" "n < 1000000000" "fracSecond m = fracSecond n"
  shows "m = n"
proof -
  let ?P = "\<lambda>c. c = CHR ''0''"
  have eq: "rev (dropWhile ?P (rev (zeroPad 9 m))) = rev (dropWhile ?P (rev (zeroPad 9 n)))"
    using assms(3) unfolding fracSecond_def Let_def by (metis list.distinct(1) list.inject)
  have "zeroPad 9 m = zeroPad 9 n"
  proof (rule rstrip_inject [OF eq])
    show "length (zeroPad 9 m) = length (zeroPad 9 n)"
      using assms(1,2) length_zeroPad [of 9 m] length_zeroPad [of 9 n] by simp
  qed simp
  then show ?thesis by (simp add: zeroPad_inject)
qed

lemma RFC3339Nano_inject:
  assumes "wf_time s" "wf_time t" "RFC3339Nano s = RFC3339Nano t"
  shows "s = t"
proof -
  note w = assms(1,2) [unfolded wf_time_def]
  have len: "length (zeroPad 4 (ut_Year s)) = length (zeroPad 4 (ut_Year t))"
    "length (zeroPad 2 (ut_Month s)) = length (zeroPad 2 (ut_Month t))"
    "length (zeroPad 2 (ut_Day s)) = length (zeroPad 2 (ut_Day t))"
    "length (zeroPad 2 (ut_Hour s)) = length (zeroPad 2 (ut_Hour t))"
    "length (zeroPad 2 (ut_Minute s)) = length (zeroPad 2 (ut_Minute t))"
    "length (zeroPad 2 (ut_Second s)) = length (zeroPad 2 (ut_Second t))"
    using w by (simp_all add: length_zeroPad)
  have eq: "ut_Year s = ut_Year t" "ut_Month s = ut_Month t" "ut_Day s = ut_Day t"
    "ut_Hour s = ut_Hour t" "ut_Minute s = ut_Minute t" "ut_Second s = ut_Second t"
    and frac: "fracSecond (ut_Nanosecond s) = fracSecond (ut_Nanosecond t)"
    using assms(3) len by (simp_all add: RFC3339Nano_def zeroPad_inject)
  have "ut_Nanosecond s = ut_Nanosecond t"
    using frac w by (intro fracSecond_inject) simp_all
  with eq show ?thesis by (cases s, cases t) simp
qed

end
