(* ===== verification/Policy_Hitl.thy ===== *)
theory Policy_Hitl
  imports Policy_Gate Go_Json
begin

text \<open>
  Human review of a gated tool call: the merged review configuration and the gate
  (\<open>internal/policy/hitl.go\<close>), the operator's decision, edited arguments against the allow
  and deny rules, the audit diff and the redaction of secrets (\<open>hitl_edit.go\<close>).

  Two functions of the standard library are arguments of the definitions that call them, and
  every lemma holds for all of them: \<open>ff\<close>, the shortest decimal spelling of a finite
  \<open>float64\<close>, and \<open>lower\<close>, \<open>strings.ToLower\<close> on Unicode text.
\<close>

subsection \<open>Review configuration\<close>

record resolved_hitl_review =
  rv_Description :: string
  rv_AllowedDecisions :: "hitl_decision list"
  rv_AllowedEditArgs :: "string list"
  rv_DeniedEditArgs :: "string list"
  rv_AllowedEditPaths :: "string list"
  rv_DeniedEditPaths :: "string list"
  rv_SwitchTargets :: "string list"
  rv_RedactKeys :: "string list"

record hitl_gate =
  hg_Uses :: string
  hg_With :: "any gomap"
  hg_Review :: resolved_hitl_review

definition collapseDenyAll :: "hitl_decision list \<Rightarrow> hitl_decision list" where
  "collapseDenyAll decisions = (if list_ex (\<lambda>d. d = HitlNone) decisions then [] else decisions)"

definition hasSwitchTargets ::
  "hitl_interrupt_config option \<Rightarrow> string list gomap \<Rightarrow> string \<Rightarrow> bool" where
  "hasSwitchTargets cfg policySwitch operation =
     ((case cfg of
         None \<Rightarrow> False
       | Some c \<Rightarrow> hc_AllowedEditTools c \<noteq> []
           \<or> (case map_of (hc_SwitchMap c) operation of None \<Rightarrow> False | Some t \<Rightarrow> t \<noteq> []))
      \<or> (case map_of policySwitch operation of None \<Rightarrow> False | Some t \<Rightarrow> t \<noteq> []))"

definition declaresEdits :: "hitl_interrupt_config \<Rightarrow> bool" where
  "declaresEdits c = (hc_AllowedEditArgs c \<noteq> [] \<or> hc_AllowedEditPaths c \<noteq> []
     \<or> hc_DeniedEditArgs c \<noteq> [] \<or> hc_DeniedEditPaths c \<noteq> [])"

definition defaultHitlDecisions ::
  "hitl_interrupt_config option \<Rightarrow> string list gomap \<Rightarrow> string \<Rightarrow> hitl_decision list" where
  "defaultHitlDecisions cfg policySwitch operation =
     (if (case cfg of None \<Rightarrow> False | Some c \<Rightarrow> hc_AllowedDecisions c \<noteq> [])
      then (case cfg of None \<Rightarrow> [] | Some c \<Rightarrow> hc_AllowedDecisions c)
      else [HitlApprove, HitlReject]
        @ (if (case cfg of None \<Rightarrow> False | Some c \<Rightarrow> declaresEdits c) then [HitlEdit] else [])
        @ (if hasSwitchTargets cfg policySwitch operation then [HitlSwitch] else []))"

definition resolveSwitchTargets ::
  "hitl_interrupt_config option \<Rightarrow> string list gomap \<Rightarrow> string \<Rightarrow> string list" where
  "resolveSwitchTargets cfg policySwitch operation =
     trimDedup
       ((case cfg of
           None \<Rightarrow> []
         | Some c \<Rightarrow> hc_AllowedEditTools c
             @ (case map_of (hc_SwitchMap c) operation of None \<Rightarrow> [] | Some t \<Rightarrow> t))
        @ (case map_of policySwitch operation of None \<Rightarrow> [] | Some t \<Rightarrow> t))"

text \<open>
  \<open>strings.NewReplacer\<close> on the three variables: one pass from the left, replacements are not
  scanned again.
\<close>

function replaceVars :: "(string \<times> string) list \<Rightarrow> string \<Rightarrow> string" where
  "replaceVars vars s =
     (case find (\<lambda>(v, _). v \<noteq> [] \<and> prefix v s) vars of
        Some (v, r) \<Rightarrow> r @ replaceVars vars (drop (length v) s)
      | None \<Rightarrow> (case s of [] \<Rightarrow> [] | c # cs \<Rightarrow> c # replaceVars vars cs))"
  by pat_completeness auto
termination
  by (relation "measure (\<lambda>(vars, s). length s)") (auto simp: find_Some_iff prefix_def)

declare replaceVars.simps [simp del]

definition renderHitlDescription :: "string \<Rightarrow> string \<Rightarrow> string \<Rightarrow> string \<Rightarrow> string" where
  "renderHitlDescription tmpl uses toolName operation =
     replaceVars [(''${tool}'', toolName), (''${uses}'', uses), (''${operation}'', operation)] tmpl"

definition DefaultHitlDescriptionPrefix :: string where
  "DefaultHitlDescriptionPrefix = ''Tool execution requires approval''"

definition hitlConfigRedact :: "hitl_interrupt_config option \<Rightarrow> string list" where
  "hitlConfigRedact cfg = (case cfg of None \<Rightarrow> [] | Some c \<Rightarrow> hc_RedactKeys c)"

text \<open>\<open>pol.Hitl\<close> and the enabled \<open>interruptOn\<close> entry of the tool.\<close>

definition hitlOf :: "policy_spec option \<Rightarrow> hitl_policy option" where
  "hitlOf pol = (case pol of None \<Rightarrow> None | Some p \<Rightarrow> ps_Hitl p)"

definition interruptConfig :: "policy_spec option \<Rightarrow> string \<Rightarrow> hitl_interrupt_config option" where
  "interruptConfig pol toolName =
     (case hitlOf pol of
        None \<Rightarrow> None
      | Some h \<Rightarrow>
          (case map_of (hp_InterruptOn h) toolName of
             None \<Rightarrow> None
           | Some iv \<Rightarrow> if hv_Enabled iv then hv_Config iv else None))"

definition ResolveHitlReview ::
  "policy_spec option \<Rightarrow> string \<Rightarrow> (uses_error, resolved_hitl_review) result" where
  "ResolveHitlReview pol uses =
     (case ParseUses uses of
        Inl err \<Rightarrow> Inl err
      | Inr (toolName, operation) \<Rightarrow>
          let cfg = interruptConfig pol toolName;
              pre = (case hitlOf pol of
                       None \<Rightarrow> DefaultHitlDescriptionPrefix
                     | Some h \<Rightarrow> if TrimSpace (hp_DescriptionPrefix h) \<noteq> []
                                 then TrimSpace (hp_DescriptionPrefix h)
                                 else DefaultHitlDescriptionPrefix);
              redact = (case hitlOf pol of None \<Rightarrow> [] | Some h \<Rightarrow> hp_RedactKeys h);
              switchMap = (case hitlOf pol of None \<Rightarrow> [] | Some h \<Rightarrow> hp_ToolSwitchMap h);
              desc = (case cfg of
                        Some c \<Rightarrow> if TrimSpace (hc_Description c) \<noteq> []
                                  then renderHitlDescription (hc_Description c) uses toolName operation
                                  else pre @ '': '' @ uses
                      | None \<Rightarrow> pre @ '': '' @ uses);
              keys0 = trimDedup (redact @ hitlConfigRedact cfg);
              targets0 = resolveSwitchTargets cfg switchMap operation
          in Inr \<lparr>rv_Description = desc,
               rv_AllowedDecisions = collapseDenyAll (defaultHitlDecisions cfg switchMap operation),
               rv_AllowedEditArgs = (case cfg of None \<Rightarrow> [] | Some c \<Rightarrow> hc_AllowedEditArgs c),
               rv_DeniedEditArgs = (case cfg of None \<Rightarrow> [] | Some c \<Rightarrow> hc_DeniedEditArgs c),
               rv_AllowedEditPaths = (case cfg of None \<Rightarrow> [] | Some c \<Rightarrow> hc_AllowedEditPaths c),
               rv_DeniedEditPaths = (case cfg of None \<Rightarrow> [] | Some c \<Rightarrow> hc_DeniedEditPaths c),
               rv_SwitchTargets =
                 (case cfg of
                    None \<Rightarrow> targets0
                  | Some c \<Rightarrow> if hc_AllowedEditTools c \<noteq> []
                              then trimDedup (targets0 @ hc_AllowedEditTools c) else targets0),
               rv_RedactKeys =
                 (case cfg of None \<Rightarrow> keys0 | Some c \<Rightarrow> trimDedup (keys0 @ hc_RedactKeys c))\<rparr>)"

datatype gate_error = GateDenied denied_error | GateUses uses_error

definition BuildHitlGateWithEvaluator ::
  "(tool_call \<Rightarrow> denied_error option) \<Rightarrow> policy_spec option \<Rightarrow> tool_call
     \<Rightarrow> (gate_error, hitl_gate option) result" where
  "BuildHitlGateWithEvaluator check pol call =
     (case ToolCallNeedsHitlWithEvaluator check call of
        Inl d \<Rightarrow> Inl (GateDenied d)
      | Inr need \<Rightarrow>
          if \<not> need then Inr None
          else case ResolveHitlReview pol (tc_Uses call) of
              Inl err \<Rightarrow> Inl (GateUses err)
            | Inr review \<Rightarrow>
                Inr (Some \<lparr>hg_Uses = tc_Uses call, hg_With = tc_With call, hg_Review = review\<rparr>))"

subsection \<open>Flattened arguments\<close>

definition topLevelKey :: "string \<Rightarrow> string" where
  "topLevelKey path = (case IndexByte path (CHR ''.'') of Some i \<Rightarrow> take i path | None \<Rightarrow> path)"

definition pathAllowed :: "string \<Rightarrow> string list \<Rightarrow> string list \<Rightarrow> bool" where
  "pathAllowed path allowedPaths allowedArgs =
     (if allowedPaths = [] \<and> allowedArgs = [] then False
      else list_ex (\<lambda>a. TrimSpace a = ''*'' \<or> TrimSpace a = path \<or> topLevelKey path = TrimSpace a) allowedArgs
        \<or> list_ex (\<lambda>p. TrimSpace p = ''*'' \<or> TrimSpace p = path
            \<or> prefix (TrimSpace p @ ''.'') path) allowedPaths)"

definition pathDenied :: "string \<Rightarrow> string list \<Rightarrow> string list \<Rightarrow> bool" where
  "pathDenied path deniedPaths deniedArgs =
     (list_ex (\<lambda>d. TrimSpace d = ''*'' \<or> TrimSpace d = path \<or> topLevelKey path = TrimSpace d) deniedArgs
      \<or> list_ex (\<lambda>d. TrimSpace d = ''*'' \<or> TrimSpace d = path
          \<or> prefix (TrimSpace d @ ''.'') path \<or> prefix (path @ ''.'') (TrimSpace d)) deniedPaths)"

text \<open>\<open>flattenInto(prefix, v, out)\<close>; the accumulator \<open>out\<close> is threaded.\<close>

fun flattenInto :: "string \<Rightarrow> any \<Rightarrow> any gomap \<Rightarrow> any gomap"
  and flattenEntries :: "string \<Rightarrow> (string \<times> any) list \<Rightarrow> any gomap \<Rightarrow> any gomap" where
  "flattenInto pre (AObj m) out = flattenEntries pre m out"
| "flattenInto pre v out = (if pre \<noteq> [] then put pre v out else out)"
| "flattenEntries pre [] out = out"
| "flattenEntries pre ((k, child) # rest) out =
     (let key = (if pre \<noteq> [] then pre @ ''.'' @ k else k)
      in flattenEntries pre rest
           (case child of
              AObj m \<Rightarrow> flattenInto key child out
            | _ \<Rightarrow> put key child out))"

definition flattenArgs :: "any gomap \<Rightarrow> any gomap" where
  "flattenArgs m = flattenInto [] (AObj m) []"

definition valuesEqual :: "(rat \<Rightarrow> string) \<Rightarrow> any \<Rightarrow> any \<Rightarrow> bool" where
  "valuesEqual ff a b =
     (deepEqual a b
      \<or> (case (marshal ff a, marshal ff b) of
            (Some ab, Some bb) \<Rightarrow> ab = bb
          | _ \<Rightarrow> False))"

subsection \<open>Edits\<close>

datatype hitl_error =
    EditedNil
  | EditDenied string
  | EditMissing string
  | EditChange string
  | EditAdd string
  | DecisionNotAllowed
  | Rejected
  | SwitchTargetEmpty
  | SwitchTargetNotAllowed string
  | SwitchUses uses_error
  | UnknownDecision

definition editDenied :: "resolved_hitl_review \<Rightarrow> string \<Rightarrow> bool" where
  "editDenied rv path = pathDenied path (rv_DeniedEditPaths rv) (rv_DeniedEditArgs rv)"

definition editAllowed :: "resolved_hitl_review \<Rightarrow> string \<Rightarrow> bool" where
  "editAllowed rv path = pathAllowed path (rv_AllowedEditPaths rv) (rv_AllowedEditArgs rv)"

text \<open>The body of the first loop, over the flattened original.\<close>

definition checkOriginalPath ::
  "(rat \<Rightarrow> string) \<Rightarrow> resolved_hitl_review \<Rightarrow> any gomap \<Rightarrow> string \<times> any \<Rightarrow> hitl_error option" where
  "checkOriginalPath ff rv editFlat pv =
     (case pv of (path, origVal) \<Rightarrow>
        (case map_of editFlat path of
           None \<Rightarrow>
             if editDenied rv path then Some (EditDenied path)
             else if editAllowed rv path then None
             else Some (EditMissing path)
         | Some newVal \<Rightarrow>
             if editDenied rv path \<and> \<not> valuesEqual ff origVal newVal then Some (EditDenied path)
             else if \<not> editAllowed rv path \<and> \<not> valuesEqual ff origVal newVal then Some (EditChange path)
             else None))"

text \<open>The body of the second loop, over the paths of the flattened edit.\<close>

definition checkAddedPath ::
  "resolved_hitl_review \<Rightarrow> any gomap \<Rightarrow> string \<times> any \<Rightarrow> hitl_error option" where
  "checkAddedPath rv origFlat pv =
     (let path = fst pv in
      if map_of origFlat path \<noteq> None then None
      else if editDenied rv path then Some (EditDenied path)
      else if \<not> editAllowed rv path then Some (EditAdd path)
      else None)"

definition ValidateHitlEdit ::
  "(rat \<Rightarrow> string) \<Rightarrow> any gomap \<Rightarrow> any gomap option \<Rightarrow> resolved_hitl_review \<Rightarrow> hitl_error option" where
  "ValidateHitlEdit ff original edited0 rv =
     (case edited0 of
        None \<Rightarrow> Some EditedNil
      | Some edited \<Rightarrow>
          let origFlat = flattenArgs original; editFlat = flattenArgs edited
          in firstError (map (checkOriginalPath ff rv editFlat) origFlat
                         @ map (checkAddedPath rv origFlat) editFlat))"

text \<open>\<open>HitlArgsDiff\<close>: every changed path with its old and new value.\<close>

definition diffEntry :: "any \<Rightarrow> any \<Rightarrow> any" where
  "diffEntry old new = AObj [(''from'', old), (''to'', new)]"

definition HitlArgsDiff :: "(rat \<Rightarrow> string) \<Rightarrow> any gomap \<Rightarrow> any gomap \<Rightarrow> any gomap" where
  "HitlArgsDiff ff original edited =
     (let origFlat = flattenArgs original; editFlat = flattenArgs edited;
          changed = fold (\<lambda>(path, newVal) diff.
            (case map_of origFlat path of
               None \<Rightarrow> put path (diffEntry ANil newVal) diff
             | Some oldVal \<Rightarrow>
                 if \<not> valuesEqual ff oldVal newVal then put path (diffEntry oldVal newVal) diff
                 else diff)) editFlat []
      in fold (\<lambda>(path, oldVal) diff.
           if map_of editFlat path = None then put path (diffEntry oldVal ANil) diff else diff)
           origFlat changed)"

subsection \<open>Decisions\<close>

record hitl_decision_input =
  di_Kind :: hitl_decision
  di_Actor :: string
  di_EditedWith :: "any gomap option"
  di_SwitchTarget :: string

definition IsDecisionAllowed :: "hitl_decision \<Rightarrow> hitl_decision list \<Rightarrow> bool" where
  "IsDecisionAllowed kind allowed = list_ex (\<lambda>a. a = kind) allowed"

definition switchTargetAllowed :: "string \<Rightarrow> string list \<Rightarrow> bool" where
  "switchTargetAllowed target allowed = list_ex (\<lambda>a. TrimSpace a = TrimSpace target) allowed"

definition switchUses :: "string \<Rightarrow> string \<Rightarrow> (hitl_error, string) result" where
  "switchUses sourceUses targetOperation =
     (case ParseUses sourceUses of
        Inl err \<Rightarrow> Inl (SwitchUses err)
      | Inr (toolName, _) \<Rightarrow>
          if TrimSpace targetOperation = [] then Inl SwitchTargetEmpty
          else Inr (''tool.'' @ toolName @ ''.'' @ TrimSpace targetOperation))"

definition ApplyHitlDecision ::
  "(rat \<Rightarrow> string) \<Rightarrow> hitl_gate \<Rightarrow> hitl_decision_input \<Rightarrow> (hitl_error, string \<times> any gomap) result" where
  "ApplyHitlDecision ff gate inp =
     (if \<not> IsDecisionAllowed (di_Kind inp) (rv_AllowedDecisions (hg_Review gate))
      then Inl DecisionNotAllowed
      else case di_Kind inp of
          HitlApprove \<Rightarrow> Inr (hg_Uses gate, hg_With gate)
        | HitlReject \<Rightarrow> Inl Rejected
        | HitlEdit \<Rightarrow>
            (case di_EditedWith inp of
               None \<Rightarrow> Inl EditedNil
             | Some edited \<Rightarrow>
                 (case ValidateHitlEdit ff (hg_With gate) (Some edited) (hg_Review gate) of
                    Some err \<Rightarrow> Inl err
                  | None \<Rightarrow> Inr (hg_Uses gate, edited)))
        | HitlSwitch \<Rightarrow>
            (let target = TrimSpace (di_SwitchTarget inp) in
             if target = [] then Inl SwitchTargetEmpty
             else if \<not> switchTargetAllowed target (rv_SwitchTargets (hg_Review gate))
             then Inl (SwitchTargetNotAllowed target)
             else case switchUses (hg_Uses gate) target of
                 Inl err \<Rightarrow> Inl err
               | Inr newUses \<Rightarrow> Inr (newUses, hg_With gate))
        | _ \<Rightarrow> Inl UnknownDecision)"

subsection \<open>Redaction\<close>

definition RedactedSecretPlaceholder :: string where
  "RedactedSecretPlaceholder = concat (replicate 6 [CHR 0xE2, CHR 0x80, CHR 0xA2])"

definition redactKeyMatches :: "(string \<Rightarrow> string) \<Rightarrow> string \<Rightarrow> string list \<Rightarrow> bool" where
  "redactKeyMatches lower key patterns =
     list_ex (\<lambda>p. p \<noteq> [] \<and> sublist p (lower (TrimSpace key))) patterns"

fun redactHitlValue :: "(string \<Rightarrow> string) \<Rightarrow> any \<Rightarrow> string list \<Rightarrow> any"
  and redactEntries :: "(string \<Rightarrow> string) \<Rightarrow> (string \<times> any) list \<Rightarrow> string list \<Rightarrow> (string \<times> any) list"
  and redactItems :: "(string \<Rightarrow> string) \<Rightarrow> any list \<Rightarrow> string list \<Rightarrow> any list" where
  "redactHitlValue lower (AObj m) ps = AObj (redactEntries lower m ps)"
| "redactHitlValue lower (AArr xs) ps = AArr (redactItems lower xs ps)"
| "redactHitlValue lower v ps = v"
| "redactEntries lower [] ps = []"
| "redactEntries lower ((k, child) # m) ps =
     (k, if redactKeyMatches lower k ps then AStr RedactedSecretPlaceholder
         else redactHitlValue lower child ps) # redactEntries lower m ps"
| "redactItems lower [] ps = []"
| "redactItems lower (x # xs) ps = redactHitlValue lower x ps # redactItems lower xs ps"

definition redactPatterns :: "(string \<Rightarrow> string) \<Rightarrow> string list \<Rightarrow> string list" where
  "redactPatterns lower redactKeys =
     filter (\<lambda>k. k \<noteq> []) (map (\<lambda>k. lower (TrimSpace k)) redactKeys)"

definition RedactHitlArgs :: "(string \<Rightarrow> string) \<Rightarrow> any gomap \<Rightarrow> string list \<Rightarrow> any gomap" where
  "RedactHitlArgs lower args redactKeys =
     (if redactKeys = [] then args
      else redactEntries lower args (redactPatterns lower redactKeys))"

subsection \<open>Which edits pass\<close>

lemma flatten_wf: "wf_map out \<Longrightarrow> wf_map (flattenInto pre v out)"
  "wf_map out \<Longrightarrow> wf_map (flattenEntries pre m out)"
  by (induction pre v out and pre m out rule: flattenInto_flattenEntries.induct)
    (auto simp: Let_def split: any.split)

lemma flattenArgs_wf [simp]: "wf_map (flattenArgs m)"
  by (simp add: flattenArgs_def flatten_wf)

text \<open>A flattened path whose value an edit adds, removes or replaces by a different one.\<close>

definition pathChanged :: "(rat \<Rightarrow> string) \<Rightarrow> any gomap \<Rightarrow> any gomap \<Rightarrow> string \<Rightarrow> bool" where
  "pathChanged ff original edited path =
     (case (map_of (flattenArgs original) path, map_of (flattenArgs edited) path) of
        (None, None) \<Rightarrow> False
      | (Some v, Some w) \<Rightarrow> \<not> valuesEqual ff v w
      | _ \<Rightarrow> True)"

lemma checkOriginalPath_None:
  "checkOriginalPath ff rv ed (p, v) = None \<longleftrightarrow>
     ((case map_of ed p of None \<Rightarrow> True | Some w \<Rightarrow> \<not> valuesEqual ff v w) \<longrightarrow>
        editAllowed rv p \<and> \<not> editDenied rv p)"
  by (auto simp: checkOriginalPath_def split: option.split)

lemma checkAddedPath_None:
  "checkAddedPath rv orig (p, w) = None \<longleftrightarrow>
     (map_of orig p = None \<longrightarrow> editAllowed rv p \<and> \<not> editDenied rv p)"
  by (auto simp: checkAddedPath_def)

lemma wf_map_in_set: "wf_map m \<Longrightarrow> (p, v) \<in> set m \<longleftrightarrow> map_of m p = Some v"
  by (simp add: map_of_eq_Some_iff)

lemma split_paired_Ball_set: "(\<forall>x \<in> set xs. P x) \<longleftrightarrow> (\<forall>a b. (a, b) \<in> set xs \<longrightarrow> P (a, b))"
  by auto

lemma ValidateHitlEdit_iff:
  "ValidateHitlEdit ff orig (Some ed) rv = None \<longleftrightarrow>
     (\<forall>p. pathChanged ff orig ed p \<longrightarrow> editAllowed rv p \<and> \<not> editDenied rv p)"
proof -
  let ?o = "map_of (flattenArgs orig)" and ?e = "map_of (flattenArgs ed)"
  have "ValidateHitlEdit ff orig (Some ed) rv = None \<longleftrightarrow>
      (\<forall>p v. ?o p = Some v \<longrightarrow> checkOriginalPath ff rv (flattenArgs ed) (p, v) = None)
      \<and> (\<forall>p w. ?e p = Some w \<longrightarrow> checkAddedPath rv (flattenArgs orig) (p, w) = None)"
    by (simp add: ValidateHitlEdit_def Let_def firstError_None ball_Un split_paired_Ball_set)
  also have "\<dots> \<longleftrightarrow> (\<forall>p. pathChanged ff orig ed p \<longrightarrow> editAllowed rv p \<and> \<not> editDenied rv p)"
    unfolding checkOriginalPath_None checkAddedPath_None pathChanged_def all_conj_distrib [symmetric]
    by (rule all_cong1) (auto split: option.split simp del: map_of_eq_Some_iff)
  finally show ?thesis .
qed

lemma fold_dom:
  assumes "\<And>k v d. map_of (f (k, v) d) p \<noteq> None \<longleftrightarrow> map_of d p \<noteq> None \<or> (k = p \<and> c v)"
  shows "map_of (fold f xs d) p \<noteq> None \<longleftrightarrow> map_of d p \<noteq> None \<or> (\<exists>v. (p, v) \<in> set xs \<and> c v)"
proof (induction xs arbitrary: d)
  case (Cons x xs)
  obtain k v where x: "x = (k, v)" by fastforce
  show ?case unfolding x fold_Cons comp_def Cons.IH assms by auto
qed simp

lemma HitlArgsDiff_dom:
  "map_of (HitlArgsDiff ff orig ed) p \<noteq> None \<longleftrightarrow> pathChanged ff orig ed p"
proof -
  let ?o = "flattenArgs orig" and ?e = "flattenArgs ed"
  let ?f = "\<lambda>(path, newVal) diff.
      (case map_of ?o path of
         None \<Rightarrow> put path (diffEntry ANil newVal) diff
       | Some oldVal \<Rightarrow>
           if \<not> valuesEqual ff oldVal newVal then put path (diffEntry oldVal newVal) diff else diff)"
  let ?g = "\<lambda>(path, oldVal) diff.
      if map_of ?e path = None then put path (diffEntry oldVal ANil) diff else diff"
  have f: "map_of (fold ?f ?e []) p \<noteq> None \<longleftrightarrow>
      (\<exists>w. (p, w) \<in> set ?e \<and>
        (case map_of ?o p of None \<Rightarrow> True | Some v \<Rightarrow> \<not> valuesEqual ff v w))"
    by (subst fold_dom [where c = "\<lambda>w. case map_of ?o p of None \<Rightarrow> True | Some v \<Rightarrow> \<not> valuesEqual ff v w"])
      (auto split: option.split simp del: map_of_eq_Some_iff)
  have g: "map_of (fold ?g ?o d) p \<noteq> None \<longleftrightarrow>
      map_of d p \<noteq> None \<or> (\<exists>v. (p, v) \<in> set ?o \<and> map_of ?e p = None)" for d
    by (rule fold_dom) auto
  show ?thesis
    unfolding HitlArgsDiff_def Let_def g f wf_map_in_set [OF flattenArgs_wf] pathChanged_def
    by (simp split: option.split del: map_of_eq_Some_iff)
qed

subsection \<open>What a decision yields\<close>

lemma space_encodings_no_dot: "w \<in> set space_encodings \<Longrightarrow> CHR ''.'' \<notin> set w"
  by (auto simp: space_encodings_def)

lemma usesOf_trimmed:
  assumes "trimmed p" "p \<noteq> []"
  shows "trimmed (usesOf t p)"
proof -
  have "\<not> prefix w (usesOf t p) \<and> \<not> suffix w (usesOf t p)" if w: "w \<in> set space_encodings" for w
  proof
    show "\<not> prefix w (usesOf t p)"
      using w by (auto simp: usesOf_def space_encodings_def prefix_Cons)
    show "\<not> suffix w (usesOf t p)"
    proof
      assume "suffix w (usesOf t p)"
      then have "suffix w (p) \<or> (\<exists>v. w = v @ p \<and> suffix v (''tool.'' @ t @ ''.''))"
        using suffix_append [of w "''tool.'' @ t @ ''.''" p] by (simp add: usesOf_def)
      moreover have "\<not> suffix w p" using assms(1) w by (simp add: trimmed_def)
      ultimately obtain v where v: "w = v @ p" "suffix v (''tool.'' @ t @ ''.'')" by blast
      show False
      proof (cases v rule: rev_cases)
        case Nil
        with v \<open>\<not> suffix w p\<close> show False by simp
      next
        case (snoc v' c)
        with v have "c = CHR ''.''" by (auto simp: suffix_def)
        with snoc v space_encodings_no_dot [OF w] show False by simp
      qed
    qed
  qed
  then show ?thesis by (simp add: trimmed_def)
qed

lemma switchUses_parse:
  assumes "ParseUses u = Inr (t, p)" "switchUses u target = Inr u'"
  shows "ParseUses u' = Inr (t, TrimSpace target)"
proof -
  from assms have u': "u' = usesOf t (TrimSpace target)" and ne: "TrimSpace target \<noteq> []"
    by (auto simp: switchUses_def usesOf_def split: if_splits)
  show ?thesis
    unfolding u' using ParseUses_InrD [OF assms(1)] ne usesOf_trimmed [OF trimmed_TrimSpace ne]
    by (intro ParseUses_usesOf) simp_all
qed

lemma ApplyHitlDecision_Inr:
  assumes "ApplyHitlDecision ff gate inp = Inr (u', w')"
  shows "di_Kind inp \<in> set (rv_AllowedDecisions (hg_Review gate))"
    and "(u' = hg_Uses gate \<and> w' = hg_With gate)
      \<or> (di_Kind inp = HitlEdit \<and> u' = hg_Uses gate
          \<and> ValidateHitlEdit ff (hg_With gate) (Some w') (hg_Review gate) = None)
      \<or> (di_Kind inp = HitlSwitch \<and> w' = hg_With gate
          \<and> switchTargetAllowed (di_SwitchTarget inp) (rv_SwitchTargets (hg_Review gate))
          \<and> switchUses (hg_Uses gate) (di_SwitchTarget inp) = Inr u')"
  using assms
  by (auto simp: ApplyHitlDecision_def IsDecisionAllowed_def list_ex_iff Let_def switchTargetAllowed_def
      switchUses_def split: if_splits hitl_decision.splits option.splits sum.splits)

subsection \<open>What redaction hides\<close>

text \<open>Two values that differ at most below keys a pattern matches.\<close>

fun sameShown :: "(string \<Rightarrow> string) \<Rightarrow> string list \<Rightarrow> any \<Rightarrow> any \<Rightarrow> bool"
  and sameEntries :: "(string \<Rightarrow> string) \<Rightarrow> string list \<Rightarrow> (string \<times> any) list \<Rightarrow> (string \<times> any) list \<Rightarrow> bool"
  and sameItems :: "(string \<Rightarrow> string) \<Rightarrow> string list \<Rightarrow> any list \<Rightarrow> any list \<Rightarrow> bool" where
  "sameShown lower ps (AObj m) w = (case w of AObj n \<Rightarrow> sameEntries lower ps m n | _ \<Rightarrow> False)"
| "sameShown lower ps (AArr xs) w = (case w of AArr ys \<Rightarrow> sameItems lower ps xs ys | _ \<Rightarrow> False)"
| "sameShown lower ps v w = (v = w)"
| "sameEntries lower ps [] n = (n = [])"
| "sameEntries lower ps ((k, v) # m) n =
     (case n of
        [] \<Rightarrow> False
      | (k', w) # n' \<Rightarrow> k = k' \<and> (redactKeyMatches lower k ps \<or> sameShown lower ps v w)
          \<and> sameEntries lower ps m n')"
| "sameItems lower ps [] ys = (ys = [])"
| "sameItems lower ps (x # xs) ys =
     (case ys of [] \<Rightarrow> False | y # ys' \<Rightarrow> sameShown lower ps x y \<and> sameItems lower ps xs ys')"

lemma redact_leaf [simp]:
  "ANil = redactHitlValue lower w ps \<longleftrightarrow> w = ANil"
  "ABool b = redactHitlValue lower w ps \<longleftrightarrow> w = ABool b"
  "AInt i = redactHitlValue lower w ps \<longleftrightarrow> w = AInt i"
  "AFloat x = redactHitlValue lower w ps \<longleftrightarrow> w = AFloat x"
  "AStr s = redactHitlValue lower w ps \<longleftrightarrow> w = AStr s"
  by (cases w; auto)+

lemma redact_empty [simp]:
  "[] = redactEntries lower n ps \<longleftrightarrow> n = []" "[] = redactItems lower ys ps \<longleftrightarrow> ys = []"
  by (cases n; auto) (cases ys; auto)

lemma redact_eq_iff:
  "redactHitlValue lower v ps = redactHitlValue lower w ps \<longleftrightarrow> sameShown lower ps v w"
  "redactEntries lower m ps = redactEntries lower n ps \<longleftrightarrow> sameEntries lower ps m n"
  "redactItems lower xs ps = redactItems lower ys ps \<longleftrightarrow> sameItems lower ps xs ys"
proof (induction lower ps v w and lower ps m n and lower ps xs ys
    rule: sameShown_sameEntries_sameItems.induct)
  case (1 lower ps m w)
  then show ?case by (cases w) auto
next
  case (2 lower ps xs w)
  then show ?case by (cases w) auto
qed (auto split: list.split)

text \<open>Every matching key, at any depth, holds the placeholder.\<close>

fun allMasked :: "(string \<Rightarrow> string) \<Rightarrow> string list \<Rightarrow> any \<Rightarrow> bool" where
  "allMasked lower ps (AObj m) =
     (\<forall>kv \<in> set m. if redactKeyMatches lower (fst kv) ps then snd kv = AStr RedactedSecretPlaceholder
        else allMasked lower ps (snd kv))"
| "allMasked lower ps (AArr xs) = (\<forall>x \<in> set xs. allMasked lower ps x)"
| "allMasked lower ps v = True"

lemma redact_masked:
  "allMasked lower ps (redactHitlValue lower v ps)"
  "allMasked lower ps (AObj (redactEntries lower m ps))"
  "\<forall>x \<in> set (redactItems lower xs ps). allMasked lower ps x"
  by (induction lower v ps and lower m ps and lower xs ps
      rule: redactHitlValue_redactEntries_redactItems.induct) auto

subsection \<open>Properties\<close>

text \<open>
  C21. An edit of a gated call passes validation exactly when every flattened path whose
  value it adds, removes or changes is covered by an allow rule and by no deny rule: deny
  wins, and what neither rule mentions must stay as it was.
\<close>

theorem edit_validation_exact:
  "ValidateHitlEdit ff original (Some edited) rv = None \<longleftrightarrow>
     (\<forall>path. pathChanged ff original edited path \<longrightarrow> editAllowed rv path \<and> \<not> editDenied rv path)"
  by (rule ValidateHitlEdit_iff)

definition demo_review :: resolved_hitl_review where
  "demo_review = \<lparr>rv_Description = [], rv_AllowedDecisions = [HitlApprove, HitlEdit, HitlSwitch],
     rv_AllowedEditArgs = [''*''], rv_DeniedEditArgs = [], rv_AllowedEditPaths = [],
     rv_DeniedEditPaths = [''payment.amount''], rv_SwitchTargets = [''list''], rv_RedactKeys = []\<rparr>"

theorem edit_validation_exact_witness:
  "ValidateHitlEdit (\<lambda>_. []) [(''payment'', AObj [(''amount'', AInt 5)])] (Some [(''payment'', AInt 9)])
     demo_review \<noteq> None"
proof
  assume "ValidateHitlEdit (\<lambda>_. []) [(''payment'', AObj [(''amount'', AInt 5)])] (Some [(''payment'', AInt 9)])
     demo_review = None"
  then have "pathChanged (\<lambda>_. []) [(''payment'', AObj [(''amount'', AInt 5)])] [(''payment'', AInt 9)] ''payment''
      \<longrightarrow> \<not> editDenied demo_review ''payment''"
    unfolding edit_validation_exact by blast
  moreover have "pathChanged (\<lambda>_. []) [(''payment'', AObj [(''amount'', AInt 5)])] [(''payment'', AInt 9)] ''payment''"
    by code_simp
  moreover have "editDenied demo_review ''payment''" by code_simp
  ultimately show False by blast
qed

text \<open>
  The diff recorded for the audit trail is complete and precise: its keys are exactly
  the flattened paths the edit changes.
\<close>

theorem args_diff_exact:
  "set (keys (HitlArgsDiff ff original edited)) = {path. pathChanged ff original edited path}"
  using HitlArgsDiff_dom [of ff original edited] by (force simp: map_of_eq_None_iff)

text \<open>
  C22. Whatever the operator decides, the call that results addresses the same tool; its
  operation is the original one or an allowed switch target, its arguments are the original
  ones or an edit that passed validation, and the decision was one the review allows.
\<close>

theorem decision_stays_on_tool:
  assumes "ApplyHitlDecision ff gate inp = Inr (uses', with')"
    and "ParseUses (hg_Uses gate) = Inr (t, op)"
  shows "di_Kind inp \<in> set (rv_AllowedDecisions (hg_Review gate)) \<and>
    (\<exists>op'. ParseUses uses' = Inr (t, op') \<and>
       (op' = op \<or> op' \<in> TrimSpace ` set (rv_SwitchTargets (hg_Review gate)))) \<and>
    (with' = hg_With gate \<or>
       (\<forall>path. pathChanged ff (hg_With gate) with' path \<longrightarrow>
          editAllowed (hg_Review gate) path \<and> \<not> editDenied (hg_Review gate) path))"
  using ApplyHitlDecision_Inr [OF assms(1)] assms(2)
    switchUses_parse [OF assms(2), of "di_SwitchTarget inp" uses']
  by (auto simp: ValidateHitlEdit_iff switchTargetAllowed_def list_ex_iff image_iff) (metis)

theorem decision_stays_on_tool_witness:
  "\<exists>op'. ParseUses ''tool.fs.list'' = Inr (''fs'', op')"
proof -
  have "ApplyHitlDecision (\<lambda>_. []) \<lparr>hg_Uses = ''tool.fs.read'', hg_With = [], hg_Review = demo_review\<rparr>
      \<lparr>di_Kind = HitlSwitch, di_Actor = ''op'', di_EditedWith = None, di_SwitchTarget = ''list ''\<rparr> =
      Inr (''tool.fs.list'', [])"
    by code_simp
  moreover have "ParseUses (hg_Uses \<lparr>hg_Uses = ''tool.fs.read'', hg_With = [], hg_Review = demo_review\<rparr>) =
      Inr (''fs'', ''read'')"
    by code_simp
  ultimately show ?thesis using decision_stays_on_tool by blast
qed

text \<open>
  C27. Redaction leaks nothing: two argument trees are shown alike exactly when they differ
  at most in the values below keys that match a redaction pattern, at any depth and inside
  lists too.
\<close>

theorem redaction_noninterference:
  "redactHitlValue lower v patterns = redactHitlValue lower w patterns \<longleftrightarrow> sameShown lower patterns v w"
  by (rule redact_eq_iff(1))

text \<open>
  C28. In redacted arguments every key that matches one of the configured keys, at any
  depth, holds the placeholder.
\<close>

theorem redaction_masks_every_match:
  "allMasked lower (redactPatterns lower redactKeys) (AObj (RedactHitlArgs lower args redactKeys))"
proof (cases "redactKeys = []")
  case True
  have "allMasked lower [] v" for v
    by (induction lower "[] :: string list" v rule: allMasked.induct) (auto simp: redactKeyMatches_def)
  with True show ?thesis by (simp add: RedactHitlArgs_def redactPatterns_def del: allMasked.simps)
next
  case False
  then show ?thesis by (simp add: RedactHitlArgs_def redact_masked(2) del: allMasked.simps)
qed

end
