(* ===== verification/Policy_Stricter.thy ===== *)
theory Policy_Stricter
  imports Policy_Hitl
begin

text \<open>
  \<open>internal/policy/stricter.go\<close>: the policy that governs a subworkflow is the caller's and the
  callee's merged, field by field the stricter of the two. The evaluators themselves are
  composed in \<open>Policy_Gate\<close>; this theory models the merged \<open>PolicySpec\<close>, from which the engine
  reads the iteration ceiling, the budgets and the human-review configuration. The \<open>clone*\<close>
  functions copy values and are the identity on immutable data.
\<close>

subsection \<open>Lists and maps\<close>

definition joinNonEmptyPrefix :: "string \<Rightarrow> string \<Rightarrow> string" where
  "joinNonEmptyPrefix a0 b0 =
     (let a = TrimSpace a0; b = TrimSpace b0
      in if a = [] then b else if b = [] \<or> a = b then a else a @ '' / '' @ b)"

definition intersectStrings :: "string list \<Rightarrow> string list \<Rightarrow> string list" where
  "intersectStrings a b =
     (let seen = filter (\<lambda>s. s \<noteq> []) (map TrimSpace b)
      in dedup (filter (\<lambda>s. s \<noteq> [] \<and> s \<in> set seen) (map TrimSpace a)))"

definition joinAllowList :: "string list \<Rightarrow> string list \<Rightarrow> string list" where
  "joinAllowList a b = (if a = [] then b else if b = [] then a else intersectStrings a b)"

definition joinAllowMap :: "string list gomap \<Rightarrow> string list gomap \<Rightarrow> string list gomap" where
  "joinAllowMap a b =
     (if a = [] \<and> b = [] then []
      else fold (\<lambda>(k, v) out.
             (case map_of out k of
                Some prev \<Rightarrow> put k (joinAllowList prev v) out
              | None \<Rightarrow> put k v out)) b a)"

definition unionStrings :: "string list \<Rightarrow> string list \<Rightarrow> string list" where
  "unionStrings a b = trimDedup (a @ b)"

subsection \<open>Human review\<close>

definition effectiveDecisions :: "hitl_interrupt_config option \<Rightarrow> hitl_decision list" where
  "effectiveDecisions cfg =
     (case cfg of
        None \<Rightarrow> [HitlApprove, HitlReject]
      | Some c \<Rightarrow>
          if hc_AllowedDecisions c \<noteq> [] then hc_AllowedDecisions c
          else [HitlApprove, HitlReject]
            @ (if declaresEdits c then [HitlEdit] else [])
            @ (if hc_AllowedEditTools c \<noteq> [] \<or> hc_SwitchMap c \<noteq> [] then [HitlSwitch] else []))"

definition intersectDecisions :: "hitl_decision list \<Rightarrow> hitl_decision list \<Rightarrow> hitl_decision list" where
  "intersectDecisions a b =
     (let out = dedup (filter (\<lambda>k. k \<in> set b) a) in if out = [] then [HitlNone] else out)"

definition mergeHitlConfigFields ::
  "hitl_interrupt_config option \<Rightarrow> hitl_interrupt_config option \<Rightarrow> hitl_interrupt_config option" where
  "mergeHitlConfigFields ca cb =
     (case ca of
        None \<Rightarrow> cb
      | Some a \<Rightarrow>
          (case cb of
             None \<Rightarrow> ca
           | Some b \<Rightarrow>
               Some \<lparr>hc_AllowedDecisions = [],
                 hc_Description = joinNonEmptyPrefix (hc_Description a) (hc_Description b),
                 hc_AllowedEditArgs = joinAllowList (hc_AllowedEditArgs a) (hc_AllowedEditArgs b),
                 hc_DeniedEditArgs = unionStrings (hc_DeniedEditArgs a) (hc_DeniedEditArgs b),
                 hc_AllowedEditPaths = joinAllowList (hc_AllowedEditPaths a) (hc_AllowedEditPaths b),
                 hc_DeniedEditPaths = unionStrings (hc_DeniedEditPaths a) (hc_DeniedEditPaths b),
                 hc_AllowedEditTools = joinAllowList (hc_AllowedEditTools a) (hc_AllowedEditTools b),
                 hc_SwitchMap = joinAllowMap (hc_SwitchMap a) (hc_SwitchMap b),
                 hc_RedactKeys = unionStrings (hc_RedactKeys a) (hc_RedactKeys b)\<rparr>))"

definition mergeHitlInterruptValue ::
  "hitl_interrupt_value \<Rightarrow> hitl_interrupt_value \<Rightarrow> hitl_interrupt_value" where
  "mergeHitlInterruptValue a b =
     (let ca = hv_Config a; cb = hv_Config b; enabled = (hv_Enabled a \<or> hv_Enabled b)
      in if ca = None \<and> cb = None then \<lparr>hv_Enabled = enabled, hv_Config = None\<rparr>
         else \<lparr>hv_Enabled = enabled,
                hv_Config = map_option
                  (\<lambda>m. m\<lparr>hc_AllowedDecisions :=
                    intersectDecisions (effectiveDecisions ca) (effectiveDecisions cb)\<rparr>)
                  (mergeHitlConfigFields ca cb)\<rparr>)"

definition mergeInterruptOn ::
  "hitl_interrupt_value gomap \<Rightarrow> hitl_interrupt_value gomap \<Rightarrow> hitl_interrupt_value gomap" where
  "mergeInterruptOn a b =
     fold (\<lambda>(k, bv) out.
       (case map_of out k of
          Some av \<Rightarrow> put k (mergeHitlInterruptValue av bv) out
        | None \<Rightarrow> put k bv out)) b a"

definition mergeStricterHitl :: "hitl_policy option \<Rightarrow> hitl_policy option \<Rightarrow> hitl_policy option" where
  "mergeStricterHitl a0 b0 =
     (case a0 of
        None \<Rightarrow> b0
      | Some a \<Rightarrow>
          (case b0 of
             None \<Rightarrow> a0
           | Some b \<Rightarrow>
               Some \<lparr>hp_InterruptOn = mergeInterruptOn (hp_InterruptOn a) (hp_InterruptOn b),
                 hp_DescriptionPrefix =
                   joinNonEmptyPrefix (hp_DescriptionPrefix a) (hp_DescriptionPrefix b),
                 hp_ToolSwitchMap = joinAllowMap (hp_ToolSwitchMap a) (hp_ToolSwitchMap b),
                 hp_RedactKeys = unionStrings (hp_RedactKeys a) (hp_RedactKeys b)\<rparr>))"

subsection \<open>The merged policy\<close>

definition f64_le :: "float64 \<Rightarrow> float64 \<Rightarrow> bool" where
  "f64_le x y = (f64_less x y \<or> (x = y \<and> x \<noteq> NaN))"

definition policyIterationCeiling :: "policy_spec option \<Rightarrow> int" where
  "policyIterationCeiling pol =
     (case execOf pol of
        None \<Rightarrow> HardAgentMaxIterations
      | Some e \<Rightarrow> EffectiveMaxIterationsCeiling (pe_MaxIterations e))"

definition mergeExecution ::
  "policy_execution option \<Rightarrow> policy_execution option \<Rightarrow> policy_execution option" where
  "mergeExecution ea eb =
     (case eb of
        None \<Rightarrow> ea
      | Some b \<Rightarrow>
          (case ea of
             None \<Rightarrow> Some b
           | Some ex \<Rightarrow>
               Some (ex\<lparr>
                 pe_MaxTotalCostUsd :=
                   (if f64_less f64_zero (pe_MaxTotalCostUsd b)
                       \<and> (f64_le (pe_MaxTotalCostUsd ex) f64_zero
                          \<or> f64_less (pe_MaxTotalCostUsd b) (pe_MaxTotalCostUsd ex))
                    then pe_MaxTotalCostUsd b else pe_MaxTotalCostUsd ex),
                 pe_MaxWallClockSeconds :=
                   (if 0 < pe_MaxWallClockSeconds b
                       \<and> (pe_MaxWallClockSeconds ex \<le> 0
                          \<or> pe_MaxWallClockSeconds b < pe_MaxWallClockSeconds ex)
                    then pe_MaxWallClockSeconds b else pe_MaxWallClockSeconds ex),
                 pe_RequireStructuredOutput :=
                   (pe_RequireStructuredOutput b \<or> pe_RequireStructuredOutput ex)\<rparr>)))"

text \<open>The last part: the tighter effective iteration ceiling, materialised only when needed.\<close>

definition setIterationCeiling :: "int \<Rightarrow> policy_spec \<Rightarrow> policy_spec" where
  "setIterationCeiling merged out =
     (if merged < HardAgentMaxIterations then
        out\<lparr>ps_Execution := Some ((case ps_Execution out of None \<Rightarrow> zero_execution | Some e \<Rightarrow> e)
              \<lparr>pe_MaxIterations := merged\<rparr>)\<rparr>
      else case ps_Execution out of
          None \<Rightarrow> out
        | Some e \<Rightarrow>
            out\<lparr>ps_Execution := Some (e\<lparr>pe_MaxIterations :=
              (if merged = HardAgentMaxIterations then 0 else merged)\<rparr>)\<rparr>)"

definition mergeStricterPolicySpec ::
  "policy_spec option \<Rightarrow> policy_spec option \<Rightarrow> policy_spec option" where
  "mergeStricterPolicySpec a b =
     (let ceiling = min (policyIterationCeiling a) (policyIterationCeiling b) in
      case a of
        None \<Rightarrow> (case b of None \<Rightarrow> None | Some q \<Rightarrow> Some (setIterationCeiling ceiling q))
      | Some p \<Rightarrow>
          (case b of
             None \<Rightarrow> Some (setIterationCeiling ceiling p)
           | Some q \<Rightarrow>
               Some (setIterationCeiling ceiling
                 (p\<lparr>ps_Execution := mergeExecution (ps_Execution p) (ps_Execution q),
                    ps_Hitl := mergeStricterHitl (ps_Hitl p) (ps_Hitl q)\<rparr>))))"

subsection \<open>The iteration ceiling\<close>

lemma policyIterationCeiling_pos: "0 < policyIterationCeiling pol"
  by (simp add: policyIterationCeiling_def EffectiveMaxIterationsCeiling_positive
      HardAgentMaxIterations_def split: option.split)

lemma policyIterationCeiling_set:
  assumes "0 < n" "n \<le> HardAgentMaxIterations \<or> ps_Execution p \<noteq> None"
  shows "policyIterationCeiling (Some (setIterationCeiling n p)) = n"
  using assms
  by (auto simp: policyIterationCeiling_def setIterationCeiling_def execOf_def
      EffectiveMaxIterationsCeiling_def split: option.split)

lemma policyIterationCeiling_large:
  "HardAgentMaxIterations < policyIterationCeiling pol \<Longrightarrow> \<exists>p e. pol = Some p \<and> ps_Execution p = Some e"
  by (auto simp: policyIterationCeiling_def execOf_def split: option.splits)

lemma merged_iteration_ceiling:
  assumes "a \<noteq> None \<or> b \<noteq> None"
  shows "policyIterationCeiling (mergeStricterPolicySpec a b) =
    min (policyIterationCeiling a) (policyIterationCeiling b)"
proof -
  let ?m = "min (policyIterationCeiling a) (policyIterationCeiling b)"
  have pos: "0 < ?m" by (simp add: policyIterationCeiling_pos)
  have large: "\<exists>p q e f. a = Some p \<and> b = Some q \<and> ps_Execution p = Some e \<and> ps_Execution q = Some f"
    if "\<not> ?m \<le> HardAgentMaxIterations"
    using that policyIterationCeiling_large [of a] policyIterationCeiling_large [of b]
    by (simp add: min_le_iff_disj not_le) blast
  show ?thesis
    using assms pos large
    by (cases a; cases b)
      (auto simp: mergeStricterPolicySpec_def Let_def mergeExecution_def
        intro!: policyIterationCeiling_set)
qed

subsection \<open>Budgets\<close>

text \<open>The budget a limit stands for: none when it is not positive.\<close>

definition withinCost :: "float64 \<Rightarrow> float64 \<Rightarrow> bool" where
  "withinCost limit acc \<longleftrightarrow> \<not> (f64_less f64_zero limit \<and> f64_less limit acc)"

definition withinWall :: "int \<Rightarrow> int \<Rightarrow> bool" where
  "withinWall limit elapsed \<longleftrightarrow> \<not> (0 < limit \<and> wrap64 (limit * second) < elapsed)"

lemma checkExecutionBudgets_None:
  "checkExecutionBudgets run ex = None \<longleftrightarrow>
     (case ex of
        None \<Rightarrow> True
      | Some e \<Rightarrow> withinWall (pe_MaxWallClockSeconds e) (rc_Elapsed run)
          \<and> withinCost (pe_MaxTotalCostUsd e) (rc_AccumulatedCostUSD run))"
  by (auto simp: checkExecutionBudgets_def withinWall_def withinCost_def split: option.split)

lemma f64_less_trans: "f64_less x y \<Longrightarrow> f64_less y z \<Longrightarrow> f64_less x z"
  by (cases x; cases y; cases z) auto

lemma f64_not_less: "x \<noteq> NaN \<Longrightarrow> y \<noteq> NaN \<Longrightarrow> \<not> f64_less x y \<longleftrightarrow> f64_le y x"
  by (cases x; cases y) (auto simp: f64_le_def)

lemma f64_le_less_trans: "f64_le x y \<Longrightarrow> f64_less y z \<Longrightarrow> f64_less x z"
  by (auto simp: f64_le_def intro: f64_less_trans)

lemma merged_cost:
  assumes "x \<noteq> NaN"
    and "withinCost (if f64_less f64_zero y \<and> (f64_le x f64_zero \<or> f64_less y x) then y else x) acc"
  shows "withinCost x acc \<and> withinCost y acc"
proof (cases "f64_less f64_zero y")
  case False
  with assms show ?thesis by (auto simp: withinCost_def)
next
  case True
  then have y: "y \<noteq> NaN" by (cases y) auto
  show ?thesis
  proof (cases "f64_le x f64_zero \<or> f64_less y x")
    case lower: True
    then have "f64_less y acc" if "f64_less f64_zero x" "f64_less x acc"
      using that assms(1) by (metis f64_less_trans f64_not_less float64.distinct(5))
    with assms True lower show ?thesis by (auto simp: withinCost_def)
  next
    case False
    then have "f64_less f64_zero x" "f64_le x y"
      using assms(1) y by (simp_all add: f64_not_less [symmetric])
    with assms True False show ?thesis by (auto simp: withinCost_def dest: f64_le_less_trans)
  qed
qed

lemma wrap_second: "0 < n \<Longrightarrow> n \<le> 9223372036 \<Longrightarrow> wrap64 (n * second) = n * second"
  by (rule wrap64_id) (simp_all add: second_def)

lemma merged_wall:
  assumes "x \<le> 9223372036" "y \<le> 9223372036"
    and "withinWall (if 0 < y \<and> (x \<le> 0 \<or> y < x) then y else x) el"
  shows "withinWall x el \<and> withinWall y el"
proof -
  have less: "wrap64 (m * second) < wrap64 (n * second)" if "0 < m" "m < n" "n \<le> 9223372036" for m n
    using that by (simp add: wrap_second) (simp add: second_def)
  show ?thesis
    using assms less [of x y] less [of y x]
    by (cases "x = y") (auto simp: withinWall_def not_less split: if_splits)
qed

text \<open>A limit that is a number and fits into a \<open>time.Duration\<close>.\<close>

definition soundLimits :: "policy_execution option \<Rightarrow> bool" where
  "soundLimits ex =
     (case ex of
        None \<Rightarrow> True
      | Some e \<Rightarrow> pe_MaxTotalCostUsd e \<noteq> NaN \<and> pe_MaxWallClockSeconds e \<le> 9223372036)"

lemma mergeExecution_budgets:
  assumes "soundLimits ea" "soundLimits eb" "checkExecutionBudgets run (mergeExecution ea eb) = None"
  shows "checkExecutionBudgets run ea = None \<and> checkExecutionBudgets run eb = None"
proof (cases ea)
  case None
  with assms show ?thesis
    by (auto simp: mergeExecution_def checkExecutionBudgets_None split: option.splits)
next
  case (Some x)
  show ?thesis
  proof (cases eb)
    case None
    with assms show ?thesis by (simp add: mergeExecution_def checkExecutionBudgets_None)
  next
    case (Some y)
    with assms \<open>ea = Some x\<close> show ?thesis
      using merged_cost [of "pe_MaxTotalCostUsd x" "pe_MaxTotalCostUsd y"]
        merged_wall [of "pe_MaxWallClockSeconds x" "pe_MaxWallClockSeconds y"]
      by (simp add: mergeExecution_def checkExecutionBudgets_None soundLimits_def)
  qed
qed

text \<open>Only the ceiling is touched after the merge, so the budget checks see the merged block.\<close>

lemma setIterationCeiling_budgets:
  "checkExecutionBudgets run (ps_Execution (setIterationCeiling n p)) = checkExecutionBudgets run (ps_Execution p)"
  "checkStructuredOutputRequired st (ps_Execution (setIterationCeiling n p)) =
     checkStructuredOutputRequired st (ps_Execution p)"
  by (auto simp: setIterationCeiling_def checkExecutionBudgets_def checkStructuredOutputRequired_def
      zero_execution_def split: option.split)

lemma setIterationCeiling_other [simp]:
  "ps_Hitl (setIterationCeiling n p) = ps_Hitl p"
  "ps_Approvals (setIterationCeiling n p) = ps_Approvals p"
  "ps_Tools (setIterationCeiling n p) = ps_Tools p"
  by (simp_all add: setIterationCeiling_def split: option.split)

subsection \<open>The merged review\<close>

lemma fold_merge_lookup:
  "wf_map b \<Longrightarrow>
     map_of (fold (\<lambda>(k, v) out.
       (case map_of out k of Some p \<Rightarrow> put k (f p v) out | None \<Rightarrow> put k v out)) b a) k =
     (case map_of b k of
        None \<Rightarrow> map_of a k
      | Some v \<Rightarrow> Some (case map_of a k of None \<Rightarrow> v | Some p \<Rightarrow> f p v))"
proof (induction b arbitrary: a)
  case (Cons x b)
  obtain k' v' where x: "x = (k', v')" by fastforce
  have none: "k = k' \<Longrightarrow> map_of b k = None"
    using Cons.prems x by (auto simp: map_of_eq_None_iff)
  with Cons x show ?case by (auto split: option.split simp del: map_of_eq_Some_iff)
qed simp

lemma mergeInterruptOn_lookup:
  "wf_map b \<Longrightarrow> map_of (mergeInterruptOn a b) k =
     (case map_of b k of
        None \<Rightarrow> map_of a k
      | Some v \<Rightarrow> Some (case map_of a k of None \<Rightarrow> v | Some p \<Rightarrow> mergeHitlInterruptValue p v))"
  unfolding mergeInterruptOn_def by (rule fold_merge_lookup)

lemma intersectDecisions_nonempty: "intersectDecisions a b \<noteq> []"
  by (simp add: intersectDecisions_def Let_def)

lemma set_collapse_intersect:
  "set (collapseDenyAll (intersectDecisions a b)) \<subseteq> set a \<inter> set b"
  by (auto simp: collapseDenyAll_def intersectDecisions_def Let_def list_ex_iff set_dedupFrom
      split: if_splits)

lemma mergeHitlInterruptValue_config:
  assumes "hv_Config a \<noteq> None \<or> hv_Config b \<noteq> None"
  obtains c where "hv_Config (mergeHitlInterruptValue a b) = Some c"
    "hc_AllowedDecisions c =
       intersectDecisions (effectiveDecisions (hv_Config a)) (effectiveDecisions (hv_Config b))"
proof -
  have "mergeHitlConfigFields (hv_Config a) (hv_Config b) \<noteq> None"
    using assms by (auto simp: mergeHitlConfigFields_def split: option.split)
  then obtain m where "mergeHitlConfigFields (hv_Config a) (hv_Config b) = Some m" by blast
  with assms that show ?thesis by (auto simp: mergeHitlInterruptValue_def Let_def)
qed

lemma mergeHitlInterruptValue_enabled [simp]:
  "hv_Enabled (mergeHitlInterruptValue a b) \<longleftrightarrow> hv_Enabled a \<or> hv_Enabled b"
  by (simp add: mergeHitlInterruptValue_def Let_def)

text \<open>Two policies whose \<open>interruptOn\<close> both have an entry for the tool.\<close>

definition bothInterrupt ::
  "policy_spec \<Rightarrow> policy_spec \<Rightarrow> string \<Rightarrow> hitl_interrupt_value \<Rightarrow> hitl_interrupt_value \<Rightarrow> bool" where
  "bothInterrupt p q t va vb =
     (case (ps_Hitl p, ps_Hitl q) of
        (Some ha, Some hb) \<Rightarrow> map_of (hp_InterruptOn ha) t = Some va
          \<and> map_of (hp_InterruptOn hb) t = Some vb \<and> wf_map (hp_InterruptOn hb)
      | _ \<Rightarrow> False)"

lemma merged_interruptConfig:
  assumes "bothInterrupt p q t va vb" "hv_Enabled va \<or> hv_Enabled vb"
  shows "interruptConfig (mergeStricterPolicySpec (Some p) (Some q)) t =
    hv_Config (mergeHitlInterruptValue va vb)"
  using assms
  by (auto simp: bothInterrupt_def interruptConfig_def hitlOf_def mergeStricterPolicySpec_def Let_def
      mergeStricterHitl_def mergeInterruptOn_lookup split: option.splits simp del: map_of_eq_Some_iff)

lemma merged_decisions:
  assumes "ParseUses u = Inr (t, op)" "bothInterrupt p q t va vb" "hv_Enabled va \<or> hv_Enabled vb"
    and "hv_Config va \<noteq> None \<or> hv_Config vb \<noteq> None"
    and "ResolveHitlReview (mergeStricterPolicySpec (Some p) (Some q)) u = Inr rv"
  shows "set (rv_AllowedDecisions rv) \<subseteq>
    set (effectiveDecisions (hv_Config va)) \<inter> set (effectiveDecisions (hv_Config vb))"
proof -
  obtain c where c: "hv_Config (mergeHitlInterruptValue va vb) = Some c"
    "hc_AllowedDecisions c =
       intersectDecisions (effectiveDecisions (hv_Config va)) (effectiveDecisions (hv_Config vb))"
    using assms(4) by (rule mergeHitlInterruptValue_config)
  have "rv_AllowedDecisions rv = collapseDenyAll (hc_AllowedDecisions c)"
    using assms(1,5) c intersectDecisions_nonempty merged_interruptConfig [OF assms(2,3)]
    by (auto simp: ResolveHitlReview_def Let_def defaultHitlDecisions_def)
  then show ?thesis using set_collapse_intersect c(2) by simp
qed

lemma topLevelKey_nonempty:
  "topLevelKey path \<noteq> [] \<Longrightarrow> path \<noteq> [] \<and> \<not> prefix ''.'' path"
  by (cases path) (auto simp: topLevelKey_def)

lemma list_ex_unionStrings:
  assumes "\<not> Q []"
  shows "list_ex (\<lambda>d. Q (TrimSpace d)) (unionStrings a b) \<longleftrightarrow>
    list_ex (\<lambda>d. Q (TrimSpace d)) a \<or> list_ex (\<lambda>d. Q (TrimSpace d)) b"
proof -
  have "(\<exists>d \<in> TrimSpace ` X - {[]}. Q (TrimSpace d)) \<longleftrightarrow> (\<exists>d \<in> X. Q (TrimSpace d))" for X
  proof
    assume "\<exists>d \<in> X. Q (TrimSpace d)"
    then obtain d where "d \<in> X" "Q (TrimSpace d)" by blast
    with assms show "\<exists>d \<in> TrimSpace ` X - {[]}. Q (TrimSpace d)"
      by (intro bexI [of _ "TrimSpace d"]) auto
  qed auto
  from this [of "set a \<union> set b"]
  have "list_ex (\<lambda>d. Q (TrimSpace d)) (unionStrings a b) \<longleftrightarrow> (\<exists>d \<in> set a \<union> set b. Q (TrimSpace d))"
    by (simp add: unionStrings_def list_ex_iff set_trimDedup)
  then show ?thesis by (auto simp: list_ex_iff)
qed

lemma pathDenied_union:
  assumes "topLevelKey path \<noteq> []"
  shows "pathDenied path (unionStrings a b) (unionStrings c d) \<longleftrightarrow>
    pathDenied path a c \<or> pathDenied path b d"
proof -
  let ?A = "\<lambda>s. s = ''*'' \<or> s = path \<or> topLevelKey path = s"
  let ?P = "\<lambda>s. s = ''*'' \<or> s = path \<or> prefix (s @ ''.'') path \<or> prefix (path @ ''.'') s"
  have "\<not> ?A []" "\<not> ?P []" using assms topLevelKey_nonempty [OF assms] by auto
  note u = list_ex_unionStrings [of ?A, OF this(1)] list_ex_unionStrings [of ?P, OF this(2)]
  show ?thesis unfolding pathDenied_def u by blast
qed

lemma trimDedup_trim_mem: "k \<in> set xs \<Longrightarrow> TrimSpace k \<noteq> [] \<Longrightarrow> TrimSpace k \<in> set (trimDedup xs)"
  by (simp add: set_trimDedup)

text \<open>What either side denies, the merged review denies too.\<close>

lemma merged_denied:
  assumes "ParseUses u = Inr (t, op)" "bothInterrupt p q t va vb" "hv_Enabled va" "hv_Enabled vb"
    and "ResolveHitlReview (Some p) u = Inr rp" "ResolveHitlReview (Some q) u = Inr rq"
    and "ResolveHitlReview (mergeStricterPolicySpec (Some p) (Some q)) u = Inr rv"
    and "topLevelKey path \<noteq> []" "editDenied rp path \<or> editDenied rq path"
  shows "editDenied rv path"
proof -
  have cfg: "interruptConfig (Some p) t = hv_Config va" "interruptConfig (Some q) t = hv_Config vb"
    using assms(2,3,4) by (auto simp: bothInterrupt_def interruptConfig_def hitlOf_def split: option.splits)
  note m = merged_interruptConfig [OF assms(2) disjI1 [OF assms(3)]]
  have "editDenied rx path \<longleftrightarrow> (case c of None \<Rightarrow> False
      | Some k \<Rightarrow> pathDenied path (hc_DeniedEditPaths k) (hc_DeniedEditArgs k))"
    if "ResolveHitlReview pol u = Inr rx" "interruptConfig pol t = c" for rx pol c
    using that assms(1)
    by (auto simp: ResolveHitlReview_def Let_def editDenied_def pathDenied_def split: option.split)
  from this [OF assms(5) cfg(1)] this [OF assms(6) cfg(2)] this [OF assms(7) m] assms(9)
  show ?thesis
    by (auto simp: mergeHitlInterruptValue_def Let_def mergeHitlConfigFields_def
        pathDenied_union [OF assms(8)] split: option.splits)
qed

subsection \<open>Properties\<close>

lemma no_execution_checks [simp]:
  "checkExecutionBudgets run None = None" "checkStructuredOutputRequired st None = None"
  by (simp_all add: checkExecutionBudgets_def checkStructuredOutputRequired_def)

lemma mergeExecution_structured:
  "checkStructuredOutputRequired st (mergeExecution ea eb) = None \<Longrightarrow>
     checkStructuredOutputRequired st ea = None \<and> checkStructuredOutputRequired st eb = None"
  by (auto simp: mergeExecution_def checkStructuredOutputRequired_def split: option.splits if_splits)

text \<open>
  C36. The iteration ceiling of the merged policy is the smaller of the two effective
  ceilings, for all pairs of policies, absent ones included: a subworkflow never runs more
  iterations than either policy allows.
\<close>

theorem merged_ceiling_is_minimum:
  "policyIterationCeiling (mergeStricterPolicySpec a b) =
     min (policyIterationCeiling a) (policyIterationCeiling b)"
proof (cases "a = None \<and> b = None")
  case True
  then show ?thesis by (simp add: mergeStricterPolicySpec_def Let_def)
next
  case False
  then have "a \<noteq> None \<or> b \<noteq> None" by simp
  then show ?thesis by (rule merged_iteration_ceiling)
qed

text \<open>
  C20. Budgets and the structured-output rule of the merged policy are at least as strict as
  either side's: a run and a step that pass under the merged policy pass under both, as long
  as the cost limits are numbers and the wall-clock limits fit into a \<open>time.Duration\<close>.
\<close>

theorem merged_budgets_bind_both:
  assumes "soundLimits (execOf a)" "soundLimits (execOf b)"
    and "CheckRun \<lparr>ev_graph = g, ev_policy = mergeStricterPolicySpec a b\<rparr> run = None"
    and "CheckStep \<lparr>ev_graph = g, ev_policy = mergeStricterPolicySpec a b\<rparr> st = None"
  shows "CheckRun \<lparr>ev_graph = g, ev_policy = a\<rparr> run = None \<and> CheckRun \<lparr>ev_graph = g, ev_policy = b\<rparr> run = None
    \<and> CheckStep \<lparr>ev_graph = g, ev_policy = a\<rparr> st = None \<and> CheckStep \<lparr>ev_graph = g, ev_policy = b\<rparr> st = None"
proof (cases a)
  case None
  with assms show ?thesis
    by (cases b) (simp_all add: CheckRun_def CheckStep_def mergeStricterPolicySpec_def Let_def execOf_def
        setIterationCeiling_budgets)
next
  case (Some p)
  show ?thesis
  proof (cases b)
    case None
    with Some assms show ?thesis
      by (simp add: CheckRun_def CheckStep_def mergeStricterPolicySpec_def Let_def execOf_def
        setIterationCeiling_budgets)
  next
    case (Some q)
    with \<open>a = Some p\<close> assms
      mergeExecution_budgets [of "ps_Execution p" "ps_Execution q" run]
      mergeExecution_structured [of st "ps_Execution p" "ps_Execution q"]
    show ?thesis
      by (simp add: CheckRun_def CheckStep_def mergeStricterPolicySpec_def Let_def execOf_def
          setIterationCeiling_budgets)
  qed
qed

definition demo_budget :: "int \<Rightarrow> policy_spec option" where
  "demo_budget n = Some (zero_policy\<lparr>ps_Execution := Some (zero_execution\<lparr>pe_MaxWallClockSeconds := n\<rparr>)\<rparr>)"

definition demo_run :: run_context where
  "demo_run = \<lparr>rc_Elapsed = 5, rc_AccumulatedCostUSD = Fin 1, rc_ApprovedActions = []\<rparr>"

definition demo_step :: step_context where
  "demo_step = \<lparr>sc_StepID = ''s'', sc_OutputIsStructured = True\<rparr>"

theorem merged_budgets_bind_both_witness:
  "CheckRun \<lparr>ev_graph = None, ev_policy = demo_budget 60\<rparr> demo_run = None"
proof -
  have "CheckRun \<lparr>ev_graph = None, ev_policy = mergeStricterPolicySpec (demo_budget 60) (demo_budget 10)\<rparr> demo_run = None"
    "CheckStep \<lparr>ev_graph = None, ev_policy = mergeStricterPolicySpec (demo_budget 60) (demo_budget 10)\<rparr> demo_step = None"
    "soundLimits (execOf (demo_budget 60))" "soundLimits (execOf (demo_budget 10))"
    by code_simp+
  then show ?thesis using merged_budgets_bind_both by blast
qed

text \<open>
  C23. Where the \<open>interruptOn\<close> maps of both policies have an enabled entry for a tool and at least one
  of the two entries carries a configuration, the merged review of the tool's operations offers only
  decisions that both entries' effective decision sets contain, an empty intersection offering
  none, and it denies every edit path that either side's review denies, except paths whose top-level
  key is empty: blank entries of a deny list, which match those, are dropped by the merge. Without a
  configuration on either side, or with an entry on one side only, the merge promises less.
\<close>

theorem merged_review_no_weaker:
  assumes "ParseUses u = Inr (t, op)" "bothInterrupt p q t va vb" "hv_Enabled va" "hv_Enabled vb"
    and "hv_Config va \<noteq> None \<or> hv_Config vb \<noteq> None"
    and "ResolveHitlReview (Some p) u = Inr rp" "ResolveHitlReview (Some q) u = Inr rq"
    and "ResolveHitlReview (mergeStricterPolicySpec (Some p) (Some q)) u = Inr rv"
  shows "set (rv_AllowedDecisions rv) \<subseteq>
      set (effectiveDecisions (hv_Config va)) \<inter> set (effectiveDecisions (hv_Config vb))
    \<and> (\<forall>path. topLevelKey path \<noteq> [] \<and> (editDenied rp path \<or> editDenied rq path) \<longrightarrow> editDenied rv path)"
  using merged_decisions [OF assms(1,2) disjI1 [OF assms(3)] assms(5,8)]
    merged_denied [OF assms(1-4) assms(6-8)]
  by blast

definition demo_interrupt :: "hitl_decision list \<Rightarrow> string list \<Rightarrow> hitl_interrupt_value" where
  "demo_interrupt ds den = \<lparr>hv_Enabled = True, hv_Config = Some
     \<lparr>hc_AllowedDecisions = ds, hc_Description = [], hc_AllowedEditArgs = [''*''], hc_DeniedEditArgs = [],
      hc_AllowedEditPaths = [], hc_DeniedEditPaths = den, hc_AllowedEditTools = [], hc_SwitchMap = [],
      hc_RedactKeys = []\<rparr>\<rparr>"

definition demo_hitl_policy :: "hitl_interrupt_value \<Rightarrow> policy_spec" where
  "demo_hitl_policy iv = zero_policy\<lparr>ps_Hitl := Some \<lparr>hp_InterruptOn = [(''fs'', iv)],
     hp_DescriptionPrefix = [], hp_ToolSwitchMap = [], hp_RedactKeys = []\<rparr>\<rparr>"

theorem merged_review_no_weaker_witness:
  "\<exists>rv. ResolveHitlReview (mergeStricterPolicySpec
       (Some (demo_hitl_policy (demo_interrupt [HitlApprove, HitlEdit] [''a''])))
       (Some (demo_hitl_policy (demo_interrupt [HitlEdit] [])))) ''tool.fs.read'' = Inr rv
     \<and> set (rv_AllowedDecisions rv) \<subseteq> {HitlEdit} \<and> editDenied rv ''a''"
proof -
  let ?va = "demo_interrupt [HitlApprove, HitlEdit] [''a'']" and ?vb = "demo_interrupt [HitlEdit] []"
  let ?p = "demo_hitl_policy ?va" and ?q = "demo_hitl_policy ?vb"
  have u: "ParseUses ''tool.fs.read'' = Inr (''fs'', ''read'')" by code_simp
  obtain rp rq rv where r: "ResolveHitlReview (Some ?p) ''tool.fs.read'' = Inr rp"
    "ResolveHitlReview (Some ?q) ''tool.fs.read'' = Inr rq"
    "ResolveHitlReview (mergeStricterPolicySpec (Some ?p) (Some ?q)) ''tool.fs.read'' = Inr rv"
    by (simp add: ResolveHitlReview_def u Let_def)
  have b: "bothInterrupt ?p ?q ''fs'' ?va ?vb" "hv_Enabled ?va" "hv_Enabled ?vb"
    "hv_Config ?va \<noteq> None \<or> hv_Config ?vb \<noteq> None"
    by code_simp+
  note m = merged_review_no_weaker [OF u b r]
  have "rp = (case ResolveHitlReview (Some ?p) ''tool.fs.read'' of Inr x \<Rightarrow> x)" by (simp add: r)
  moreover have "case ResolveHitlReview (Some ?p) ''tool.fs.read'' of Inr x \<Rightarrow> editDenied x ''a''" by code_simp
  ultimately have "editDenied rp ''a''" by (simp add: r)
  moreover have "topLevelKey ''a'' \<noteq> []" by code_simp
  ultimately have "editDenied rv ''a''" using m by blast
  moreover have "set (rv_AllowedDecisions rv) \<subseteq> {HitlEdit}"
    using m by (auto simp: demo_interrupt_def effectiveDecisions_def)
  ultimately show ?thesis using r(3) by blast
qed

text \<open>
  The merge is not monotone when only one side configures review for a tool: a caller
  that offers only \<open>edit\<close> and a callee without a \<open>hitl\<close> block, whose reviews offer approve
  and reject, merge into a review that offers \<open>edit\<close>, which the callee never permits.
\<close>

lemma merge_widens_unconfigured_side:
  "\<exists>p q rq rv. ResolveHitlReview (Some q) ''tool.fs.read'' = Inr rq \<and> HitlEdit \<notin> set (rv_AllowedDecisions rq)
     \<and> ResolveHitlReview (mergeStricterPolicySpec (Some p) (Some q)) ''tool.fs.read'' = Inr rv
     \<and> HitlEdit \<in> set (rv_AllowedDecisions rv)"
proof -
  let ?p = "demo_hitl_policy (demo_interrupt [HitlEdit] [])"
  have u: "ParseUses ''tool.fs.read'' = Inr (''fs'', ''read'')" by code_simp
  obtain rq rv where r: "ResolveHitlReview (Some zero_policy) ''tool.fs.read'' = Inr rq"
    "ResolveHitlReview (mergeStricterPolicySpec (Some ?p) (Some zero_policy)) ''tool.fs.read'' = Inr rv"
    by (simp add: ResolveHitlReview_def u Let_def)
  have "case ResolveHitlReview (Some zero_policy) ''tool.fs.read'' of
      Inr x \<Rightarrow> HitlEdit \<notin> set (rv_AllowedDecisions x)" by code_simp
  moreover have "case ResolveHitlReview (mergeStricterPolicySpec (Some ?p) (Some zero_policy)) ''tool.fs.read'' of
      Inr x \<Rightarrow> HitlEdit \<in> set (rv_AllowedDecisions x)" by code_simp
  ultimately show ?thesis using r by (metis sum.case(2))
qed

end
