(* ===== verification/Audit_Chain.thy ===== *)
theory Audit_Chain
  imports Go_Json Go_Sha256
begin

text \<open>
  The tamper-evident trace: \<open>internal/audit\<close> (\<open>chain.go\<close>, \<open>verify.go\<close>), the event of
  \<open>internal/state/models.go\<close> and \<open>AppendTraceEvent\<close> / \<open>ListTraceEventsByRunID\<close> of
  \<open>internal/state/sqlite/runtime.go\<close>. The locale \<open>hash_chain\<close> states what the chain needs
  of its encoding and proves that the newest hash binds the whole history; it is interpreted
  on the canonical event encoding and SHA-256.
\<close>

subsection \<open>What a hash chain gives\<close>

fun chainTip :: "(string \<Rightarrow> string) \<Rightarrow> ('e \<Rightarrow> string) \<Rightarrow> string \<Rightarrow> 'e list \<Rightarrow> string" where
  "chainTip hash enc p [] = p"
| "chainTip hash enc p (e # es) = chainTip hash enc (hash (enc e @ p)) es"

fun chainInputs :: "(string \<Rightarrow> string) \<Rightarrow> ('e \<Rightarrow> string) \<Rightarrow> string \<Rightarrow> 'e list \<Rightarrow> string list" where
  "chainInputs hash enc p [] = []"
| "chainInputs hash enc p (e # es) = (enc e @ p) # chainInputs hash enc (hash (enc e @ p)) es"

lemma chainTip_snoc: "chainTip hash enc p (es @ [e]) = hash (enc e @ chainTip hash enc p es)"
  by (induction es arbitrary: p) simp_all

lemma chainInputs_snoc:
  "chainInputs hash enc p (es @ [e]) = chainInputs hash enc p es @ [enc e @ chainTip hash enc p es]"
  by (induction es arbitrary: p) simp_all

locale hash_chain =
  fixes hash :: "string \<Rightarrow> string"
    and enc :: "'e \<Rightarrow> string"
    and content :: "'e \<Rightarrow> 'c"
    and seed :: string
  assumes enc_prefix_free: "enc a @ p = enc b @ q \<Longrightarrow> content a = content b \<and> p = q"
    and seed_apart: "enc a @ p \<noteq> seed"
begin

abbreviation tip :: "'e list \<Rightarrow> string" where
  "tip es \<equiv> chainTip hash enc (hash seed) es"

abbreviation hashed :: "'e list \<Rightarrow> string set" where
  "hashed es \<equiv> insert seed (set (chainInputs hash enc (hash seed) es))"

text \<open>
  Two histories with the same newest hash have the same content, unless two different inputs
  that were hashed on the way collide.
\<close>

lemma tip_binds:
  "tip es = tip fs \<Longrightarrow>
     map content es = map content fs \<or> (\<exists>a \<in> hashed es. \<exists>b \<in> hashed fs. a \<noteq> b \<and> hash a = hash b)"
proof (induction es arbitrary: fs rule: rev_induct)
  case Nil
  show ?case
  proof (cases fs rule: rev_cases)
    case (snoc fs' f)
    with Nil show ?thesis using seed_apart [of f "tip fs'"]
      by (auto simp: chainTip_snoc chainInputs_snoc)
  qed simp
next
  case (snoc e es)
  show ?case
  proof (cases fs rule: rev_cases)
    case Nil
    with snoc.prems show ?thesis using seed_apart [of e "tip es"]
      by (auto simp: chainTip_snoc chainInputs_snoc)
  next
    case (snoc fs' f)
    show ?thesis
    proof (cases "enc e @ tip es = enc f @ tip fs'")
      case True
      with enc_prefix_free have "content e = content f" "tip es = tip fs'" by blast+
      with snoc.IH [of fs'] snoc show ?thesis by (auto simp: chainInputs_snoc)
    next
      case False
      with snoc.prems snoc show ?thesis by (auto simp: chainTip_snoc chainInputs_snoc)
    qed
  qed
qed

end

subsection \<open>Events\<close>

record trace_event =
  te_RunID :: string
  te_Seq :: int
  te_Timestamp :: utc_time
  te_Type :: string
  te_ActorType :: string
  te_StepID :: string
  te_DataJSON :: string
  te_TenantID :: string
  te_ThreadID :: string
  te_ActorID :: string
  te_PrevHash :: string
  te_Hash :: string

definition genesisPrefix :: string where
  "genesisPrefix = ''terfyn-audit-genesis-v1:''"

definition GenesisHash :: "string \<Rightarrow> string" where
  "GenesisHash runID = hashHex (genesisPrefix @ runID)"

definition field :: "string \<Rightarrow> string \<Rightarrow> string" where
  "field k v = jsonQuote k @ '':'' @ v"

definition auditData :: "trace_event \<Rightarrow> string" where
  "auditData e = (if te_DataJSON e = [] then ''{}'' else te_DataJSON e)"

text \<open>
  \<open>json.Marshal\<close> of the struct \<open>auditCanonicalEvent\<close>; on strings and an \<open>int64\<close> it cannot
  fail, so the error results of the source are dropped.
\<close>

definition CanonicalEventBytes :: "trace_event \<Rightarrow> string" where
  "CanonicalEventBytes e =
     ''{'' @ field ''run_id'' (jsonQuote (te_RunID e))
     @ '','' @ field ''seq'' (showInt (te_Seq e))
     @ '','' @ field ''timestamp'' (jsonQuote (RFC3339Nano (te_Timestamp e)))
     @ '','' @ field ''type'' (jsonQuote (te_Type e))
     @ '','' @ field ''actor_type'' (jsonQuote (te_ActorType e))
     @ '','' @ field ''step_id'' (jsonQuote (te_StepID e))
     @ '','' @ field ''tenant_id'' (jsonQuote (te_TenantID e))
     @ '','' @ field ''thread_id'' (jsonQuote (te_ThreadID e))
     @ '','' @ field ''actor_id'' (jsonQuote (te_ActorID e))
     @ '','' @ field ''data_json'' (jsonQuote (auditData e)) @ ''}''"

definition EventHash :: "trace_event \<Rightarrow> string \<Rightarrow> string" where
  "EventHash e prevHash = hashHex (CanonicalEventBytes e @ prevHash)"

definition PrevHashForChainTip :: "string \<Rightarrow> string \<Rightarrow> string" where
  "PrevHashForChainTip runID lastChainedHash =
     (if lastChainedHash \<noteq> [] then lastChainedHash else GenesisHash runID)"

text \<open>The scan from the newest row down; \<open>prior\<close> is in ascending order.\<close>

definition PrevHashForAppend :: "string \<Rightarrow> trace_event list \<Rightarrow> string" where
  "PrevHashForAppend runID prior =
     (case find (\<lambda>e. te_Hash e \<noteq> []) (rev prior) of
        Some e \<Rightarrow> te_Hash e
      | None \<Rightarrow> GenesisHash runID)"

text \<open>What the hash covers of an event: its audited columns, as JSON keeps them.\<close>

definition auditContent ::
  "trace_event \<Rightarrow> string \<times> int \<times> string \<times> string \<times> string \<times> string \<times> string \<times> string \<times> string \<times> string" where
  "auditContent e =
     (toValid (te_RunID e), te_Seq e, toValid (RFC3339Nano (te_Timestamp e)), toValid (te_Type e),
      toValid (te_ActorType e), toValid (te_StepID e), toValid (te_TenantID e),
      toValid (te_ThreadID e), toValid (te_ActorID e), toValid (auditData e))"

lemma string_field_inject:
  "field k (jsonQuote a) @ r = field k (jsonQuote b) @ t \<Longrightarrow> toValid a = toValid b \<and> r = t"
  using jsonQuote_inject [of a r b t] by (simp add: field_def)

lemma string_seg_inject:
  "'','' @ field k (jsonQuote a) @ r = '','' @ field k (jsonQuote b) @ t \<Longrightarrow> toValid a = toValid b \<and> r = t"
  using string_field_inject [of k a r b t] by simp

lemma int_seg_inject:
  "'','' @ field k (showInt i) @ '','' @ r = '','' @ field k (showInt j) @ '','' @ t \<Longrightarrow>
     i = j \<and> '','' @ r = '','' @ t"
  using separated_inject [of "showInt i" "CHR '',''" r "showInt j" t]
  by (simp add: field_def showInt_no_comma showInt_inject)

lemma CanonicalEventBytes_inject:
  assumes "CanonicalEventBytes a @ p = CanonicalEventBytes b @ q"
  shows "auditContent a = auditContent b \<and> p = q"
proof -
  note run = assms [unfolded CanonicalEventBytes_def append_assoc same_append_eq, THEN string_field_inject]
  note sq = run [THEN conjunct2, THEN int_seg_inject]
  note tm = sq [THEN conjunct2, THEN string_seg_inject]
  note ty = tm [THEN conjunct2, THEN string_seg_inject]
  note at = ty [THEN conjunct2, THEN string_seg_inject]
  note st = at [THEN conjunct2, THEN string_seg_inject]
  note tn = st [THEN conjunct2, THEN string_seg_inject]
  note th = tn [THEN conjunct2, THEN string_seg_inject]
  note ac = th [THEN conjunct2, THEN string_seg_inject]
  note dj = ac [THEN conjunct2, THEN string_seg_inject]
  show ?thesis
    using run sq tm ty at st tn th ac dj by (simp only: auditContent_def prod.inject same_append_eq)
qed

lemma CanonicalEventBytes_brace: "CanonicalEventBytes e @ p \<noteq> genesisPrefix @ run"
  by (simp add: CanonicalEventBytes_def genesisPrefix_def)

interpretation audit: hash_chain hashHex CanonicalEventBytes auditContent "genesisPrefix @ run" for run
  by unfold_locales (rule CanonicalEventBytes_inject, assumption, rule CanonicalEventBytes_brace)

subsection \<open>Verification\<close>

record verify_run_result =
  vr_RunID :: string
  vr_Total :: nat
  vr_Chained :: nat
  vr_Unchained :: nat
  vr_BrokenSeq :: int
  vr_BrokenField :: string

definition Ok :: "verify_run_result \<Rightarrow> bool" where
  "Ok r \<longleftrightarrow> vr_BrokenSeq r = 0"

definition broken :: "verify_run_result \<Rightarrow> trace_event \<Rightarrow> string \<Rightarrow> verify_run_result" where
  "broken res e f = res\<lparr>vr_BrokenSeq := te_Seq e, vr_BrokenField := f\<rparr>"

text \<open>
  The loop of \<open>VerifyRunChain\<close>; its variables are the result so far and the hash of the last
  chained row. The branch \<open>hash_compute\<close> of the source needs a failing encoder and cannot
  be reached.
\<close>

fun verifyLoop :: "string \<Rightarrow> verify_run_result \<Rightarrow> string \<Rightarrow> trace_event list \<Rightarrow> verify_run_result" where
  "verifyLoop runID res lastChainedHash [] = res"
| "verifyLoop runID res lastChainedHash (e # es) =
     (if te_Hash e = [] \<and> te_PrevHash e = [] then
        (if 0 < vr_Chained res then broken res e ''unchained_insertion''
         else verifyLoop runID (res\<lparr>vr_Unchained := Suc (vr_Unchained res)\<rparr>) lastChainedHash es)
      else if te_Hash e = [] \<or> te_PrevHash e = [] then broken res e ''partial_chain''
      else
        let res' = res\<lparr>vr_Chained := Suc (vr_Chained res)\<rparr>;
            expectedPrev = (if lastChainedHash \<noteq> [] then lastChainedHash else GenesisHash runID)
        in if te_PrevHash e \<noteq> expectedPrev then broken res' e ''prev_hash''
           else if EventHash e (te_PrevHash e) \<noteq> te_Hash e then broken res' e ''hash''
           else verifyLoop runID res' (te_Hash e) es)"

definition VerifyRunChain :: "string \<Rightarrow> trace_event list \<Rightarrow> verify_run_result" where
  "VerifyRunChain runID events =
     verifyLoop runID \<lparr>vr_RunID = runID, vr_Total = length events, vr_Chained = 0, vr_Unchained = 0,
       vr_BrokenSeq = 0, vr_BrokenField = []\<rparr> [] events"

text \<open>The specification: rows without hashes first, then a linked chain from the genesis hash.\<close>

definition unchainedRow :: "trace_event \<Rightarrow> bool" where
  "unchainedRow e \<longleftrightarrow> te_Hash e = [] \<and> te_PrevHash e = []"

fun linked :: "string \<Rightarrow> trace_event list \<Rightarrow> bool" where
  "linked p [] = True"
| "linked p (e # es) = (te_PrevHash e = p \<and> te_Hash e = EventHash e p \<and> linked (te_Hash e) es)"

lemma EventHash_nonempty [simp]:
  "EventHash e p \<noteq> []" "[] \<noteq> EventHash e p" "GenesisHash run \<noteq> []" "[] \<noteq> GenesisHash run"
  using hashHex_nonempty by (simp_all add: EventHash_def GenesisHash_def not_sym)

lemma verifyLoop_linked:
  "0 < vr_Chained res \<Longrightarrow> h \<noteq> [] \<Longrightarrow> vr_BrokenField res = [] \<Longrightarrow>
     vr_BrokenField (verifyLoop run res h es) = [] \<longleftrightarrow> linked h es"
proof (induction es arbitrary: res h)
  case (Cons e es)
  show ?case
  proof (cases "te_Hash e = [] \<or> te_PrevHash e = []")
    case True
    with Cons.prems show ?thesis by (auto simp: broken_def)
  next
    case False
    with Cons show ?thesis by (auto simp: broken_def Let_def)
  qed
qed simp

lemma verifyLoop_prefix:
  "vr_Chained res = 0 \<Longrightarrow> vr_BrokenField res = [] \<Longrightarrow>
     vr_BrokenField (verifyLoop run res [] es) = [] \<longleftrightarrow>
     linked (GenesisHash run) (dropWhile unchainedRow es)"
proof (induction es arbitrary: res)
  case (Cons e es)
  show ?case
  proof (cases "te_Hash e = [] \<or> te_PrevHash e = []")
    case True
    with Cons show ?thesis by (auto simp: broken_def unchainedRow_def)
  next
    case False
    with Cons.prems show ?thesis
      by (auto simp: broken_def Let_def unchainedRow_def verifyLoop_linked)
  qed
qed simp

lemma VerifyRunChain_iff:
  "vr_BrokenField (VerifyRunChain run es) = [] \<longleftrightarrow>
     linked (GenesisHash run) (dropWhile unchainedRow es)"
  by (simp add: VerifyRunChain_def verifyLoop_prefix)

lemma verifyLoop_seq:
  "vr_BrokenField res = [] \<Longrightarrow> vr_BrokenSeq res = 0 \<Longrightarrow> \<forall>e \<in> set es. te_Seq e \<noteq> 0 \<Longrightarrow>
     vr_BrokenSeq (verifyLoop run res h es) = 0 \<longleftrightarrow> vr_BrokenField (verifyLoop run res h es) = []"
  by (induction es arbitrary: res h) (simp_all add: broken_def Let_def)

lemma VerifyRunChain_Ok:
  "\<forall>e \<in> set es. te_Seq e \<noteq> 0 \<Longrightarrow>
     Ok (VerifyRunChain run es) \<longleftrightarrow> linked (GenesisHash run) (dropWhile unchainedRow es)"
  by (simp add: Ok_def VerifyRunChain_iff [symmetric] VerifyRunChain_def verifyLoop_seq)

lemma linked_snoc:
  "linked p (es @ [e]) \<longleftrightarrow> linked p es \<and> te_PrevHash e = chainTip hashHex CanonicalEventBytes p es
     \<and> te_Hash e = EventHash e (te_PrevHash e)"
proof (induction es arbitrary: p)
  case (Cons a es)
  then show ?case by (simp add: EventHash_def) metis
qed (simp, metis)

lemma linked_tip:
  "linked p es \<Longrightarrow> es \<noteq> [] \<Longrightarrow> te_Hash (last es) = chainTip hashHex CanonicalEventBytes p es"
  by (induction es arbitrary: p) (auto simp: EventHash_def)

lemma linked_hashes: "linked p es \<Longrightarrow> e \<in> set es \<Longrightarrow> te_Hash e \<noteq> []"
  by (induction es arbitrary: p) auto

subsection \<open>The trace store\<close>

text \<open>
  The tables \<open>runs\<close> (its attribution columns) and \<open>trace_events\<close>. A committed transaction is
  one step; the driver's own failures are outside the model. The only failing query is the
  one for the run's attribution (\<open>sql.ErrNoRows\<close>).
\<close>

record attribution =
  at_TenantID :: string
  at_ThreadID :: string
  at_ActorID :: string

record trace_store =
  sto_runs :: "attribution gomap"
  sto_events :: "trace_event list"

definition TraceActorTypeAgent :: string where
  "TraceActorTypeAgent = ''agent''"

definition rowsOf :: "trace_store \<Rightarrow> string \<Rightarrow> trace_event list" where
  "rowsOf db runID = filter (\<lambda>e. te_RunID e = runID) (sto_events db)"

text \<open>\<open>ListTraceEventsByRunID\<close>: \<open>ORDER BY seq ASC\<close>.\<close>

definition ListTraceEventsByRunID :: "trace_store \<Rightarrow> string \<Rightarrow> trace_event list" where
  "ListTraceEventsByRunID db runID = sort_key te_Seq (rowsOf db runID)"

text \<open>\<open>SELECT IFNULL(MAX(seq), 0) + 1\<close>.\<close>

definition nextSeq :: "trace_event list \<Rightarrow> int" where
  "nextSeq rows = (if rows = [] then 0 else Max (set (map te_Seq rows))) + 1"

text \<open>\<open>SELECT hash \<dots> AND hash != '' ORDER BY seq DESC LIMIT 1\<close>; no row reads as \<open>""\<close>.\<close>

definition lastChained :: "trace_event list \<Rightarrow> string" where
  "lastChained rows =
     (case rev (sort_key te_Seq (filter (\<lambda>e. te_Hash e \<noteq> []) rows)) of
        [] \<Rightarrow> []
      | e # _ \<Rightarrow> te_Hash e)"

datatype store_error = ErrNoRows

definition newEvent ::
  "trace_store \<Rightarrow> attribution \<Rightarrow> string \<Rightarrow> utc_time \<Rightarrow> string \<Rightarrow> string \<Rightarrow> string \<Rightarrow> string \<Rightarrow> trace_event" where
  "newEvent db attr runID ts eventType actorType stepID dataJSON =
     \<lparr>te_RunID = runID, te_Seq = nextSeq (rowsOf db runID), te_Timestamp = ts, te_Type = eventType,
      te_ActorType = (if TrimSpace actorType = [] then TraceActorTypeAgent else actorType),
      te_StepID = stepID, te_DataJSON = (if dataJSON = [] then ''{}'' else dataJSON),
      te_TenantID = at_TenantID attr, te_ThreadID = at_ThreadID attr, te_ActorID = at_ActorID attr,
      te_PrevHash = [], te_Hash = []\<rparr>"

definition AppendTraceEvent ::
  "trace_store \<Rightarrow> string \<Rightarrow> utc_time \<Rightarrow> string \<Rightarrow> string \<Rightarrow> string \<Rightarrow> string
     \<Rightarrow> (store_error, int \<times> trace_store) result" where
  "AppendTraceEvent db runID ts eventType actorType stepID dataJSON =
     (case map_of (sto_runs db) runID of
        None \<Rightarrow> Inl ErrNoRows
      | Some attr \<Rightarrow>
          let event = newEvent db attr runID ts eventType actorType stepID dataJSON;
              prevHash = PrevHashForChainTip runID (lastChained (rowsOf db runID));
              row = event\<lparr>te_PrevHash := prevHash, te_Hash := EventHash event prevHash\<rparr>
          in Inr (te_Seq event, db\<lparr>sto_events := sto_events db @ [row]\<rparr>))"

lemma sort_key_snoc_greatest:
  "\<forall>x \<in> set xs. f x < f e \<Longrightarrow> sort_key f (xs @ [e]) = sort_key f xs @ [e]"
proof (induction xs)
  case (Cons x xs)
  have "f x < f e \<Longrightarrow> insort_key f x (ys @ [e]) = insort_key f x ys @ [e]" for ys
    by (induction ys) auto
  with Cons show ?case by simp
qed simp

lemma nextSeq_greatest: "e \<in> set rows \<Longrightarrow> te_Seq e < nextSeq rows"
  by (auto simp: nextSeq_def intro: le_imp_less_Suc)

lemma nextSeq_sorted: "nextSeq (sort_key f rows) = nextSeq rows"
proof -
  have "sort_key f rows = [] \<longleftrightarrow> rows = []" by (metis length_0_conv length_sort)
  then show ?thesis by (simp add: nextSeq_def)
qed

lemma nextSeq_pos: "\<forall>e \<in> set rows. 0 < te_Seq e \<Longrightarrow> 0 < nextSeq rows"
proof (cases "rows = []")
  case False
  moreover assume "\<forall>e \<in> set rows. 0 < te_Seq e"
  ultimately have "0 < te_Seq (hd rows)" "te_Seq (hd rows) < nextSeq rows"
    by (simp_all add: nextSeq_greatest)
  then show ?thesis by simp
qed (simp add: nextSeq_def)

lemma CanonicalEventBytes_hash_columns:
  "CanonicalEventBytes (e\<lparr>te_PrevHash := p, te_Hash := h\<rparr>) = CanonicalEventBytes e"
  by (simp add: CanonicalEventBytes_def auditData_def)

lemma EventHash_hash_columns [simp]:
  "EventHash (e\<lparr>te_PrevHash := p, te_Hash := h\<rparr>) q = EventHash e q"
  by (simp add: EventHash_def CanonicalEventBytes_hash_columns)

text \<open>An append adds one row at the end of its run and touches no other run.\<close>

lemma AppendTraceEvent_list:
  assumes "AppendTraceEvent db runID ts et act sid dj = Inr (seq, db')"
  obtains e where "ListTraceEventsByRunID db' runID = ListTraceEventsByRunID db runID @ [e]"
    "te_Seq e = seq" "seq = nextSeq (ListTraceEventsByRunID db runID)"
    "te_PrevHash e = PrevHashForChainTip runID (lastChained (rowsOf db runID))"
    "te_Hash e = EventHash e (te_PrevHash e)"
    "\<And>r. r \<noteq> runID \<Longrightarrow> ListTraceEventsByRunID db' r = ListTraceEventsByRunID db r"
    "\<And>x. x \<in> set (ListTraceEventsByRunID db runID) \<Longrightarrow> te_Seq x < seq"
proof -
  from assms obtain a where a: "map_of (sto_runs db) runID = Some a"
    by (auto simp: AppendTraceEvent_def split: option.splits)
  define ev where "ev = newEvent db a runID ts et act sid dj"
  define p where "p = PrevHashForChainTip runID (lastChained (rowsOf db runID))"
  define e where "e = ev\<lparr>te_PrevHash := p, te_Hash := EventHash ev p\<rparr>"
  have run: "te_RunID e = runID" "te_Seq e = nextSeq (rowsOf db runID)"
    by (simp_all add: e_def ev_def newEvent_def)
  have db': "sto_events db' = sto_events db @ [e]" and seq: "seq = te_Seq e"
    using assms a by (auto simp: AppendTraceEvent_def Let_def e_def ev_def p_def)
  have lt: "\<forall>x \<in> set (rowsOf db runID). te_Seq x < te_Seq e"
    using nextSeq_greatest by (simp add: run)
  show ?thesis
  proof
    show "ListTraceEventsByRunID db' runID = ListTraceEventsByRunID db runID @ [e]"
      using lt run db' by (simp add: ListTraceEventsByRunID_def rowsOf_def sort_key_snoc_greatest)
    show "\<And>r. r \<noteq> runID \<Longrightarrow> ListTraceEventsByRunID db' r = ListTraceEventsByRunID db r"
      using run db' by (simp add: ListTraceEventsByRunID_def rowsOf_def)
    show "seq = nextSeq (ListTraceEventsByRunID db runID)"
      by (simp add: seq run ListTraceEventsByRunID_def nextSeq_sorted)
  qed (use lt seq in \<open>simp_all add: ListTraceEventsByRunID_def e_def p_def\<close>)
qed

text \<open>The newest chained hash is the tip of a verified chain.\<close>

lemma filter_hashed_dropWhile:
  "filter (\<lambda>e. te_Hash e \<noteq> []) (dropWhile unchainedRow es) = filter (\<lambda>e. te_Hash e \<noteq> []) es"
  by (induction es) (auto simp: unchainedRow_def)

lemma lastChained_tip:
  assumes "linked (GenesisHash run) (dropWhile unchainedRow (ListTraceEventsByRunID db run))"
  shows "PrevHashForChainTip run (lastChained (rowsOf db run)) =
    chainTip hashHex CanonicalEventBytes (GenesisHash run)
      (dropWhile unchainedRow (ListTraceEventsByRunID db run))"
proof -
  define cs where "cs = dropWhile unchainedRow (ListTraceEventsByRunID db run)"
  have "\<forall>e \<in> set cs. te_Hash e \<noteq> []" using assms linked_hashes unfolding cs_def by blast
  then have "sort_key te_Seq (filter (\<lambda>e. te_Hash e \<noteq> []) (rowsOf db run)) = cs"
    using filter_hashed_dropWhile [of "ListTraceEventsByRunID db run"]
    by (simp add: cs_def filter_sort [symmetric] ListTraceEventsByRunID_def)
  then have last: "lastChained (rowsOf db run) = (case rev cs of [] \<Rightarrow> [] | e # _ \<Rightarrow> te_Hash e)"
    by (simp add: lastChained_def)
  show ?thesis
  proof (cases cs rule: rev_cases)
    case Nil
    then show ?thesis using last by (simp add: PrevHashForChainTip_def flip: cs_def)
  next
    case (snoc cs' e)
    then have "lastChained (rowsOf db run) = te_Hash e" "te_Hash e \<noteq> []"
      using last assms linked_hashes [of _ cs e] by (simp_all add: cs_def)
    moreover have "te_Hash e = chainTip hashHex CanonicalEventBytes (GenesisHash run) cs"
      using linked_tip [of "GenesisHash run" cs] assms snoc by (simp flip: cs_def)
    ultimately show ?thesis by (simp add: PrevHashForChainTip_def cs_def)
  qed
qed

lemma dropWhile_snoc_stop: "\<not> P e \<Longrightarrow> dropWhile P (es @ [e]) = dropWhile P es @ [e]"
  by (induction es) auto

lemma AppendTraceEvent_linked:
  assumes "AppendTraceEvent db runID ts et act sid dj = Inr (seq, db')"
    and "linked (GenesisHash r) (dropWhile unchainedRow (ListTraceEventsByRunID db r))"
  shows "linked (GenesisHash r) (dropWhile unchainedRow (ListTraceEventsByRunID db' r))"
  using assms(1)
proof (rule AppendTraceEvent_list)
  fix e
  assume e: "ListTraceEventsByRunID db' runID = ListTraceEventsByRunID db runID @ [e]"
    "te_PrevHash e = PrevHashForChainTip runID (lastChained (rowsOf db runID))"
    "te_Hash e = EventHash e (te_PrevHash e)"
    and other: "\<And>r. r \<noteq> runID \<Longrightarrow> ListTraceEventsByRunID db' r = ListTraceEventsByRunID db r"
  have "\<not> unchainedRow e" using e(3) by (simp add: unchainedRow_def)
  then show ?thesis
    using assms(2) e other lastChained_tip [of r db]
    by (cases "r = runID") (simp_all add: dropWhile_snoc_stop linked_snoc)
qed

text \<open>The stores a program can reach from an empty trace by appending and creating runs.\<close>

inductive reachable_store :: "trace_store \<Rightarrow> bool" where
  init: "reachable_store \<lparr>sto_runs = runs, sto_events = []\<rparr>"
| new_run: "reachable_store db \<Longrightarrow> reachable_store (db\<lparr>sto_runs := put r a (sto_runs db)\<rparr>)"
| append: "reachable_store db \<Longrightarrow> AppendTraceEvent db r ts et act sid dj = Inr (seq, db') \<Longrightarrow>
    reachable_store db'"

lemma reachable_linked:
  "reachable_store db \<Longrightarrow>
     linked (GenesisHash r) (dropWhile unchainedRow (ListTraceEventsByRunID db r))"
proof (induction rule: reachable_store.induct)
  case (append db r ts et act sid dj seq db')
  then show ?case using AppendTraceEvent_linked by blast
qed (simp_all add: ListTraceEventsByRunID_def rowsOf_def)

lemma reachable_seq_pos:
  "reachable_store db \<Longrightarrow> \<forall>e \<in> set (ListTraceEventsByRunID db r). 0 < te_Seq e"
proof (induction arbitrary: r rule: reachable_store.induct)
  case (append db run ts et act sid dj seq db')
  from append(2) show ?case
  proof (rule AppendTraceEvent_list)
    fix e
    assume "ListTraceEventsByRunID db' run = ListTraceEventsByRunID db run @ [e]"
      "te_Seq e = seq" "seq = nextSeq (ListTraceEventsByRunID db run)"
      "\<And>r. r \<noteq> run \<Longrightarrow> ListTraceEventsByRunID db' r = ListTraceEventsByRunID db r"
    then show ?thesis
      using append.IH [of r] append.IH [of run] nextSeq_pos [of "ListTraceEventsByRunID db run"]
      by (cases "r = run") auto
  qed
qed (simp_all add: ListTraceEventsByRunID_def rowsOf_def)

lemma dropWhile_none: "\<forall>x \<in> set xs. \<not> P x \<Longrightarrow> dropWhile P xs = xs"
  by (cases xs) simp_all

lemma linked_not_unchained: "linked p es \<Longrightarrow> e \<in> set es \<Longrightarrow> \<not> unchainedRow e"
  using linked_hashes by (auto simp: unchainedRow_def)

subsection \<open>Properties\<close>

text \<open>
  C30. Verification succeeds exactly on well-formed chains: if no row has sequence number
  0, \<open>Ok\<close> holds if and only if the rows are a prefix without hashes followed by a chain
  that starts at the genesis hash and links every row to its predecessor.
\<close>

theorem verification_exact:
  assumes "\<forall>e \<in> set es. te_Seq e \<noteq> 0"
  shows "Ok (VerifyRunChain run es) \<longleftrightarrow> linked (GenesisHash run) (dropWhile unchainedRow es)"
  using assms by (rule VerifyRunChain_Ok)

definition demo_time :: utc_time where
  "demo_time = \<lparr>ut_Year = 2025, ut_Month = 3, ut_Day = 1, ut_Hour = 12, ut_Minute = 0, ut_Second = 0,
     ut_Nanosecond = 5000000\<rparr>"

definition demo_event :: trace_event where
  "demo_event = \<lparr>te_RunID = ''r1'', te_Seq = 1, te_Timestamp = demo_time, te_Type = ''run_started'',
     te_ActorType = ''agent'', te_StepID = [], te_DataJSON = ''{}'', te_TenantID = ''t'', te_ThreadID = ''h'',
     te_ActorID = ''a'', te_PrevHash = [], te_Hash = []\<rparr>"

definition demo_chained :: trace_event where
  "demo_chained = demo_event\<lparr>te_PrevHash := GenesisHash ''r1'',
     te_Hash := EventHash demo_event (GenesisHash ''r1'')\<rparr>"

lemma demo_chained_linked: "linked (GenesisHash ''r1'') [demo_chained]"
  by (simp add: demo_chained_def)

theorem verification_exact_witness:
  "Ok (VerifyRunChain ''r1'' [demo_chained])"
  using verification_exact [of "[demo_chained]" "''r1''"] demo_chained_linked
  by (simp add: demo_chained_def demo_event_def unchainedRow_def)

text \<open>
  C18. Every trace the store can reach by creating runs and appending events verifies, for
  every run: appends of other runs do not disturb a chain, and the sequence numbers stay
  positive.
\<close>

theorem recorded_traces_verify:
  assumes "reachable_store db"
  shows "Ok (VerifyRunChain run (ListTraceEventsByRunID db run))
    \<and> (\<forall>e \<in> set (ListTraceEventsByRunID db run). 0 < te_Seq e)"
proof -
  have pos: "\<forall>e \<in> set (ListTraceEventsByRunID db run). 0 < te_Seq e" using assms by (rule reachable_seq_pos)
  then have "\<forall>e \<in> set (ListTraceEventsByRunID db run). te_Seq e \<noteq> 0" by force
  then show ?thesis using VerifyRunChain_Ok reachable_linked [OF assms] pos by blast
qed

theorem recorded_traces_verify_witness:
  "\<exists>db. reachable_store db \<and> ListTraceEventsByRunID db ''r1'' \<noteq> []
     \<and> Ok (VerifyRunChain ''r1'' (ListTraceEventsByRunID db ''r1''))"
proof -
  let ?db = "\<lparr>sto_runs = [(''r1'', \<lparr>at_TenantID = ''t'', at_ThreadID = ''h'', at_ActorID = ''a''\<rparr>)], sto_events = []\<rparr>"
  obtain seq db where a: "AppendTraceEvent ?db ''r1'' demo_time ''run_started'' [] [] [] = Inr (seq, db)"
    by (simp add: AppendTraceEvent_def Let_def)
  then have r: "reachable_store db" by (rule reachable_store.append [OF reachable_store.init])
  have "ListTraceEventsByRunID db ''r1'' \<noteq> []" by (rule AppendTraceEvent_list [OF a]) simp
  with r recorded_traces_verify [OF r] show ?thesis by blast
qed

text \<open>
  C17. Tamper evidence: take two traces of a run that both pass \<open>Ok\<close> and have no row numbered 0 (at
  such a row \<open>Ok\<close> misreads a break). If they end in the same non-empty hash, their chained rows have
  the same audited content, row by row, unless two different inputs hashed for them are a collision of
  SHA-256. Whoever keeps the newest hash thus detects every change, insertion, removal and reordering
  of chained rows; rows without hashes in front of the chain are not covered.
\<close>

theorem newest_hash_binds_history:
  assumes "Ok (VerifyRunChain run es)" "Ok (VerifyRunChain run fs)"
    and "\<forall>e \<in> set es \<union> set fs. te_Seq e \<noteq> 0" "es \<noteq> []" "fs \<noteq> []"
    and "te_Hash (last es) = te_Hash (last fs)" "te_Hash (last es) \<noteq> []"
  shows "map auditContent (dropWhile unchainedRow es) = map auditContent (dropWhile unchainedRow fs) \<or>
    (\<exists>a \<in> insert (genesisPrefix @ run)
         (set (chainInputs hashHex CanonicalEventBytes (GenesisHash run) (dropWhile unchainedRow es))).
     \<exists>b \<in> insert (genesisPrefix @ run)
         (set (chainInputs hashHex CanonicalEventBytes (GenesisHash run) (dropWhile unchainedRow fs))).
       a \<noteq> b \<and> hashHex a = hashHex b)"
proof -
  have l: "linked (GenesisHash run) (dropWhile unchainedRow es)" "linked (GenesisHash run) (dropWhile unchainedRow fs)"
    using assms(1-3) VerifyRunChain_Ok by blast+
  have tip: "te_Hash (last xs) = chainTip hashHex CanonicalEventBytes (GenesisHash run) (dropWhile unchainedRow xs)"
    if "linked (GenesisHash run) (dropWhile unchainedRow xs)" "xs \<noteq> []" "te_Hash (last xs) \<noteq> []" for xs
  proof -
    have "\<not> unchainedRow (last xs)" using that(3) by (simp add: unchainedRow_def)
    then have ne: "dropWhile unchainedRow xs \<noteq> []" using that(2) by (auto simp: dropWhile_eq_Nil_conv)
    then have "last (dropWhile unchainedRow xs) = last xs"
      using takeWhile_dropWhile_id [of unchainedRow xs] by (metis last_appendR)
    then show ?thesis using linked_tip [OF that(1) ne] by simp
  qed
  have "chainTip hashHex CanonicalEventBytes (GenesisHash run) (dropWhile unchainedRow es) =
      chainTip hashHex CanonicalEventBytes (GenesisHash run) (dropWhile unchainedRow fs)"
    using tip [OF l(1)] tip [OF l(2)] assms(4-7) by simp
  then show ?thesis
    using audit.tip_binds [of run "dropWhile unchainedRow es" "dropWhile unchainedRow fs"] by (simp only: GenesisHash_def)
qed

text \<open>
  The recorded trace of a run, and one with a row from before the migration in front of it and the
  blank spelling of \<open>data_json\<close> in its last row.
\<close>

definition demo_respelled :: trace_event where
  "demo_respelled = demo_chained\<lparr>te_DataJSON := []\<rparr>"

theorem newest_hash_binds_history_witness:
  "map auditContent (dropWhile unchainedRow [demo_chained]) =
     map auditContent (dropWhile unchainedRow [demo_event, demo_respelled]) \<or>
    (\<exists>a \<in> insert (genesisPrefix @ ''r1'')
         (set (chainInputs hashHex CanonicalEventBytes (GenesisHash ''r1'') (dropWhile unchainedRow [demo_chained]))).
     \<exists>b \<in> insert (genesisPrefix @ ''r1'')
         (set (chainInputs hashHex CanonicalEventBytes (GenesisHash ''r1'')
           (dropWhile unchainedRow [demo_event, demo_respelled]))).
       a \<noteq> b \<and> hashHex a = hashHex b)"
proof (rule newest_hash_binds_history)
  have seq: "te_Seq demo_chained = 1" "te_Seq demo_event = 1" "te_Seq demo_respelled = 1"
    by (simp_all add: demo_respelled_def demo_chained_def demo_event_def)
  have bytes: "CanonicalEventBytes (demo_respelled) = CanonicalEventBytes demo_event"
    by (simp add: CanonicalEventBytes_def auditData_def demo_respelled_def demo_chained_def demo_event_def)
  show "Ok (VerifyRunChain ''r1'' [demo_chained])"
    using demo_chained_linked seq VerifyRunChain_Ok [of "[demo_chained]" "''r1''"]
    by (simp add: demo_chained_def unchainedRow_def)
  have "linked (GenesisHash ''r1'') [demo_respelled]"
    using bytes by (simp add: demo_respelled_def demo_chained_def EventHash_def)
  moreover have "dropWhile unchainedRow [demo_event, demo_respelled] = [demo_respelled]"
    by (simp add: unchainedRow_def demo_event_def demo_respelled_def demo_chained_def)
  ultimately show "Ok (VerifyRunChain ''r1'' [demo_event, demo_respelled])"
    using seq VerifyRunChain_Ok [of "[demo_event, demo_respelled]" "''r1''"] by simp
qed (simp_all add: demo_respelled_def demo_chained_def demo_event_def)

text \<open>
  C31. The canonical encoding is injective up to invalid UTF-8: two events with the same
  canonical bytes agree in every audited column, where offending bytes count as U+FFFD and
  a blank \<open>data_json\<close> as \<open>{}\<close>.
\<close>

theorem canonical_bytes_injective:
  assumes "CanonicalEventBytes a = CanonicalEventBytes b"
  shows "auditContent a = auditContent b"
  using CanonicalEventBytes_inject [of a "[]" b "[]"] assms by simp

theorem canonical_bytes_injective_witness:
  "auditContent demo_event = auditContent (demo_event\<lparr>te_DataJSON := []\<rparr>)"
  by (rule canonical_bytes_injective) (simp add: CanonicalEventBytes_def auditData_def demo_event_def)

text \<open>
  A broken row with sequence number 0 hides everything after it: verification stops there,
  records its number as the broken one, and \<open>Ok\<close> reads that 0 as \<open>no break\<close>. Here the row is the
  first one and lacks one of its hashes.
\<close>

lemma seq_zero_row_hides_tampering:
  "Ok (VerifyRunChain run (e\<lparr>te_Seq := 0, te_Hash := [], te_PrevHash := ''x''\<rparr> # es))
   \<and> vr_BrokenField (VerifyRunChain run (e\<lparr>te_Seq := 0, te_Hash := [], te_PrevHash := ''x''\<rparr> # es)) \<noteq> []"
  by (simp add: VerifyRunChain_def Ok_def broken_def)

text \<open>
  Removing the newest rows of a trace, or clearing both hash columns of all of its
  rows, goes undetected: what is left still verifies.
\<close>

theorem truncated_or_wiped_trace_verifies:
  assumes "Ok (VerifyRunChain run (es @ fs))" "\<forall>e \<in> set (es @ fs). te_Seq e \<noteq> 0"
  shows "Ok (VerifyRunChain run es)
    \<and> Ok (VerifyRunChain run (map (\<lambda>e. e\<lparr>te_PrevHash := [], te_Hash := []\<rparr>) (es @ fs)))"
proof
  have prefix: "linked p (xs @ ys) \<Longrightarrow> linked p xs" for p xs ys
    by (induction xs arbitrary: p) auto
  have "linked (GenesisHash run) (dropWhile unchainedRow (es @ fs))"
    using assms by (simp only: VerifyRunChain_Ok)
  then have "linked (GenesisHash run) (dropWhile unchainedRow es)"
  proof (cases "\<forall>x \<in> set es. unchainedRow x")
    case True
    then have "dropWhile unchainedRow es = []" by simp
    then show ?thesis by (simp only: linked.simps)
  qed (auto simp: dropWhile_append dest: prefix)
  then show "Ok (VerifyRunChain run es)" using assms(2) by (simp add: VerifyRunChain_Ok)
  let ?ws = "map (\<lambda>e. e\<lparr>te_PrevHash := [], te_Hash := []\<rparr>) (es @ fs)"
  have "\<forall>e \<in> set ?ws. te_Seq e \<noteq> 0" using assms(2) by auto
  moreover have "dropWhile unchainedRow ?ws = []" by (auto simp: dropWhile_eq_Nil_conv unchainedRow_def)
  ultimately show "Ok (VerifyRunChain run ?ws)" by (simp only: VerifyRunChain_Ok linked.simps)
qed

theorem truncated_or_wiped_trace_verifies_witness:
  "Ok (VerifyRunChain ''r1'' [])"
proof -
  have seq: "\<forall>e \<in> set ([] @ [demo_chained]). te_Seq e \<noteq> 0" by (simp add: demo_chained_def demo_event_def)
  then have "Ok (VerifyRunChain ''r1'' ([] @ [demo_chained]))"
    using demo_chained_linked by (simp add: VerifyRunChain_Ok demo_chained_def unchainedRow_def)
  from truncated_or_wiped_trace_verifies [OF this seq] show ?thesis by blast
qed

end
