(* ===== verification/Json_Num.thy ===== *)
theory Json_Num
  imports Spec_Types Go_Json
begin

text \<open>
  The canonical number model of runtime values (\<open>internal/jsonnum/jsonnum.go\<close>): decoding of
  JSON number literals, the canonical form of a dynamic value, and the checkpoint round trip
  (\<open>json.Marshal\<close>, then \<open>Unmarshal\<close>) it is a fixed point of.

  The binary64 text conversions of the standard library are arguments, bundled in
  \<open>go_text\<close>: \<open>gt_json\<close> is the spelling \<open>encoding/json\<close> gives a finite float, \<open>gt_parse\<close> is
  \<open>strconv.ParseFloat(s, 64)\<close> (\<open>None\<close> for its error), \<open>gt_g\<close> is \<open>FormatFloat(x, 'g', -1, 64)\<close>
  and \<open>gt_v\<close> is the \<open>%v\<close> verb.
\<close>

record go_text =
  gt_json :: "rat \<Rightarrow> string"
  gt_parse :: "string \<Rightarrow> float64 option"
  gt_g :: "float64 \<Rightarrow> string"
  gt_v :: "any \<Rightarrow> string"

subsection \<open>Number literals\<close>

text \<open>\<open>strconv.ParseInt(s, 10, 64)\<close>: a value, \<open>ErrRange\<close> or \<open>ErrSyntax\<close>.\<close>

datatype parse_int = ParsedInt int | IntRange | IntSyntax

definition int64 :: "int \<Rightarrow> bool" where
  "int64 i \<longleftrightarrow> - (2 ^ 63) \<le> i \<and> i < 2 ^ 63"

definition parseDigits :: "bool \<Rightarrow> string \<Rightarrow> parse_int" where
  "parseDigits neg s =
     (if s = [] \<or> \<not> list_all isDigit s then IntSyntax
      else let i = (if neg then - int (natOf s) else int (natOf s))
           in if int64 i then ParsedInt i else IntRange)"

fun ParseInt :: "string \<Rightarrow> parse_int" where
  "ParseInt [] = IntSyntax"
| "ParseInt (c # s) =
     (if c = CHR ''-'' then parseDigits True s
      else if c = CHR ''+'' then parseDigits False s
      else parseDigits False (c # s))"

datatype json_error = NoEncoding | BadNumber string | TooDeep

text \<open>\<open>math.Trunc\<close> on a finite value.\<close>

definition truncRat :: "rat \<Rightarrow> int" where
  "truncRat q = (if q < 0 then \<lceil>q\<rceil> else \<lfloor>q\<rfloor>)"

definition canonicalFloat :: "float64 \<Rightarrow> any" where
  "canonicalFloat f =
     (case f of
        Fin q \<Rightarrow>
          if q \<noteq> of_int (truncRat q) \<or> q \<le> - (2 ^ 63) \<or> q \<ge> 2 ^ 63 then AFloat f
          else AInt (truncRat q)
      | _ \<Rightarrow> AFloat f)"

definition FromNumber :: "go_text \<Rightarrow> string \<Rightarrow> (json_error, any) result" where
  "FromNumber T s =
     (case ParseInt s of
        ParsedInt i \<Rightarrow> Inr (AInt i)
      | IntRange \<Rightarrow> (case gt_parse T s of None \<Rightarrow> Inl (BadNumber s) | Some f \<Rightarrow> Inr (AFloat f))
      | IntSyntax \<Rightarrow> (case gt_parse T s of None \<Rightarrow> Inl (BadNumber s) | Some f \<Rightarrow> Inr (canonicalFloat f)))"

subsection \<open>The checkpoint round trip\<close>

definition encodingJSONMaxDepth :: nat where
  "encodingJSONMaxDepth = 10000"

definition checkpointEnvelopeReserve :: nat where
  "checkpointEnvelopeReserve = 1000"

definition MaxDepth :: nat where
  "MaxDepth = encodingJSONMaxDepth - checkpointEnvelopeReserve"

fun nesting :: "any \<Rightarrow> nat" and nestingList :: "any list \<Rightarrow> nat"
  and nestingFields :: "(string \<times> any) list \<Rightarrow> nat" where
  "nesting (AObj m) = nestingFields m + 1"
| "nesting (AArr xs) = nestingList xs + 1"
| "nesting v = 0"
| "nestingList [] = 0"
| "nestingList (x # xs) = max (nesting x) (nestingList xs)"
| "nestingFields [] = 0"
| "nestingFields ((k, x) # m) = max (nesting x) (nestingFields m)"

text \<open>
  What decoding with \<open>UseNumber\<close> and \<open>canonicalDecoded\<close> returns on the encoding of a value:
  strings and keys with invalid UTF-8 replaced, members in key order with the last of equal
  keys kept, numbers read back by \<open>FromNumber\<close> from their spelling. \<open>NoEncoding\<close> is
  \<open>json.Marshal\<close>'s error on NaN and the infinities.
\<close>

fun decoded :: "go_text \<Rightarrow> any \<Rightarrow> (json_error, any) result"
  and decodedList :: "go_text \<Rightarrow> any list \<Rightarrow> (json_error, any list) result"
  and decodedFields :: "go_text \<Rightarrow> (string \<times> any) list \<Rightarrow> (json_error, (string \<times> any) list) result" where
  "decoded T ANil = Inr ANil"
| "decoded T (ABool b) = Inr (ABool b)"
| "decoded T (AInt i) = FromNumber T (showInt i)"
| "decoded T (AFloat x) = (case x of Fin q \<Rightarrow> FromNumber T (gt_json T q) | _ \<Rightarrow> Inl NoEncoding)"
| "decoded T (AStr s) = Inr (AStr (toValid s))"
| "decoded T (AArr xs) = (case decodedList T xs of Inl e \<Rightarrow> Inl e | Inr ys \<Rightarrow> Inr (AArr ys))"
| "decoded T (AObj m) =
     (case decodedFields T m of
        Inl e \<Rightarrow> Inl e
      | Inr fs \<Rightarrow> Inr (AObj (fold (\<lambda>(k, x). put (toValid k) x) (sort_key fst fs) [])))"
| "decodedList T [] = Inr []"
| "decodedList T (x # xs) =
     (case decoded T x of
        Inl e \<Rightarrow> Inl e
      | Inr y \<Rightarrow> (case decodedList T xs of Inl e \<Rightarrow> Inl e | Inr ys \<Rightarrow> Inr (y # ys)))"
| "decodedFields T [] = Inr []"
| "decodedFields T ((k, x) # m) =
     (case decoded T x of
        Inl e \<Rightarrow> Inl e
      | Inr y \<Rightarrow> (case decodedFields T m of Inl e \<Rightarrow> Inl e | Inr fs \<Rightarrow> Inr ((k, y) # fs)))"

definition roundTrip :: "go_text \<Rightarrow> any \<Rightarrow> nat \<Rightarrow> (json_error, any) result" where
  "roundTrip T v depth =
     (case marshal (gt_json T) v of
        None \<Rightarrow> Inl NoEncoding
      | Some b \<Rightarrow>
          if nesting v > encodingJSONMaxDepth then Inl TooDeep
          else case decoded T v of
            Inl e \<Rightarrow> Inl e
          | Inr out \<Rightarrow>
              if length b > 2 * (MaxDepth - depth) \<and> nesting out > MaxDepth - depth
              then Inl TooDeep else Inr out)"

subsection \<open>The canonical form\<close>

text \<open>
  \<open>canonicalFields\<close> is the loop over a map's entries; \<open>Inl None\<close> is its early exit on a key
  with invalid UTF-8, after which the whole map takes the round trip.
\<close>

fun canonical :: "go_text \<Rightarrow> any \<Rightarrow> nat \<Rightarrow> (json_error, any) result"
  and canonicalList :: "go_text \<Rightarrow> any list \<Rightarrow> nat \<Rightarrow> (json_error, any list) result"
  and canonicalFields ::
    "go_text \<Rightarrow> (string \<times> any) list \<Rightarrow> nat \<Rightarrow> (json_error option, (string \<times> any) list) result" where
  "canonical T ANil depth = Inr ANil"
| "canonical T (ABool b) depth = Inr (ABool b)"
| "canonical T (AStr s) depth =
     (if validUtf8 s then Inr (AStr s) else roundTrip T (AStr s) depth)"
| "canonical T (AInt i) depth = Inr (AInt i)"
| "canonical T (AFloat x) depth =
     (case x of Fin q \<Rightarrow> Inr (canonicalFloat x) | _ \<Rightarrow> roundTrip T (AFloat x) depth)"
| "canonical T (AObj m) depth =
     (if depth \<ge> MaxDepth then Inl TooDeep
      else case canonicalFields T m (depth + 1) of
        Inl None \<Rightarrow> roundTrip T (AObj m) depth
      | Inl (Some e) \<Rightarrow> Inl e
      | Inr fs \<Rightarrow> Inr (AObj fs))"
| "canonical T (AArr xs) depth =
     (if depth \<ge> MaxDepth then Inl TooDeep
      else case canonicalList T xs (depth + 1) of Inl e \<Rightarrow> Inl e | Inr ys \<Rightarrow> Inr (AArr ys))"
| "canonicalList T [] depth = Inr []"
| "canonicalList T (x # xs) depth =
     (case canonical T x depth of
        Inl e \<Rightarrow> Inl e
      | Inr y \<Rightarrow> (case canonicalList T xs depth of Inl e \<Rightarrow> Inl e | Inr ys \<Rightarrow> Inr (y # ys)))"
| "canonicalFields T [] depth = Inr []"
| "canonicalFields T ((k, x) # m) depth =
     (if \<not> validUtf8 k then Inl None
      else case canonical T x depth of
        Inl e \<Rightarrow> Inl (Some e)
      | Inr y \<Rightarrow> (case canonicalFields T m depth of Inl e \<Rightarrow> Inl e | Inr fs \<Rightarrow> Inr ((k, y) # fs)))"

definition Canonical :: "go_text \<Rightarrow> any \<Rightarrow> (json_error, any) result" where
  "Canonical T v = canonical T v 0"

definition CanonicalMap :: "go_text \<Rightarrow> any gomap option \<Rightarrow> (json_error, any gomap option) result" where
  "CanonicalMap T mo =
     (case mo of
        None \<Rightarrow> Inr None
      | Some m \<Rightarrow>
          (case Canonical T (AObj m) of
             Inl e \<Rightarrow> Inl e
           | Inr (AObj c) \<Rightarrow> Inr (Some c)
           | Inr _ \<Rightarrow> Inr None))"


subsection \<open>Canonical values\<close>

text \<open>
  \<open>rep\<close> tells which rationals are binary64 values. A float that the canonical form keeps as a
  float is fractional or outside the open \<open>int64\<close> interval.
\<close>

definition stays :: "rat \<Rightarrow> bool" where
  "stays q \<longleftrightarrow> canonicalFloat (Fin q) = AFloat (Fin q)"

text \<open>
  What the round trip relies on in the standard library: \<open>ParseFloat\<close> reads back the shortest
  spelling, a float that stays a float is not spelled as an \<open>int64\<close>, and a spelling out of
  the range of \<open>int64\<close> belongs to a float out of that range.
\<close>

definition text_laws :: "go_text \<Rightarrow> (rat \<Rightarrow> bool) \<Rightarrow> bool" where
  "text_laws T rep \<longleftrightarrow>
     (\<forall>q. rep q \<longrightarrow>
        gt_parse T (gt_json T q) = Some (Fin q) \<and>
        (stays q \<longrightarrow> (\<forall>i. ParseInt (gt_json T q) \<noteq> ParsedInt i)) \<and>
        (ParseInt (gt_json T q) = IntRange \<longrightarrow> stays q))"

fun wfAny :: "(rat \<Rightarrow> bool) \<Rightarrow> any \<Rightarrow> bool" and wfList :: "(rat \<Rightarrow> bool) \<Rightarrow> any list \<Rightarrow> bool"
  and wfFields :: "(rat \<Rightarrow> bool) \<Rightarrow> (string \<times> any) list \<Rightarrow> bool" where
  "wfAny rep (AInt i) = int64 i"
| "wfAny rep (AFloat f) = (case f of Fin q \<Rightarrow> rep q | _ \<Rightarrow> True)"
| "wfAny rep (AArr xs) = wfList rep xs"
| "wfAny rep (AObj m) = (wf_map m \<and> wfFields rep m)"
| "wfAny rep v = True"
| "wfList rep [] = True"
| "wfList rep (x # xs) = (wfAny rep x \<and> wfList rep xs)"
| "wfFields rep [] = True"
| "wfFields rep ((k, x) # m) = (wfAny rep x \<and> wfFields rep m)"

fun canon :: "(rat \<Rightarrow> bool) \<Rightarrow> any \<Rightarrow> bool" and canonList :: "(rat \<Rightarrow> bool) \<Rightarrow> any list \<Rightarrow> bool"
  and canonFields :: "(rat \<Rightarrow> bool) \<Rightarrow> (string \<times> any) list \<Rightarrow> bool" where
  "canon rep (AInt i) = int64 i"
| "canon rep (AFloat f) = (case f of Fin q \<Rightarrow> rep q \<and> stays q | _ \<Rightarrow> False)"
| "canon rep (AStr s) = validUtf8 s"
| "canon rep (AArr xs) = canonList rep xs"
| "canon rep (AObj m) = (wf_map m \<and> canonFields rep m)"
| "canon rep v = True"
| "canonList rep [] = True"
| "canonList rep (x # xs) = (canon rep x \<and> canonList rep xs)"
| "canonFields rep [] = True"
| "canonFields rep ((k, x) # m) = (validUtf8 k \<and> canon rep x \<and> canonFields rep m)"

lemma canonFields_iff: "canonFields rep m \<longleftrightarrow> (\<forall>(k, x) \<in> set m. validUtf8 k \<and> canon rep x)"
  by (induction m) auto

lemma nestingFields_le: "nestingFields m \<le> n \<longleftrightarrow> (\<forall>(k, x) \<in> set m. nesting x \<le> n)"
  by (induction m) auto

lemma canonicalFloat_canon: "rep q \<Longrightarrow> canon rep (canonicalFloat (Fin q))"
proof -
  assume rep: "rep q"
  show ?thesis
  proof (cases "q \<noteq> of_int (truncRat q) \<or> q \<le> - (2 ^ 63) \<or> q \<ge> 2 ^ 63")
    case True
    then have "canonicalFloat (Fin q) = AFloat (Fin q)" by (simp add: canonicalFloat_def)
    then show ?thesis using rep by (simp add: stays_def)
  next
    case False
    then have "q = rat_of_int (truncRat q)" "- (2 ^ 63) < q" "q < 2 ^ 63" by auto
    then have "rat_of_int (- (2 ^ 63)) < rat_of_int (truncRat q)"
      "rat_of_int (truncRat q) < rat_of_int (2 ^ 63)" by simp_all
    then have "int64 (truncRat q)" unfolding of_int_less_iff int64_def by simp
    then show ?thesis using False by (simp add: canonicalFloat_def)
  qed
qed

lemma validUtf8_runeError: "validUtf8 (runeError @ s) = validUtf8 s"
  unfolding validUtf8.simps [of "runeError @ s"]
  by (simp add: runeError_def between_def contBytes_def)

lemma runeSize_take: "runeSize s = Some n \<Longrightarrow> runeSize (take n s @ t) = Some n"
  by (cases s) (auto simp: Let_def split: if_splits list.splits)

lemma validUtf8_toValid: "validUtf8 (toValid s)"
proof (induction s rule: toValid.induct)
  case (1 s)
  show ?case
  proof (cases "runeSize s")
    case None
    show ?thesis
    proof (cases s)
      case Nil
      then show ?thesis by (simp add: validUtf8.simps [of "[]"])
    next
      case (Cons b bs)
      with None "1.IH"(1) have "validUtf8 (toValid bs)" by blast
      moreover have "toValid s = runeError @ toValid bs"
        using None unfolding toValid.simps [of s] by (simp add: Cons del: runeSize.simps)
      ultimately show ?thesis by (simp add: validUtf8_runeError)
    qed
  next
    case (Some n)
    then have "validUtf8 (toValid (drop n s))" by (rule "1.IH"(2))
    moreover have "toValid s = take n s @ toValid (drop n s)"
      using Some by (simp add: toValid.simps [of s])
    ultimately show ?thesis
      using runeSize_take [OF Some, of "toValid (drop n s)"] runeSize_pos [OF Some]
      by (simp add: validUtf8.simps [of "take n s @ _"])
  qed
qed

lemma ParseInt_range: "ParseInt s = ParsedInt i \<Longrightarrow> int64 i"
  by (cases s) (auto simp: parseDigits_def Let_def split: if_splits)

lemma ParseInt_showInt: "int64 i \<Longrightarrow> ParseInt (showInt i) = ParsedInt i"
proof -
  assume i: "int64 i"
  have d: "list_all isDigit (showNat n)" "showNat n \<noteq> []" for n
    by (rule showNat_digits, rule showNat_nonempty)
  have "ParseInt (showNat (nat i)) = parseDigits False (showNat (nat i))" if "0 \<le> i"
    using d [of "nat i"] by (cases "showNat (nat i)") (auto simp: isDigit_def between_def)
  then show ?thesis
    using i d [of "nat i"] d [of "nat (- i)"] by (simp add: showInt_def parseDigits_def)
qed

lemma FromNumber_canon:
  assumes "text_laws T rep" "rep q" "FromNumber T (gt_json T q) = Inr v"
  shows "canon rep v"
proof -
  have l: "gt_parse T (gt_json T q) = Some (Fin q)"
    "ParseInt (gt_json T q) = IntRange \<Longrightarrow> stays q"
    using assms(1,2) by (auto simp: text_laws_def)
  show ?thesis
  proof (cases "ParseInt (gt_json T q)")
    case (ParsedInt i)
    then show ?thesis using assms(3) ParseInt_range [OF ParsedInt] by (auto simp: FromNumber_def)
  next
    case IntRange
    then show ?thesis using assms(2,3) l by (auto simp: FromNumber_def)
  next
    case IntSyntax
    then show ?thesis using assms(2,3) l canonicalFloat_canon [of rep q] by (auto simp: FromNumber_def)
  qed
qed

lemma FromNumber_stays:
  assumes "text_laws T rep" "rep q" "stays q"
  shows "FromNumber T (gt_json T q) = Inr (AFloat (Fin q))"
  using assms by (cases "ParseInt (gt_json T q)") (auto simp: text_laws_def FromNumber_def stays_def)

lemma FromNumber_flat: "FromNumber T s = Inr v \<Longrightarrow> nesting v = 0"
  by (auto simp: FromNumber_def canonicalFloat_def split: parse_int.splits option.splits float64.splits if_splits)


subsection \<open>Depth and encoding\<close>

lemma length_Join_ge: "(\<Sum>s\<leftarrow>ss. length s) \<le> length (Join ss sep)"
  by (induction ss sep rule: Join.induct) auto

lemma member_le_Join: "s \<in> set ss \<Longrightarrow> length s \<le> length (Join ss sep)"
  using member_le_sum_list [of "length s" "map length ss"] length_Join_ge [of ss sep] by auto

lemma marshal_nesting:
  "marshal ff v = Some b \<Longrightarrow> 2 * nesting v \<le> length b"
  "marshalList ff xs = Some bs \<Longrightarrow> \<exists>s \<in> insert [] (set bs). 2 * nestingList xs \<le> length s"
  "marshalFields ff m = Some fs \<Longrightarrow> \<exists>s \<in> insert [] (snd ` set fs). 2 * nestingFields m \<le> length s"
proof (induction ff v and ff xs and ff m arbitrary: b and bs and fs rule: marshal_marshalList_marshalFields.induct)
  case (6 ff xs)
  then obtain bs where bs: "marshalList ff xs = Some bs" "b = ''['' @ Join bs '','' @ '']''" by auto
  from "6.IH" [OF bs(1)] obtain s where "s \<in> insert [] (set bs)" "2 * nestingList xs \<le> length s" by blast
  then show ?case using member_le_Join [of s bs "'',''"] bs(2) by auto
next
  case (7 ff m)
  then obtain fs where fs: "marshalFields ff m = Some fs" and
    b: "b = CHR 0x7B # Join (map (\<lambda>(k, s). jsonQuote k @ '':'' @ s) (sort_key fst fs)) '','' @ [CHR 0x7D]"
    by auto
  from "7.IH" [OF fs] obtain s where s: "s \<in> insert [] (snd ` set fs)" "2 * nestingFields m \<le> length s" by blast
  show ?case
  proof (cases "s = []")
    case True
    then show ?thesis using s(2) b by simp
  next
    case False
    then obtain k where "(k, s) \<in> set fs" using s(1) by auto
    then have "jsonQuote k @ '':'' @ s \<in> set (map (\<lambda>(k, s). jsonQuote k @ '':'' @ s) (sort_key fst fs))"
      by (force simp: image_iff)
    from member_le_Join [OF this, of "'',''"] s(2) b show ?thesis by simp
  qed
next
  case (9 ff x xs)
  then obtain s ss where ss: "marshal ff x = Some s" "marshalList ff xs = Some ss" "bs = s # ss"
    by (auto split: option.splits)
  from "9.IH"(1) [OF ss(1)] "9.IH"(2) [OF ss(2)] ss(3) show ?case
    by (auto simp: max_def intro: bexI [of _ s])
next
  case (11 ff k x m)
  then obtain s ss where ss: "marshal ff x = Some s" "marshalFields ff m = Some ss" "fs = (k, s) # ss"
    by (auto split: option.splits)
  from "11.IH"(1) [OF ss(1)] "11.IH"(2) [OF ss(2)] ss(3) show ?case
    by (auto simp: max_def intro: bexI [of _ s])
qed auto

lemma marshal_canon:
  "canon rep v \<Longrightarrow> \<exists>b. marshal ff v = Some b"
  "canonList rep xs \<Longrightarrow> \<exists>bs. marshalList ff xs = Some bs"
  "canonFields rep m \<Longrightarrow> \<exists>fs. marshalFields ff m = Some fs"
  by (induction ff v and ff xs and ff m rule: marshal_marshalList_marshalFields.induct)
    (auto split: float64.splits)

lemma fold_put_set:
  "set (fold (\<lambda>(k, x). put (f k) x) fs m) \<subseteq> set m \<union> (\<lambda>(k, x). (f k, x)) ` set fs"
proof (induction fs arbitrary: m)
  case (Cons a fs)
  obtain k x where a: "a = (k, x)" by (cases a)
  have "set (put (f k) x m) \<subseteq> insert (f k, x) (set m)"
    by (induction m) (auto simp: put_def)
  then show ?case using Cons.IH [of "put (f k) x m"] a by auto
qed simp

lemma fold_put_wf: "wf_map m \<Longrightarrow> wf_map (fold (\<lambda>(k, x). put (f k) x) fs m)"
  by (induction fs arbitrary: m) (auto split: prod.splits)

lemma decodedFields_nesting_aux:
  assumes "\<forall>(k, x) \<in> set fs. nesting x \<le> n"
  shows "nestingFields (fold (\<lambda>(k, x). put (toValid k) x) (sort_key fst fs) []) \<le> n"
  unfolding nestingFields_le using fold_put_set [of toValid "sort_key fst fs" "[]"] assms by fastforce

lemma decoded_nesting:
  "decoded T v = Inr w \<Longrightarrow> nesting w \<le> nesting v"
  "decodedList T xs = Inr ys \<Longrightarrow> nestingList ys \<le> nestingList xs"
  "decodedFields T m = Inr fs \<Longrightarrow> \<forall>(k, x) \<in> set fs. nesting x \<le> nestingFields m"
proof (induction T v and T xs and T m arbitrary: w and ys and fs rule: decoded_decodedList_decodedFields.induct)
  case (7 T m)
  then show ?case by (auto split: sum.splits intro!: decodedFields_nesting_aux)
next
  case (9 T x xs)
  then show ?case by (fastforce split: sum.splits)
next
  case (11 T k x m)
  then show ?case by (fastforce split: sum.splits)
qed (auto simp: FromNumber_flat split: sum.splits float64.splits)

lemma decoded_canon:
  assumes "text_laws T rep"
  shows "wfAny rep v \<Longrightarrow> decoded T v = Inr w \<Longrightarrow> canon rep w"
    "wfList rep xs \<Longrightarrow> decodedList T xs = Inr ys \<Longrightarrow> canonList rep ys"
    "wfFields rep m \<Longrightarrow> decodedFields T m = Inr fs \<Longrightarrow> \<forall>(k, x) \<in> set fs. canon rep x"
  using assms
proof (induction T v and T xs and T m arbitrary: w and ys and fs rule: decoded_decodedList_decodedFields.induct)
  case (3 T i)
  then show ?case by (auto simp: FromNumber_def ParseInt_showInt)
next
  case (4 T x)
  then show ?case by (auto split: float64.splits dest: FromNumber_canon)
next
  case (7 T m)
  then obtain fs where fs: "decodedFields T m = Inr fs"
    "w = AObj (fold (\<lambda>(k, x). put (toValid k) x) (sort_key fst fs) [])"
    by (auto split: sum.splits)
  with 7 have "\<forall>(k, x) \<in> set fs. canon rep x" by simp
  then show ?case
    unfolding fs(2) using fold_put_set [of toValid "sort_key fst fs" "[]"]
    by (auto simp: canonFields_iff validUtf8_toValid intro!: fold_put_wf)
next
  case (11 T k x m)
  then show ?case by (fastforce split: sum.splits)
qed (auto simp: validUtf8_toValid split: sum.splits)


subsection \<open>Canonical values are fixed points\<close>

lemma roundTrip_result:
  assumes "text_laws T rep" "wfAny rep v" "roundTrip T v d = Inr w"
  shows "canon rep w" "nesting w \<le> MaxDepth - d"
proof -
  obtain b where b: "marshal (gt_json T) v = Some b" and w: "decoded T v = Inr w"
    and d: "\<not> (length b > 2 * (MaxDepth - d) \<and> nesting w > MaxDepth - d)"
    using assms(3) by (auto simp: roundTrip_def split: option.splits sum.splits if_splits)
  show "canon rep w" using decoded_canon(1) [OF assms(1,2) w] .
  show "nesting w \<le> MaxDepth - d"
    using d marshal_nesting(1) [OF b] decoded_nesting(1) [OF w] by linarith
qed

lemma canonicalFields_keys: "canonicalFields T m d = Inr fs \<Longrightarrow> keys fs = keys m"
  by (induction m arbitrary: fs) (auto split: if_splits sum.splits)

lemma canonical_result:
  assumes "text_laws T rep"
  shows "wfAny rep v \<Longrightarrow> d \<le> MaxDepth \<Longrightarrow> canonical T v d = Inr w \<Longrightarrow>
      canon rep w \<and> nesting w \<le> MaxDepth - d"
    "wfList rep xs \<Longrightarrow> d \<le> MaxDepth \<Longrightarrow> canonicalList T xs d = Inr ys \<Longrightarrow>
      canonList rep ys \<and> nestingList ys \<le> MaxDepth - d"
    "wfFields rep m \<Longrightarrow> d \<le> MaxDepth \<Longrightarrow> canonicalFields T m d = Inr fs \<Longrightarrow>
      canonFields rep fs \<and> nestingFields fs \<le> MaxDepth - d"
  using assms
proof (induction T v d and T xs d and T m d arbitrary: w and ys and fs
    rule: canonical_canonicalList_canonicalFields.induct)
  case (3 T s d)
  then show ?case using roundTrip_result [OF 3(4,1), of d w] by (auto split: if_splits)
next
  case (5 T x d)
  show ?case
  proof (cases x)
    case (Fin q)
    then have "w = canonicalFloat (Fin q)" "rep q" using 5 by simp_all
    then show ?thesis using canonicalFloat_canon [of rep q]
      by (auto simp: canonicalFloat_def split: if_splits)
  qed (use roundTrip_result [OF 5(4,1), of d w] 5 in simp_all)
next
  case (6 T m d)
  show ?case
  proof (cases "canonicalFields T m (d + 1)")
    case (Inl e)
    then have "roundTrip T (AObj m) d = Inr w" using 6 by (auto split: if_splits option.splits)
    then show ?thesis using roundTrip_result [OF 6(5,2)] by blast
  next
    case (Inr fs)
    then have d: "d < MaxDepth" and w: "w = AObj fs" using 6 by (auto split: if_splits)
    then have "canonFields rep fs \<and> nestingFields fs \<le> MaxDepth - (d + 1)"
      using 6 Inr by simp
    then show ?thesis using w d canonicalFields_keys [OF Inr] "6.prems"(1) by auto
  qed
next
  case (7 T xs d)
  then show ?case by (auto split: if_splits sum.splits)
next
  case (9 T x xs d)
  then show ?case by (fastforce split: sum.splits)
next
  case (11 T k x m d)
  then show ?case by (fastforce split: sum.splits if_splits)
qed auto

lemma canonical_id:
  "canon rep v \<Longrightarrow> d + nesting v \<le> MaxDepth \<Longrightarrow> canonical T v d = Inr v"
  "canonList rep xs \<Longrightarrow> d + nestingList xs \<le> MaxDepth \<Longrightarrow> canonicalList T xs d = Inr xs"
  "canonFields rep m \<Longrightarrow> d + nestingFields m \<le> MaxDepth \<Longrightarrow> canonicalFields T m d = Inr m"
  by (induction T v d and T xs d and T m d rule: canonical_canonicalList_canonicalFields.induct)
    (auto simp: stays_def split: float64.splits)

lemma fold_put_sorted:
  assumes "wf_map fs" "\<forall>k \<in> set (keys fs). f k = k" "set (keys fs) \<inter> set (keys m) = {}"
  shows "fold (\<lambda>(k, x). put (f k) x) fs m = m @ fs"
  using assms
proof (induction fs arbitrary: m)
  case (Cons a fs)
  obtain k x where a: "a = (k, x)" by (cases a)
  have "k \<notin> set (keys m) \<Longrightarrow> AList.update k x m = m @ [(k, x)]" by (induction m) auto
  then have "put (f k) x m = m @ [(k, x)]" using Cons.prems a by (simp add: put_def)
  then show ?case using Cons.IH [of "m @ [(k, x)]"] Cons.prems a by auto
qed simp

lemma deepEqualEntries_iff:
  "deepEqualEntries m n \<longleftrightarrow> (\<forall>(k, v) \<in> set m. \<exists>w. map_of n k = Some w \<and> deepEqual v w)"
  by (induction m) (auto split: option.splits)

lemma decoded_id:
  assumes "text_laws T rep"
  shows "canon rep v \<Longrightarrow> \<exists>w. decoded T v = Inr w \<and> deepEqual w v"
    "canonList rep xs \<Longrightarrow> \<exists>ys. decodedList T xs = Inr ys \<and> deepEqualList ys xs"
    "canonFields rep m \<Longrightarrow> \<exists>fs. decodedFields T m = Inr fs \<and>
       list_all2 (\<lambda>(k, y) (l, x). k = l \<and> deepEqual y x) fs m"
  using assms
proof (induction T v and T xs and T m rule: decoded_decodedList_decodedFields.induct)
  case (3 T i)
  then show ?case by (simp add: FromNumber_def ParseInt_showInt)
next
  case (4 T x)
  then show ?case by (auto simp: FromNumber_stays split: float64.splits)
next
  case (7 T m)
  then obtain fs where fs: "decodedFields T m = Inr fs"
    and r: "list_all2 (\<lambda>(k, y) (l, x). k = l \<and> deepEqual y x) fs m" by auto
  have k: "keys fs = keys m" using r by (induction rule: list_all2_induct) auto
  have wf: "wf_map m" "canonFields rep m" using 7 by simp_all
  then have v: "\<forall>k \<in> set (keys fs). toValid k = k"
    unfolding k by (auto simp: canonFields_iff toValid_valid)
  have "fold (\<lambda>(k, x). put (toValid k) x) (sort_key fst fs) [] = sort_key fst fs"
  proof -
    have "wf_map fs" using wf(1) k by simp
    then have "wf_map (sort_key fst fs)" by (simp add: distinct_map)
    moreover have "\<forall>k \<in> set (keys (sort_key fst fs)). toValid k = k" using v by simp
    ultimately show ?thesis by (simp add: fold_put_sorted)
  qed
  moreover have "\<exists>w. map_of m k = Some w \<and> deepEqual y w" if "(k, y) \<in> set fs" for k y
  proof -
    from that r obtain x where "(k, x) \<in> set m" "deepEqual y x"
      by (auto simp: list_all2_conv_all_nth in_set_conv_nth split: prod.splits) (metis nth_mem prod.exhaust)
    then show ?thesis using wf(1) by auto
  qed
  ultimately show ?case using fs list_all2_lengthD [OF r] by (auto simp: deepEqualEntries_iff)
next
  case (11 T k x m)
  then show ?case by auto
qed (auto simp: toValid_valid)

lemma canonical_fixed_point:
  assumes "text_laws T rep" "wfAny rep v" "Canonical T v = Inr c"
  shows "Canonical T c = Inr c \<and> (\<exists>w. roundTrip T c 0 = Inr w \<and> deepEqual w c)"
proof -
  have c: "canon rep c" "nesting c \<le> MaxDepth"
    using canonical_result(1) [OF assms(1,2), of 0 c] assms(3) by (simp_all add: Canonical_def)
  obtain b where b: "marshal (gt_json T) c = Some b" using marshal_canon(1) [OF c(1)] by blast
  obtain w where w: "decoded T c = Inr w" "deepEqual w c" using decoded_id(1) [OF assms(1) c(1)] by blast
  have "nesting w \<le> MaxDepth" "nesting c \<le> encodingJSONMaxDepth"
    using decoded_nesting(1) [OF w(1)] c(2) by (simp_all add: MaxDepth_def)
  then show ?thesis
    using canonical_id(1) [OF c(1), of 0] c(2) b w by (simp add: Canonical_def roundTrip_def)
qed


subsection \<open>Properties\<close>

text \<open>
  C6. Canonical values survive checkpoints: whatever \<open>Canonical\<close> returns for a value (invalid
  UTF-8 and over-deep or non-finite values included in the inputs) is left unchanged by a
  second \<open>Canonical\<close>, and encoding it with \<open>json.Marshal\<close> and decoding it with \<open>Unmarshal\<close>
  succeeds and yields a deeply equal value.
\<close>

theorem canonical_values_survive_checkpoints:
  assumes "text_laws T rep" "wfAny rep v" "Canonical T v = Inr c"
  shows "Canonical T c = Inr c \<and> (\<exists>w. roundTrip T c 0 = Inr w \<and> deepEqual w c)"
  using assms by (rule canonical_fixed_point)

definition demo_text :: go_text where
  "demo_text = \<lparr>gt_json = (\<lambda>q. if q = 1 / 2 then ''0.5'' else []),
     gt_parse = (\<lambda>s. if s = ''0.5'' then Some (Fin (1 / 2)) else None),
     gt_g = (\<lambda>f. ''0.5''), gt_v = (\<lambda>v. [])\<rparr>"

definition demo_value :: any where
  "demo_value = AObj [(''b'', AArr [AInt 7, AFloat (Fin (1 / 2))]), (''a'', AStr [CHR 0xFF])]"

theorem canonical_values_survive_checkpoints_witness:
  "\<exists>c. Canonical demo_text demo_value = Inr c \<and> Canonical demo_text c = Inr c \<and>
     (\<exists>w. roundTrip demo_text c 0 = Inr w \<and> deepEqual w c)"
proof -
  have l: "text_laws demo_text (\<lambda>q. q = 1 / 2)"
    by (simp add: text_laws_def demo_text_def parseDigits_def isDigit_def between_def)
  have w: "wfAny (\<lambda>q. q = 1 / 2) demo_value"
    by (simp add: demo_value_def int64_def)
  have "case Canonical demo_text demo_value of Inl e \<Rightarrow> False | Inr c \<Rightarrow> True" by code_simp
  then obtain c where c: "Canonical demo_text demo_value = Inr c"
    by (auto split: sum.splits)
  show ?thesis using canonical_values_survive_checkpoints [OF l w c] c by blast
qed

end
