(* ===== verification/Plan_Diff.thy ===== *)
theory Plan_Diff
  imports Json_Num
begin

text \<open>
  The field-level difference of two JSON documents (\<open>internal/plan/diff.go\<close>).
  \<open>json.Unmarshal\<close> into an \<open>any\<close> is an argument (\<open>None\<close> for its error); the other texts come
  from \<open>go_text\<close>.
\<close>

subsection \<open>The difference\<close>

record field_change =
  fc_Path :: string
  fc_Old :: string
  fc_New :: string

definition jsonText :: "go_text \<Rightarrow> any \<Rightarrow> string option" where
  "jsonText T v = marshal (gt_json T) v"

definition formatJSONValue :: "go_text \<Rightarrow> any \<Rightarrow> string" where
  "formatJSONValue T v =
     (if v = ANil then ''null''
      else case jsonText T v of None \<Rightarrow> gt_v T v | Some s \<Rightarrow> s)"

definition jsonEqual :: "go_text \<Rightarrow> any \<Rightarrow> any \<Rightarrow> bool" where
  "jsonEqual T a b =
     (if a = ANil \<and> b = ANil then True
      else if a = ANil \<or> b = ANil then False
      else case (jsonText T a, jsonText T b) of
             (Some s, Some t) \<Rightarrow> s = t
           | _ \<Rightarrow> False)"

definition joinPath :: "string \<Rightarrow> string \<Rightarrow> string" where
  "joinPath pre key = (if pre = [] then key else pre @ ''.'' @ key)"

definition unionStringKeys :: "any gomap \<Rightarrow> any gomap \<Rightarrow> string list" where
  "unionStringKeys a b = dedupFrom [] (keys a @ keys b)"

definition change :: "string \<Rightarrow> string \<Rightarrow> string \<Rightarrow> field_change" where
  "change p old new = \<lparr>fc_Path = p, fc_Old = old, fc_New = new\<rparr>"

lemma size_map_of: "map_of m k = Some v \<Longrightarrow> size v < size (AObj m)"
  by (drule map_of_SomeD) (induction m, auto)

lemma size_nth: "\<not> length xs \<le> i \<Longrightarrow> size (xs ! i) < Suc (size_list size xs)"
  using size_list_estimation' [of "xs ! i" xs "size (xs ! i)" size] by simp

text \<open>\<open>diffAny\<close> with the bodies of \<open>diffObject\<close> and \<open>diffArray\<close>, which recurse into it.\<close>

function diffAny :: "go_text \<Rightarrow> string \<Rightarrow> any \<Rightarrow> any \<Rightarrow> field_change list" where
  "diffAny T path oldV newV =
     (if jsonEqual T oldV newV then []
      else case (oldV, newV) of
        (AObj oldM, AObj newM) \<Rightarrow>
          concat (map (\<lambda>k.
            case map_of oldM k of
              None \<Rightarrow> [change (joinPath path k) [] (formatJSONValue T (the (map_of newM k)))]
            | Some ov \<Rightarrow>
                (case map_of newM k of
                   None \<Rightarrow> [change (joinPath path k) (formatJSONValue T ov) []]
                 | Some nv \<Rightarrow> diffAny T (joinPath path k) ov nv))
            (sort (unionStringKeys oldM newM)))
      | (AArr oldA, AArr newA) \<Rightarrow>
          concat (map (\<lambda>i.
            if i \<ge> length oldA then [change (joinPath path (showNat i)) [] (formatJSONValue T (newA ! i))]
            else if i \<ge> length newA then [change (joinPath path (showNat i)) (formatJSONValue T (oldA ! i)) []]
            else diffAny T (joinPath path (showNat i)) (oldA ! i) (newA ! i))
            [0..<max (length oldA) (length newA)])
      | _ \<Rightarrow> [change path (formatJSONValue T oldV) (formatJSONValue T newV)])"
  by pat_completeness auto
termination
  by (relation "measure (\<lambda>(T, path, oldV, newV). size oldV)") (auto dest: size_map_of simp: size_nth)

declare diffAny.simps [simp del]

datatype plan_error =
    ErrOldSpecJSON
  | ErrNewSpecJSON
  | ErrNilGraph
  | ErrEmptyEnv
  | ErrCanonicalJSON string
  | ErrNoProject
  | ErrEmptyEnvOrProject

definition jsonDiff ::
  "go_text \<Rightarrow> (string \<Rightarrow> any option) \<Rightarrow> string \<Rightarrow> string \<Rightarrow> (plan_error, field_change list) result" where
  "jsonDiff T unmarshal oldJSON newJSON =
     (if oldJSON = newJSON then Inr []
      else case unmarshal oldJSON of
        None \<Rightarrow> Inl ErrOldSpecJSON
      | Some oldV \<Rightarrow>
          (case unmarshal newJSON of
             None \<Rightarrow> Inl ErrNewSpecJSON
           | Some newV \<Rightarrow> Inr (diffAny T [] oldV newV)))"


subsection \<open>An empty difference means equal documents\<close>

text \<open>A document \<open>json.Unmarshal\<close> can have produced: unique keys, no value without encoding.\<close>

fun jsonDoc :: "any \<Rightarrow> bool" and jsonDocs :: "any list \<Rightarrow> bool"
  and jsonFields :: "(string \<times> any) list \<Rightarrow> bool" where
  "jsonDoc (AArr xs) = jsonDocs xs"
| "jsonDoc (AObj m) = (distinct (map fst m) \<and> jsonFields m)"
| "jsonDoc (AFloat x) = (case x of Fin q \<Rightarrow> True | _ \<Rightarrow> False)"
| "jsonDoc v = True"
| "jsonDocs [] = True"
| "jsonDocs (x # xs) = (jsonDoc x \<and> jsonDocs xs)"
| "jsonFields [] = True"
| "jsonFields ((k, v) # m) = (jsonDoc v \<and> jsonFields m)"

lemma jsonDoc_marshal:
  "jsonDoc v \<Longrightarrow> marshal ff v \<noteq> None"
  "jsonDocs xs \<Longrightarrow> marshalList ff xs \<noteq> None"
  "jsonFields m \<Longrightarrow> marshalFields ff m \<noteq> None"
  by (induction v and xs and m rule: jsonDoc_jsonDocs_jsonFields.induct) (auto split: float64.splits)

lemma jsonDocs_iff: "jsonDocs xs \<longleftrightarrow> list_all jsonDoc xs"
  by (induction xs) auto

lemma jsonFields_iff: "jsonFields m \<longleftrightarrow> list_all (\<lambda>(k, v). jsonDoc v) m"
  by (induction m) auto

lemma marshalList_map:
  "list_all jsonDoc xs \<Longrightarrow> marshalList ff xs = Some (map (\<lambda>v. the (marshal ff v)) xs)"
  using jsonDoc_marshal(1) [of _ ff] by (induction xs) (auto split: option.splits)

lemma marshalFields_map:
  "list_all (\<lambda>(k, v). jsonDoc v) m \<Longrightarrow> marshalFields ff m = Some (map (\<lambda>(k, v). (k, the (marshal ff v))) m)"
  using jsonDoc_marshal(1) [of _ ff] by (induction m) (auto split: option.splits)

definition textOf :: "go_text \<Rightarrow> any \<Rightarrow> string" where
  "textOf T v = the (jsonText T v)"

lemma jsonEqual_iff:
  assumes "jsonDoc a" "jsonDoc b"
  shows "jsonEqual T a b \<longleftrightarrow> (a = ANil \<longleftrightarrow> b = ANil) \<and> textOf T a = textOf T b"
proof -
  obtain s t where "marshal (gt_json T) a = Some s" "marshal (gt_json T) b = Some t"
    using jsonDoc_marshal(1) [OF assms(1), of "gt_json T"] jsonDoc_marshal(1) [OF assms(2), of "gt_json T"] by auto
  then show ?thesis by (auto simp: jsonEqual_def jsonText_def textOf_def)
qed

lemma sort_key_unique:
  fixes xs ys :: "(string \<times> 'a) list"
  assumes "distinct (map fst xs)" "distinct (map fst ys)" "map_of xs = map_of ys"
  shows "sort_key fst xs = sort_key fst ys"
proof -
  have k: "map fst (sort_key fst xs) = sort (map fst xs)" for xs :: "(string \<times> 'a) list"
    by (simp add: sort_key_map)
  have "set (map fst xs) = set (map fst ys)" using assms(3) by (metis dom_map_of_conv_image_fst image_set)
  then have "sort (map fst xs) = sort (map fst ys)"
    using assms(1,2) by (metis sorted_list_of_set_sort_remdups distinct_remdups_id)
  then have keys: "map fst (sort_key fst xs) = map fst (sort_key fst ys)" by (simp only: k)
  have vals: "sort_key fst xs = map (\<lambda>k. (k, the (map_of xs k))) (map fst (sort_key fst xs))"
    if "distinct (map fst xs)" for xs :: "(string \<times> 'a) list"
    using that by (auto simp: o_def intro!: map_idI [symmetric])
  show ?thesis using vals [OF assms(1)] vals [OF assms(2)] keys assms(3) by metis
qed


lemma textOf_Obj:
  assumes "jsonFields m"
  shows "textOf T (AObj m) = CHR 0x7B # Join (map (\<lambda>(k, s). jsonQuote k @ '':'' @ s)
    (sort_key fst (map (\<lambda>(k, v). (k, textOf T v)) m))) '','' @ [CHR 0x7D]"
  using marshalFields_map [of m "gt_json T"] assms by (simp add: textOf_def jsonText_def jsonFields_iff)

lemma textOf_Arr:
  assumes "jsonDocs xs"
  shows "textOf T (AArr xs) = ''['' @ Join (map (textOf T) xs) '','' @ '']''"
  using marshalList_map [of xs "gt_json T"] assms by (simp add: textOf_def [abs_def] jsonText_def jsonDocs_iff)

lemma equal_objects:
  assumes "jsonDoc (AObj m)" "jsonDoc (AObj n)" "\<And>k. map_option (textOf T) (map_of m k) = map_option (textOf T) (map_of n k)"
  shows "jsonEqual T (AObj m) (AObj n)"
proof -
  have "map_of (map (\<lambda>(k, v). (k, textOf T v)) m) = map_of (map (\<lambda>(k, v). (k, textOf T v)) n)"
    using assms(3) by (auto simp: map_of_map fun_eq_iff)
  moreover have "map fst (map (\<lambda>(k, v). (k, textOf T v)) m) = map fst m" for m :: "(string \<times> any) list"
    by (simp add: case_prod_beta')
  ultimately have "sort_key fst (map (\<lambda>(k, v). (k, textOf T v)) m) = sort_key fst (map (\<lambda>(k, v). (k, textOf T v)) n)"
    using assms(1,2) by (intro sort_key_unique) (simp_all del: map_map)
  then show ?thesis using assms(1,2) by (simp add: jsonEqual_iff textOf_Obj)
qed

text \<open>What is relied on of the float spelling: a number is never the empty text or \<open>null\<close>.\<close>

definition number_text :: "go_text \<Rightarrow> bool" where
  "number_text T \<longleftrightarrow> (\<forall>q. gt_json T q \<noteq> [] \<and> gt_json T q \<noteq> ''null'')"

lemma showInt_not_null: "showInt i \<noteq> ''null''" "showInt i \<noteq> []"
proof -
  have "CHR ''n'' \<notin> set (showNat n)" for n
    using showNat_digits [of n] by (auto simp: list_all_iff isDigit_def between_def)
  then have "CHR ''n'' \<notin> set (showInt i)" by (simp add: showInt_def)
  then show "showInt i \<noteq> ''null''" by auto
  show "showInt i \<noteq> []" by (simp add: showInt_def showNat_nonempty)
qed

lemma format_text:
  assumes "number_text T" "jsonDoc v"
  shows "formatJSONValue T v = textOf T v" "textOf T v \<noteq> []" "textOf T v = ''null'' \<longleftrightarrow> v = ANil"
proof -
  show "formatJSONValue T v = textOf T v"
    using jsonDoc_marshal(1) [OF assms(2), of "gt_json T"] by (auto simp: formatJSONValue_def textOf_def jsonText_def)
  have "textOf T v \<noteq> [] \<and> (textOf T v = ''null'' \<longleftrightarrow> v = ANil)"
  proof (cases v)
    case (AFloat x)
    then show ?thesis using assms by (cases x) (simp_all add: textOf_def jsonText_def number_text_def)
  next
    case (AArr xs)
    then show ?thesis using assms(2) by (simp add: textOf_Arr)
  next
    case (AObj m)
    then show ?thesis using assms(2) by (simp add: textOf_Obj)
  qed (simp_all add: textOf_def jsonText_def showInt_not_null jsonQuote_def)
  then show "textOf T v \<noteq> []" "textOf T v = ''null'' \<longleftrightarrow> v = ANil" by blast+
qed

lemma jsonEqual_text:
  assumes "number_text T" "jsonDoc a" "jsonDoc b"
  shows "jsonEqual T a b \<longleftrightarrow> textOf T a = textOf T b"
  using jsonEqual_iff [OF assms(2,3)] format_text(3) [OF assms(1,2)] format_text(3) [OF assms(1,3)] by metis

lemma jsonDoc_field: "jsonFields m \<Longrightarrow> map_of m k = Some v \<Longrightarrow> jsonDoc v"
  by (induction m) (auto split: if_splits)

definition faithfulDiff :: "go_text \<Rightarrow> any \<Rightarrow> any \<Rightarrow> field_change list \<Rightarrow> bool" where
  "faithfulDiff T a b cs \<longleftrightarrow> (cs = [] \<longleftrightarrow> jsonEqual T a b) \<and> (\<forall>c \<in> set cs. fc_Old c \<noteq> fc_New c)"

lemma set_unionStringKeys: "set (unionStringKeys a b) = set (keys a) \<union> set (keys b)"
  by (auto simp: unionStringKeys_def set_dedupFrom)

lemma concat_map_facts:
  assumes "\<exists>x \<in> set xs. f x \<noteq> []" "\<And>x. x \<in> set xs \<Longrightarrow> \<forall>c \<in> set (f x). Q c"
  shows "concat (map f xs) \<noteq> []" "\<forall>c \<in> set (concat (map f xs)). Q c"
  using assms by auto

lemma diff_objects:
  assumes "number_text T" "jsonDoc (AObj m)" "jsonDoc (AObj n)" "\<not> jsonEqual T (AObj m) (AObj n)"
    and IH: "\<And>k ov nv. map_of m k = Some ov \<Longrightarrow> map_of n k = Some nv \<Longrightarrow>
      faithfulDiff T ov nv (diffAny T (joinPath path k) ov nv)"
  shows "faithfulDiff T (AObj m) (AObj n) (diffAny T path (AObj m) (AObj n))"
proof -
  let ?item = "\<lambda>k. case map_of m k of
        None \<Rightarrow> [change (joinPath path k) [] (formatJSONValue T (the (map_of n k)))]
      | Some ov \<Rightarrow> (case map_of n k of None \<Rightarrow> [change (joinPath path k) (formatJSONValue T ov) []]
                   | Some nv \<Rightarrow> diffAny T (joinPath path k) ov nv)"
  have eq: "diffAny T path (AObj m) (AObj n) = concat (map ?item (sort (unionStringKeys m n)))"
    using assms(4) by (simp add: diffAny.simps [of T path "AObj m" "AObj n"])
  have docs: "map_of m k = Some v \<Longrightarrow> jsonDoc v" "map_of n k = Some v \<Longrightarrow> jsonDoc v" for k v
  proof -
    have f: "jsonFields m" "jsonFields n" using assms(2,3) by simp_all
    show "map_of m k = Some v \<Longrightarrow> jsonDoc v" "map_of n k = Some v \<Longrightarrow> jsonDoc v"
      using jsonDoc_field [OF f(1)] jsonDoc_field [OF f(2)] by blast+
  qed
  have real: "\<forall>c \<in> set (?item k). fc_Old c \<noteq> fc_New c" if "k \<in> set (unionStringKeys m n)" for k
  proof (cases "map_of m k")
    case None
    then have "k \<in> set (keys n)" using that unfolding set_unionStringKeys by (auto simp: map_of_eq_None_iff)
    then obtain v where "map_of n k = Some v" by (metis map_of_eq_None_iff not_Some_eq image_set)
    then show ?thesis using None format_text(1,2) [OF assms(1) docs(2)] by (simp add: change_def eq_commute [of "[]"])
  next
    case (Some ov)
    then show ?thesis
      using format_text [OF assms(1) docs(1) [OF Some]] IH [OF Some]
      by (cases "map_of n k") (simp_all add: change_def faithfulDiff_def)
  qed
  have "\<exists>k \<in> set (unionStringKeys m n). ?item k \<noteq> []"
  proof (rule ccontr)
    assume none: "\<not> ?thesis"
    have "map_option (textOf T) (map_of m k) = map_option (textOf T) (map_of n k)" for k
    proof (cases "k \<in> set (unionStringKeys m n)")
      case True
      then have "?item k = []" using none by blast
      then obtain ov nv where v: "map_of m k = Some ov" "map_of n k = Some nv" "diffAny T (joinPath path k) ov nv = []"
        by (auto split: option.splits)
      then have "jsonEqual T ov nv" using IH [OF v(1,2)] by (simp add: faithfulDiff_def)
      then show ?thesis using v jsonEqual_text [OF assms(1) docs(1) docs(2)] by simp
    next
      case False
      then have "map_of m k = None" "map_of n k = None"
        unfolding set_unionStringKeys by (auto simp: map_of_eq_None_iff)
      then show ?thesis by simp
    qed
    from equal_objects [OF assms(2,3) this] assms(4) show False by simp
  qed
  with concat_map_facts [of "sort (unionStringKeys m n)" ?item, OF _ real] assms(4)
  show ?thesis unfolding faithfulDiff_def eq by simp
qed

lemma diff_arrays:
  assumes "number_text T" "jsonDoc (AArr xs)" "jsonDoc (AArr ys)" "\<not> jsonEqual T (AArr xs) (AArr ys)"
    and IH: "\<And>i. i < length xs \<Longrightarrow> i < length ys \<Longrightarrow>
      faithfulDiff T (xs ! i) (ys ! i) (diffAny T (joinPath path (showNat i)) (xs ! i) (ys ! i))"
  shows "faithfulDiff T (AArr xs) (AArr ys) (diffAny T path (AArr xs) (AArr ys))"
proof -
  let ?item = "\<lambda>i. if i \<ge> length xs then [change (joinPath path (showNat i)) [] (formatJSONValue T (ys ! i))]
      else if i \<ge> length ys then [change (joinPath path (showNat i)) (formatJSONValue T (xs ! i)) []]
      else diffAny T (joinPath path (showNat i)) (xs ! i) (ys ! i)"
  have eq: "diffAny T path (AArr xs) (AArr ys) = concat (map ?item [0..<max (length xs) (length ys)])"
    using assms(4) by (simp add: diffAny.simps [of T path "AArr xs" "AArr ys"])
  have docs: "i < length xs \<Longrightarrow> jsonDoc (xs ! i)" "i < length ys \<Longrightarrow> jsonDoc (ys ! i)" for i
    using assms(2,3) by (simp_all add: jsonDocs_iff list_all_length)
  have real: "\<forall>c \<in> set (?item i). fc_Old c \<noteq> fc_New c" if "i < max (length xs) (length ys)" for i
    using that format_text(1,2) [OF assms(1) docs(1)] format_text(1,2) [OF assms(1) docs(2)] IH [of i]
    by (auto simp: change_def faithfulDiff_def eq_commute [of "[]"])
  have "\<exists>i < max (length xs) (length ys). ?item i \<noteq> []"
  proof (rule ccontr)
    assume none: "\<not> ?thesis"
    have both: "i < length xs \<and> i < length ys \<and> textOf T (xs ! i) = textOf T (ys ! i)"
      if "i < max (length xs) (length ys)" for i
    proof -
      have "?item i = []" using none that by blast
      then have l: "i < length xs" "i < length ys" and "diffAny T (joinPath path (showNat i)) (xs ! i) (ys ! i) = []"
        by (auto split: if_splits)
      then have "jsonEqual T (xs ! i) (ys ! i)" using IH [OF l] by (simp add: faithfulDiff_def)
      then show ?thesis using l jsonEqual_text [OF assms(1) docs(1) docs(2)] by blast
    qed
    have "length xs = length ys"
      using both [of "length xs"] both [of "length ys"] by (cases "length xs" "length ys" rule: linorder_cases) auto
    then have "map (textOf T) xs = map (textOf T) ys" using both by (auto intro: nth_equalityI)
    then have "textOf T (AArr xs) = textOf T (AArr ys)" using assms(2,3) by (simp add: textOf_Arr)
    then show False using assms jsonEqual_text by blast
  qed
  then have "\<exists>i \<in> set [0..<max (length xs) (length ys)]. ?item i \<noteq> []"
    by (metis atLeastLessThan_upt atLeastLessThan_iff le0)
  from concat_map_facts [OF this real] assms(4)
  show ?thesis unfolding faithfulDiff_def eq by simp
qed

lemma diff_faithful:
  assumes "number_text T" "jsonDoc a" "jsonDoc b"
  shows "faithfulDiff T a b (diffAny T path a b)"
  using assms
proof (induction T path a b rule: diffAny.induct)
  case (1 T path a b)
  show ?case
  proof (cases "jsonEqual T a b")
    case True
    then show ?thesis by (simp add: faithfulDiff_def diffAny.simps [of T path a b])
  next
    case False
    consider m n where "a = AObj m" "b = AObj n" | xs ys where "a = AArr xs" "b = AArr ys"
      | "\<nexists>m n. a = AObj m \<and> b = AObj n" "\<nexists>xs ys. a = AArr xs \<and> b = AArr ys" by blast
    then show ?thesis
    proof cases
      case c: 1
      show ?thesis unfolding c
      proof (rule diff_objects [OF "1.prems"(1)])
        fix k ov nv assume v: "map_of m k = Some ov" "map_of n k = Some nv"
        have "k \<in> set (sort (unionStringKeys m n))"
          using map_of_SomeD [OF v(1)] by (auto simp: set_unionStringKeys intro: rev_image_eqI)
        moreover have "jsonDoc ov" "jsonDoc nv" using v "1.prems" c jsonDoc_field by auto
        ultimately show "faithfulDiff T ov nv (diffAny T (joinPath path k) ov nv)"
          using "1.IH"(2) [OF False refl c _ v(1,2)] "1.prems"(1) by blast
      qed (use "1.prems" False c in auto)
    next
      case c: 2
      show ?thesis unfolding c
      proof (rule diff_arrays [OF "1.prems"(1)])
        fix i assume i: "i < length xs" "i < length ys"
        have "jsonDoc (xs ! i)" "jsonDoc (ys ! i)" using i "1.prems" c by (simp_all add: jsonDocs_iff list_all_length)
        then show "faithfulDiff T (xs ! i) (ys ! i) (diffAny T (joinPath path (showNat i)) (xs ! i) (ys ! i))"
          using "1.IH"(1) [OF False refl c, of i] i "1.prems"(1) by simp
      qed (use "1.prems" False c in auto)
    next
      case 3
      then have "diffAny T path a b = [change path (formatJSONValue T a) (formatJSONValue T b)]"
        using False unfolding diffAny.simps [of T path a b] by (cases a; cases b) simp_all
      then show ?thesis
        using False jsonEqual_text [OF "1.prems"] format_text(1) [OF "1.prems"(1,2)] format_text(1) [OF "1.prems"(1,3)]
        by (simp add: faithfulDiff_def change_def)
    qed
  qed
qed


subsection \<open>Properties\<close>

text \<open>
  C14. The plan's field diff is faithful: on decoded JSON documents it is empty exactly when
  the documents have the same canonical encoding, and every change it lists has different
  old and new texts (the empty text standing for an absent field or element).
\<close>

theorem json_diff_faithful:
  assumes "number_text T" "unmarshal old = Some a" "unmarshal new = Some b" "jsonDoc a" "jsonDoc b" "old \<noteq> new"
  shows "\<exists>cs. jsonDiff T unmarshal old new = Inr cs \<and> (cs = [] \<longleftrightarrow> jsonEqual T a b) \<and>
    (\<forall>c \<in> set cs. fc_Old c \<noteq> fc_New c)"
  using diff_faithful [OF assms(1,4,5), of "[]"] assms(2,3,6) by (simp add: jsonDiff_def faithfulDiff_def)

definition demo_old :: any where
  "demo_old = AObj [(''a'', AArr [AInt 1, AStr ''x'']), (''b'', ANil)]"

definition demo_new :: any where
  "demo_new = AObj [(''a'', AArr [AInt 1, AStr ''y'', ABool True]), (''c'', AObj [])]"

definition demo_numbers :: go_text where
  "demo_numbers = demo_text\<lparr>gt_json := (\<lambda>q. ''0'')\<rparr>"

definition demo_unmarshal :: "string \<Rightarrow> any option" where
  "demo_unmarshal s = (if s = ''old'' then Some demo_old else if s = ''new'' then Some demo_new else None)"

theorem json_diff_faithful_witness:
  "\<exists>cs. jsonDiff demo_numbers demo_unmarshal ''old'' ''new'' = Inr cs \<and>
     map fc_Path cs = [''a.1'', ''a.2'', ''b'', ''c''] \<and> (\<forall>c \<in> set cs. fc_Old c \<noteq> fc_New c)"
proof -
  have "number_text demo_numbers" by (simp add: number_text_def demo_numbers_def)
  moreover have "demo_unmarshal ''old'' = Some demo_old" "demo_unmarshal ''new'' = Some demo_new"
    by (simp_all add: demo_unmarshal_def)
  moreover have "jsonDoc demo_old" "jsonDoc demo_new" by code_simp+
  ultimately obtain cs where "jsonDiff demo_numbers demo_unmarshal ''old'' ''new'' = Inr cs"
    "\<forall>c \<in> set cs. fc_Old c \<noteq> fc_New c"
    using json_diff_faithful [of demo_numbers demo_unmarshal "''old''" demo_old "''new''" demo_new] by auto
  moreover have "map_sum id (map fc_Path) (jsonDiff demo_numbers demo_unmarshal ''old'' ''new'') =
      Inr [''a.1'', ''a.2'', ''b'', ''c'']" by code_simp
  ultimately show ?thesis by simp
qed

end
