(* ===== verification/Deploy_Store.thy ===== *)
theory Deploy_Store
  imports Go_Json "HOL-Library.Product_Lexorder"
begin

text \<open>
  The deployment tables (\<open>internal/state/models.go\<close>, \<open>internal/state/sqlite/deployment_ops.go\<close>,
  \<open>artifact_ops.go\<close>, \<open>deployment_tx.go\<close>). A table is the list of its rows; the primary keys are
  the invariant \<open>wf_db\<close>. Text is compared byte by byte, as SQLite's default collation does.
  A failing database is not modelled: every statement is carried out. Timestamps are stored
  as UTC times; their text form is parsed back when a row is read.
\<close>

subsection \<open>Rows\<close>

record applied_resource =
  apr_Kind :: string
  apr_Name :: string
  apr_Env :: string
  apr_SpecHash :: string
  apr_NormalizedSpecJSON :: string
  apr_AppliedAt :: utc_time

record applied_project =
  apj_ProjectName :: string
  apj_Env :: string
  apj_Version :: string
  apj_AppliedAt :: utc_time

record deployment_artifact =
  da_Digest :: string
  da_Kind :: string
  da_FormatVersion :: string
  da_Payload :: string
  da_CreatedAt :: utc_time

record deployment_snapshot =
  sn_Digest :: string
  sn_FormatVersion :: string
  sn_CompilerVersion :: string
  sn_Environment :: string
  sn_GraphDigest :: string
  sn_ExecutionIRDigest :: string
  sn_CapabilityManifestDigest :: string
  sn_SchemaBundleDigest :: string
  sn_CreatedAt :: utc_time

text \<open>\<open>dd_runRefs\<close> is the column \<open>deployment_snapshot_digest\<close> of the table \<open>runs\<close>.\<close>

record deploy_db =
  dd_resources :: "applied_resource list"
  dd_projects :: "applied_project list"
  dd_artifacts :: "deployment_artifact list"
  dd_snapshots :: "deployment_snapshot list"
  dd_current :: "(string \<times> string) list"
  dd_runRefs :: "string list"

record resource_id =
  ri_Kind :: string
  ri_Name :: string

definition resourceString :: "resource_id \<Rightarrow> string" where
  "resourceString r = ri_Kind r @ ''/'' @ ri_Name r"

abbreviation rowKey :: "applied_resource \<Rightarrow> string \<times> string \<times> string" where
  "rowKey r \<equiv> (apr_Kind r, apr_Name r, apr_Env r)"

abbreviation projectKey :: "applied_project \<Rightarrow> string \<times> string" where
  "projectKey p \<equiv> (apj_ProjectName p, apj_Env p)"

subsection \<open>Applied rows\<close>

text \<open>\<open>INSERT \<dots> ON CONFLICT(key) DO UPDATE\<close> on the rows of a table.\<close>

definition upsert :: "('a \<Rightarrow> 'k) \<Rightarrow> 'a \<Rightarrow> 'a list \<Rightarrow> 'a list" where
  "upsert key r rows =
     (if key r \<in> key ` set rows then map (\<lambda>x. if key x = key r then r else x) rows else rows @ [r])"

text \<open>\<open>INSERT \<dots> ON CONFLICT(key) DO NOTHING\<close>.\<close>

definition insertNew :: "('a \<Rightarrow> 'k) \<Rightarrow> 'a \<Rightarrow> 'a list \<Rightarrow> 'a list" where
  "insertNew key r rows = (if key r \<in> key ` set rows then rows else rows @ [r])"

definition upsertAppliedResource :: "applied_resource \<Rightarrow> deploy_db \<Rightarrow> deploy_db" where
  "upsertAppliedResource r db = db\<lparr>dd_resources := upsert rowKey r (dd_resources db)\<rparr>"

definition getAppliedResource :: "string \<Rightarrow> resource_id \<Rightarrow> deploy_db \<Rightarrow> applied_resource option" where
  "getAppliedResource env i db =
     find (\<lambda>r. apr_Env r = env \<and> apr_Kind r = ri_Kind i \<and> apr_Name r = ri_Name i) (dd_resources db)"

definition listAppliedResourcesByEnv :: "string \<Rightarrow> deploy_db \<Rightarrow> applied_resource list" where
  "listAppliedResourcesByEnv env db =
     sort_key (\<lambda>r. (apr_Kind r, apr_Name r)) (filter (\<lambda>r. apr_Env r = env) (dd_resources db))"

definition deleteAppliedResource :: "string \<Rightarrow> resource_id \<Rightarrow> deploy_db \<Rightarrow> deploy_db" where
  "deleteAppliedResource env i db =
     db\<lparr>dd_resources :=
        filter (\<lambda>r. \<not> (apr_Env r = env \<and> apr_Kind r = ri_Kind i \<and> apr_Name r = ri_Name i)) (dd_resources db)\<rparr>"

definition upsertAppliedProject :: "applied_project \<Rightarrow> deploy_db \<Rightarrow> deploy_db" where
  "upsertAppliedProject p db = db\<lparr>dd_projects := upsert projectKey p (dd_projects db)\<rparr>"

definition getAppliedProject :: "string \<Rightarrow> string \<Rightarrow> deploy_db \<Rightarrow> applied_project option" where
  "getAppliedProject env projectName db =
     find (\<lambda>p. apj_Env p = env \<and> apj_ProjectName p = projectName) (dd_projects db)"

subsection \<open>Artifacts and snapshots\<close>

definition putArtifact :: "deployment_artifact \<Rightarrow> deploy_db \<Rightarrow> deploy_db" where
  "putArtifact a db = db\<lparr>dd_artifacts := insertNew da_Digest a (dd_artifacts db)\<rparr>"

definition getArtifact :: "string \<Rightarrow> deploy_db \<Rightarrow> deployment_artifact option" where
  "getArtifact digest db = find (\<lambda>a. da_Digest a = digest) (dd_artifacts db)"

definition putSnapshot :: "deployment_snapshot \<Rightarrow> deploy_db \<Rightarrow> deploy_db" where
  "putSnapshot s db = db\<lparr>dd_snapshots := insertNew sn_Digest s (dd_snapshots db)\<rparr>"

definition getSnapshot :: "string \<Rightarrow> deploy_db \<Rightarrow> deployment_snapshot option" where
  "getSnapshot digest db = find (\<lambda>s. sn_Digest s = digest) (dd_snapshots db)"

definition setCurrentSnapshot :: "string \<Rightarrow> string \<Rightarrow> deploy_db \<Rightarrow> deploy_db" where
  "setCurrentSnapshot env digest db = db\<lparr>dd_current := upsert fst (env, digest) (dd_current db)\<rparr>"

definition currentSnapshotDigestForEnv :: "string \<Rightarrow> deploy_db \<Rightarrow> string option" where
  "currentSnapshotDigestForEnv env db = map_of (dd_current db) env"

definition snapshotRefs :: "deployment_snapshot \<Rightarrow> string list" where
  "snapshotRefs s =
     filter (\<lambda>d. d \<noteq> [])
       [sn_GraphDigest s, sn_ExecutionIRDigest s, sn_CapabilityManifestDigest s, sn_SchemaBundleDigest s]"

definition snapshotInUse :: "deploy_db \<Rightarrow> string \<Rightarrow> bool" where
  "snapshotInUse db digest \<longleftrightarrow>
     digest \<in> set (filter (\<lambda>d. d \<noteq> []) (dd_runRefs db)) \<or> digest \<in> set (map snd (dd_current db))"

definition pruneUnreferencedArtifacts :: "deploy_db \<Rightarrow> nat \<times> deploy_db" where
  "pruneUnreferencedArtifacts db =
     (let snaps = filter (\<lambda>s. snapshotInUse db (sn_Digest s)) (dd_snapshots db);
          arts = filter (\<lambda>a. da_Digest a \<in> set (concat (map snapshotRefs snaps))) (dd_artifacts db)
      in (length (dd_snapshots db) - length snaps + (length (dd_artifacts db) - length arts),
          db\<lparr>dd_snapshots := snaps, dd_artifacts := arts\<rparr>))"

subsection \<open>Transactions\<close>

text \<open>The transaction commits only when the function succeeds; otherwise it is rolled back.\<close>

definition RunDeploymentTx ::
  "(deploy_db \<Rightarrow> ('e, deploy_db) result) \<Rightarrow> deploy_db \<Rightarrow> 'e option \<times> deploy_db" where
  "RunDeploymentTx fn db = (case fn db of Inl e \<Rightarrow> (Some e, db) | Inr db' \<Rightarrow> (None, db'))"

subsection \<open>Laws of the tables\<close>

definition wf_db :: "deploy_db \<Rightarrow> bool" where
  "wf_db db \<longleftrightarrow>
     distinct (map rowKey (dd_resources db)) \<and> distinct (map projectKey (dd_projects db)) \<and>
     distinct (map da_Digest (dd_artifacts db)) \<and> distinct (map sn_Digest (dd_snapshots db)) \<and>
     distinct (map fst (dd_current db))"

text \<open>
  A table as a map from keys to rows: what an upsert, an insertion of a new row and a
  deletion do to lookups, under the primary-key invariant.
\<close>

definition rowAt :: "('a \<Rightarrow> 'k) \<Rightarrow> 'a list \<Rightarrow> 'k \<Rightarrow> 'a option" where
  "rowAt key rows k = find (\<lambda>r. key r = k) rows"

lemma rowAt_simps [simp]:
  "rowAt key [] k = None"
  "rowAt key (r # rows) k = (if key r = k then Some r else rowAt key rows k)"
  by (simp_all add: rowAt_def)

lemma rowAt_append: "rowAt key (xs @ ys) k = (case rowAt key xs k of None \<Rightarrow> rowAt key ys k | Some r \<Rightarrow> Some r)"
  by (induction xs) auto

lemma rowAt_None: "rowAt key rows k = None \<longleftrightarrow> k \<notin> key ` set rows"
  by (induction rows) auto

lemma rowAt_key: "rowAt key rows k = Some r \<Longrightarrow> key r = k \<and> r \<in> set rows"
  by (induction rows) (auto split: if_splits)

lemma rowAt_upsert: "rowAt key (upsert key r rows) = (rowAt key rows)(key r \<mapsto> r)"
proof
  fix k
  have "rowAt key (map (\<lambda>x. if key x = key r then r else x) rows) k =
      (if k = key r then (if key r \<in> key ` set rows then Some r else None) else rowAt key rows k)"
    by (induction rows) auto
  moreover have "rowAt key rows (key r) = None" if "key r \<notin> key ` set rows"
    using that by (simp add: rowAt_None)
  ultimately show "rowAt key (upsert key r rows) k = ((rowAt key rows)(key r \<mapsto> r)) k"
    by (cases "k = key r"; cases "key r \<in> key ` set rows"; cases "rowAt key rows k")
      (simp_all add: upsert_def rowAt_append)
qed

lemma rowAt_filter: "rowAt key (filter (\<lambda>x. P (key x)) rows) k = (if P k then rowAt key rows k else None)"
  by (induction rows) auto

lemma distinct_upsert: "distinct (map key rows) \<Longrightarrow> distinct (map key (upsert key r rows))"
proof -
  have "map key (map (\<lambda>x. if key x = key r then r else x) rows) = map key rows" by simp
  then show "distinct (map key rows) \<Longrightarrow> distinct (map key (upsert key r rows))"
    by (simp add: upsert_def del: map_map)
qed

lemma distinct_insertNew: "distinct (map key rows) \<Longrightarrow> distinct (map key (insertNew key r rows))"
  by (auto simp: insertNew_def)

lemma set_rowAt: "distinct (map key rows) \<Longrightarrow> r \<in> set rows \<longleftrightarrow> rowAt key rows (key r) = Some r"
proof (induction rows)
  case (Cons x rows)
  then show ?case by (auto simp: image_iff)
qed simp

lemma wf_db_ops:
  assumes "wf_db db"
  shows "wf_db (upsertAppliedResource r db)" "wf_db (deleteAppliedResource env i db)"
    "wf_db (upsertAppliedProject p db)" "wf_db (putArtifact a db)" "wf_db (putSnapshot s db)"
    "wf_db (setCurrentSnapshot env d db)" "wf_db (snd (pruneUnreferencedArtifacts db))"
  using assms distinct_upsert [of rowKey "dd_resources db" r] distinct_upsert [of projectKey "dd_projects db" p]
    distinct_upsert [of fst "dd_current db" "(env, d)"]
  by (simp_all add: wf_db_def upsertAppliedResource_def deleteAppliedResource_def upsertAppliedProject_def
      putArtifact_def putSnapshot_def setCurrentSnapshot_def pruneUnreferencedArtifacts_def Let_def
      distinct_insertNew distinct_map_filter)

subsection \<open>Pruning\<close>

lemma rowAt_upd: "getSnapshot d db = rowAt sn_Digest (dd_snapshots db) d" "getArtifact d db = rowAt da_Digest (dd_artifacts db) d"
  by (simp_all add: getSnapshot_def getArtifact_def rowAt_def)

lemma current_env:
  "wf_db db \<Longrightarrow> d \<in> set (map snd (dd_current db)) \<longleftrightarrow> (\<exists>env. currentSnapshotDigestForEnv env db = Some d)"
  by (force simp: wf_db_def currentSnapshotDigestForEnv_def)

lemma getSnapshot_mem:
  "wf_db db \<Longrightarrow> s \<in> set (dd_snapshots db) \<longleftrightarrow> getSnapshot (sn_Digest s) db = Some s"
  unfolding rowAt_upd by (rule set_rowAt) (simp add: wf_db_def)

lemma getSnapshot_digest: "getSnapshot d db = Some s \<Longrightarrow> sn_Digest s = d"
  unfolding rowAt_upd using rowAt_key by metis

lemma prune_snapshot:
  "getSnapshot d (snd (pruneUnreferencedArtifacts db)) = (if snapshotInUse db d then getSnapshot d db else None)"
  using rowAt_filter [of sn_Digest "snapshotInUse db" "dd_snapshots db" d]
  by (simp add: rowAt_upd pruneUnreferencedArtifacts_def Let_def)

lemma prune_artifact:
  "getArtifact d (snd (pruneUnreferencedArtifacts db)) =
     (if d \<in> set (concat (map snapshotRefs (dd_snapshots (snd (pruneUnreferencedArtifacts db)))))
      then getArtifact d db else None)"
proof -
  let ?P = "\<lambda>d. d \<in> set (concat (map snapshotRefs (dd_snapshots (snd (pruneUnreferencedArtifacts db)))))"
  have "dd_artifacts (snd (pruneUnreferencedArtifacts db)) = filter (\<lambda>a. ?P (da_Digest a)) (dd_artifacts db)"
    by (simp add: pruneUnreferencedArtifacts_def Let_def)
  then show ?thesis unfolding rowAt_upd by (simp only: rowAt_filter [of da_Digest ?P])
qed

text \<open>
  What the readers of the store need: the snapshot of every run that names one and of every
  environment's current deployment is there, and so are the artifacts its four digests name.
\<close>

definition resolvable :: "deploy_db \<Rightarrow> string \<Rightarrow> bool" where
  "resolvable db d =
     (case getSnapshot d db of
        None \<Rightarrow> False
      | Some s \<Rightarrow>
          (sn_GraphDigest s \<noteq> [] \<longrightarrow> getArtifact (sn_GraphDigest s) db \<noteq> None) \<and>
          (sn_ExecutionIRDigest s \<noteq> [] \<longrightarrow> getArtifact (sn_ExecutionIRDigest s) db \<noteq> None) \<and>
          (sn_CapabilityManifestDigest s \<noteq> [] \<longrightarrow> getArtifact (sn_CapabilityManifestDigest s) db \<noteq> None) \<and>
          (sn_SchemaBundleDigest s \<noteq> [] \<longrightarrow> getArtifact (sn_SchemaBundleDigest s) db \<noteq> None))"

text \<open>
  C29. Pruning removes exactly what nobody can reach. In a store whose primary keys are unique: a
  snapshot is kept, unchanged, if and only if some run names it or it is the one the store reports as
  current for some environment; an artifact is kept, unchanged, if and only if it is the graph, the
  execution IR, the capability manifest or the schema bundle of a kept snapshot; the tables of applied
  resources and projects, the runs' references and the current deployments are untouched; and every
  run and every environment whose deployment could be resolved, with all its artifacts, still can be.
\<close>

theorem prune_keeps_exactly_live:
  assumes "wf_db db" "db' = snd (pruneUnreferencedArtifacts db)"
  shows "(\<forall>d s. getSnapshot d db' = Some s \<longleftrightarrow> getSnapshot d db = Some s \<and>
        (d \<in> set (dd_runRefs db) \<and> d \<noteq> [] \<or> (\<exists>env. currentSnapshotDigestForEnv env db = Some d))) \<and>
    (\<forall>d a. getArtifact d db' = Some a \<longleftrightarrow> getArtifact d db = Some a \<and> d \<noteq> [] \<and>
        (\<exists>k s. getSnapshot k db' = Some s \<and>
          (d = sn_GraphDigest s \<or> d = sn_ExecutionIRDigest s \<or> d = sn_CapabilityManifestDigest s \<or>
           d = sn_SchemaBundleDigest s))) \<and>
    dd_resources db' = dd_resources db \<and> dd_projects db' = dd_projects db \<and>
    dd_runRefs db' = dd_runRefs db \<and> dd_current db' = dd_current db \<and>
    (\<forall>d. (d \<in> set (dd_runRefs db) \<and> d \<noteq> [] \<or> (\<exists>env. currentSnapshotDigestForEnv env db = Some d)) \<and>
        resolvable db d \<longrightarrow> resolvable db' d)"
proof -
  have use: "snapshotInUse db d \<longleftrightarrow>
      d \<in> set (dd_runRefs db) \<and> d \<noteq> [] \<or> (\<exists>env. currentSnapshotDigestForEnv env db = Some d)" for d
    unfolding snapshotInUse_def current_env [OF assms(1)] by auto
  have snap: "getSnapshot d db' = (if snapshotInUse db d then getSnapshot d db else None)" for d
    unfolding assms(2) by (rule prune_snapshot)
  have mem: "s \<in> set (dd_snapshots db') \<longleftrightarrow> (\<exists>k. getSnapshot k db' = Some s)" for s
    using getSnapshot_mem [OF wf_db_ops(7) [OF assms(1)]] getSnapshot_digest unfolding assms(2) by blast
  have one: "d \<in> set (snapshotRefs s) \<longleftrightarrow> d \<noteq> [] \<and> (d = sn_GraphDigest s \<or> d = sn_ExecutionIRDigest s \<or>
        d = sn_CapabilityManifestDigest s \<or> d = sn_SchemaBundleDigest s)" for d s
    unfolding snapshotRefs_def set_filter mem_Collect_eq list.set insert_iff empty_iff by blast
  have refs: "d \<in> set (concat (map snapshotRefs (dd_snapshots db'))) \<longleftrightarrow> d \<noteq> [] \<and>
      (\<exists>k s. getSnapshot k db' = Some s \<and> (d = sn_GraphDigest s \<or> d = sn_ExecutionIRDigest s \<or>
        d = sn_CapabilityManifestDigest s \<or> d = sn_SchemaBundleDigest s))" (is "?m d \<longleftrightarrow> _") for d
  proof -
    have "?m d \<longleftrightarrow> (\<exists>s \<in> set (dd_snapshots db'). d \<in> set (snapshotRefs s))" by simp
    then show ?thesis unfolding one Bex_def mem by blast
  qed
  have art: "getArtifact d db' = (if ?m d then getArtifact d db else None)" for d
    unfolding assms(2) by (rule prune_artifact)
  have keep: "resolvable db' d" if live: "snapshotInUse db d" and ok: "resolvable db d" for d
  proof -
    obtain s where s: "getSnapshot d db = Some s" using ok by (auto simp: resolvable_def split: option.splits)
    then have s': "getSnapshot d db' = Some s" using live by (simp add: snap)
    have "getArtifact x db' = getArtifact x db" if "x \<noteq> []" "x = sn_GraphDigest s \<or> x = sn_ExecutionIRDigest s \<or>
        x = sn_CapabilityManifestDigest s \<or> x = sn_SchemaBundleDigest s" for x
    proof -
      have "?m x" unfolding refs using that s' by blast
      then show ?thesis unfolding art by (rule if_P)
    qed
    then show ?thesis using ok s s' by (simp add: resolvable_def)
  qed
  show ?thesis
  proof (intro conjI allI)
    show "getSnapshot d db' = Some s \<longleftrightarrow> getSnapshot d db = Some s \<and>
        (d \<in> set (dd_runRefs db) \<and> d \<noteq> [] \<or> (\<exists>env. currentSnapshotDigestForEnv env db = Some d))" for d s
      unfolding snap use [symmetric] by simp
    show "getArtifact d db' = Some a \<longleftrightarrow> getArtifact d db = Some a \<and> d \<noteq> [] \<and>
        (\<exists>k s. getSnapshot k db' = Some s \<and>
          (d = sn_GraphDigest s \<or> d = sn_ExecutionIRDigest s \<or> d = sn_CapabilityManifestDigest s \<or>
           d = sn_SchemaBundleDigest s))" for d a
      unfolding art refs by simp
    show "(d \<in> set (dd_runRefs db) \<and> d \<noteq> [] \<or> (\<exists>env. currentSnapshotDigestForEnv env db = Some d)) \<and>
        resolvable db d \<longrightarrow> resolvable db' d" for d
      using keep [of d] unfolding use by blast
  qed (simp_all add: assms(2) pruneUnreferencedArtifacts_def Let_def)
qed

definition demo_snapshot :: "string \<Rightarrow> string \<Rightarrow> deployment_snapshot" where
  "demo_snapshot d g = \<lparr>sn_Digest = d, sn_FormatVersion = ''1'', sn_CompilerVersion = ''1'', sn_Environment = ''prod'',
     sn_GraphDigest = g, sn_ExecutionIRDigest = [], sn_CapabilityManifestDigest = [], sn_SchemaBundleDigest = [],
     sn_CreatedAt = \<lparr>ut_Year = 2025, ut_Month = 1, ut_Day = 1, ut_Hour = 0, ut_Minute = 0, ut_Second = 0,
       ut_Nanosecond = 0\<rparr>\<rparr>"

definition demo_artifact :: "string \<Rightarrow> deployment_artifact" where
  "demo_artifact d = \<lparr>da_Digest = d, da_Kind = ''graph'', da_FormatVersion = ''1'', da_Payload = [],
     da_CreatedAt = sn_CreatedAt (demo_snapshot d d)\<rparr>"

text \<open>Snapshot \<open>old\<close> is superseded; \<open>new\<close> is current and \<open>run\<close> belongs to a run.\<close>

definition demo_store :: deploy_db where
  "demo_store = \<lparr>dd_resources = [], dd_projects = [],
     dd_artifacts = [demo_artifact ''g1'', demo_artifact ''g2'', demo_artifact ''g3''],
     dd_snapshots = [demo_snapshot ''old'' ''g1'', demo_snapshot ''new'' ''g2'', demo_snapshot ''run'' ''g3''],
     dd_current = [(''prod'', ''new'')], dd_runRefs = [''run'', []]\<rparr>"

theorem prune_keeps_exactly_live_witness:
  "resolvable (snd (pruneUnreferencedArtifacts demo_store)) ''new'' \<and>
   resolvable (snd (pruneUnreferencedArtifacts demo_store)) ''run'' \<and>
   getSnapshot ''old'' (snd (pruneUnreferencedArtifacts demo_store)) = None"
proof -
  have wf: "wf_db demo_store" by (simp add: wf_db_def demo_store_def demo_snapshot_def demo_artifact_def)
  note p = prune_keeps_exactly_live [OF wf refl]
  have "currentSnapshotDigestForEnv ''prod'' demo_store = Some ''new''" "''run'' \<in> set (dd_runRefs demo_store)"
    "resolvable demo_store ''new''" "resolvable demo_store ''run''"
    by (simp_all add: demo_store_def currentSnapshotDigestForEnv_def resolvable_def getSnapshot_def getArtifact_def
        demo_snapshot_def demo_artifact_def)
  moreover have "\<not> (''old'' \<in> set (dd_runRefs demo_store) \<or> (\<exists>env. currentSnapshotDigestForEnv env demo_store = Some ''old''))"
    by (auto simp: demo_store_def currentSnapshotDigestForEnv_def)
  moreover have "getSnapshot ''old'' (snd (pruneUnreferencedArtifacts demo_store)) \<noteq> Some s" for s
    using p [THEN conjunct1, rule_format, of "''old''" s] calculation by blast
  moreover have "''run'' \<noteq> ([] :: string)" by simp
  ultimately show ?thesis using p by blast
qed

end
