(* ===== verification/Exec_Eval.thy ===== *)
theory Exec_Eval
  imports Json_Num
begin

text \<open>
  The execution IR (\<open>internal/execir/execir.go\<close>) and the evaluation of its operands and
  conditions (\<open>internal/execir/eval.go\<close>). A nil interface is a constructor of its own
  (\<open>VNil\<close>, \<open>ENil\<close>, \<open>NilNode\<close>); source positions are left out.
\<close>

subsection \<open>The execution IR\<close>

datatype ir_value =
    Ref "string list"
  | Lit any
  | Object "(string \<times> ir_value) list"
  | List "ir_value list"
  | Template "ir_value list"
  | VNil

datatype ir_expr = Leaf ir_value | NotX ir_expr | BinOp string ir_expr ir_expr | ENil

type_synonym ir_args = "ir_value gomap"

datatype node =
    InvokeTool (it_Bind: string) (it_Uses: string) (it_Args: ir_args)
  | InvokeAgent (ia_Bind: string) (ia_Agent: string) (ia_Args: ir_args) (ia_WholeDocument: bool)
  | InvokeWorkflow (iw_Bind: string) (iw_Workflow: string) (iw_Args: ir_args)
      (iw_WholeDocument: bool) (iw_ProjectValue: bool)
  | LetBind (lb_Bind: string) (lb_Value: ir_value)
  | Branch (br_Cond: ir_expr) (br_Then: "node list") (br_Else: "node list")
  | Fork "fork_branch list"
  | Loop (lp_Var: string) (lp_Collection: ir_value) (lp_Body: "node list") (lp_Parallel: bool)
  | While (wh_Cond: ir_expr) (wh_Limit: int) (wh_Body: "node list")
  | Retry (rt_Cond: ir_expr) (rt_Limit: int) (rt_Body: "node list")
  | Return ir_value
  | Graph "graph_node list"
  | Approval (ap_Bind: string) (ap_Description: string) (ap_RedactKeys: "string list") (ap_Args: ir_args)
  | NilNode
and fork_branch = ForkBranch (fb_Bind: string) (fb_Nodes: "node list")
and graph_node = GraphNode (gn_ID: string) (gn_Needs: "string list") (gn_Run: node)

record program =
  pg_Workflow :: string
  pg_Params :: "string list"
  pg_Body :: "node list"

datatype exec_error =
    ErrSuspend
  | ErrCanceled
  | ErrInvoke string
  | ErrEmptyPath
  | ErrUnresolved string
  | ErrNotAList
  | ErrNilCondition
  | ErrNotAValue
  | ErrUnknownOp string
  | ErrNotNumeric string
  | ErrDiverged string int int
  | ErrTooManyItems nat int
  | ErrRetryExhausted int
  | ErrProjectValue string
  | ErrNoRunnable
  | ErrUnknownNode
  | ErrSeedMemo string json_error
  | ErrInput json_error
  | ErrResult string json_error

type_synonym 'a eval = "(exec_error, 'a) result"

type_synonym scope = "any gomap"

subsection \<open>Operands\<close>

fun walkPath :: "any \<Rightarrow> string list \<Rightarrow> any" where
  "walkPath cur [] = cur"
| "walkPath cur (seg # path) =
     (case cur of
        AObj m \<Rightarrow> walkPath (case map_of m seg of None \<Rightarrow> ANil | Some v \<Rightarrow> v) path
      | _ \<Rightarrow> ANil)"

fun resolvePath :: "scope \<Rightarrow> string list \<Rightarrow> any eval" where
  "resolvePath scope [] = Inl ErrEmptyPath"
| "resolvePath scope (h # path) =
     (case map_of scope h of
        None \<Rightarrow> Inl (ErrUnresolved h)
      | Some cur \<Rightarrow> Inr (walkPath cur path))"

definition stringify :: "go_text \<Rightarrow> any \<Rightarrow> string" where
  "stringify T v =
     (case v of
        ANil \<Rightarrow> []
      | AStr s \<Rightarrow> s
      | ABool b \<Rightarrow> (if b then ''true'' else ''false'')
      | AInt i \<Rightarrow> showInt i
      | AFloat x \<Rightarrow> gt_g T x
      | _ \<Rightarrow> (case marshal (gt_json T) v of Some b \<Rightarrow> b | None \<Rightarrow> gt_v T v))"

fun evalValue :: "go_text \<Rightarrow> scope \<Rightarrow> ir_value \<Rightarrow> any eval"
  and evalFields :: "go_text \<Rightarrow> scope \<Rightarrow> (string \<times> ir_value) list \<Rightarrow> (string \<times> any) list \<Rightarrow> any gomap eval"
  and evalElems :: "go_text \<Rightarrow> scope \<Rightarrow> ir_value list \<Rightarrow> any list eval"
  and evalParts :: "go_text \<Rightarrow> scope \<Rightarrow> ir_value list \<Rightarrow> string eval" where
  "evalValue T scope (Lit v) = Inr v"
| "evalValue T scope (Ref path) = resolvePath scope path"
| "evalValue T scope (Object flds) =
     (case evalFields T scope flds [] of Inl e \<Rightarrow> Inl e | Inr m \<Rightarrow> Inr (AObj m))"
| "evalValue T scope (List elems) =
     (case evalElems T scope elems of Inl e \<Rightarrow> Inl e | Inr xs \<Rightarrow> Inr (AArr xs))"
| "evalValue T scope (Template parts) =
     (case evalParts T scope parts of Inl e \<Rightarrow> Inl e | Inr s \<Rightarrow> Inr (AStr s))"
| "evalValue T scope VNil = Inr ANil"
| "evalFields T scope [] out = Inr out"
| "evalFields T scope ((k, v) # flds) out =
     (case evalValue T scope v of
        Inl e \<Rightarrow> Inl e
      | Inr x \<Rightarrow> evalFields T scope flds (put k x out))"
| "evalElems T scope [] = Inr []"
| "evalElems T scope (v # vs) =
     (case evalValue T scope v of
        Inl e \<Rightarrow> Inl e
      | Inr x \<Rightarrow> (case evalElems T scope vs of Inl e \<Rightarrow> Inl e | Inr xs \<Rightarrow> Inr (x # xs)))"
| "evalParts T scope [] = Inr []"
| "evalParts T scope (v # vs) =
     (case evalValue T scope v of
        Inl e \<Rightarrow> Inl e
      | Inr x \<Rightarrow> (case evalParts T scope vs of Inl e \<Rightarrow> Inl e | Inr s \<Rightarrow> Inr (stringify T x @ s)))"

text \<open>An empty argument map evaluates to a nil map, which reads like an empty one.\<close>

definition evalArgs :: "go_text \<Rightarrow> scope \<Rightarrow> ir_args \<Rightarrow> any gomap eval" where
  "evalArgs T scope args = evalFields T scope args []"

definition evalCollection :: "go_text \<Rightarrow> scope \<Rightarrow> ir_value \<Rightarrow> any list eval" where
  "evalCollection T scope v =
     (case evalValue T scope v of
        Inl e \<Rightarrow> Inl e
      | Inr ANil \<Rightarrow> Inr []
      | Inr (AArr xs) \<Rightarrow> Inr xs
      | Inr _ \<Rightarrow> Inl ErrNotAList)"

subsection \<open>Numeric comparison\<close>

definition asInt64 :: "any \<Rightarrow> int option" where
  "asInt64 v = (case v of AInt i \<Rightarrow> Some i | _ \<Rightarrow> None)"

definition asFloat64 :: "any \<Rightarrow> float64 option" where
  "asFloat64 v = (case v of AFloat f \<Rightarrow> Some f | _ \<Rightarrow> None)"

definition isNumeric :: "any \<Rightarrow> bool" where
  "isNumeric v \<longleftrightarrow> asInt64 v \<noteq> None \<or> asFloat64 v \<noteq> None"

definition cmpInt64 :: "int \<Rightarrow> int \<Rightarrow> int" where
  "cmpInt64 a b = (if a < b then - 1 else if a > b then 1 else 0)"

definition maxExactInt :: int where
  "maxExactInt = 2 ^ 53"

text \<open>
  The conversion \<open>float64(i)\<close> of an \<open>int64\<close>: 53 significant bits, rounded to the nearest
  multiple of the last one, ties to the even neighbour.
\<close>

fun bitLen :: "nat \<Rightarrow> nat" where
  "bitLen n = (if n = 0 then 0 else Suc (bitLen (n div 2)))"

definition roundToBits :: "nat \<Rightarrow> nat \<Rightarrow> nat" where
  "roundToBits b n =
     (let e = bitLen n - b; m = n div 2 ^ e; r = 2 * (n mod 2 ^ e)
      in (if 2 ^ e < r \<or> 2 ^ e = r \<and> odd m then Suc m else m) * 2 ^ e)"

definition float64OfInt :: "int \<Rightarrow> rat" where
  "float64OfInt i = (if i < 0 then - rat_of_nat (roundToBits 53 (nat (- i))) else rat_of_nat (roundToBits 53 (nat i)))"

definition compareIntFloat :: "int \<Rightarrow> float64 \<Rightarrow> int option" where
  "compareIntFloat i f =
     (case f of
        NaN \<Rightarrow> None
      | PosInf \<Rightarrow> Some (- 1)
      | NegInf \<Rightarrow> Some 1
      | Fin q \<Rightarrow>
          if i \<ge> - maxExactInt \<and> i \<le> maxExactInt then
            (let fi = float64OfInt i
             in if fi < q then Some (- 1) else if fi > q then Some 1 else Some 0)
          else if q \<ge> 2 ^ 63 then Some (- 1)
          else if q < - (2 ^ 63) then Some 1
          else
            let ti = truncRat q
            in if q = rat_of_int ti then Some (cmpInt64 i ti)
               else if q > 0 then (if i \<le> ti then Some (- 1) else Some 1)
               else if i < ti then Some (- 1) else Some 1)"

definition compareFloats :: "float64 \<Rightarrow> float64 \<Rightarrow> int option" where
  "compareFloats a b =
     (if a = NaN \<or> b = NaN then None
      else if f64_less a b then Some (- 1)
      else if f64_less b a then Some 1
      else Some 0)"

definition tryCompareNumeric :: "any \<Rightarrow> any \<Rightarrow> int option" where
  "tryCompareNumeric a b =
     (case (asInt64 a, asInt64 b, asFloat64 a, asFloat64 b) of
        (Some ai, Some bi, _, _) \<Rightarrow> Some (cmpInt64 ai bi)
      | (Some ai, _, _, Some bf) \<Rightarrow> compareIntFloat ai bf
      | (_, Some bi, Some af, _) \<Rightarrow> map_option uminus (compareIntFloat bi af)
      | (_, _, Some af, Some bf) \<Rightarrow> compareFloats af bf
      | _ \<Rightarrow> None)"

subsection \<open>Conditions\<close>

definition truthy :: "any \<Rightarrow> bool" where
  "truthy v = (case v of ANil \<Rightarrow> False | ABool b \<Rightarrow> b | _ \<Rightarrow> True)"

fun irValuesEqual :: "any \<Rightarrow> any \<Rightarrow> bool"
  and irListsEqual :: "any list \<Rightarrow> any list \<Rightarrow> bool"
  and irEntriesEqual :: "(string \<times> any) list \<Rightarrow> any gomap \<Rightarrow> bool" where
  "irValuesEqual (AArr xs) b =
     (case b of AArr ys \<Rightarrow> length xs = length ys \<and> irListsEqual xs ys | _ \<Rightarrow> False)"
| "irValuesEqual (AObj m) b =
     (case b of AObj n \<Rightarrow> length m = length n \<and> irEntriesEqual m n | _ \<Rightarrow> False)"
| "irValuesEqual a b =
     (case tryCompareNumeric a b of
        Some c \<Rightarrow> c = 0
      | None \<Rightarrow> if isNumeric a \<or> isNumeric b then False else deepEqual a b)"
| "irListsEqual (x # xs) (y # ys) = (irValuesEqual x y \<and> irListsEqual xs ys)"
| "irListsEqual xs ys = True"
| "irEntriesEqual [] n = True"
| "irEntriesEqual ((k, va) # m) n =
     ((case map_of n k of None \<Rightarrow> False | Some vb \<Rightarrow> irValuesEqual va vb) \<and> irEntriesEqual m n)"

definition compareOrdered :: "string \<Rightarrow> any \<Rightarrow> any \<Rightarrow> bool eval" where
  "compareOrdered op a b =
     (case tryCompareNumeric a b of
        None \<Rightarrow> if isNumeric a \<and> isNumeric b then Inr False else Inl (ErrNotNumeric op)
      | Some c \<Rightarrow>
          if op = ''<'' then Inr (c < 0)
          else if op = ''<='' then Inr (c \<le> 0)
          else if op = ''>'' then Inr (c > 0)
          else if op = ''>='' then Inr (c \<ge> 0)
          else Inl (ErrUnknownOp op))"

definition leafValue :: "go_text \<Rightarrow> scope \<Rightarrow> ir_expr \<Rightarrow> any eval" where
  "leafValue T scope e = (case e of Leaf v \<Rightarrow> evalValue T scope v | _ \<Rightarrow> Inl ErrNotAValue)"

definition evalComparison :: "string \<Rightarrow> any \<Rightarrow> any \<Rightarrow> bool eval" where
  "evalComparison op lv rv =
     (if op = ''=='' then Inr (irValuesEqual lv rv)
      else if op = ''!='' then Inr (\<not> irValuesEqual lv rv)
      else if op \<in> {''<'', ''<='', ''>'', ''>=''} then compareOrdered op lv rv
      else Inl (ErrUnknownOp op))"

fun evalExpr :: "go_text \<Rightarrow> scope \<Rightarrow> ir_expr \<Rightarrow> bool eval" where
  "evalExpr T scope ENil = Inl ErrNilCondition"
| "evalExpr T scope (Leaf v) =
     (case evalValue T scope v of Inl e \<Rightarrow> Inl e | Inr x \<Rightarrow> Inr (truthy x))"
| "evalExpr T scope (NotX x) =
     (case evalExpr T scope x of Inl e \<Rightarrow> Inl e | Inr b \<Rightarrow> Inr (\<not> b))"
| "evalExpr T scope (BinOp op x y) =
     (if op = ''&&'' then
        (case evalExpr T scope x of
           Inl e \<Rightarrow> Inl e
         | Inr l \<Rightarrow> if \<not> l then Inr False else evalExpr T scope y)
      else if op = ''||'' then
        (case evalExpr T scope x of
           Inl e \<Rightarrow> Inl e
         | Inr l \<Rightarrow> if l then Inr True else evalExpr T scope y)
      else
        (case leafValue T scope x of
           Inl e \<Rightarrow> Inl e
         | Inr lv \<Rightarrow>
             (case leafValue T scope y of
                Inl e \<Rightarrow> Inl e
              | Inr rv \<Rightarrow> evalComparison op lv rv)))"


subsection \<open>Comparisons are exact\<close>

text \<open>The conversion is exact up to \<open>2^53\<close>, and no further.\<close>

lemma bitLen_le: "n < 2 ^ b \<Longrightarrow> bitLen n \<le> b"
proof (induction b arbitrary: n)
  case (Suc b)
  then have "n div 2 < 2 ^ b" by simp
  from Suc.IH [OF this] show ?case by (subst bitLen.simps) simp
qed simp

lemma roundToBits_exact:
  assumes "n \<le> 2 ^ Suc k"
  shows "roundToBits (Suc k) n = n"
proof (cases "n < 2 ^ Suc k")
  case True
  then show ?thesis using bitLen_le by (simp add: roundToBits_def)
next
  case False
  then have n: "n = 2 ^ Suc k" using assms by simp
  have len: "bitLen (2 ^ j) = Suc j" for j by (induction j) simp_all
  have "(2 :: nat) ^ Suc k div 2 = 2 ^ k" "(2 :: nat) ^ Suc k mod 2 = 0" by simp_all
  then show ?thesis unfolding n roundToBits_def Let_def len by simp
qed

lemma float64OfInt_exact: "- maxExactInt \<le> i \<Longrightarrow> i \<le> maxExactInt \<Longrightarrow> float64OfInt i = rat_of_int i"
  using roundToBits_exact [of _ 52] by (auto simp: float64OfInt_def maxExactInt_def nat_le_iff)

lemma float64OfInt_rounds: "float64OfInt 9007199254740993 = 9007199254740992"
  by (simp add: float64OfInt_def roundToBits_def)

declare bitLen.simps [simp del]

text \<open>The number a numeric value denotes.\<close>

definition numOf :: "any \<Rightarrow> float64 option" where
  "numOf v = (case v of AInt i \<Rightarrow> Some (Fin (rat_of_int i)) | AFloat f \<Rightarrow> Some f | _ \<Rightarrow> None)"

definition cmpOf :: "float64 \<Rightarrow> float64 \<Rightarrow> int" where
  "cmpOf x y = (if f64_less x y then - 1 else if f64_less y x then 1 else 0)"

lemma truncRat_pos:
  assumes "q \<noteq> rat_of_int (truncRat q)" "0 < q"
  shows "rat_of_int (truncRat q) < q \<and> q < rat_of_int (truncRat q + 1)"
proof -
  have "truncRat q = \<lfloor>q\<rfloor>" using assms(2) by (simp add: truncRat_def)
  then show ?thesis using assms(1) floor_correct [of q] by (auto simp: order.strict_iff_order)
qed

lemma truncRat_neg:
  assumes "q \<noteq> rat_of_int (truncRat q)" "\<not> 0 < q"
  shows "rat_of_int (truncRat q - 1) < q \<and> q < rat_of_int (truncRat q)"
proof -
  have "q \<noteq> 0" using assms(1) by (auto simp: truncRat_def)
  then have "truncRat q = \<lceil>q\<rceil>" using assms(2) by (simp add: truncRat_def)
  then show ?thesis using assms(1) ceiling_correct [of q] by (auto simp: order.strict_iff_order)
qed

lemma compareIntFloat_exact:
  assumes "int64 i"
  shows "compareIntFloat i (Fin q) = Some (cmpOf (Fin (rat_of_int i)) (Fin q))"
proof -
  have lo: "rat_of_int (- (2 ^ 63)) \<le> rat_of_int i" and hi: "rat_of_int i < rat_of_int (2 ^ 63)"
    using assms unfolding int64_def by (simp_all only: of_int_le_iff of_int_less_iff)
  consider "i \<ge> - maxExactInt \<and> i \<le> maxExactInt"
    | "\<not> (i \<ge> - maxExactInt \<and> i \<le> maxExactInt)" "q \<ge> 2 ^ 63"
    | "\<not> (i \<ge> - maxExactInt \<and> i \<le> maxExactInt)" "q < - (2 ^ 63)"
    | "\<not> (i \<ge> - maxExactInt \<and> i \<le> maxExactInt)" "\<not> q \<ge> 2 ^ 63" "\<not> q < - (2 ^ 63)" by blast
  then show ?thesis
  proof cases
    case 1
    then show ?thesis by (simp add: compareIntFloat_def cmpOf_def Let_def float64OfInt_exact)
  next
    case 2
    then have "rat_of_int i < q" using hi by simp
    with 2 show ?thesis by (auto simp: compareIntFloat_def cmpOf_def)
  next
    case 3
    then have "q < rat_of_int i" using lo by simp
    moreover from 3 have "\<not> q \<ge> 2 ^ 63" by simp
    ultimately show ?thesis using 3 by (auto simp: compareIntFloat_def cmpOf_def)
  next
    case 4
    let ?t = "truncRat q"
    show ?thesis
    proof (cases "q = rat_of_int ?t")
      case True
      then obtain t where t: "q = rat_of_int t" "?t = t" by blast
      then have "cmpInt64 i ?t = cmpOf (Fin (rat_of_int i)) (Fin q)"
        by (simp add: cmpInt64_def cmpOf_def)
      with 4 True show ?thesis unfolding compareIntFloat_def Let_def by (simp only: float64.case if_False if_True refl)
    next
      case False
      have "i \<le> ?t \<Longrightarrow> rat_of_int i \<le> rat_of_int ?t" "\<not> i \<le> ?t \<Longrightarrow> rat_of_int (?t + 1) \<le> rat_of_int i"
        "i < ?t \<Longrightarrow> rat_of_int i \<le> rat_of_int (?t - 1)" "\<not> i < ?t \<Longrightarrow> rat_of_int ?t \<le> rat_of_int i"
        by auto
      note bounds = this
      show ?thesis
      proof (cases "0 < q")
        case True
        then show ?thesis using 4 False bounds truncRat_pos [OF False True]
          by (cases "i \<le> ?t") (simp_all add: compareIntFloat_def cmpOf_def Let_def)
      next
        case neg: False
        then show ?thesis using 4 False bounds truncRat_neg [OF False neg]
          by (cases "i < ?t") (simp_all add: compareIntFloat_def cmpOf_def Let_def)
      qed
    qed
  qed
qed


lemma f64_less_cases: "x \<noteq> NaN \<Longrightarrow> y \<noteq> NaN \<Longrightarrow> x = y \<or> f64_less x y \<or> f64_less y x"
  by (cases x; cases y) auto

lemma f64_less_asym: "f64_less x y \<Longrightarrow> \<not> f64_less y x"
  by (cases x; cases y) auto

lemma tryCompareNumeric_exact:
  assumes "numOf a = Some x" "numOf b = Some y" "x \<noteq> NaN" "y \<noteq> NaN"
    and "\<forall>i. a = AInt i \<or> b = AInt i \<longrightarrow> int64 i"
  shows "tryCompareNumeric a b = Some (cmpOf x y)"
proof -
  have swap: "- cmpOf v u = cmpOf u v" for u v
    using f64_less_asym [of u v] by (auto simp: cmpOf_def)
  have mixed: "compareIntFloat i f = Some (cmpOf (Fin (rat_of_int i)) f)" if "int64 i" "f \<noteq> NaN" for i f
    using that compareIntFloat_exact [OF that(1)] by (cases f) (auto simp: compareIntFloat_def cmpOf_def)
  show ?thesis
    using assms
    by (auto simp: numOf_def tryCompareNumeric_def asInt64_def asFloat64_def mixed swap compareFloats_def
        cmpOf_def cmpInt64_def split: any.splits dest: f64_less_asym)
qed

lemma tryCompareNumeric_nan:
  assumes "numOf a = Some x" "numOf b = Some y" "x = NaN \<or> y = NaN"
  shows "tryCompareNumeric a b = None"
  using assms
  by (auto simp: numOf_def tryCompareNumeric_def asInt64_def asFloat64_def compareFloats_def
      compareIntFloat_def split: any.splits)

lemma isNumeric_numOf: "isNumeric a \<longleftrightarrow> numOf a \<noteq> None"
  by (auto simp: isNumeric_def asInt64_def asFloat64_def numOf_def split: any.splits)

lemma irValuesEqual_numeric:
  "numOf a \<noteq> None \<Longrightarrow> irValuesEqual a b = (tryCompareNumeric a b = Some 0)"
  by (cases a) (auto simp: numOf_def isNumeric_numOf split: option.splits)

subsection \<open>Properties\<close>

text \<open>
  C10. Comparisons in conditions are exact: for any two numeric operands (64-bit integers,
  floats, or one of each) none of which is NaN, the four ordering operators and both
  equality operators agree with the order of the exact numbers: the rounding of \<open>float64(i)\<close>,
  which conflates integers above \<open>2^53\<close>, never shows; with a NaN operand every ordering is false and equality
  fails.
\<close>

theorem number_comparison_exact:
  assumes "numOf a = Some x" "numOf b = Some y" "\<forall>i. a = AInt i \<or> b = AInt i \<longrightarrow> int64 i"
  shows "evalComparison ''<'' a b = Inr (f64_less x y) \<and>
    evalComparison ''>'' a b = Inr (f64_less y x) \<and>
    evalComparison ''<='' a b = Inr (x \<noteq> NaN \<and> (f64_less x y \<or> x = y)) \<and>
    evalComparison ''>='' a b = Inr (x \<noteq> NaN \<and> (f64_less y x \<or> x = y)) \<and>
    evalComparison ''=='' a b = Inr (x \<noteq> NaN \<and> x = y) \<and>
    evalComparison ''!='' a b = Inr (\<not> (x \<noteq> NaN \<and> x = y))"
proof (cases "x = NaN \<or> y = NaN")
  case True
  have nan: "\<not> f64_less x y" "\<not> f64_less y x" "x \<noteq> NaN \<Longrightarrow> x \<noteq> y"
    using True by (auto elim: f64_less.elims)
  show ?thesis
    using assms True nan by (auto simp: evalComparison_def compareOrdered_def isNumeric_numOf
        irValuesEqual_numeric tryCompareNumeric_nan)
next
  case False
  then have xy: "x \<noteq> NaN" "y \<noteq> NaN" by auto
  have c: "cmpOf x y < 0 \<longleftrightarrow> f64_less x y" "cmpOf x y > 0 \<longleftrightarrow> f64_less y x" "cmpOf x y = 0 \<longleftrightarrow> x = y"
    using f64_less_cases [OF xy] f64_less_asym [of x y] f64_less_asym [of x x] by (auto simp: cmpOf_def)
  have le: "cmpOf x y \<le> 0 \<longleftrightarrow> f64_less x y \<or> x = y" "cmpOf x y \<ge> 0 \<longleftrightarrow> f64_less y x \<or> x = y"
    using c by linarith+
  show ?thesis
    using assms xy tryCompareNumeric_exact [OF assms(1,2) xy assms(3)]
    by (simp add: evalComparison_def compareOrdered_def irValuesEqual_numeric c le)
qed

theorem number_comparison_exact_witness:
  "evalComparison ''=='' (AInt 9007199254740993) (AFloat (Fin 9007199254740992)) = Inr False \<and>
   evalComparison ''>'' (AInt 9007199254740993) (AFloat (Fin 9007199254740992)) = Inr True"
  using number_comparison_exact [of "AInt 9007199254740993" "Fin 9007199254740993"
      "AFloat (Fin 9007199254740992)" "Fin 9007199254740992"]
  by (simp add: numOf_def int64_def)

end
