(* ===== verification/Exec_Digest.thy ===== *)
theory Exec_Digest
  imports Exec_Eval Go_Sha256
begin

text \<open>
  The digest of a program (\<open>internal/execir/digest.go\<close>): the encoding of its executable shape
  and the SHA-256 over it. \<open>quote\<close> is \<open>strconv.Quote\<close>; the float spelling and the \<open>%v\<close> verb
  come from \<open>go_text\<close>. A \<open>sort.Slice\<close> on keys is a stable sort here, which agrees with it on
  distinct keys.
\<close>

subsection \<open>Values and expressions\<close>

text \<open>A literal of a program is an \<open>int64\<close> when it is a whole number: lowering makes no Go \<open>int\<close>.\<close>

definition litKey :: "go_text \<Rightarrow> (string \<Rightarrow> string) \<Rightarrow> any \<Rightarrow> string" where
  "litKey T quote v =
     (case v of
        AStr s \<Rightarrow> ''s'' @ quote s
      | AInt i \<Rightarrow> ''i'' @ showInt i
      | AFloat x \<Rightarrow> ''f'' @ gt_g T x
      | ABool b \<Rightarrow> ''b'' @ (if b then ''true'' else ''false'')
      | _ \<Rightarrow> ''x'' @ gt_v T v)"

definition encodeEntries :: "(string \<times> string) list \<Rightarrow> string" where
  "encodeEntries es = concat (map (\<lambda>(k, s). k @ ''='' @ s @ '','') (sort_key fst es))"

fun encodeValue :: "go_text \<Rightarrow> (string \<Rightarrow> string) \<Rightarrow> ir_value \<Rightarrow> string"
  and encodeFields :: "go_text \<Rightarrow> (string \<Rightarrow> string) \<Rightarrow> (string \<times> ir_value) list \<Rightarrow> (string \<times> string) list"
  and encodeEach :: "go_text \<Rightarrow> (string \<Rightarrow> string) \<Rightarrow> char \<Rightarrow> ir_value list \<Rightarrow> string" where
  "encodeValue T quote (Ref path) = ''ref:'' @ Join path ''.''"
| "encodeValue T quote (Lit v) = ''lit:'' @ litKey T quote v"
| "encodeValue T quote (Object flds) =
     ''obj'' @ [CHR 0x7B] @ encodeEntries (encodeFields T quote flds) @ [CHR 0x7D]"
| "encodeValue T quote (List elems) = ''list['' @ encodeEach T quote CHR '','' elems @ '']''"
| "encodeValue T quote (Template parts) = ''tmpl('' @ encodeEach T quote CHR '';'' parts @ '')''"
| "encodeValue T quote VNil = ''nil''"
| "encodeFields T quote [] = []"
| "encodeFields T quote ((k, v) # flds) = (k, encodeValue T quote v) # encodeFields T quote flds"
| "encodeEach T quote c [] = []"
| "encodeEach T quote c (v # vs) = encodeValue T quote v @ [c] @ encodeEach T quote c vs"

definition encodeArgs :: "go_text \<Rightarrow> (string \<Rightarrow> string) \<Rightarrow> ir_args \<Rightarrow> string" where
  "encodeArgs T quote args = ''('' @ encodeEntries (encodeFields T quote args) @ '')''"

fun encodeExpr :: "go_text \<Rightarrow> (string \<Rightarrow> string) \<Rightarrow> ir_expr \<Rightarrow> string" where
  "encodeExpr T quote (Leaf v) = encodeValue T quote v"
| "encodeExpr T quote (NotX x) = ''!('' @ encodeExpr T quote x @ '')''"
| "encodeExpr T quote (BinOp op x y) =
     ''('' @ encodeExpr T quote x @ op @ encodeExpr T quote y @ '')''"
| "encodeExpr T quote ENil = ''nilexpr''"

subsection \<open>Nodes\<close>

definition sortedCopy :: "string list \<Rightarrow> string list" where
  "sortedCopy ss = sort ss"

text \<open>\<open>encodeNodes\<close> on the encodings of the nodes, and the same for the nodes of a graph.\<close>

definition encodeNodes :: "string list \<Rightarrow> string" where
  "encodeNodes es = [CHR 0x7B] @ concat (map (\<lambda>s. s @ '';'') es) @ [CHR 0x7D]"

definition encodeGraph :: "(string \<times> string) list \<Rightarrow> string" where
  "encodeGraph ns =
     ''graph'' @ [CHR 0x7B] @ concat (map (\<lambda>(i, s). i @ s @ '';'') (sort_key fst ns)) @ [CHR 0x7D]"

definition marked :: "bool \<Rightarrow> string \<Rightarrow> string" where
  "marked b m = (if b then m else [])"

primrec encodeNode :: "go_text \<Rightarrow> (string \<Rightarrow> string) \<Rightarrow> node \<Rightarrow> string"
  and encodeBranch :: "go_text \<Rightarrow> (string \<Rightarrow> string) \<Rightarrow> fork_branch \<Rightarrow> string"
  and encodeGraphNode :: "go_text \<Rightarrow> (string \<Rightarrow> string) \<Rightarrow> graph_node \<Rightarrow> string \<times> string" where
  "encodeNode T quote (InvokeTool b uses args) = ''tool '' @ b @ ''='' @ uses @ encodeArgs T quote args"
| "encodeNode T quote (InvokeAgent b agent args whole) =
     ''agent '' @ b @ ''='' @ agent @ marked whole ''!doc'' @ encodeArgs T quote args"
| "encodeNode T quote (InvokeWorkflow b wfl args whole project) =
     ''workflow '' @ b @ ''='' @ wfl @ marked whole ''!doc'' @ marked project ''!value''
       @ encodeArgs T quote args"
| "encodeNode T quote (LetBind b v) = ''let '' @ b @ ''='' @ encodeValue T quote v"
| "encodeNode T quote (Branch cond thn els) =
     ''branch '' @ encodeExpr T quote cond @ ''then'' @ encodeNodes (map (encodeNode T quote) thn)
       @ ''else'' @ encodeNodes (map (encodeNode T quote) els)"
| "encodeNode T quote (Fork branches) = ''fork'' @ concat (map (encodeBranch T quote) branches)"
| "encodeNode T quote (Loop var coll body par) =
     ''loop '' @ marked par ''par '' @ var @ '' in '' @ encodeValue T quote coll
       @ encodeNodes (map (encodeNode T quote) body)"
| "encodeNode T quote (While cond limit body) =
     ''while '' @ encodeExpr T quote cond @ '' limit '' @ showInt limit
       @ encodeNodes (map (encodeNode T quote) body)"
| "encodeNode T quote (Retry cond limit body) =
     ''retry until '' @ encodeExpr T quote cond @ '' limit '' @ showInt limit
       @ encodeNodes (map (encodeNode T quote) body)"
| "encodeNode T quote (Return v) = ''return '' @ encodeValue T quote v"
| "encodeNode T quote (Graph nodes) = encodeGraph (map (encodeGraphNode T quote) nodes)"
| "encodeNode T quote (Approval b desc redact args) =
     ''approval '' @ b @ '' desc:'' @ quote desc @ '' redact:['' @ Join (sortedCopy redact) '',''
       @ '']'' @ encodeArgs T quote args"
| "encodeNode T quote NilNode = ''?node''"
| "encodeBranch T quote (ForkBranch b nodes) = b @ '':'' @ encodeNodes (map (encodeNode T quote) nodes)"
| "encodeGraphNode T quote (GraphNode i needs run) =
     (i, ''['' @ Join (sortedCopy needs) '','' @ '']='' @ encodeNode T quote run)"

definition encodeProgram :: "go_text \<Rightarrow> (string \<Rightarrow> string) \<Rightarrow> program \<Rightarrow> string" where
  "encodeProgram T quote p =
     ''wf('' @ pg_Workflow p @ '')params['' @ Join (pg_Params p) '','' @ '']''
       @ encodeNodes (map (encodeNode T quote) (pg_Body p))"

definition Digest :: "go_text \<Rightarrow> (string \<Rightarrow> string) \<Rightarrow> program option \<Rightarrow> string" where
  "Digest T quote p = hashHex (case p of None \<Rightarrow> [] | Some prog \<Rightarrow> encodeProgram T quote prog)"


subsection \<open>Canonical programs\<close>

text \<open>
  What the encoding deliberately forgets: the order of the fields of an object, of the
  arguments of a call, of the nodes of a graph, of their needs and of redaction keys.
\<close>

fun canonV :: "ir_value \<Rightarrow> ir_value"
  and canonFieldsV :: "(string \<times> ir_value) list \<Rightarrow> (string \<times> ir_value) list"
  and canonEach :: "ir_value list \<Rightarrow> ir_value list" where
  "canonV (Ref path) = Ref path"
| "canonV (Lit v) = Lit v"
| "canonV (Object flds) = Object (sort_key fst (canonFieldsV flds))"
| "canonV (List elems) = List (canonEach elems)"
| "canonV (Template parts) = Template (canonEach parts)"
| "canonV VNil = VNil"
| "canonFieldsV [] = []"
| "canonFieldsV ((k, v) # flds) = (k, canonV v) # canonFieldsV flds"
| "canonEach [] = []"
| "canonEach (v # vs) = canonV v # canonEach vs"

definition canonArgs :: "ir_args \<Rightarrow> ir_args" where
  "canonArgs args = sort_key fst (canonFieldsV args)"

primrec canonX :: "ir_expr \<Rightarrow> ir_expr" where
  "canonX (Leaf v) = Leaf (canonV v)"
| "canonX (NotX x) = NotX (canonX x)"
| "canonX (BinOp op x y) = BinOp op (canonX x) (canonX y)"
| "canonX ENil = ENil"

primrec canonN :: "node \<Rightarrow> node" and canonB :: "fork_branch \<Rightarrow> fork_branch"
  and canonG :: "graph_node \<Rightarrow> graph_node" where
  "canonN (InvokeTool b uses args) = InvokeTool b uses (canonArgs args)"
| "canonN (InvokeAgent b agent args whole) = InvokeAgent b agent (canonArgs args) whole"
| "canonN (InvokeWorkflow b wfl args whole project) = InvokeWorkflow b wfl (canonArgs args) whole project"
| "canonN (LetBind b v) = LetBind b (canonV v)"
| "canonN (Branch cond thn els) = Branch (canonX cond) (map canonN thn) (map canonN els)"
| "canonN (Fork bs) = Fork (map canonB bs)"
| "canonN (Loop var coll body par) = Loop var (canonV coll) (map canonN body) par"
| "canonN (While cond limit body) = While (canonX cond) limit (map canonN body)"
| "canonN (Retry cond limit body) = Retry (canonX cond) limit (map canonN body)"
| "canonN (Return v) = Return (canonV v)"
| "canonN (Graph ns) = Graph (sort_key gn_ID (map canonG ns))"
| "canonN (Approval b desc redact args) = Approval b desc (sort redact) (canonArgs args)"
| "canonN NilNode = NilNode"
| "canonB (ForkBranch b nodes) = ForkBranch b (map canonN nodes)"
| "canonG (GraphNode i needs run) = GraphNode i (sort needs) (canonN run)"

definition canonProgram :: "program \<Rightarrow> program" where
  "canonProgram p = p\<lparr>pg_Body := map canonN (pg_Body p)\<rparr>"

subsection \<open>Programs with plain names\<close>

definition stopChars :: "char list" where
  "stopChars = '' ,;:()[]=!<>&|'' @ [CHR 0x7B, CHR 0x7D, CHR 0x22]"

definition plainWord :: "string \<Rightarrow> bool" where
  "plainWord s \<longleftrightarrow> list_all (\<lambda>c. c \<notin> set stopChars) s"

definition plainNames :: "char \<Rightarrow> string list \<Rightarrow> bool" where
  "plainNames c ss \<longleftrightarrow> list_all (\<lambda>s. plainWord s \<and> s \<noteq> [] \<and> c \<notin> set s) ss"

definition scalarLit :: "any \<Rightarrow> bool" where
  "scalarLit v = (case v of AStr s \<Rightarrow> True | AInt i \<Rightarrow> True | AFloat x \<Rightarrow> True | ABool b \<Rightarrow> True | _ \<Rightarrow> False)"

definition comparisonOps :: "string list" where
  "comparisonOps = [''=='', ''!='', ''<'', ''<='', ''>'', ''>='', ''&&'', ''||'']"

fun plainV :: "ir_value \<Rightarrow> bool" and plainFields :: "(string \<times> ir_value) list \<Rightarrow> bool"
  and plainEach :: "ir_value list \<Rightarrow> bool" where
  "plainV (Ref path) = plainNames CHR ''.'' path"
| "plainV (Lit v) = scalarLit v"
| "plainV (Object flds) = plainFields flds"
| "plainV (List elems) = plainEach elems"
| "plainV (Template parts) = plainEach parts"
| "plainV VNil = True"
| "plainFields [] = True"
| "plainFields ((k, v) # flds) = (plainWord k \<and> plainV v \<and> plainFields flds)"
| "plainEach [] = True"
| "plainEach (v # vs) = (plainV v \<and> plainEach vs)"

primrec plainX :: "ir_expr \<Rightarrow> bool" where
  "plainX (Leaf v) = plainV v"
| "plainX (NotX x) = plainX x"
| "plainX (BinOp op x y) = (op \<in> set comparisonOps \<and> plainX x \<and> plainX y)"
| "plainX ENil = True"

primrec plainN :: "node \<Rightarrow> bool" and plainB :: "fork_branch \<Rightarrow> bool"
  and plainG :: "graph_node \<Rightarrow> bool" where
  "plainN (InvokeTool b uses args) = (plainWord b \<and> plainWord uses \<and> plainFields args)"
| "plainN (InvokeAgent b agent args whole) = (plainWord b \<and> plainWord agent \<and> plainFields args)"
| "plainN (InvokeWorkflow b wfl args whole project) = (plainWord b \<and> plainWord wfl \<and> plainFields args)"
| "plainN (LetBind b v) = (plainWord b \<and> plainV v)"
| "plainN (Branch cond thn els) = (plainX cond \<and> list_all plainN thn \<and> list_all plainN els)"
| "plainN (Fork bs) = list_all plainB bs"
| "plainN (Loop var coll body par) = (plainWord var \<and> plainV coll \<and> list_all plainN body)"
| "plainN (While cond limit body) = (plainX cond \<and> list_all plainN body)"
| "plainN (Retry cond limit body) = (plainX cond \<and> list_all plainN body)"
| "plainN (Return v) = plainV v"
| "plainN (Graph ns) = list_all plainG ns"
| "plainN (Approval b desc redact args) = (plainWord b \<and> plainNames CHR '','' redact \<and> plainFields args)"
| "plainN NilNode = True"
| "plainB (ForkBranch b nodes) = (plainWord b \<and> list_all plainN nodes)"
| "plainG (GraphNode i needs run) = (plainWord i \<and> plainNames CHR '','' needs \<and> plainN run)"

definition plainProgram :: "program \<Rightarrow> bool" where
  "plainProgram p \<longleftrightarrow> plainWord (pg_Workflow p) \<and> plainNames CHR '','' (pg_Params p) \<and> list_all plainN (pg_Body p)"

text \<open>
  What is relied on of the standard library: a quoted string is self-delimiting and
  determines the string, and the spelling of a float is a plain word that determines it.
\<close>

definition digest_laws :: "go_text \<Rightarrow> (string \<Rightarrow> string) \<Rightarrow> bool" where
  "digest_laws T quote \<longleftrightarrow>
     (\<forall>s t r r'. quote s @ r = quote t @ r' \<longrightarrow> s = t \<and> r = r') \<and>
     (\<forall>x. plainWord (gt_g T x)) \<and> (\<forall>x y. gt_g T x = gt_g T y \<longrightarrow> x = y)"

subsection \<open>Encoding forgets only the order\<close>

lemma encodeFields_map: "encodeFields T quote flds = map (\<lambda>(k, v). (k, encodeValue T quote v)) flds"
  by (induction flds) auto

lemma canonFields_map: "canonFieldsV flds = map (\<lambda>(k, v). (k, canonV v)) flds"
  by (induction flds) auto

lemma canonEach_map: "canonEach vs = map canonV vs"
  by (induction vs) auto

lemma encodeEntries_map:
  "encodeEntries (encodeFields T quote flds) =
     concat (map (\<lambda>(k, v). k @ ''='' @ encodeValue T quote v @ '','') (sort_key fst flds))"
  by (simp add: encodeEntries_def encodeFields_map sort_key_map case_prod_beta' o_def)

lemma canonSort: "sort_key fst (canonFieldsV flds) = map (\<lambda>(k, v). (k, canonV v)) (sort_key fst flds)"
  by (simp add: canonFields_map sort_key_map case_prod_beta')

lemma encode_canonV:
  "encodeValue T quote (canonV v) = encodeValue T quote v"
  "encodeFields T quote (canonFieldsV flds) = encodeFields T quote flds"
  "encodeEach T quote c (canonEach vs) = encodeEach T quote c vs"
proof (induction v and flds and vs arbitrary: and and c rule: canonV_canonFieldsV_canonEach.induct)
  case (3 flds)
  have "encodeEntries (encodeFields T quote (sort_key fst flds)) = encodeEntries (encodeFields T quote flds)" for flds
    unfolding encodeEntries_map by (simp only: sort_key_idem)
  then show ?case using 3 by simp
qed auto

lemma encode_canonArgs: "encodeArgs T quote (canonArgs args) = encodeArgs T quote args"
proof -
  have "encodeEntries (encodeFields T quote (sort_key fst flds)) = encodeEntries (encodeFields T quote flds)" for flds
    unfolding encodeEntries_map by (simp only: sort_key_idem)
  then show ?thesis by (simp add: encodeArgs_def canonArgs_def encode_canonV)
qed

lemma encode_canonX: "encodeExpr T quote (canonX x) = encodeExpr T quote x"
  by (induction x) (simp_all add: encode_canonV)

lemma fst_encodeGraphNode: "fst (encodeGraphNode T quote g) = gn_ID g"
  by (cases g) simp

lemma gn_ID_canonG [simp]: "gn_ID (canonG g) = gn_ID g"
  by (cases g) simp

lemma encodeGraph_map:
  "encodeGraph (map (encodeGraphNode T quote) ns) =
     ''graph'' @ [CHR 0x7B] @
       concat (map (\<lambda>g. gn_ID g @ snd (encodeGraphNode T quote g) @ '';'') (sort_key gn_ID ns)) @ [CHR 0x7D]"
  by (simp add: encodeGraph_def sort_key_map fst_encodeGraphNode case_prod_beta o_def)

lemma encode_canonN:
  "encodeNode T quote (canonN n) = encodeNode T quote n"
  "encodeBranch T quote (canonB b) = encodeBranch T quote b"
  "encodeGraphNode T quote (canonG g) = encodeGraphNode T quote g"
proof (induction n and b and g rule: node.induct fork_branch.induct graph_node.induct)
  case (Graph ns)
  have "map (\<lambda>g. gn_ID g @ snd (encodeGraphNode T quote g) @ '';'') (map canonG (sort_key gn_ID ns)) =
      map (\<lambda>g. gn_ID g @ snd (encodeGraphNode T quote g) @ '';'') (sort_key gn_ID ns)"
    using Graph by simp
  moreover have "sort_key gn_ID (sort_key gn_ID (map canonG ns)) = map canonG (sort_key gn_ID ns)"
    by (simp add: sort_key_idem sort_key_map)
  ultimately show ?case by (simp only: canonN.simps encodeNode.simps encodeGraph_map)
qed (simp_all add: encode_canonArgs encode_canonV encode_canonX sortedCopy_def sort_key_idem o_def cong: map_cong)

lemma encode_canonProgram: "encodeProgram T quote (canonProgram p) = encodeProgram T quote p"
  by (simp add: encodeProgram_def canonProgram_def encode_canonN o_def)


subsection \<open>Encoding forgets nothing else\<close>

lemma stop_token:
  assumes "list_all (\<lambda>c. c \<notin> set stopChars) t" "list_all (\<lambda>c. c \<notin> set stopChars) u"
    "c \<in> set stopChars" "d \<in> set stopChars" "t @ c # r = u @ d # r'"
  shows "t = u \<and> c = d \<and> r = r'"
  using assms
proof (induction t arbitrary: u)
  case Nil
  then show ?case by (cases u) auto
next
  case (Cons x t)
  then show ?case by (cases u) auto
qed

lemma word_token:
  "plainWord t \<Longrightarrow> plainWord u \<Longrightarrow> c \<in> set stopChars \<Longrightarrow> d \<in> set stopChars \<Longrightarrow>
     t @ c # r = u @ d # r' \<Longrightarrow> t = u \<and> c = d \<and> r = r'"
  unfolding plainWord_def by (rule stop_token)

lemma stop_simps [simp]:
  "CHR '' '' \<in> set stopChars" "CHR '','' \<in> set stopChars" "CHR '';'' \<in> set stopChars"
  "CHR '':'' \<in> set stopChars" "CHR ''('' \<in> set stopChars" "CHR '')'' \<in> set stopChars"
  "CHR ''['' \<in> set stopChars" "CHR '']'' \<in> set stopChars" "CHR ''='' \<in> set stopChars"
  "CHR ''!'' \<in> set stopChars" "CHR ''<'' \<in> set stopChars" "CHR ''>'' \<in> set stopChars"
  "CHR ''&'' \<in> set stopChars" "CHR ''|'' \<in> set stopChars" "CHR 0x7B \<in> set stopChars"
  "CHR 0x7D \<in> set stopChars"
  by (simp_all add: stopChars_def)

lemma plainWord_append: "plainWord (s @ t) \<longleftrightarrow> plainWord s \<and> plainWord t"
  by (simp add: plainWord_def)

lemma plainWord_Join: "plainNames c ss \<Longrightarrow> plainWord sep \<Longrightarrow> plainWord (Join ss sep)"
  using set_Join [of ss sep] unfolding plainWord_def plainNames_def list_all_iff by blast

text \<open>The texts after a value: a stop character, or \<open>then\<close> and one.\<close>

definition endings :: "string list" where
  "endings = [[], ''then'']"

lemma ending_token:
  assumes "sfx \<in> set endings" "plainWord t" "plainWord u" "c \<in> set stopChars" "d \<in> set stopChars"
    "t @ sfx @ c # r = u @ sfx @ d # r'"
  shows "t = u \<and> c = d \<and> r = r'"
proof -
  have "plainWord sfx" using assms(1) by (auto simp: endings_def plainWord_def stopChars_def)
  then have "t @ sfx = u @ sfx \<and> c = d \<and> r = r'"
    using assms by (intro word_token) (simp_all add: plainWord_append)
  then show ?thesis by simp
qed

lemma Join_path_inject:
  assumes "plainNames c p" "plainNames c q" "Join p [c] = Join q [c]"
  shows "p = q"
  using assms(1,2) by (intro Join_inject [OF assms(3)]) (auto simp: plainNames_def list_all_iff)

lemma showInt_plain: "plainWord (showInt i)"
proof -
  have "isDigit x \<Longrightarrow> x \<notin> set stopChars" for x
    by (auto simp: isDigit_def between_def stopChars_def)
  then have "plainWord (showNat n)" for n
    using showNat_digits [of n] by (simp add: plainWord_def list_all_iff)
  moreover have "plainWord ''-''" by (simp add: plainWord_def stopChars_def)
  ultimately show ?thesis by (simp add: showInt_def plainWord_def)
qed

lemma litKey_inject:
  assumes "digest_laws T quote" "scalarLit v" "scalarLit u" "sfx \<in> set endings" "c \<in> set stopChars" "d \<in> set stopChars"
    "litKey T quote v @ sfx @ c # r = litKey T quote u @ sfx @ d # r'"
  shows "v = u \<and> c = d \<and> r = r'"
proof -
  have quote: "quote s @ sfx @ c # r = quote t @ sfx @ d # r' \<Longrightarrow> s = t \<and> c = d \<and> r = r'" for s t
    using assms(1) unfolding digest_laws_def by (metis append_same_eq list.inject same_append_eq)
  have bool: "plainWord (if b then ''true'' else ''false'')" for b
    by (simp add: plainWord_def stopChars_def)
  have float: "plainWord (gt_g T x)" "gt_g T x = gt_g T y \<Longrightarrow> x = y" for x y
    using assms(1) unfolding digest_laws_def by blast+
  note tok = ending_token [OF assms(4) _ _ assms(5,6)]
  show ?thesis
    using assms(2,3,7)
    by (cases v; cases u; simp add: litKey_def scalarLit_def)
      (auto dest!: quote tok [OF showInt_plain showInt_plain] tok [OF float(1) float(1)] float(2)
        tok [OF bool bool, simplified if_distrib] simp: showInt_inject split: if_splits)
qed


text \<open>Every value starts with a letter.\<close>

lemma encodeValue_head: "\<exists>c s. encodeValue T quote v = c # s \<and> c \<notin> set stopChars"
  by (cases v) (auto simp: stopChars_def)

text \<open>A value can be read off the front of a text, up to order.\<close>

definition readable :: "go_text \<Rightarrow> (string \<Rightarrow> string) \<Rightarrow> ir_value \<Rightarrow> bool" where
  "readable T quote v \<longleftrightarrow>
     (\<forall>u sfx c d r r'. plainV v \<longrightarrow> plainV u \<longrightarrow> sfx \<in> set endings \<longrightarrow> c \<in> set stopChars \<longrightarrow> d \<in> set stopChars \<longrightarrow>
        encodeValue T quote v @ sfx @ c # r = encodeValue T quote u @ sfx @ d # r' \<longrightarrow>
        canonV v = canonV u \<and> c = d \<and> r = r')"

lemma readableD:
  assumes "readable T quote v" "plainV v" "plainV u" "sfx \<in> set endings" "c \<in> set stopChars" "d \<in> set stopChars"
    "encodeValue T quote v @ sfx @ c # r = encodeValue T quote u @ sfx @ d # r'"
  shows "canonV v = canonV u \<and> c = d \<and> r = r'"
  using assms unfolding readable_def by blast

lemma readable_plain:
  assumes "readable T quote v" "plainV v" "plainV u" "c \<in> set stopChars" "d \<in> set stopChars"
    "encodeValue T quote v @ c # r = encodeValue T quote u @ d # r'"
  shows "canonV v = canonV u \<and> c = d \<and> r = r'"
  by (rule readableD [OF assms(1-3), of "[]"]) (use assms in \<open>simp_all add: endings_def\<close>)

lemma plainEach_iff: "plainEach vs \<longleftrightarrow> list_all plainV vs"
  by (induction vs) auto

lemma plainFields_iff: "plainFields flds \<longleftrightarrow> list_all (\<lambda>(k, v). plainWord k \<and> plainV v) flds"
  by (induction flds) auto

lemma encodeEach_inject:
  assumes "\<And>v. v \<in> set vs \<Longrightarrow> readable T quote v" "list_all plainV vs" "list_all plainV us"
    "sp \<in> set stopChars" "z \<in> set stopChars"
    "encodeEach T quote sp vs @ z # r = encodeEach T quote sp us @ z # r'"
  shows "map canonV vs = map canonV us \<and> r = r'"
  using assms
proof (induction vs arbitrary: us)
  case Nil
  show ?case
  proof (cases us)
    case (Cons u us')
    obtain c s where "encodeValue T quote u = c # s" "c \<notin> set stopChars" using encodeValue_head by blast
    then show ?thesis using Nil Cons by auto
  qed (use Nil in simp)
next
  case (Cons v vs)
  show ?case
  proof (cases us)
    case Nil
    obtain c s where "encodeValue T quote v = c # s" "c \<notin> set stopChars" using encodeValue_head by blast
    then show ?thesis using Cons.prems Nil by auto
  next
    case us: (Cons u us')
    have "canonV v = canonV u \<and> sp = sp \<and> encodeEach T quote sp vs @ z # r = encodeEach T quote sp us' @ z # r'"
      using Cons.prems us by (intro readable_plain) auto
    then show ?thesis using Cons.IH [of us'] Cons.prems us by auto
  qed
qed

definition entryText :: "go_text \<Rightarrow> (string \<Rightarrow> string) \<Rightarrow> string \<times> ir_value \<Rightarrow> string" where
  "entryText T quote e = fst e @ ''='' @ encodeValue T quote (snd e) @ '',''"

lemma entryText_pair: "entryText T quote (k, v) = k @ CHR ''='' # encodeValue T quote v @ '',''"
  by (simp add: entryText_def)

lemma encodeEntries_text: "encodeEntries (encodeFields T quote flds) = concat (map (entryText T quote) (sort_key fst flds))"
  unfolding encodeEntries_map by (simp add: entryText_def [abs_def] case_prod_beta')

lemma entries_inject:
  assumes "\<And>e. e \<in> set es \<Longrightarrow> readable T quote (snd e)" "plainFields es" "plainFields fs"
    "z \<in> set stopChars" "z \<noteq> CHR ''=''"
    "concat (map (entryText T quote) es) @ z # r = concat (map (entryText T quote) fs) @ z # r'"
  shows "map (\<lambda>(k, v). (k, canonV v)) es = map (\<lambda>(k, v). (k, canonV v)) fs \<and> r = r'"
  using assms
proof (induction es arbitrary: fs)
  case Nil
  have no_key: "\<not> (z # r = k @ CHR ''='' # s)" if "plainWord k" for k s
    using that Nil by (cases k) (auto simp: plainWord_def)
  show ?case
  proof (cases fs)
    case (Cons f fs')
    obtain k v where f: "f = (k, v)" by (cases f)
    have "z # r = k @ CHR ''='' # encodeValue T quote v @ CHR '','' # concat (map (entryText T quote) fs') @ z # r'"
      using Nil.prems(6) by (simp add: entryText_pair Cons f)
    moreover have "plainWord k" using Nil.prems(3) Cons f by simp
    ultimately show ?thesis using no_key by blast
  qed (use Nil in simp)
next
  case (Cons e es)
  obtain k v where e: "e = (k, v)" by (cases e)
  have end_no_key: "\<not> (z # r' = k @ CHR ''='' # s)" for s
    using Cons.prems e by (cases k) (auto simp: plainWord_def)
  show ?case
  proof (cases fs)
    case Nil
    then show ?thesis using Cons.prems(6) end_no_key by (auto simp: entryText_pair e dest: sym)
  next
    case fs: (Cons f fs')
    obtain k' v' where f: "f = (k', v')" by (cases f)
    have "k @ CHR ''='' # encodeValue T quote v @ CHR '','' # concat (map (entryText T quote) es) @ z # r =
        k' @ CHR ''='' # encodeValue T quote v' @ CHR '','' # concat (map (entryText T quote) fs') @ z # r'"
      using Cons.prems(6) by (simp add: entryText_pair e f fs)
    then have 1: "k = k' \<and> CHR ''='' = CHR ''='' \<and>
        encodeValue T quote v @ CHR '','' # concat (map (entryText T quote) es) @ z # r =
        encodeValue T quote v' @ CHR '','' # concat (map (entryText T quote) fs') @ z # r'"
      using Cons.prems e f fs by (intro word_token) auto
    have 2: "canonV v = canonV v' \<and> CHR '','' = CHR '','' \<and>
        concat (map (entryText T quote) es) @ z # r = concat (map (entryText T quote) fs') @ z # r'"
      by (rule readable_plain) (use Cons.prems(1) [of e] Cons.prems(2,3) e f fs 1 in auto)
    show ?thesis using Cons.IH [of fs'] Cons.prems 1 2 e f fs by auto
  qed
qed

lemma plainFields_sort: "plainFields flds \<Longrightarrow> plainFields (sort_key fst flds)"
  by (simp add: plainFields_iff list_all_iff)

lemma value_readable:
  assumes "digest_laws T quote"
  shows "readable T quote v"
proof (induction v)
  case (Ref path)
  show ?case unfolding readable_def
  proof (intro allI impI)
    fix u sfx c d r r'
    assume p: "plainV (Ref path)" "plainV u" "sfx \<in> set endings" "c \<in> set stopChars" "d \<in> set stopChars"
      and eq: "encodeValue T quote (Ref path) @ sfx @ c # r = encodeValue T quote u @ sfx @ d # r'"
    from eq obtain q where u: "u = Ref q" and j: "Join path ''.'' @ sfx @ c # r = Join q ''.'' @ sfx @ d # r'"
      by (cases u) auto
    have dot: "plainWord ''.''" by (simp add: plainWord_def stopChars_def)
    have "Join path ''.'' = Join q ''.'' \<and> c = d \<and> r = r'"
      by (rule ending_token [OF p(3) _ _ p(4,5) j]) (use p u plainWord_Join [OF _ dot] in auto)
    then show "canonV (Ref path) = canonV u \<and> c = d \<and> r = r'"
      using Join_path_inject p(1,2) u by auto
  qed
next
  case (Lit v)
  show ?case unfolding readable_def
  proof (intro allI impI)
    fix u sfx c d r r'
    assume p: "plainV (Lit v)" "plainV u" "sfx \<in> set endings" "c \<in> set stopChars" "d \<in> set stopChars"
      and eq: "encodeValue T quote (Lit v) @ sfx @ c # r = encodeValue T quote u @ sfx @ d # r'"
    from eq obtain w where u: "u = Lit w" and j: "litKey T quote v @ sfx @ c # r = litKey T quote w @ sfx @ d # r'"
      by (cases u) auto
    show "canonV (Lit v) = canonV u \<and> c = d \<and> r = r'"
      using litKey_inject [OF assms _ _ p(3-5) j] p(1,2) u by simp
  qed
next
  case (Object flds)
  have IH: "readable T quote (snd e)" if "e \<in> set flds" for e
    using Object that by (cases e) (auto simp: snds.simps)
  show ?case unfolding readable_def
  proof (intro allI impI)
    fix u sfx c d r r'
    assume p: "plainV (Object flds)" "plainV u"
      and eq: "encodeValue T quote (Object flds) @ sfx @ c # r = encodeValue T quote u @ sfx @ d # r'"
    from eq obtain gs where u: "u = Object gs" and j:
      "concat (map (entryText T quote) (sort_key fst flds)) @ CHR 0x7D # sfx @ c # r =
       concat (map (entryText T quote) (sort_key fst gs)) @ CHR 0x7D # sfx @ d # r'"
      by (cases u) (auto simp: encodeEntries_text)
    from entries_inject [OF _ _ _ _ _ j] IH p u plainFields_sort
    show "canonV (Object flds) = canonV u \<and> c = d \<and> r = r'" by (simp add: canonSort)
  qed
next
  case (List vs)
  show ?case unfolding readable_def
  proof (intro allI impI)
    fix u sfx c d r r'
    assume p: "plainV (List vs)" "plainV u"
      and eq: "encodeValue T quote (List vs) @ sfx @ c # r = encodeValue T quote u @ sfx @ d # r'"
    from eq obtain us where u: "u = List us" and j: "encodeEach T quote CHR '','' vs @ CHR '']'' # sfx @ c # r =
        encodeEach T quote CHR '','' us @ CHR '']'' # sfx @ d # r'" by (cases u) auto
    from encodeEach_inject [OF _ _ _ _ _ j] List p u
    show "canonV (List vs) = canonV u \<and> c = d \<and> r = r'" by (simp add: canonEach_map plainEach_iff)
  qed
next
  case (Template vs)
  show ?case unfolding readable_def
  proof (intro allI impI)
    fix u sfx c d r r'
    assume p: "plainV (Template vs)" "plainV u"
      and eq: "encodeValue T quote (Template vs) @ sfx @ c # r = encodeValue T quote u @ sfx @ d # r'"
    from eq obtain us where u: "u = Template us" and j: "encodeEach T quote CHR '';'' vs @ CHR '')'' # sfx @ c # r =
        encodeEach T quote CHR '';'' us @ CHR '')'' # sfx @ d # r'" by (cases u) auto
    from encodeEach_inject [OF _ _ _ _ _ j] Template p u
    show "canonV (Template vs) = canonV u \<and> c = d \<and> r = r'" by (simp add: canonEach_map plainEach_iff)
  qed
next
  case VNil
  show ?case unfolding readable_def
  proof (intro allI impI)
    fix u sfx c d r r'
    assume eq: "encodeValue T quote VNil @ sfx @ c # r = encodeValue T quote u @ sfx @ d # r'"
    then show "canonV VNil = canonV u \<and> c = d \<and> r = r'" by (cases u) auto
  qed
qed


lemma encodeExpr_head: "\<exists>c s. encodeExpr T quote x = c # s \<and> c \<noteq> CHR ''=''"
proof (cases x)
  case (Leaf v)
  obtain c s where "encodeValue T quote v = c # s" "c \<notin> set stopChars" using encodeValue_head by blast
  moreover from this have "c \<noteq> CHR ''=''" by (metis stop_simps(9))
  ultimately show ?thesis by (simp add: Leaf)
qed auto

lemma op_inject:
  assumes "op \<in> set comparisonOps" "op' \<in> set comparisonOps" "y \<noteq> CHR ''=''" "y' \<noteq> CHR ''=''"
    "op @ y # s = op' @ y' # s'"
  shows "op = op' \<and> y = y' \<and> s = s'"
  using assms by (auto simp: comparisonOps_def)

lemma op_split: "op \<in> set comparisonOps \<Longrightarrow> \<exists>c p. op = c # p \<and> c \<in> set stopChars"
proof -
  assume "op \<in> set comparisonOps"
  moreover have "list_all (\<lambda>op. op \<noteq> [] \<and> hd op \<in> set stopChars) comparisonOps"
    by (simp add: comparisonOps_def)
  ultimately have "op \<noteq> [] \<and> hd op \<in> set stopChars" by (simp add: list_all_iff)
  then show ?thesis by (metis list.collapse)
qed

lemma leaf_not_nilexpr:
  assumes "sfx \<in> set endings" "c \<in> set stopChars"
  shows "encodeValue T quote v @ sfx @ c # r \<noteq> ''nilexpr'' @ s"
proof -
  have "CHR ''e'' \<notin> set stopChars" by (simp add: stopChars_def)
  then show ?thesis using assms by (cases v) (auto simp: endings_def)
qed

lemma expr_inject:
  assumes "digest_laws T quote" "plainX x" "plainX y" "sfx \<in> set endings" "c \<in> set stopChars" "d \<in> set stopChars"
    "encodeExpr T quote x @ sfx @ c # r = encodeExpr T quote y @ sfx @ d # r'"
  shows "canonX x = canonX y \<and> c = d \<and> r = r'"
  using assms
proof (induction x arbitrary: y sfx c d r r')
  case (Leaf v)
  obtain h s where h: "encodeValue T quote v = h # s" "h \<notin> set stopChars" using encodeValue_head by blast
  show ?case
  proof (cases y)
    case y: (Leaf u)
    then show ?thesis
      using readableD [OF value_readable [OF assms(1)], of v u sfx c d r r'] Leaf.prems by simp
  next
    case ENil
    then show ?thesis using Leaf.prems leaf_not_nilexpr [of sfx c T quote v r "sfx @ d # r'"] by simp
  qed (use Leaf.prems h in auto)
next
  case (NotX x)
  show ?case
  proof (cases y)
    case (Leaf u)
    obtain h s where h: "encodeValue T quote u = h # s" "h \<notin> set stopChars" using encodeValue_head by blast
    then show ?thesis using NotX.prems Leaf by auto
  next
    case y: (NotX z)
    have "encodeExpr T quote x @ [] @ CHR '')'' # sfx @ c # r = encodeExpr T quote z @ [] @ CHR '')'' # sfx @ d # r'"
      using NotX.prems y by simp
    from NotX.IH [OF NotX.prems(1) _ _ _ _ _ this] NotX.prems y show ?thesis by (simp add: endings_def)
  qed (use NotX.prems in auto)
next
  case (BinOp op x1 x2)
  show ?case
  proof (cases y)
    case (Leaf u)
    obtain h s where h: "encodeValue T quote u = h # s" "h \<notin> set stopChars" using encodeValue_head by blast
    then show ?thesis using BinOp.prems Leaf by auto
  next
    case y: (BinOp op' y1 y2)
    have ops: "op \<in> set comparisonOps" "op' \<in> set comparisonOps" using BinOp.prems y by simp_all
    obtain o1 p1 where o1: "op = o1 # p1" "o1 \<in> set stopChars" using op_split [OF ops(1)] by blast
    obtain o2 p2 where o2: "op' = o2 # p2" "o2 \<in> set stopChars" using op_split [OF ops(2)] by blast
    have "encodeExpr T quote x1 @ [] @ o1 # p1 @ encodeExpr T quote x2 @ CHR '')'' # sfx @ c # r =
        encodeExpr T quote y1 @ [] @ o2 # p2 @ encodeExpr T quote y2 @ CHR '')'' # sfx @ d # r'"
      using BinOp.prems y o1 o2 by simp
    from BinOp.IH(1) [OF BinOp.prems(1) _ _ _ o1(2) o2(2) this] BinOp.prems y
    have 1: "canonX x1 = canonX y1" and p: "o1 = o2"
      "p1 @ encodeExpr T quote x2 @ CHR '')'' # sfx @ c # r = p2 @ encodeExpr T quote y2 @ CHR '')'' # sfx @ d # r'"
      by (simp_all add: endings_def)
    have eq: "op @ encodeExpr T quote x2 @ CHR '')'' # sfx @ c # r = op' @ encodeExpr T quote y2 @ CHR '')'' # sfx @ d # r'"
      using p o1 o2 by simp
    obtain a s b t where ab: "encodeExpr T quote x2 = a # s" "a \<noteq> CHR ''=''" "encodeExpr T quote y2 = b # t" "b \<noteq> CHR ''=''"
      using encodeExpr_head by metis
    have 2: "op = op'" using op_inject [OF ops ab(2,4)] eq ab(1,3) by simp
    then have "encodeExpr T quote x2 @ [] @ CHR '')'' # sfx @ c # r = encodeExpr T quote y2 @ [] @ CHR '')'' # sfx @ d # r'"
      using eq by simp
    from BinOp.IH(2) [OF BinOp.prems(1) _ _ _ _ _ this] BinOp.prems y 1 2 show ?thesis by (simp add: endings_def)
  qed (use BinOp.prems in auto)
next
  case ENil
  show ?case
  proof (cases y)
    case (Leaf u)
    then show ?thesis using ENil.prems leaf_not_nilexpr [of sfx d T quote u r' "sfx @ c # r"] by (auto dest: sym)
  qed (use ENil.prems in auto)
qed

lemma args_inject:
  assumes "digest_laws T quote" "plainFields as" "plainFields bs" "encodeArgs T quote as @ r = encodeArgs T quote bs @ r'"
  shows "canonArgs as = canonArgs bs \<and> r = r'"
proof -
  have "concat (map (entryText T quote) (sort_key fst as)) @ CHR '')'' # r =
      concat (map (entryText T quote) (sort_key fst bs)) @ CHR '')'' # r'"
    using assms(4) by (simp add: encodeArgs_def encodeEntries_text)
  from entries_inject [OF value_readable [OF assms(1)] _ _ _ _ this] assms(2,3)
  show ?thesis by (simp add: canonArgs_def canonSort plainFields_sort)
qed


text \<open>The same for nodes; a node is always followed by a semicolon.\<close>

definition readableN :: "go_text \<Rightarrow> (string \<Rightarrow> string) \<Rightarrow> node \<Rightarrow> bool" where
  "readableN T quote n \<longleftrightarrow>
     (\<forall>m r r'. plainN n \<longrightarrow> plainN m \<longrightarrow>
        encodeNode T quote n @ CHR '';'' # r = encodeNode T quote m @ CHR '';'' # r' \<longrightarrow> canonN n = canonN m \<and> r = r')"

lemma readableN_I:
  assumes "\<And>m r r'. plainN n \<Longrightarrow> plainN m \<Longrightarrow>
      encodeNode T quote n @ CHR '';'' # r = encodeNode T quote m @ CHR '';'' # r' \<Longrightarrow> canonN n = canonN m \<and> r = r'"
  shows "readableN T quote n"
  using assms unfolding readableN_def by blast

lemma readableN_D:
  "readableN T quote n \<Longrightarrow> plainN n \<Longrightarrow> plainN m \<Longrightarrow>
     encodeNode T quote n @ CHR '';'' # r = encodeNode T quote m @ CHR '';'' # r' \<Longrightarrow> canonN n = canonN m \<and> r = r'"
  unfolding readableN_def by blast

lemma encodeNode_head: "\<exists>c s. encodeNode T quote n = c # s \<and> c \<notin> set stopChars"
  by (cases n) (auto simp: stopChars_def encodeGraph_def)

definition nodesText :: "go_text \<Rightarrow> (string \<Rightarrow> string) \<Rightarrow> node list \<Rightarrow> string" where
  "nodesText T quote ns = concat (map (\<lambda>n. encodeNode T quote n @ '';'') ns)"

lemma encodeNodes_text: "encodeNodes (map (encodeNode T quote) ns) = CHR 0x7B # nodesText T quote ns @ [CHR 0x7D]"
  by (simp add: encodeNodes_def nodesText_def o_def)

lemma nodes_inject:
  assumes "\<And>n. n \<in> set ns \<Longrightarrow> readableN T quote n" "list_all plainN ns" "list_all plainN ms"
    "nodesText T quote ns @ CHR 0x7D # r = nodesText T quote ms @ CHR 0x7D # r'"
  shows "map canonN ns = map canonN ms \<and> r = r'"
  using assms
proof (induction ns arbitrary: ms)
  case Nil
  show ?case
  proof (cases ms)
    case (Cons m ms')
    obtain c s where "encodeNode T quote m = c # s" "c \<notin> set stopChars" using encodeNode_head by blast
    then show ?thesis using Nil Cons by (auto simp: nodesText_def)
  qed (use Nil in \<open>simp add: nodesText_def\<close>)
next
  case (Cons n ns)
  show ?case
  proof (cases ms)
    case Nil
    obtain c s where "encodeNode T quote n = c # s" "c \<notin> set stopChars" using encodeNode_head by blast
    then show ?thesis using Cons.prems Nil by (auto simp: nodesText_def)
  next
    case ms: (Cons m ms')
    have "canonN n = canonN m \<and> nodesText T quote ns @ CHR 0x7D # r = nodesText T quote ms' @ CHR 0x7D # r'"
      by (rule readableN_D) (use Cons.prems ms in \<open>auto simp: nodesText_def\<close>)
    then show ?thesis using Cons.IH [of ms'] Cons.prems ms by auto
  qed
qed

definition readableB :: "go_text \<Rightarrow> (string \<Rightarrow> string) \<Rightarrow> fork_branch \<Rightarrow> bool" where
  "readableB T quote b \<longleftrightarrow>
     (\<forall>b' r r'. plainB b \<longrightarrow> plainB b' \<longrightarrow> encodeBranch T quote b @ r = encodeBranch T quote b' @ r' \<longrightarrow> canonB b = canonB b' \<and> r = r')"

lemma readableB_D:
  "readableB T quote b \<Longrightarrow> plainB b \<Longrightarrow> plainB c \<Longrightarrow>
     encodeBranch T quote b @ r = encodeBranch T quote c @ r' \<Longrightarrow> canonB b = canonB c \<and> r = r'"
  unfolding readableB_def by blast

lemma branches_inject:
  assumes "\<And>b. b \<in> set bs \<Longrightarrow> readableB T quote b" "list_all plainB bs" "list_all plainB cs"
    "concat (map (encodeBranch T quote) bs) @ CHR '';'' # r = concat (map (encodeBranch T quote) cs) @ CHR '';'' # r'"
  shows "map canonB bs = map canonB cs \<and> r = r'"
proof -
  have head: "encodeBranch T quote b @ s \<noteq> CHR '';'' # t" if "plainB b" for b s t
  proof (cases b)
    case (ForkBranch n nodes)
    then show ?thesis using that by (cases n) (auto simp: plainWord_def)
  qed
  show ?thesis using assms
  proof (induction bs arbitrary: cs)
    case Nil
    show ?case
    proof (cases cs)
      case (Cons c cs')
      then show ?thesis using head [of c] Nil by (auto dest: sym)
    qed (use Nil in simp)
  next
    case (Cons b bs)
    show ?case
    proof (cases cs)
      case Nil
      then show ?thesis using head [of b] Cons.prems by auto
    next
      case cs: (Cons c cs')
      have "encodeBranch T quote b @ concat (map (encodeBranch T quote) bs) @ CHR '';'' # r =
          encodeBranch T quote c @ concat (map (encodeBranch T quote) cs') @ CHR '';'' # r'"
        using Cons.prems(4) cs by simp
      then have "canonB b = canonB c \<and> concat (map (encodeBranch T quote) bs) @ CHR '';'' # r =
          concat (map (encodeBranch T quote) cs') @ CHR '';'' # r'"
        using Cons.prems(1) [of b] Cons.prems(2,3) cs readableB_D [of T quote b c] by auto
      then show ?thesis using Cons.IH [of cs'] Cons.prems cs by auto
    qed
  qed
qed

lemma branch_readable:
  assumes "\<And>n. n \<in> set ns \<Longrightarrow> readableN T quote n"
  shows "readableB T quote (ForkBranch b ns)"
  unfolding readableB_def
proof (intro allI impI)
  fix fb r r'
  assume p: "plainB (ForkBranch b ns)" "plainB fb"
    and eq: "encodeBranch T quote (ForkBranch b ns) @ r = encodeBranch T quote fb @ r'"
  obtain c ms where fb: "fb = ForkBranch c ms" by (cases fb)
  have "b @ CHR '':'' # CHR 0x7B # nodesText T quote ns @ CHR 0x7D # r = c @ CHR '':'' # CHR 0x7B # nodesText T quote ms @ CHR 0x7D # r'"
    using eq fb by (simp add: encodeNodes_text)
  then have 1: "b = c \<and> CHR '':'' = CHR '':'' \<and> CHR 0x7B # nodesText T quote ns @ CHR 0x7D # r = CHR 0x7B # nodesText T quote ms @ CHR 0x7D # r'"
    by (intro word_token) (use p fb in auto)
  then show "canonB (ForkBranch b ns) = canonB fb \<and> r = r'"
    using nodes_inject [OF assms, of ns ms r r'] p fb by simp
qed

definition readableG :: "go_text \<Rightarrow> (string \<Rightarrow> string) \<Rightarrow> graph_node \<Rightarrow> bool" where
  "readableG T quote g \<longleftrightarrow> readableN T quote (gn_Run g)"

definition graphText :: "go_text \<Rightarrow> (string \<Rightarrow> string) \<Rightarrow> graph_node \<Rightarrow> string" where
  "graphText T quote g = gn_ID g @ snd (encodeGraphNode T quote g) @ '';''"

lemma graphText_split:
  "graphText T quote (GraphNode i needs run) @ r =
     i @ CHR ''['' # Join (sort needs) '','' @ CHR '']'' # CHR ''='' # encodeNode T quote run @ CHR '';'' # r"
  by (simp add: graphText_def sortedCopy_def)

lemma plainNames_sort: "plainNames c ss \<Longrightarrow> plainNames c (sort ss)"
  by (simp add: plainNames_def list_all_iff)

lemma names_token:
  assumes "plainNames CHR '','' ss" "plainNames CHR '','' ts"
    "Join ss '','' @ CHR '']'' # r = Join ts '','' @ CHR '']'' # r'"
  shows "ss = ts \<and> r = r'"
proof -
  have no: "CHR '']'' \<notin> set (Join us '','')" if "plainNames CHR '','' us" for us
  proof
    assume "CHR '']'' \<in> set (Join us '','')"
    then have "CHR '']'' \<in> \<Union> (set ` set us)" using set_Join [of us "'',''"] by auto
    then show False using that stop_simps(8) unfolding plainNames_def plainWord_def list_all_iff by blast
  qed
  have "Join ss '','' = Join ts '','' \<and> r = r'"
    by (rule separated_inject [OF assms(3) no [OF assms(1)] no [OF assms(2)]])
  then show ?thesis using Join_path_inject [OF assms(1,2)] by simp
qed

lemma graph_inject:
  assumes "\<And>g. g \<in> set gs \<Longrightarrow> readableG T quote g" "list_all plainG gs" "list_all plainG hs"
    "concat (map (graphText T quote) gs) @ CHR 0x7D # r = concat (map (graphText T quote) hs) @ CHR 0x7D # r'"
  shows "map canonG gs = map canonG hs \<and> r = r'"
proof -
  have head: "graphText T quote g @ s \<noteq> CHR 0x7D # t" if "plainG g" for g s t
  proof (cases g)
    case (GraphNode i needs run)
    then show ?thesis using that by (cases i) (auto simp: plainWord_def graphText_def)
  qed
  show ?thesis using assms
  proof (induction gs arbitrary: hs)
    case Nil
    show ?case
    proof (cases hs)
      case (Cons h hs')
      then show ?thesis using head [of h] Nil by (auto dest: sym)
    qed (use Nil in simp)
  next
    case (Cons g gs)
    show ?case
    proof (cases hs)
      case Nil
      then show ?thesis using head [of g] Cons.prems by auto
    next
      case hs: (Cons h hs')
      obtain i needs run where g: "g = GraphNode i needs run" by (cases g)
      obtain j needs' run' where h: "h = GraphNode j needs' run'" by (cases h)
      let ?r = "concat (map (graphText T quote) gs) @ CHR 0x7D # r" and ?r' = "concat (map (graphText T quote) hs') @ CHR 0x7D # r'"
      have p: "plainWord i" "plainWord j" "plainNames CHR '','' needs" "plainNames CHR '','' needs'" "plainN run" "plainN run'"
        using Cons.prems(2,3) hs g h by simp_all
      have "graphText T quote (GraphNode i needs run) @ ?r = graphText T quote (GraphNode j needs' run') @ ?r'"
        using Cons.prems(4) hs g h by simp
      from word_token [OF p(1,2) stop_simps(7) stop_simps(7) this [unfolded graphText_split]]
      have 1: "i = j" and "Join (sort needs) '','' @ CHR '']'' # CHR ''='' # encodeNode T quote run @ CHR '';'' # ?r =
          Join (sort needs') '','' @ CHR '']'' # CHR ''='' # encodeNode T quote run' @ CHR '';'' # ?r'" by simp_all
      from names_token [OF plainNames_sort [OF p(3)] plainNames_sort [OF p(4)] this(2)]
      have 2: "sort needs = sort needs'" "encodeNode T quote run @ CHR '';'' # ?r = encodeNode T quote run' @ CHR '';'' # ?r'"
        by simp_all
      from readableN_D [OF _ p(5,6) 2(2)] Cons.prems(1) [of g] g
      have 3: "canonN run = canonN run'" "?r = ?r'" by (simp_all add: readableG_def)
      show ?thesis using Cons.IH [OF _ _ _ 3(2)] Cons.prems hs g h 1 2(1) 3(1) by auto
    qed
  qed
qed


lemma marked_simps [simp]: "marked True m = m" "marked False m = []"
  by (simp_all add: marked_def)

lemma value_semi:
  assumes "digest_laws T quote" "plainV v" "plainV u" "encodeValue T quote v @ c # r = encodeValue T quote u @ c # r'"
    "c \<in> set stopChars"
  shows "canonV v = canonV u \<and> r = r'"
  using readable_plain [OF value_readable [OF assms(1)] assms(2,3,5,5,4)] by simp

lemma call_inject:
  assumes "digest_laws T quote" "plainWord b" "plainWord b'" "plainWord u" "plainWord u'" "plainFields as" "plainFields bs"
    "b @ CHR ''='' # u @ marked w ''!doc'' @ marked p ''!value'' @ encodeArgs T quote as @ r =
     b' @ CHR ''='' # u' @ marked w' ''!doc'' @ marked p' ''!value'' @ encodeArgs T quote bs @ r'"
  shows "b = b' \<and> u = u' \<and> w = w' \<and> p = p' \<and> canonArgs as = canonArgs bs \<and> r = r'"
proof -
  obtain s where s: "encodeArgs T quote as @ r = CHR ''('' # s" by (simp add: encodeArgs_def)
  obtain s' where s': "encodeArgs T quote bs @ r' = CHR ''('' # s'" by (simp add: encodeArgs_def)
  from word_token [OF assms(2,3) stop_simps(9) stop_simps(9) assms(8)]
  have b: "b = b'" and u: "u @ marked w ''!doc'' @ marked p ''!value'' @ CHR ''('' # s =
      u' @ marked w' ''!doc'' @ marked p' ''!value'' @ CHR ''('' # s'" unfolding s s' by simp_all
  have "u = u' \<and> w = w' \<and> p = p' \<and> s = s'"
    using u by (cases w; cases p; cases w'; cases p')
      (auto dest!: word_token [OF assms(4,5), rotated 2])
  then show ?thesis using b args_inject [OF assms(1,6,7), of r r'] s s' by simp
qed

lemma node_readable_calls:
  assumes "digest_laws T quote"
  shows "readableN T quote (InvokeTool b u as)" "readableN T quote (InvokeAgent b u as w)"
    "readableN T quote (InvokeWorkflow b u as w p)"
proof -
  show "readableN T quote (InvokeTool b u as)"
  proof (rule readableN_I)
    fix m r r'
    assume p: "plainN (InvokeTool b u as)" "plainN m"
      and eq: "encodeNode T quote (InvokeTool b u as) @ CHR '';'' # r = encodeNode T quote m @ CHR '';'' # r'"
    from eq obtain b' u' bs where m: "m = InvokeTool b' u' bs" by (cases m) (auto simp: encodeGraph_def)
    from eq call_inject [OF assms, of b b' u u' as bs False False "CHR '';'' # r" False False "CHR '';'' # r'"] p
    show "canonN (InvokeTool b u as) = canonN m \<and> r = r'" by (simp add: m)
  qed
  show "readableN T quote (InvokeAgent b u as w)"
  proof (rule readableN_I)
    fix m r r'
    assume p: "plainN (InvokeAgent b u as w)" "plainN m"
      and eq: "encodeNode T quote (InvokeAgent b u as w) @ CHR '';'' # r = encodeNode T quote m @ CHR '';'' # r'"
    from eq obtain b' u' bs w' where m: "m = InvokeAgent b' u' bs w'" by (cases m) (auto simp: encodeGraph_def)
    from eq call_inject [OF assms, of b b' u u' as bs w False "CHR '';'' # r" w' False "CHR '';'' # r'"] p
    show "canonN (InvokeAgent b u as w) = canonN m \<and> r = r'" by (simp add: m)
  qed
  show "readableN T quote (InvokeWorkflow b u as w p)"
  proof (rule readableN_I)
    fix m r r'
    assume q: "plainN (InvokeWorkflow b u as w p)" "plainN m"
      and eq: "encodeNode T quote (InvokeWorkflow b u as w p) @ CHR '';'' # r = encodeNode T quote m @ CHR '';'' # r'"
    from eq obtain b' u' bs w' p' where m: "m = InvokeWorkflow b' u' bs w' p'" by (cases m) (auto simp: encodeGraph_def)
    from eq call_inject [OF assms, of b b' u u' as bs w p "CHR '';'' # r" w' p' "CHR '';'' # r'"] q
    show "canonN (InvokeWorkflow b u as w p) = canonN m \<and> r = r'" by (simp add: m)
  qed
qed


lemma node_readable_values:
  assumes "digest_laws T quote"
  shows "readableN T quote (LetBind b v)" "readableN T quote (Return v)" "readableN T quote NilNode"
    "readableN T quote (Approval b desc redact as)"
proof -
  have quoted: "s = t \<and> r = r'" if "quote s @ r = quote t @ r'" for s t r r'
    using assms that unfolding digest_laws_def by blast
  show "readableN T quote (LetBind b v)"
  proof (rule readableN_I)
    fix m r r'
    assume p: "plainN (LetBind b v)" "plainN m"
      and eq: "encodeNode T quote (LetBind b v) @ CHR '';'' # r = encodeNode T quote m @ CHR '';'' # r'"
    from eq obtain c u where m: "m = LetBind c u" by (cases m) (auto simp: encodeGraph_def)
    have "b @ CHR ''='' # encodeValue T quote v @ CHR '';'' # r = c @ CHR ''='' # encodeValue T quote u @ CHR '';'' # r'"
      using eq m by simp
    from word_token [OF _ _ stop_simps(9) stop_simps(9) this] p m
    have 1: "b = c" "encodeValue T quote v @ CHR '';'' # r = encodeValue T quote u @ CHR '';'' # r'" by simp_all
    from value_semi [OF assms _ _ 1(2)] p m 1(1) show "canonN (LetBind b v) = canonN m \<and> r = r'" by simp
  qed
  show "readableN T quote (Return v)"
  proof (rule readableN_I)
    fix m r r'
    assume p: "plainN (Return v)" "plainN m"
      and eq: "encodeNode T quote (Return v) @ CHR '';'' # r = encodeNode T quote m @ CHR '';'' # r'"
    from eq obtain u where m: "m = Return u" by (cases m) (auto simp: encodeGraph_def)
    have "encodeValue T quote v @ CHR '';'' # r = encodeValue T quote u @ CHR '';'' # r'" using eq m by simp
    from value_semi [OF assms _ _ this] p m show "canonN (Return v) = canonN m \<and> r = r'" by simp
  qed
  show "readableN T quote NilNode"
  proof (rule readableN_I)
    fix m r r'
    assume "encodeNode T quote NilNode @ CHR '';'' # r = encodeNode T quote m @ CHR '';'' # r'"
    then show "canonN NilNode = canonN m \<and> r = r'" by (cases m) (auto simp: encodeGraph_def)
  qed
  show "readableN T quote (Approval b desc redact as)"
  proof (rule readableN_I)
    fix m r r'
    assume p: "plainN (Approval b desc redact as)" "plainN m"
      and eq: "encodeNode T quote (Approval b desc redact as) @ CHR '';'' # r = encodeNode T quote m @ CHR '';'' # r'"
    from eq obtain c desc' redact' bs where m: "m = Approval c desc' redact' bs" by (cases m) (auto simp: encodeGraph_def)
    have "b @ CHR '' '' # ''desc:'' @ quote desc @ '' redact:['' @ Join (sort redact) '','' @ CHR '']'' # encodeArgs T quote as @ CHR '';'' # r =
        c @ CHR '' '' # ''desc:'' @ quote desc' @ '' redact:['' @ Join (sort redact') '','' @ CHR '']'' # encodeArgs T quote bs @ CHR '';'' # r'"
      using eq m by (simp add: sortedCopy_def)
    from word_token [OF _ _ stop_simps(1) stop_simps(1) this] p m
    have 1: "b = c" "quote desc @ '' redact:['' @ Join (sort redact) '','' @ CHR '']'' # encodeArgs T quote as @ CHR '';'' # r =
        quote desc' @ '' redact:['' @ Join (sort redact') '','' @ CHR '']'' # encodeArgs T quote bs @ CHR '';'' # r'" by simp_all
    have 2: "desc = desc'" "Join (sort redact) '','' @ CHR '']'' # encodeArgs T quote as @ CHR '';'' # r =
        Join (sort redact') '','' @ CHR '']'' # encodeArgs T quote bs @ CHR '';'' # r'"
      using quoted [OF 1(2)] by simp_all
    from names_token [OF plainNames_sort plainNames_sort 2(2)] p m
    have 3: "sort redact = sort redact'" "encodeArgs T quote as @ CHR '';'' # r = encodeArgs T quote bs @ CHR '';'' # r'" by simp_all
    from args_inject [OF assms _ _ 3(2)] p m 1(1) 2(1) 3(1)
    show "canonN (Approval b desc redact as) = canonN m \<and> r = r'" by simp
  qed
qed

lemma node_readable_branch:
  assumes "digest_laws T quote" "\<And>n. n \<in> set thn \<union> set els \<Longrightarrow> readableN T quote n"
  shows "readableN T quote (Branch x thn els)"
proof (rule readableN_I)
  fix m r r'
  assume p: "plainN (Branch x thn els)" "plainN m"
    and eq: "encodeNode T quote (Branch x thn els) @ CHR '';'' # r = encodeNode T quote m @ CHR '';'' # r'"
  from eq obtain y thn' els' where m: "m = Branch y thn' els'" by (cases m) (auto simp: encodeGraph_def)
  let ?rest = "\<lambda>a b s. nodesText T quote a @ CHR 0x7D # ''else'' @ CHR 0x7B # nodesText T quote b @ CHR 0x7D # CHR '';'' # s"
  have "encodeExpr T quote x @ ''then'' @ CHR 0x7B # ?rest thn els r = encodeExpr T quote y @ ''then'' @ CHR 0x7B # ?rest thn' els' r'"
    using eq m by (simp add: encodeNodes_text)
  from expr_inject [OF assms(1) _ _ _ _ _ this] p m
  have 1: "canonX x = canonX y" "?rest thn els r = ?rest thn' els' r'" by (simp_all add: endings_def)
  from nodes_inject [OF _ _ _ 1(2)] assms(2) p m
  have 2: "map canonN thn = map canonN thn'" "nodesText T quote els @ CHR 0x7D # CHR '';'' # r = nodesText T quote els' @ CHR 0x7D # CHR '';'' # r'"
    by simp_all
  from nodes_inject [OF _ _ _ 2(2)] assms(2) p m 1(1) 2(1)
  show "canonN (Branch x thn els) = canonN m \<and> r = r'" by simp
qed

lemma node_readable_concurrent:
  shows "(\<And>b. b \<in> set bs \<Longrightarrow> readableB T quote b) \<Longrightarrow> readableN T quote (Fork bs)"
    and "(\<And>g. g \<in> set gs \<Longrightarrow> readableG T quote g) \<Longrightarrow> readableN T quote (Graph gs)"
proof -
  assume IH: "\<And>b. b \<in> set bs \<Longrightarrow> readableB T quote b"
  show "readableN T quote (Fork bs)"
  proof (rule readableN_I)
    fix m r r'
    assume p: "plainN (Fork bs)" "plainN m"
      and eq: "encodeNode T quote (Fork bs) @ CHR '';'' # r = encodeNode T quote m @ CHR '';'' # r'"
    from eq obtain cs where m: "m = Fork cs" by (cases m) (auto simp: encodeGraph_def)
    have "concat (map (encodeBranch T quote) bs) @ CHR '';'' # r = concat (map (encodeBranch T quote) cs) @ CHR '';'' # r'"
      using eq m by simp
    from branches_inject [OF IH _ _ this] p m show "canonN (Fork bs) = canonN m \<and> r = r'" by simp
  qed
next
  assume IH: "\<And>g. g \<in> set gs \<Longrightarrow> readableG T quote g"
  show "readableN T quote (Graph gs)"
  proof (rule readableN_I)
    fix m r r'
    assume p: "plainN (Graph gs)" "plainN m"
      and eq: "encodeNode T quote (Graph gs) @ CHR '';'' # r = encodeNode T quote m @ CHR '';'' # r'"
    from eq obtain hs where m: "m = Graph hs" by (cases m) (auto simp: encodeGraph_def)
    have "concat (map (graphText T quote) (sort_key gn_ID gs)) @ CHR 0x7D # CHR '';'' # r =
        concat (map (graphText T quote) (sort_key gn_ID hs)) @ CHR 0x7D # CHR '';'' # r'"
      using eq by (simp add: m encodeGraph_map graphText_def [abs_def])
    from graph_inject [OF _ _ _ this] IH p m
    have "map canonG (sort_key gn_ID gs) = map canonG (sort_key gn_ID hs) \<and> r = r'" by (simp add: list_all_iff)
    then show "canonN (Graph gs) = canonN m \<and> r = r'" by (simp add: m sort_key_map)
  qed
qed

lemma node_readable_loops:
  assumes "digest_laws T quote" "\<And>n. n \<in> set body \<Longrightarrow> readableN T quote n"
  shows "readableN T quote (While x limit body)" "readableN T quote (Retry x limit body)"
proof -
  have core: "canonX x = canonX y \<and> limit = l \<and> map canonN body = map canonN ns \<and> r = r'"
    if p: "plainX x" "plainX y" "list_all plainN body" "list_all plainN ns"
      and eq: "encodeExpr T quote x @ '' limit '' @ showInt limit @ CHR 0x7B # nodesText T quote body @ CHR 0x7D # r =
        encodeExpr T quote y @ '' limit '' @ showInt l @ CHR 0x7B # nodesText T quote ns @ CHR 0x7D # r'"
    for y l ns r r'
  proof -
    have "encodeExpr T quote x @ [] @ CHR '' '' # ''limit '' @ showInt limit @ CHR 0x7B # nodesText T quote body @ CHR 0x7D # r =
        encodeExpr T quote y @ [] @ CHR '' '' # ''limit '' @ showInt l @ CHR 0x7B # nodesText T quote ns @ CHR 0x7D # r'"
      using eq by simp
    from expr_inject [OF assms(1) p(1,2) _ _ _ this]
    have 1: "canonX x = canonX y" "showInt limit @ CHR 0x7B # nodesText T quote body @ CHR 0x7D # r =
        showInt l @ CHR 0x7B # nodesText T quote ns @ CHR 0x7D # r'" by (simp_all add: endings_def)
    from word_token [OF showInt_plain showInt_plain _ _ 1(2)]
    have 2: "limit = l" "nodesText T quote body @ CHR 0x7D # r = nodesText T quote ns @ CHR 0x7D # r'"
      by (simp_all add: showInt_inject)
    from nodes_inject [OF assms(2) p(3,4) 2(2)] 1(1) 2(1) show ?thesis by simp
  qed
  show "readableN T quote (While x limit body)"
  proof (rule readableN_I)
    fix m r r'
    assume p: "plainN (While x limit body)" "plainN m"
      and eq: "encodeNode T quote (While x limit body) @ CHR '';'' # r = encodeNode T quote m @ CHR '';'' # r'"
    from eq obtain y l ns where m: "m = While y l ns" by (cases m) (auto simp: encodeGraph_def)
    from eq p core [where y = y and ns = ns and l = l and r = "CHR '';'' # r" and r' = "CHR '';'' # r'"]
    show "canonN (While x limit body) = canonN m \<and> r = r'" by (simp add: m encodeNodes_text)
  qed
  show "readableN T quote (Retry x limit body)"
  proof (rule readableN_I)
    fix m r r'
    assume p: "plainN (Retry x limit body)" "plainN m"
      and eq: "encodeNode T quote (Retry x limit body) @ CHR '';'' # r = encodeNode T quote m @ CHR '';'' # r'"
    from eq obtain y l ns where m: "m = Retry y l ns" by (cases m) (auto simp: encodeGraph_def)
    from eq p core [where y = y and ns = ns and l = l and r = "CHR '';'' # r" and r' = "CHR '';'' # r'"]
    show "canonN (Retry x limit body) = canonN m \<and> r = r'" by (simp add: m encodeNodes_text)
  qed
qed

lemma node_readable_for:
  assumes "digest_laws T quote" "\<And>n. n \<in> set body \<Longrightarrow> readableN T quote n"
  shows "readableN T quote (Loop var coll body par)"
proof (rule readableN_I)
  fix m r r'
  assume p: "plainN (Loop var coll body par)" "plainN m"
    and eq: "encodeNode T quote (Loop var coll body par) @ CHR '';'' # r = encodeNode T quote m @ CHR '';'' # r'"
  from eq obtain w u ns par' where m: "m = Loop w u ns par'" by (cases m) (auto simp: encodeGraph_def)
  have plain: "plainWord var" "plainWord w" "plainWord ''par''" "plainV coll" "plainV u"
    using p m by (simp_all add: plainWord_def stopChars_def)
  let ?rest = "\<lambda>v b s. encodeValue T quote v @ CHR 0x7B # nodesText T quote b @ CHR 0x7D # CHR '';'' # s"
  note tok = word_token [OF _ _ stop_simps(1) stop_simps(1)]
  have same: "marked par ''par '' @ var @ CHR '' '' # ''in '' @ ?rest coll body r =
      marked par' ''par '' @ w @ CHR '' '' # ''in '' @ ?rest u ns r'"
    using eq m by (simp add: encodeNodes_text)
  have "par = par' \<and> var = w \<and> ?rest coll body r = ?rest u ns r'"
  proof (cases par; cases par')
    assume c: "par" "\<not> par'"
    then have "''par'' @ CHR '' '' # var @ CHR '' '' # ''in '' @ ?rest coll body r = w @ CHR '' '' # ''in '' @ ?rest u ns r'"
      using same by simp
    from tok [OF plain(3,2) this] have "var @ CHR '' '' # ''in '' @ ?rest coll body r = ''in'' @ CHR '' '' # ?rest u ns r'" by simp
    moreover from tok [OF plain(1) _ this] have "''in '' @ ?rest coll body r = ?rest u ns r'"
      by (simp add: plainWord_def stopChars_def)
    ultimately show ?thesis by (cases u) auto
  next
    assume c: "\<not> par" "par'"
    then have "var @ CHR '' '' # ''in '' @ ?rest coll body r = ''par'' @ CHR '' '' # w @ CHR '' '' # ''in '' @ ?rest u ns r'"
      using same by simp
    from tok [OF plain(1,3) this] have "''in'' @ CHR '' '' # ?rest coll body r = w @ CHR '' '' # ''in '' @ ?rest u ns r'" by simp
    moreover from tok [OF _ plain(2) this] have "?rest coll body r = ''in '' @ ?rest u ns r'"
      by (simp add: plainWord_def stopChars_def)
    ultimately show ?thesis by (cases coll) auto
  qed (use same tok [OF plain(1,2)] in auto)
  then have 1: "par = par'" "var = w" "?rest coll body r = ?rest u ns r'" by simp_all
  from value_semi [OF assms(1) plain(4,5) 1(3)]
  have 2: "canonV coll = canonV u" "nodesText T quote body @ CHR 0x7D # CHR '';'' # r = nodesText T quote ns @ CHR 0x7D # CHR '';'' # r'"
    by simp_all
  from nodes_inject [OF assms(2) _ _ 2(2)] p m 1(1,2) 2(1)
  show "canonN (Loop var coll body par) = canonN m \<and> r = r'" by simp
qed

lemma node_readable:
  assumes "digest_laws T quote"
  shows "readableN T quote n" "readableB T quote b" "readableG T quote g"
proof (induction n and b and g rule: node.induct fork_branch.induct graph_node.induct)
  case (GraphNode i needs run)
  then show ?case by (simp add: readableG_def)
qed (auto intro: node_readable_calls [OF assms] node_readable_values [OF assms] node_readable_branch [OF assms]
    node_readable_concurrent node_readable_loops [OF assms] node_readable_for [OF assms] branch_readable)

lemma program_inject:
  assumes "digest_laws T quote" "plainProgram p" "plainProgram q" "encodeProgram T quote p = encodeProgram T quote q"
  shows "canonProgram p = canonProgram q"
proof -
  have "pg_Workflow p @ CHR '')'' # ''params['' @ Join (pg_Params p) '','' @ CHR '']'' # CHR 0x7B # nodesText T quote (pg_Body p) @ CHR 0x7D # [] =
      pg_Workflow q @ CHR '')'' # ''params['' @ Join (pg_Params q) '','' @ CHR '']'' # CHR 0x7B # nodesText T quote (pg_Body q) @ CHR 0x7D # []"
    using assms(4) by (simp add: encodeProgram_def encodeNodes_text)
  from word_token [OF _ _ _ _ this] assms(2,3)
  have 1: "pg_Workflow p = pg_Workflow q" "Join (pg_Params p) '','' @ CHR '']'' # CHR 0x7B # nodesText T quote (pg_Body p) @ CHR 0x7D # [] =
      Join (pg_Params q) '','' @ CHR '']'' # CHR 0x7B # nodesText T quote (pg_Body q) @ CHR 0x7D # []"
    by (simp_all add: plainProgram_def)
  from names_token [OF _ _ 1(2)] assms(2,3)
  have 2: "pg_Params p = pg_Params q" "nodesText T quote (pg_Body p) @ CHR 0x7D # [] = nodesText T quote (pg_Body q) @ CHR 0x7D # []"
    by (simp_all add: plainProgram_def)
  from nodes_inject [OF node_readable(1) [OF assms(1)] _ _ 2(2)] assms(2,3)
  have "map canonN (pg_Body p) = map canonN (pg_Body q)" by (simp add: plainProgram_def)
  then show ?thesis using 1(1) 2(1) by (simp add: canonProgram_def)
qed


subsection \<open>Properties\<close>

text \<open>
  C13. The digest identifies the executable program: for programs whose names are free of the
  encoding's separators, two programs that differ only in the order of graph nodes, needs,
  arguments, object fields and redaction keys have the same digest, and two programs with
  the same digest are equal up to that order unless their encodings are a SHA-256 collision.
\<close>

theorem digest_identifies_programs:
  assumes "digest_laws T quote" "plainProgram p" "plainProgram q"
  shows "(canonProgram p = canonProgram q \<longrightarrow> Digest T quote (Some p) = Digest T quote (Some q)) \<and>
    (Digest T quote (Some p) = Digest T quote (Some q) \<longrightarrow>
       canonProgram p = canonProgram q \<or>
       encodeProgram T quote p \<noteq> encodeProgram T quote q \<and>
       hashHex (encodeProgram T quote p) = hashHex (encodeProgram T quote q))"
proof -
  have "encodeProgram T quote p = encodeProgram T quote q" if "canonProgram p = canonProgram q"
    using encode_canonProgram [of T quote p] encode_canonProgram [of T quote q] that by simp
  then show ?thesis using program_inject [OF assms] unfolding Digest_def option.case by metis
qed

text \<open>A quoting function and a float spelling with the two laws.\<close>

definition demo_escape :: "char \<Rightarrow> string" where
  "demo_escape c = (if c = CHR 0x22 \<or> c = CHR 0x5C then [CHR 0x5C, c] else [c])"

definition demo_quote :: "string \<Rightarrow> string" where
  "demo_quote s = CHR 0x22 # concat (map demo_escape s) @ [CHR 0x22]"

definition demo_float :: "float64 \<Rightarrow> string" where
  "demo_float x =
     (case x of
        Fin q \<Rightarrow> showInt (fst (quotient_of q)) @ ''/'' @ showInt (snd (quotient_of q))
      | PosInf \<Rightarrow> ''+Inf'' | NegInf \<Rightarrow> ''-Inf'' | NaN \<Rightarrow> ''NaN'')"

definition demo_digest_text :: go_text where
  "demo_digest_text = demo_text\<lparr>gt_g := demo_float\<rparr>"

lemma demo_quote_inject: "demo_quote s @ r = demo_quote t @ r' \<Longrightarrow> s = t \<and> r = r'"
proof (induction s arbitrary: t)
  case Nil
  then show ?case by (cases t) (auto simp: demo_quote_def demo_escape_def split: if_splits)
next
  case (Cons c s)
  then show ?case by (cases t) (auto simp: demo_quote_def demo_escape_def split: if_splits)
qed

lemma demo_float_slash: "CHR ''/'' \<notin> set (showInt i)"
proof -
  have "CHR ''/'' \<notin> set (showNat n)" for n
    using showNat_digits [of n] by (auto simp: list_all_iff isDigit_def between_def)
  then show ?thesis by (simp add: showInt_def)
qed

lemma demo_float_inject:
  assumes "demo_float x = demo_float y"
  shows "x = y"
proof -
  have fin: "p = q" if "demo_float (Fin p) = demo_float (Fin q)" for p q
  proof -
    have "showInt (fst (quotient_of p)) @ CHR ''/'' # showInt (snd (quotient_of p)) =
        showInt (fst (quotient_of q)) @ CHR ''/'' # showInt (snd (quotient_of q))"
      using that by (simp add: demo_float_def)
    from separated_inject [OF this demo_float_slash demo_float_slash]
    have "quotient_of p = quotient_of q" by (simp add: showInt_inject prod_eq_iff)
    then show ?thesis by (simp add: quotient_of_inject)
  qed
  have no: "demo_float (Fin q) \<noteq> ''+Inf''" "demo_float (Fin q) \<noteq> ''-Inf''" "demo_float (Fin q) \<noteq> ''NaN''" for q
  proof -
    have "CHR ''/'' \<in> set (demo_float (Fin q))" by (simp add: demo_float_def)
    then show "demo_float (Fin q) \<noteq> ''+Inf''" "demo_float (Fin q) \<noteq> ''-Inf''" "demo_float (Fin q) \<noteq> ''NaN''"
      by auto
  qed
  have specials: "demo_float PosInf = ''+Inf''" "demo_float NegInf = ''-Inf''" "demo_float NaN = ''NaN''"
    by (simp_all add: demo_float_def)
  show ?thesis
    using assms no no [symmetric] fin by (cases x; cases y; simp only: specials float64.inject) auto
qed

lemma demo_digest_laws: "digest_laws demo_digest_text demo_quote"
proof -
  have "plainWord (demo_float x)" for x
    using showInt_plain by (cases x) (auto simp: demo_float_def plainWord_append, auto simp: plainWord_def stopChars_def)
  moreover have "gt_g demo_digest_text = demo_float" by (simp add: demo_digest_text_def)
  ultimately show ?thesis
    unfolding digest_laws_def using demo_quote_inject demo_float_inject by metis
qed

definition demo_graph :: "graph_node list \<Rightarrow> program" where
  "demo_graph ns = \<lparr>pg_Workflow = ''w'', pg_Params = [''x''], pg_Body = [Graph ns]\<rparr>"

definition demo_a :: graph_node where
  "demo_a = GraphNode ''a'' [] (InvokeTool ''a'' ''t.read'' [(''n'', Lit (AInt 1))])"

definition demo_b :: graph_node where
  "demo_b = GraphNode ''b'' [''a''] (InvokeAgent ''b'' ''m'' [(''v'', Ref [''a'', ''out'']), (''c'', Lit (AStr ''k''))] False)"

theorem digest_identifies_programs_witness:
  "demo_graph [demo_a, demo_b] \<noteq> demo_graph [demo_b, demo_a] \<and>
   Digest demo_digest_text demo_quote (Some (demo_graph [demo_a, demo_b])) =
   Digest demo_digest_text demo_quote (Some (demo_graph [demo_b, demo_a]))"
proof -
  have p: "plainProgram (demo_graph [demo_a, demo_b])" "plainProgram (demo_graph [demo_b, demo_a])" by code_simp+
  have c: "canonProgram (demo_graph [demo_a, demo_b]) = canonProgram (demo_graph [demo_b, demo_a])" by code_simp
  have "demo_graph [demo_a, demo_b] \<noteq> demo_graph [demo_b, demo_a]" by code_simp
  with digest_identifies_programs [OF demo_digest_laws p] c show ?thesis by blast
qed

text \<open>
  The names are written without quoting, so with a separator in a name two different programs
  share their encoding: the first call passes two arguments, the second one.
\<close>

definition collide_p :: program where
  "collide_p = \<lparr>pg_Workflow = ''w'', pg_Params = [],
     pg_Body = [InvokeTool ''r'' ''t.op'' [(''a'', Lit (AInt 1)), (''b'', Lit (AInt 2))]]\<rparr>"

definition collide_q :: program where
  "collide_q = \<lparr>pg_Workflow = ''w'', pg_Params = [],
     pg_Body = [InvokeTool ''r'' ''t.op'' [(''a=lit:i1,b'', Lit (AInt 2))]]\<rparr>"

lemma digest_separators_collide:
  "canonProgram collide_p \<noteq> canonProgram collide_q \<and>
   Digest demo_digest_text demo_quote (Some collide_p) = Digest demo_digest_text demo_quote (Some collide_q)"
proof -
  have "encodeProgram demo_digest_text demo_quote collide_p = encodeProgram demo_digest_text demo_quote collide_q"
    by code_simp
  moreover have "canonProgram collide_p \<noteq> canonProgram collide_q" by code_simp
  ultimately show ?thesis by (simp add: Digest_def)
qed

end
