(* ===== verification/Exec_Interp.thy ===== *)
theory Exec_Interp
  imports Exec_Eval "HOL-Library.Product_Lexorder"
begin

text \<open>
  The interpreter of the execution IR (\<open>internal/execir/interp.go\<close>) with its durable state:
  the memo of completed leaves, the record of control-flow decisions, and suspension.

  The \<open>Invoker\<close> is an argument: a function from call site, leaf and arguments to an outcome.
  Within one run no call site is invoked twice (\<open>Exec_Once\<close>), so such a function describes
  the answers of any effectful environment, cancellation of a context included.

  Goroutines are run one after the other in the order a \<open>schedule\<close> gives. The branches of a
  \<open>Fork\<close> or a parallel \<open>Loop\<close> have scopes of their own and touch disjoint keys of the memo and of
  the control record; what they share is the flag \<open>suspended\<close>, which the join of a nested fork or
  loop reads. An interleaving is therefore given by the leaf that suspends first and by what each
  join reads: \<open>sc_order\<close> puts the branch of that leaf first, so that every join that can read the
  flag as set comes after it, and \<open>sc_visible\<close> says whether a join that comes after it in this order,
  and whose own branches have not suspended, came before it in time and read the flag as unset. In a
  \<open>Graph\<close> the schedule also decides when a node takes its snapshot of the scope and when it
  completes; its leaves are invoked at its completion. Every theorem holds for all schedules.

  The field \<open>x_calls\<close> records the invocations a run performs; no definition reads it.
\<close>

subsection \<open>Call sites and keys\<close>

record call_site =
  cs_Bind :: string
  cs_Path :: "nat list"
  cs_Loop :: "nat list"
  cs_WholeDocument :: bool

text \<open>The \<open>%v\<close> verb on an \<open>[]int\<close>.\<close>

definition showInts :: "nat list \<Rightarrow> string" where
  "showInts xs = ''['' @ Join (map showNat xs) '' '' @ '']''"

definition CallKey :: "call_site \<Rightarrow> string" where
  "CallKey site = cs_Bind site @ ''|'' @ showInts (cs_Path site) @ ''|'' @ showInts (cs_Loop site)"

definition controlKey :: "string \<Rightarrow> nat list \<Rightarrow> nat list \<Rightarrow> string" where
  "controlKey pre path loop = pre @ showInts path @ ''|'' @ showInts loop"

text \<open>\<open>extend(base, x)\<close> is \<open>base @ [x]\<close>.\<close>

subsection \<open>The invoker, the configuration and the state\<close>

datatype leaf =
    LeafTool string
  | LeafAgent string
  | LeafWorkflow string
  | LeafApproval string "string list"

datatype outcome = InvOk any | InvSuspend | InvCanceled | InvError string

record interp =
  in_Invoker :: "call_site \<Rightarrow> leaf \<Rightarrow> any gomap \<Rightarrow> outcome"
  in_MaxLoopIterations :: int
  in_MaxConcurrency :: int

definition DefaultMaxLoopIterations :: int where
  "DefaultMaxLoopIterations = 1000"

definition DefaultMaxConcurrency :: int where
  "DefaultMaxConcurrency = 8"

definition maxIters :: "interp \<Rightarrow> int" where
  "maxIters I = (if in_MaxLoopIterations I > 0 then in_MaxLoopIterations I else DefaultMaxLoopIterations)"

definition maxConc :: "interp \<Rightarrow> int" where
  "maxConc I = (if in_MaxConcurrency I > 0 then in_MaxConcurrency I else DefaultMaxConcurrency)"

record invocation =
  iv_Site :: call_site
  iv_Leaf :: leaf
  iv_Args :: "any gomap"

text \<open>The session shared by all runners, and the runner's own scope, output and done flag.\<close>

record exec_state =
  x_memo :: "any gomap"
  x_control :: "int gomap"
  x_suspended :: bool
  x_suspendKey :: string
  x_calls :: "invocation list"
  x_scope :: scope
  x_output :: any
  x_done :: bool

type_synonym runner = "exec_state \<Rightarrow> exec_state \<times> exec_error option"

definition markSuspended :: "string \<Rightarrow> exec_state \<Rightarrow> exec_state" where
  "markSuspended key st =
     (if x_suspended st then st else st\<lparr>x_suspended := True, x_suspendKey := key\<rparr>)"

definition checkControl :: "string \<Rightarrow> int \<Rightarrow> runner" where
  "checkControl addr val st =
     (case map_of (x_control st) addr of
        Some prev \<Rightarrow>
          if prev \<noteq> val then (st, Some (ErrDiverged addr prev val))
          else (st\<lparr>x_control := put addr val (x_control st)\<rparr>, None)
      | None \<Rightarrow> (st\<lparr>x_control := put addr val (x_control st)\<rparr>, None))"

definition bindTo :: "string \<Rightarrow> any \<Rightarrow> exec_state \<Rightarrow> exec_state" where
  "bindTo b v st = (if b \<noteq> [] then st\<lparr>x_scope := put b v (x_scope st)\<rparr> else st)"

subsection \<open>Leaves\<close>

definition invoke ::
  "go_text \<Rightarrow> interp \<Rightarrow> call_site \<Rightarrow> leaf \<Rightarrow> ir_args \<Rightarrow> runner" where
  "invoke T I site lf args st =
     (let key = CallKey site
      in case map_of (x_memo st) key of
           Some v \<Rightarrow> (bindTo (cs_Bind site) v st, None)
         | None \<Rightarrow>
             (case evalArgs T (x_scope st) args of
                Inl e \<Rightarrow> (st, Some e)
              | Inr a \<Rightarrow>
                  (let st1 = st\<lparr>x_calls := x_calls st @ [\<lparr>iv_Site = site, iv_Leaf = lf, iv_Args = a\<rparr>]\<rparr>
                   in case in_Invoker I site lf a of
                        InvSuspend \<Rightarrow> ((markSuspended key st1)\<lparr>x_done := True\<rparr>, Some ErrSuspend)
                      | InvCanceled \<Rightarrow> (st1, Some ErrCanceled)
                      | InvError e \<Rightarrow> (st1, Some (ErrInvoke e))
                      | InvOk res \<Rightarrow>
                          (case Canonical T res of
                             Inl e \<Rightarrow> (st1, Some (ErrResult key e))
                           | Inr c \<Rightarrow>
                               (bindTo (cs_Bind site) c (st1\<lparr>x_memo := put key c (x_memo st1)\<rparr>), None)))))"

definition mkSite :: "string \<Rightarrow> nat list \<Rightarrow> nat list \<Rightarrow> bool \<Rightarrow> call_site" where
  "mkSite b path loop whole = \<lparr>cs_Bind = b, cs_Path = path, cs_Loop = loop, cs_WholeDocument = whole\<rparr>"

definition projectValueField :: "string \<Rightarrow> any \<Rightarrow> any eval" where
  "projectValueField workflow doc =
     (case doc of
        AObj m \<Rightarrow> Inr (case map_of m ''value'' of None \<Rightarrow> ANil | Some v \<Rightarrow> v)
      | _ \<Rightarrow> Inl (ErrProjectValue workflow))"

definition lookupScope :: "scope \<Rightarrow> string \<Rightarrow> any" where
  "lookupScope scope k = (case map_of scope k of None \<Rightarrow> ANil | Some v \<Rightarrow> v)"

definition execInvokeWorkflow ::
  "go_text \<Rightarrow> interp \<Rightarrow> string \<Rightarrow> string \<Rightarrow> ir_args \<Rightarrow> bool \<Rightarrow> bool \<Rightarrow> nat list \<Rightarrow> nat list \<Rightarrow> runner" where
  "execInvokeWorkflow T I b wfl args whole project path loop st =
     (case invoke T I (mkSite b path loop whole) (LeafWorkflow wfl) args st of
        (st1, Some e) \<Rightarrow> (st1, Some e)
      | (st1, None) \<Rightarrow>
          if project \<and> b \<noteq> [] then
            (case projectValueField wfl (lookupScope (x_scope st1) b) of
               Inl e \<Rightarrow> (st1, Some e)
             | Inr v \<Rightarrow> (st1\<lparr>x_scope := put b v (x_scope st1)\<rparr>, None))
          else (st1, None))"

definition execLet :: "go_text \<Rightarrow> string \<Rightarrow> ir_value \<Rightarrow> runner" where
  "execLet T b v st =
     (case evalValue T (x_scope st) v of Inl e \<Rightarrow> (st, Some e) | Inr x \<Rightarrow> (bindTo b x st, None))"

definition execReturn :: "go_text \<Rightarrow> ir_value \<Rightarrow> runner" where
  "execReturn T v st =
     (case evalValue T (x_scope st) v of
        Inl e \<Rightarrow> (st, Some e)
      | Inr x \<Rightarrow> (st\<lparr>x_output := x, x_done := True\<rparr>, None))"

subsection \<open>Sequential control flow\<close>

text \<open>The bodies are runners: the interpretation of the nested node lists.\<close>

definition takenOf :: "bool \<Rightarrow> int" where
  "takenOf b = (if b then 1 else 0)"

definition execBranch ::
  "go_text \<Rightarrow> ir_expr \<Rightarrow> runner \<Rightarrow> runner \<Rightarrow> nat list \<Rightarrow> nat list \<Rightarrow> runner" where
  "execBranch T cond thn els path loop st =
     (case evalExpr T (x_scope st) cond of
        Inl e \<Rightarrow> (st, Some e)
      | Inr c \<Rightarrow>
          (case checkControl (controlKey ''br:'' path loop) (takenOf c) st of
             (st1, Some e) \<Rightarrow> (st1, Some e)
           | (st1, None) \<Rightarrow> if c then thn st1 else els st1))"

fun loopItems :: "string \<Rightarrow> (nat list \<Rightarrow> runner) \<Rightarrow> nat list \<Rightarrow> nat \<Rightarrow> any list \<Rightarrow> runner" where
  "loopItems var body loop idx [] st = (st, None)"
| "loopItems var body loop idx (item # items) st =
     (case body (loop @ [idx]) (st\<lparr>x_scope := put var item (x_scope st)\<rparr>) of
        (st1, Some e) \<Rightarrow> (st1, Some e)
      | (st1, None) \<Rightarrow>
          if x_done st1 then (st1, None)
          else loopItems var body loop (Suc idx) items st1)"

definition effectiveMax :: "interp \<Rightarrow> int \<Rightarrow> nat" where
  "effectiveMax I limit = nat (if limit > 0 \<and> limit < maxIters I then limit else maxIters I)"

text \<open>\<open>n\<close> is the number of iterations left, \<open>i\<close> the index of the next one.\<close>

fun whileIter ::
  "go_text \<Rightarrow> ir_expr \<Rightarrow> (nat list \<Rightarrow> runner) \<Rightarrow> nat list \<Rightarrow> nat list \<Rightarrow> nat \<Rightarrow> nat \<Rightarrow> runner" where
  "whileIter T cond body path loop i 0 st = (st, None)"
| "whileIter T cond body path loop i (Suc n) st =
     (case evalExpr T (x_scope st) cond of
        Inl e \<Rightarrow> (st, Some e)
      | Inr c \<Rightarrow>
          (case checkControl (controlKey ''while:'' path (loop @ [i])) (takenOf c) st of
             (st1, Some e) \<Rightarrow> (st1, Some e)
           | (st1, None) \<Rightarrow>
               if \<not> c then (st1, None)
               else (case body (loop @ [i]) st1 of
                       (st2, Some e) \<Rightarrow> (st2, Some e)
                     | (st2, None) \<Rightarrow>
                         if x_done st2 then (st2, None)
                         else whileIter T cond body path loop (Suc i) n st2)))"

definition execWhile ::
  "go_text \<Rightarrow> interp \<Rightarrow> ir_expr \<Rightarrow> int \<Rightarrow> (nat list \<Rightarrow> runner) \<Rightarrow> nat list \<Rightarrow> nat list \<Rightarrow> runner" where
  "execWhile T I cond limit body path loop =
     whileIter T cond body path loop 0 (effectiveMax I limit)"

fun retryIter ::
  "go_text \<Rightarrow> ir_expr \<Rightarrow> int \<Rightarrow> (nat list \<Rightarrow> runner) \<Rightarrow> nat list \<Rightarrow> nat list \<Rightarrow> nat \<Rightarrow> nat \<Rightarrow> runner" where
  "retryIter T cond limit body path loop i 0 st = (st, Some (ErrRetryExhausted limit))"
| "retryIter T cond limit body path loop i (Suc n) st =
     (case body (loop @ [i]) st of
        (st1, Some e) \<Rightarrow> (st1, Some e)
      | (st1, None) \<Rightarrow>
          if x_done st1 then (st1, None)
          else (case evalExpr T (x_scope st1) cond of
                  Inl e \<Rightarrow> (st1, Some e)
                | Inr c \<Rightarrow>
                    (case checkControl (controlKey ''retry:'' path (loop @ [i])) (takenOf c) st1 of
                       (st2, Some e) \<Rightarrow> (st2, Some e)
                     | (st2, None) \<Rightarrow>
                         if c then (st2, None)
                         else retryIter T cond limit body path loop (Suc i) n st2)))"

definition execRetry ::
  "go_text \<Rightarrow> interp \<Rightarrow> ir_expr \<Rightarrow> int \<Rightarrow> (nat list \<Rightarrow> runner) \<Rightarrow> nat list \<Rightarrow> nat list \<Rightarrow> runner" where
  "execRetry T I cond limit body path loop =
     retryIter T cond limit body path loop 0 (effectiveMax I limit)"

subsection \<open>Concurrent branches\<close>

record schedule =
  sc_order :: "nat list \<Rightarrow> nat list \<Rightarrow> nat list"
  sc_visible :: "nat list \<Rightarrow> nat list \<Rightarrow> bool"
  sc_event :: "nat list \<Rightarrow> nat list \<Rightarrow> nat \<Rightarrow> nat"

text \<open>Any list of numbers, read as an order of the branches \<open>0, \<dots>, n - 1\<close>.\<close>

definition arrange :: "nat \<Rightarrow> nat list \<Rightarrow> nat list" where
  "arrange n xs =
     (let ys = filter (\<lambda>i. i < n) (remdups xs) in ys @ filter (\<lambda>i. i \<notin> set ys) [0..<n])"

fun classifyConcurrent :: "bool \<Rightarrow> exec_error option list \<Rightarrow> exec_error option" where
  "classifyConcurrent suspended [] = (if suspended then Some ErrSuspend else None)"
| "classifyConcurrent suspended (e # errs) =
     (if e \<noteq> None \<and> e \<noteq> Some ErrCanceled \<and> e \<noteq> Some ErrSuspend then e
      else classifyConcurrent suspended errs)"

text \<open>
  \<open>sess.isSuspended()\<close> at a join whose branches ran between the two states: a suspension of one of
  them is always seen, one from outside when the schedule says so.
\<close>

definition seesSuspension ::
  "schedule \<Rightarrow> nat list \<Rightarrow> nat list \<Rightarrow> exec_state \<Rightarrow> exec_state \<Rightarrow> exec_error option list \<Rightarrow> bool" where
  "seesSuspension S path loop before after errs \<longleftrightarrow>
     x_suspended after \<and>
       (\<not> x_suspended before \<or> Some ErrSuspend \<in> set errs \<or> sc_visible S path loop)"

text \<open>A fresh runner on a copy of the scope, and its parent after the goroutine has ended.\<close>

definition subRunner :: "scope \<Rightarrow> exec_state \<Rightarrow> exec_state" where
  "subRunner child st = st\<lparr>x_scope := child, x_output := ANil, x_done := False\<rparr>"

definition backTo :: "exec_state \<Rightarrow> exec_state \<Rightarrow> exec_state" where
  "backTo parent st =
     st\<lparr>x_scope := x_scope parent, x_output := x_output parent, x_done := x_done parent\<rparr>"

type_synonym branch_result = "exec_error option \<times> scope"

text \<open>The goroutines in the given order; the result maps each index to its error and scope.\<close>

fun runBranches ::
  "(nat \<Rightarrow> scope) \<Rightarrow> (nat \<Rightarrow> runner) \<Rightarrow> nat list \<Rightarrow> exec_state \<Rightarrow> exec_state \<times> (nat \<times> branch_result) list" where
  "runBranches child run [] st = (st, [])"
| "runBranches child run (i # is) st =
     (case run i (subRunner (child i) st) of
        (c, e) \<Rightarrow>
          (case runBranches child run is (backTo st c) of
             (st', rs) \<Rightarrow> (st', (i, e, x_scope c) # rs)))"

definition branchErr :: "(nat \<times> branch_result) list \<Rightarrow> nat \<Rightarrow> exec_error option" where
  "branchErr rs i = (case map_of rs i of None \<Rightarrow> None | Some (e, sc) \<Rightarrow> e)"

definition branchVal :: "(nat \<times> branch_result) list \<Rightarrow> nat \<Rightarrow> string \<Rightarrow> any option" where
  "branchVal rs i b =
     (case map_of rs i of Some (None, sc) \<Rightarrow> map_of sc b | _ \<Rightarrow> None)"

fun publish :: "(nat \<times> branch_result) list \<Rightarrow> nat \<Rightarrow> string list \<Rightarrow> scope \<Rightarrow> scope" where
  "publish rs i [] sc = sc"
| "publish rs i (b # bs) sc =
     publish rs (Suc i) bs
       (case branchVal rs i b of Some v \<Rightarrow> if b \<noteq> [] then put b v sc else sc | None \<Rightarrow> sc)"

definition execFork ::
  "schedule \<Rightarrow> string list \<Rightarrow> (nat \<Rightarrow> runner) \<Rightarrow> nat list \<Rightarrow> nat list \<Rightarrow> runner" where
  "execFork S binds run path loop st =
     (let n = length binds;
          (st1, rs) = runBranches (\<lambda>i. x_scope st) run (arrange n (sc_order S path loop)) st;
          errs = map (branchErr rs) [0..<n]
      in case classifyConcurrent (seesSuspension S path loop st st1 errs) errs of
           Some e \<Rightarrow> (st1, Some e)
         | None \<Rightarrow> (st1\<lparr>x_scope := publish rs 0 binds (x_scope st1)\<rparr>, None))"

definition execLoopParallel ::
  "schedule \<Rightarrow> string \<Rightarrow> (nat list \<Rightarrow> runner) \<Rightarrow> any list \<Rightarrow> nat list \<Rightarrow> nat list \<Rightarrow> runner" where
  "execLoopParallel S var body items path loop st =
     (let n = length items;
          (st1, rs) = runBranches (\<lambda>i. put var (items ! i) (x_scope st)) (\<lambda>i. body (loop @ [i]))
            (arrange n (sc_order S path loop)) st;
          errs = map (branchErr rs) [0..<n]
      in (st1, classifyConcurrent (seesSuspension S path loop st st1 errs) errs))"

definition execLoop ::
  "go_text \<Rightarrow> interp \<Rightarrow> schedule \<Rightarrow> string \<Rightarrow> ir_value \<Rightarrow> bool \<Rightarrow> (nat list \<Rightarrow> runner) \<Rightarrow>
     nat list \<Rightarrow> nat list \<Rightarrow> runner" where
  "execLoop T I S var coll par body path loop st =
     (case evalCollection T (x_scope st) coll of
        Inl e \<Rightarrow> (st, Some e)
      | Inr items \<Rightarrow>
          if int (length items) > maxIters I
          then (st, Some (ErrTooManyItems (length items) (maxIters I)))
          else (case checkControl (controlKey ''loop:'' path loop) (int (length items)) st of
                  (st1, Some e) \<Rightarrow> (st1, Some e)
                | (st1, None) \<Rightarrow>
                    if par then execLoopParallel S var body items path loop st1
                    else loopItems var body loop 0 items st1))"


subsection \<open>Needs-graphs\<close>

text \<open>\<open>canonicalRanks\<close>: the position of each node when the nodes are sorted by id, then index.\<close>

definition canonicalOrder :: "string list \<Rightarrow> nat list" where
  "canonicalOrder ids = sort_key (\<lambda>i. (ids ! i, i)) [0..<length ids]"

definition canonicalRanks :: "string list \<Rightarrow> nat \<Rightarrow> nat" where
  "canonicalRanks ids i = length (takeWhile (\<lambda>j. j \<noteq> i) (canonicalOrder ids))"

text \<open>
  The scheduler's state: nodes not yet launched, launched nodes waiting for the semaphore,
  nodes running on their snapshot of the scope, completed ids, the first failure and whether
  a node has suspended.
\<close>

record graph_state =
  gs_x :: exec_state
  gs_todo :: "nat list"
  gs_launched :: "nat list"
  gs_running :: "(nat \<times> scope) list"
  gs_completed :: "string list"
  gs_firstErr :: "exec_error option"
  gs_suspended :: bool

record graph_env =
  ge_ids :: "string list"
  ge_needs :: "string list list"
  ge_conc :: nat

definition nodeReady :: "graph_env \<Rightarrow> string list \<Rightarrow> nat \<Rightarrow> bool" where
  "nodeReady G completed i \<longleftrightarrow>
     ge_ids G ! i \<notin> set completed \<and> list_all (\<lambda>dep. dep \<in> set completed) (ge_needs G ! i)"

definition trySchedule :: "graph_env \<Rightarrow> graph_state \<Rightarrow> graph_state" where
  "trySchedule G gs =
     (if gs_firstErr gs \<noteq> None \<or> gs_suspended gs then gs
      else gs\<lparr>gs_launched := gs_launched gs @ filter (nodeReady G (gs_completed gs)) (gs_todo gs),
              gs_todo := filter (\<lambda>i. \<not> nodeReady G (gs_completed gs) i) (gs_todo gs)\<rparr>)"

definition startable :: "graph_env \<Rightarrow> graph_state \<Rightarrow> nat" where
  "startable G gs = (if length (gs_running gs) < ge_conc G then length (gs_launched gs) else 0)"

definition dropNth :: "nat \<Rightarrow> 'a list \<Rightarrow> 'a list" where
  "dropNth k xs = take k xs @ drop (Suc k) xs"

text \<open>The \<open>k\<close>-th launched node acquires the semaphore and copies the scope.\<close>

definition startNode :: "nat \<Rightarrow> graph_state \<Rightarrow> graph_state" where
  "startNode k gs =
     gs\<lparr>gs_launched := dropNth k (gs_launched gs),
        gs_running := gs_running gs @ [(gs_launched gs ! k, x_scope (gs_x gs))]\<rparr>"

text \<open>What a node's goroutine does under the mutex once its run has ended.\<close>

definition settleNode ::
  "graph_env \<Rightarrow> nat \<Rightarrow> exec_state \<Rightarrow> exec_error option \<Rightarrow> graph_state \<Rightarrow> graph_state" where
  "settleNode G i c e gs =
     (case e of
        None \<Rightarrow>
          gs\<lparr>gs_x := (case map_of (x_scope c) (ge_ids G ! i) of
                        Some v \<Rightarrow> bindTo (ge_ids G ! i) v (gs_x gs)
                      | None \<Rightarrow> gs_x gs),
             gs_completed := List.insert (ge_ids G ! i) (gs_completed gs)\<rparr>
      | Some err \<Rightarrow>
          if err = ErrSuspend then gs\<lparr>gs_suspended := True\<rparr>
          else if err = ErrCanceled \<and> (gs_suspended gs \<or> gs_firstErr gs \<noteq> None) then gs
          else if gs_firstErr gs = None then gs\<lparr>gs_firstErr := Some err\<rparr>
          else gs)"

text \<open>The \<open>k\<close>-th running node ends; then the main loop schedules what has become ready.\<close>

definition finishNode :: "graph_env \<Rightarrow> (nat \<Rightarrow> runner) \<Rightarrow> nat \<Rightarrow> graph_state \<Rightarrow> graph_state" where
  "finishNode G run k gs =
     (let (i, local) = gs_running gs ! k;
          (c, e) = run i (subRunner local (gs_x gs))
      in trySchedule G
           (settleNode G i c e
              (gs\<lparr>gs_x := backTo (gs_x gs) c, gs_running := dropNth k (gs_running gs)\<rparr>)))"

text \<open>One event of the schedule: a start or an end, chosen among those possible.\<close>

definition graphEvent :: "graph_env \<Rightarrow> (nat \<Rightarrow> runner) \<Rightarrow> nat \<Rightarrow> graph_state \<Rightarrow> graph_state" where
  "graphEvent G run choice gs =
     (let s = startable G gs; k = choice mod (s + length (gs_running gs))
      in if k < s then startNode k gs else finishNode G run (k - s) gs)"

definition graphIdle :: "graph_env \<Rightarrow> graph_state \<Rightarrow> bool" where
  "graphIdle G gs \<longleftrightarrow> startable G gs = 0 \<and> gs_running gs = []"

text \<open>Events until nothing is launched or running; \<open>t\<close> counts them.\<close>

definition graphWork :: "graph_state \<Rightarrow> nat" where
  "graphWork gs = 2 * length (gs_todo gs) + 2 * length (gs_launched gs) + length (gs_running gs)"

lemma length_dropNth [simp]: "k < length xs \<Longrightarrow> length (dropNth k xs) = length xs - 1"
  by (simp add: dropNth_def)

lemma length_filter_split: "length (filter P xs) + length (filter (\<lambda>x. \<not> P x) xs) = length xs"
  by (rule sum_length_filter_compl)

lemma graphWork_trySchedule [simp]: "graphWork (trySchedule G gs) = graphWork gs"
  using length_filter_split [of "nodeReady G (gs_completed gs)" "gs_todo gs"]
  by (simp add: graphWork_def trySchedule_def)

lemma graphWork_settle [simp]: "graphWork (settleNode G i c e gs) = graphWork gs"
  by (simp add: graphWork_def settleNode_def split: option.split)

lemma graphWork_event:
  assumes "\<not> graphIdle G gs"
  shows "graphWork (graphEvent G run choice gs) < graphWork gs"
proof -
  let ?s = "startable G gs" and ?k = "choice mod (startable G gs + length (gs_running gs))"
  have k: "?k < ?s + length (gs_running gs)" using assms by (auto simp: graphIdle_def)
  show ?thesis
  proof (cases "?k < ?s")
    case True
    then have "?k < length (gs_launched gs)" by (auto simp: startable_def split: if_splits)
    with True show ?thesis by (simp add: graphEvent_def Let_def startNode_def graphWork_def)
  next
    case False
    then have "?k - ?s < length (gs_running gs)" using k by linarith
    with False show ?thesis
      by (simp add: graphEvent_def Let_def finishNode_def split: prod.split)
        (simp add: graphWork_def)
  qed
qed

function graphLoop ::
  "graph_env \<Rightarrow> (nat \<Rightarrow> runner) \<Rightarrow> (nat \<Rightarrow> nat) \<Rightarrow> nat \<Rightarrow> graph_state \<Rightarrow> graph_state" where
  "graphLoop G run choices t gs =
     (if graphIdle G gs then gs
      else graphLoop G run choices (Suc t) (graphEvent G run (choices t) gs))"
  by pat_completeness auto
termination
  by (relation "measure (\<lambda>(G, run, choices, t, gs). graphWork gs)") (auto simp: graphWork_event)

declare graphLoop.simps [simp del]

definition execGraph ::
  "interp \<Rightarrow> schedule \<Rightarrow> string list \<Rightarrow> string list list \<Rightarrow> (nat \<Rightarrow> runner) \<Rightarrow> nat list \<Rightarrow> nat list \<Rightarrow> runner" where
  "execGraph I S ids needs run path loop st =
     (let n = length ids;
          G = \<lparr>ge_ids = ids, ge_needs = needs, ge_conc = nat (maxConc I)\<rparr>;
          gs0 = \<lparr>gs_x = st, gs_todo = [0..<n], gs_launched = [], gs_running = [],
                 gs_completed = [], gs_firstErr = None, gs_suspended = False\<rparr>;
          gs = graphLoop G run (sc_event S path loop) 0 (trySchedule G gs0)
      in if n = 0 then (st, None)
         else if gs_firstErr gs \<noteq> None then (gs_x gs, gs_firstErr gs)
         else if gs_suspended gs then (gs_x gs, Some ErrSuspend)
         else if length (gs_completed gs) \<noteq> n then (gs_x gs, Some ErrNoRunnable)
         else (gs_x gs, None))"

subsection \<open>Nodes and programs\<close>

text \<open>
  A node is interpreted as a runner that still awaits its address: the path of the node and
  the indices of the enclosing iterations. \<open>runAll\<close> is the loop of \<open>execAll\<close>; \<open>i\<close> is the
  position of the next node.
\<close>

type_synonym addressed = "nat list \<Rightarrow> nat list \<Rightarrow> runner"

fun runAll :: "nat \<Rightarrow> addressed list \<Rightarrow> addressed" where
  "runAll i [] path loop st = (st, None)"
| "runAll i (r # rs) path loop st =
     (if x_done st then (st, None)
      else case r (path @ [i]) loop st of
        (st1, Some e) \<Rightarrow> (st1, Some e)
      | (st1, None) \<Rightarrow> runAll (Suc i) rs path loop st1)"

primrec exec :: "go_text \<Rightarrow> interp \<Rightarrow> schedule \<Rightarrow> node \<Rightarrow> addressed"
  and execForkBranch :: "go_text \<Rightarrow> interp \<Rightarrow> schedule \<Rightarrow> fork_branch \<Rightarrow> addressed"
  and execGraphNode :: "go_text \<Rightarrow> interp \<Rightarrow> schedule \<Rightarrow> graph_node \<Rightarrow> addressed" where
  "exec T I S (InvokeTool b uses args) =
     (\<lambda>path loop. invoke T I (mkSite b path loop False) (LeafTool uses) args)"
| "exec T I S (InvokeAgent b agent args whole) =
     (\<lambda>path loop. invoke T I (mkSite b path loop whole) (LeafAgent agent) args)"
| "exec T I S (InvokeWorkflow b wfl args whole project) =
     execInvokeWorkflow T I b wfl args whole project"
| "exec T I S (LetBind b v) = (\<lambda>path loop. execLet T b v)"
| "exec T I S (Branch cond thn els) =
     (\<lambda>path loop.
        execBranch T cond (runAll 0 (map (exec T I S) thn) (path @ [0]) loop)
          (runAll 0 (map (exec T I S) els) (path @ [1]) loop) path loop)"
| "exec T I S (Fork branches) =
     (\<lambda>path loop.
        execFork S (map fb_Bind branches)
          (\<lambda>i. (map (execForkBranch T I S) branches ! i) (path @ [i]) loop) path loop)"
| "exec T I S (Loop var coll body par) =
     (\<lambda>path. execLoop T I S var coll par (runAll 0 (map (exec T I S) body) path) path)"
| "exec T I S (While cond limit body) =
     (\<lambda>path. execWhile T I cond limit (runAll 0 (map (exec T I S) body) path) path)"
| "exec T I S (Retry cond limit body) =
     (\<lambda>path. execRetry T I cond limit (runAll 0 (map (exec T I S) body) path) path)"
| "exec T I S (Return v) = (\<lambda>path loop. execReturn T v)"
| "exec T I S (Graph nodes) =
     (\<lambda>path loop.
        execGraph I S (map gn_ID nodes) (map gn_Needs nodes)
          (\<lambda>i. (map (execGraphNode T I S) nodes ! i)
                 (path @ [canonicalRanks (map gn_ID nodes) i]) loop) path loop)"
| "exec T I S (Approval b desc redact args) =
     (\<lambda>path loop. invoke T I (mkSite b path loop False) (LeafApproval desc redact) args)"
| "exec T I S NilNode = (\<lambda>path loop st. (st, Some ErrUnknownNode))"
| "execForkBranch T I S (ForkBranch b nodes) = runAll 0 (map (exec T I S) nodes)"
| "execGraphNode T I S (GraphNode i needs run) = exec T I S run"

definition execAll :: "go_text \<Rightarrow> interp \<Rightarrow> schedule \<Rightarrow> node list \<Rightarrow> addressed" where
  "execAll T I S nodes = runAll 0 (map (exec T I S) nodes)"

definition paramScope :: "string list \<Rightarrow> any \<Rightarrow> scope" where
  "paramScope params inp =
     (if length params = 1 then [(hd params, inp)]
      else case inp of
        AObj flds \<Rightarrow> fold (\<lambda>p sc. put p (lookupScope flds p) sc) params []
      | _ \<Rightarrow> [])"

record run_state =
  rs_Memo :: "any gomap"
  rs_Control :: "int gomap"
  rs_Suspended :: bool
  rs_SuspendKey :: string

fun seedMemo :: "go_text \<Rightarrow> any gomap \<Rightarrow> any gomap \<Rightarrow> any gomap eval" where
  "seedMemo T [] memo = Inr memo"
| "seedMemo T ((k, v) # seed) memo =
     (case Canonical T v of
        Inl e \<Rightarrow> Inl (ErrSeedMemo k e)
      | Inr c \<Rightarrow> seedMemo T seed (put k c memo))"

definition startState :: "any gomap \<Rightarrow> int gomap \<Rightarrow> scope \<Rightarrow> exec_state" where
  "startState memo control scope =
     \<lparr>x_memo = memo, x_control = control, x_suspended = False, x_suspendKey = [], x_calls = [],
      x_scope = scope, x_output = ANil, x_done = False\<rparr>"

text \<open>
  \<open>RunResumable\<close> up to its last \<open>return\<close>: the state the run ends in and the error of \<open>execAll\<close>, or
  the error that kept it from starting. \<open>runProgram\<close> adds the verdict: a suspension is not a
  failure. \<open>RunResumable\<close> itself reports the output and the durable part of the state.
\<close>

definition execRun ::
  "go_text \<Rightarrow> interp \<Rightarrow> schedule \<Rightarrow> program \<Rightarrow> any \<Rightarrow> run_state option \<Rightarrow> (exec_state \<times> exec_error option) eval" where
  "execRun T I S prog inp seed =
     (case (case seed of None \<Rightarrow> Inr [] | Some s \<Rightarrow> seedMemo T (rs_Memo s) []) of
        Inl e \<Rightarrow> Inl e
      | Inr memo \<Rightarrow>
          (case Canonical T inp of
             Inl e \<Rightarrow> Inl (ErrInput e)
           | Inr cinput \<Rightarrow>
               Inr (execAll T I S (pg_Body prog) [] []
                      (startState memo
                         (fold (\<lambda>(k, v). put k v) (case seed of None \<Rightarrow> [] | Some s \<Rightarrow> rs_Control s) [])
                         (paramScope (pg_Params prog) cinput)))))"

definition runProgram ::
  "go_text \<Rightarrow> interp \<Rightarrow> schedule \<Rightarrow> program \<Rightarrow> any \<Rightarrow> run_state option \<Rightarrow> exec_state eval" where
  "runProgram T I S prog inp seed =
     (case execRun T I S prog inp seed of
        Inl e \<Rightarrow> Inl e
      | Inr (st, None) \<Rightarrow> Inr st
      | Inr (st, Some e) \<Rightarrow> if e = ErrSuspend then Inr st else Inl e)"

definition runStateOf :: "exec_state \<Rightarrow> run_state" where
  "runStateOf st =
     \<lparr>rs_Memo = x_memo st, rs_Control = x_control st, rs_Suspended = x_suspended st,
      rs_SuspendKey = x_suspendKey st\<rparr>"

definition RunResumable ::
  "go_text \<Rightarrow> interp \<Rightarrow> schedule \<Rightarrow> program \<Rightarrow> any \<Rightarrow> run_state option \<Rightarrow> (any \<times> run_state) eval" where
  "RunResumable T I S prog inp seed =
     (case runProgram T I S prog inp seed of
        Inl e \<Rightarrow> Inl e
      | Inr st \<Rightarrow> Inr (x_output st, runStateOf st))"

definition Run :: "go_text \<Rightarrow> interp \<Rightarrow> schedule \<Rightarrow> program \<Rightarrow> any \<Rightarrow> any eval" where
  "Run T I S prog inp = (case RunResumable T I S prog inp None of Inl e \<Rightarrow> Inl e | Inr (out, _) \<Rightarrow> Inr out)"

end
