(* ===== verification/Exec_Once.thy ===== *)
theory Exec_Once
  imports Exec_Interp
begin

text \<open>
  Addresses of the interpreter: the keys of the memo and of the control record are injective
  in the address of a node, every node works within the region of its own address, and
  therefore no leaf is invoked twice, within a run or across a resume.
\<close>

subsection \<open>Keys are injective\<close>

lemma showNat_chars: "c \<in> set (showNat n) \<Longrightarrow> isDigit c"
  using showNat_digits [of n] by (simp add: list_all_iff)

lemma showNat_inject: "showNat m = showNat n \<longleftrightarrow> m = n"
  by (metis natOf_showNat)

lemma showInts_inject: "showInts xs = showInts ys \<longleftrightarrow> xs = ys"
proof
  assume "showInts xs = showInts ys"
  then have "Join (map showNat xs) '' '' = Join (map showNat ys) '' ''" by (simp add: showInts_def)
  then have "map showNat xs = map showNat ys"
    by (rule Join_inject) (auto simp: showNat_nonempty isDigit_def between_def dest: showNat_chars)
  then show "xs = ys" by (auto simp: showNat_inject intro: injI dest!: map_injective)
qed simp

lemma showInts_no_bar: "CHR ''|'' \<notin> set (showInts xs)"
  using set_Join [of "map showNat xs" "'' ''"]
  by (auto simp: showInts_def isDigit_def between_def dest!: showNat_chars)

lemma last_bar_split:
  assumes "a @ c # p = b @ c # q" "c \<notin> set p" "c \<notin> set q"
  shows "a = b \<and> p = q"
proof -
  have "rev p @ c # rev a = rev q @ c # rev b" using arg_cong [OF assms(1), of rev] by simp
  then have "rev p = rev q \<and> rev a = rev b" by (rule separated_inject) (simp_all add: assms(2,3))
  then show ?thesis by simp
qed

lemma CallKey_inject:
  "CallKey s = CallKey t \<longleftrightarrow> cs_Bind s = cs_Bind t \<and> cs_Path s = cs_Path t \<and> cs_Loop s = cs_Loop t"
proof
  assume "CallKey s = CallKey t"
  then have "(cs_Bind s @ ''|'' @ showInts (cs_Path s)) @ CHR ''|'' # showInts (cs_Loop s) =
    (cs_Bind t @ ''|'' @ showInts (cs_Path t)) @ CHR ''|'' # showInts (cs_Loop t)"
    by (simp add: CallKey_def)
  from last_bar_split [OF this showInts_no_bar showInts_no_bar]
  have l: "showInts (cs_Loop s) = showInts (cs_Loop t)"
    and "cs_Bind s @ CHR ''|'' # showInts (cs_Path s) = cs_Bind t @ CHR ''|'' # showInts (cs_Path t)"
    by simp_all
  from last_bar_split [OF this(2) showInts_no_bar showInts_no_bar] l
  show "cs_Bind s = cs_Bind t \<and> cs_Path s = cs_Path t \<and> cs_Loop s = cs_Loop t"
    by (simp add: showInts_inject)
qed (simp add: CallKey_def)

subsection \<open>Regions of addresses\<close>

type_synonym address = "nat list \<times> nat list"

definition region :: "nat list \<Rightarrow> nat list \<Rightarrow> address set" where
  "region path loop = {(p, l). prefix path p \<and> prefix loop l}"

text \<open>The regions of the nodes of a list from position \<open>i\<close>, and of the iterations from \<open>i\<close>.\<close>

definition nodesFrom :: "nat list \<Rightarrow> nat list \<Rightarrow> nat \<Rightarrow> address set" where
  "nodesFrom path loop i = {(p, l). prefix loop l \<and> (\<exists>j \<ge> i. prefix (path @ [j]) p)}"

definition itersFrom :: "nat list \<Rightarrow> nat list \<Rightarrow> nat \<Rightarrow> address set" where
  "itersFrom path loop i = {(p, l). prefix path p \<and> (\<exists>j \<ge> i. prefix (loop @ [j]) l)}"

lemma prefix_snoc_unique: "prefix (p @ [i]) q \<Longrightarrow> prefix (p @ [j]) q \<Longrightarrow> i = j"
  by (auto simp: prefix_def)

lemma region_self: "(path, loop) \<in> region path loop"
  by (simp add: region_def)

lemma region_iter: "(path, loop @ [i]) \<in> region path loop"
  by (simp add: region_def)

lemma region_child: "region (path @ [i]) loop \<subseteq> region path loop"
  by (auto simp: region_def dest: append_prefixD)

lemma region_child_disjoint: "i \<noteq> j \<Longrightarrow> region (path @ [i]) loop \<inter> region (path @ [j]) loop = {}"
  by (auto simp: region_def dest: prefix_snoc_unique)

lemma nodesFrom_step:
  "region (path @ [i]) loop \<inter> nodesFrom path loop (Suc i) = {}"
  "region (path @ [i]) loop \<union> nodesFrom path loop (Suc i) \<subseteq> nodesFrom path loop i"
  by (auto simp: region_def nodesFrom_def dest: prefix_snoc_unique) (meson Suc_leD)

lemma nodesFrom_region: "nodesFrom path loop i \<subseteq> region path loop"
  by (auto simp: region_def nodesFrom_def dest: append_prefixD)

lemma itersFrom_step:
  "region path (loop @ [i]) \<inter> itersFrom path loop (Suc i) = {}"
  "region path (loop @ [i]) \<union> itersFrom path loop (Suc i) \<subseteq> itersFrom path loop i"
  by (auto simp: region_def itersFrom_def dest: prefix_snoc_unique) (meson Suc_leD)

lemma itersFrom_region: "itersFrom path loop i \<subseteq> region path loop"
  by (auto simp: region_def itersFrom_def dest: append_prefixD)

lemma iter_in_itersFrom: "i \<le> j \<Longrightarrow> region path (loop @ [j]) \<subseteq> itersFrom path loop i"
  by (auto simp: region_def itersFrom_def)

subsection \<open>Branch orders and ranks\<close>

lemma distinct_arrange: "distinct (arrange n xs)"
  by (auto simp: arrange_def Let_def)

lemma set_arrange: "set (arrange n xs) = {0..<n}"
  by (auto simp: arrange_def Let_def)

lemma set_canonicalOrder: "set (canonicalOrder ids) = {0..<length ids}"
  by (simp add: canonicalOrder_def)

lemma takeWhile_index:
  "i \<in> set xs \<Longrightarrow> length (takeWhile (\<lambda>j. j \<noteq> i) xs) < length xs \<and> xs ! length (takeWhile (\<lambda>j. j \<noteq> i) xs) = i"
  by (induction xs) auto

lemma canonicalRanks_inject:
  assumes "i < length ids" "j < length ids" "canonicalRanks ids i = canonicalRanks ids j"
  shows "i = j"
  using assms takeWhile_index [of i "canonicalOrder ids"] takeWhile_index [of j "canonicalOrder ids"]
  by (metis atLeastLessThan_iff canonicalRanks_def le0 set_canonicalOrder)


subsection \<open>Nodes the graph scheduler has not finished\<close>

definition pending :: "graph_state \<Rightarrow> nat list" where
  "pending gs = gs_todo gs @ gs_launched gs @ map fst (gs_running gs)"

lemma dropNth_split:
  assumes "k < length xs"
  obtains ys zs where "xs = ys @ xs ! k # zs" "dropNth k xs = ys @ zs"
  using id_take_nth_drop [OF assms] by (auto simp: dropNth_def)

lemma set_dropNth:
  assumes "k < length xs" "distinct xs"
  shows "set (dropNth k xs) = set xs - {xs ! k}"
proof -
  obtain ys zs where xs: "xs = ys @ xs ! k # zs" "dropNth k xs = ys @ zs"
    using assms(1) by (rule dropNth_split)
  have "distinct (ys @ xs ! k # zs)" "set xs = set (ys @ xs ! k # zs)" using xs(1) assms(2) by simp_all
  then show ?thesis unfolding xs(2) by auto
qed

lemma distinct_dropNth: "distinct xs \<Longrightarrow> distinct (dropNth k xs)"
  by (auto simp: dropNth_def set_take_disj_set_drop_if_distinct)

lemma map_dropNth: "map f (dropNth k xs) = dropNth k (map f xs)"
  by (simp add: dropNth_def take_map drop_map)

lemma pending_trySchedule:
  "distinct (pending gs) \<Longrightarrow> distinct (pending (trySchedule G gs)) \<and> set (pending (trySchedule G gs)) = set (pending gs)"
  by (auto simp: pending_def trySchedule_def)

lemma pending_settle [simp]: "pending (settleNode G i c e gs) = pending gs"
  by (simp add: pending_def settleNode_def split: option.split)

lemma trySchedule_x [simp]: "gs_x (trySchedule G gs) = gs_x gs"
  by (simp add: trySchedule_def)

lemma startNode_pending:
  assumes "k < length (gs_launched gs)" "distinct (pending gs)"
  shows "distinct (pending (startNode k gs)) \<and> set (pending (startNode k gs)) = set (pending gs)"
proof -
  have d: "distinct (gs_launched gs)" using assms(2) by (simp add: pending_def)
  have "gs_launched gs ! k \<in> set (gs_launched gs)" using assms(1) by simp
  moreover from this have "gs_launched gs ! k \<notin> set (map fst (gs_running gs))"
    using assms(2) unfolding pending_def distinct_append by blast
  ultimately show ?thesis using assms set_dropNth [OF assms(1) d] distinct_dropNth [OF d, of k]
    by (auto simp: pending_def startNode_def)
qed

subsection \<open>Every node stays within its region\<close>

text \<open>
  The contract of a relation \<open>R A s t\<close> between the states before and after a piece of
  execution whose addresses lie in \<open>A\<close>: it ignores scope, output and flags, composes over
  disjoint sets, absorbs control decisions, and holds of each leaf invocation.
\<close>

definition controlKinds :: "string list" where
  "controlKinds = [''br:'', ''loop:'', ''while:'', ''retry:'']"

lemma controlKinds_simps [simp]:
  "''br:'' \<in> set controlKinds" "''loop:'' \<in> set controlKinds"
  "''while:'' \<in> set controlKinds" "''retry:'' \<in> set controlKinds"
  by (simp_all add: controlKinds_def)

locale address_frame =
  fixes R :: "address set \<Rightarrow> exec_state \<Rightarrow> exec_state \<Rightarrow> bool"
    and T :: go_text and I :: interp
  assumes neutral: "x_calls t = x_calls s \<Longrightarrow> x_memo t = x_memo s \<Longrightarrow> x_control t = x_control s \<Longrightarrow>
        x_suspended t = x_suspended s \<Longrightarrow> R A s t"
    and mono: "R A s t \<Longrightarrow> A \<subseteq> B \<Longrightarrow> R B s t"
    and trans: "R A s t \<Longrightarrow> R B t u \<Longrightarrow> A \<inter> B = {} \<Longrightarrow> R (A \<union> B) s u"
    and control_first: "(p, l) \<in> A \<Longrightarrow> pre \<in> set controlKinds \<Longrightarrow> checkControl (controlKey pre p l) v s = (t, e) \<Longrightarrow> R A t u \<Longrightarrow> R A s u"
    and control_last: "(p, l) \<in> A \<Longrightarrow> pre \<in> set controlKinds \<Longrightarrow> R A s t \<Longrightarrow> checkControl (controlKey pre p l) v t = (u, e) \<Longrightarrow> R A s u"
    and invoke_frame: "invoke T I (mkSite b p l w) lf args s = (t, e) \<Longrightarrow> R (region p l) s t"
begin

definition keeps :: "address set \<Rightarrow> runner \<Rightarrow> bool" where
  "keeps A r \<longleftrightarrow> (\<forall>s t e. r s = (t, e) \<longrightarrow> R A s t)"

lemma keepsI: "(\<And>s t e. r s = (t, e) \<Longrightarrow> R A s t) \<Longrightarrow> keeps A r"
  by (simp add: keeps_def)

lemma keepsD: "keeps A r \<Longrightarrow> r s = (t, e) \<Longrightarrow> R A s t"
  by (simp add: keeps_def)

lemma keeps_mono: "keeps A r \<Longrightarrow> A \<subseteq> B \<Longrightarrow> keeps B r"
  unfolding keeps_def using mono by blast

lemma refl: "R A s s"
  by (simp add: neutral)

lemma neutral_first:
  assumes "x_calls t = x_calls s" "x_memo t = x_memo s" "x_control t = x_control s"
    "x_suspended t = x_suspended s" "R A t u"
  shows "R A s u"
  using trans [OF neutral [of t s "{}"], of A u] assms by simp

lemma neutral_last:
  assumes "R A s t" "x_calls u = x_calls t" "x_memo u = x_memo t" "x_control u = x_control t"
    "x_suspended u = x_suspended t"
  shows "R A s u"
  using trans [OF assms(1) neutral [of u t "{}"]] assms by simp

lemma trans_sub: "R A s t \<Longrightarrow> R B t u \<Longrightarrow> A \<inter> B = {} \<Longrightarrow> A \<union> B \<subseteq> C \<Longrightarrow> R C s u"
  by (rule mono [OF trans])

lemma control_same: "(p, l) \<in> A \<Longrightarrow> pre \<in> set controlKinds \<Longrightarrow> checkControl (controlKey pre p l) v s = (t, e) \<Longrightarrow> R A s t"
  using control_first [OF _ _ _ refl] .

lemma invokeWorkflow_frame:
  "keeps (region path loop) (execInvokeWorkflow T I b wfl args whole project path loop)"
proof (rule keepsI)
  fix s t e assume eq: "execInvokeWorkflow T I b wfl args whole project path loop s = (t, e)"
  obtain t1 e1 where i: "invoke T I (mkSite b path loop whole) (LeafWorkflow wfl) args s = (t1, e1)"
    by fastforce
  from invoke_frame [OF i] show "R (region path loop) s t"
    using eq i by (auto simp: execInvokeWorkflow_def split: option.splits if_splits sum.splits
        intro: neutral_last)
qed

lemma runAll_frame:
  assumes "\<And>r p l. r \<in> set rs \<Longrightarrow> keeps (region p l) (r p l)"
  shows "keeps (nodesFrom path loop i) (runAll i rs path loop)"
  using assms
proof (induction rs arbitrary: i)
  case (Cons r rs)
  show ?case
  proof (rule keepsI)
    fix s t e assume eq: "runAll i (r # rs) path loop s = (t, e)"
    obtain t1 e1 where r: "r (path @ [i]) loop s = (t1, e1)" by fastforce
    have 1: "R (region (path @ [i]) loop) s t1" 
      using r by (rule keepsD [OF Cons.prems [of r "path @ [i]" loop], rotated]) simp
    have 2: "keeps (nodesFrom path loop (Suc i)) (runAll (Suc i) rs path loop)"
      using Cons by simp
    show "R (nodesFrom path loop i) s t"
    proof (cases "x_done s")
      case True
      then show ?thesis using eq by (simp add: refl)
    next
      case False
      show ?thesis
      proof (cases e1)
        case None
        then have "runAll (Suc i) rs path loop t1 = (t, e)" using eq r False by simp
        from keepsD [OF 2 this] show ?thesis
          using trans_sub [OF 1 _ nodesFrom_step] by blast
      next
        case (Some x)
        then show ?thesis using eq r False 1 nodesFrom_step(2) mono by fastforce
      qed
    qed
  qed
qed (simp add: keeps_def refl)

lemma runAll_region:
  assumes "\<And>r p l. r \<in> set rs \<Longrightarrow> keeps (region p l) (r p l)"
  shows "keeps (region path loop) (runAll i rs path loop)"
  using keeps_mono [OF runAll_frame nodesFrom_region] assms by blast

lemma branch_frame:
  assumes "keeps (region (path @ [0]) loop) thn" "keeps (region (path @ [1]) loop) els"
  shows "keeps (region path loop) (execBranch T cond thn els path loop)"
proof (rule keepsI)
  fix s t e assume eq: "execBranch T cond thn els path loop s = (t, e)"
  have b: "keeps (region path loop) thn" "keeps (region path loop) els"
    using assms keeps_mono region_child by blast+
  show "R (region path loop) s t"
  proof (cases "evalExpr T (x_scope s) cond")
    case (Inl x)
    then show ?thesis using eq by (simp add: execBranch_def refl)
  next
    case (Inr c)
    obtain s1 e1 where k: "checkControl (controlKey ''br:'' path loop) (takenOf c) s = (s1, e1)" by fastforce
    show ?thesis
    proof (cases e1)
      case None
      then have "(if c then thn s1 else els s1) = (t, e)" using eq Inr k by (simp add: execBranch_def)
      then have "R (region path loop) s1 t" using b keepsD by (cases c) auto
      then show ?thesis by (rule control_first [OF region_self controlKinds_simps(1) k])
    next
      case (Some x)
      then show ?thesis using eq Inr k control_same [OF region_self controlKinds_simps(1) k] by (simp add: execBranch_def)
    qed
  qed
qed

lemma loopItems_frame:
  assumes "\<And>l. keeps (region path l) (body l)"
  shows "keeps (itersFrom path loop idx) (loopItems var body loop idx items)"
proof (induction items arbitrary: idx)
  case (Cons item items)
  show ?case
  proof (rule keepsI)
    fix s t e assume eq: "loopItems var body loop idx (item # items) s = (t, e)"
    let ?s = "s\<lparr>x_scope := put var item (x_scope s)\<rparr>"
    obtain t1 e1 where b: "body (loop @ [idx]) ?s = (t1, e1)" by fastforce
    have 1: "R (region path (loop @ [idx])) s t1"
      using neutral_first [OF _ _ _ _ keepsD [OF assms b]] by simp
    have done1: "R (itersFrom path loop idx) s t1" using mono [OF 1] itersFrom_step(2) by blast
    show "R (itersFrom path loop idx) s t"
    proof (cases "e1 = None \<and> \<not> x_done t1")
      case True
      then have "loopItems var body loop (Suc idx) items t1 = (t, e)" using eq b by simp
      from keepsD [OF Cons.IH this] show ?thesis using trans_sub [OF 1 _ itersFrom_step] by blast
    next
      case False
      then show ?thesis using eq b done1 by (auto split: option.splits)
    qed
  qed
qed (simp add: keeps_def refl)

lemma whileIter_frame:
  assumes "\<And>l. keeps (region path l) (body l)"
  shows "keeps (itersFrom path loop i) (whileIter T cond body path loop i n)"
proof (induction n arbitrary: i)
  case (Suc n)
  show ?case
  proof (rule keepsI)
    fix s t e assume eq: "whileIter T cond body path loop i (Suc n) s = (t, e)"
    show "R (itersFrom path loop i) s t"
    proof (cases "evalExpr T (x_scope s) cond")
      case (Inl x)
      then show ?thesis using eq by (simp add: refl)
    next
      case (Inr c)
      obtain s1 e1 where k: "checkControl (controlKey ''while:'' path (loop @ [i])) (takenOf c) s = (s1, e1)"
        by fastforce
      obtain s2 e2 where b: "body (loop @ [i]) s1 = (s2, e2)" by fastforce
      have 0: "R (region path (loop @ [i])) s s1" by (rule control_same [OF region_self controlKinds_simps(3) k])
      have 1: "R (region path (loop @ [i])) s s2"
        by (rule control_first [OF region_self controlKinds_simps(3) k keepsD [OF assms b]])
      have sub: "region path (loop @ [i]) \<subseteq> itersFrom path loop i" by (rule iter_in_itersFrom) simp
      show ?thesis
      proof (cases "e1 = None \<and> c \<and> e2 = None \<and> \<not> x_done s2")
        case True
        then have "whileIter T cond body path loop (Suc i) n s2 = (t, e)" using eq Inr k b by simp
        from keepsD [OF Suc.IH this] show ?thesis using trans_sub [OF 1 _ itersFrom_step] by blast
      next
        case False
        then show ?thesis using eq Inr k b mono [OF 0 sub] mono [OF 1 sub]
          by (auto split: option.splits if_splits)
      qed
    qed
  qed
qed (simp add: keeps_def refl)

lemma retryIter_frame:
  assumes "\<And>l. keeps (region path l) (body l)"
  shows "keeps (itersFrom path loop i) (retryIter T cond limit body path loop i n)"
proof (induction n arbitrary: i)
  case (Suc n)
  show ?case
  proof (rule keepsI)
    fix s t e assume eq: "retryIter T cond limit body path loop i (Suc n) s = (t, e)"
    obtain s1 e1 where b: "body (loop @ [i]) s = (s1, e1)" by fastforce
    have 1: "R (region path (loop @ [i])) s s1" by (rule keepsD [OF assms b])
    have sub: "region path (loop @ [i]) \<subseteq> itersFrom path loop i" by (rule iter_in_itersFrom) simp
    show "R (itersFrom path loop i) s t"
    proof (cases "evalExpr T (x_scope s1) cond")
      case (Inl x)
      then show ?thesis using eq b mono [OF 1 sub] by (auto split: option.splits if_splits)
    next
      case (Inr c)
      obtain s2 e2 where k: "checkControl (controlKey ''retry:'' path (loop @ [i])) (takenOf c) s1 = (s2, e2)"
        by fastforce
      have 2: "R (region path (loop @ [i])) s s2" by (rule control_last [OF region_self controlKinds_simps(4) 1 k])
      show ?thesis
      proof (cases "e1 = None \<and> \<not> x_done s1 \<and> e2 = None \<and> \<not> c")
        case True
        then have "retryIter T cond limit body path loop (Suc i) n s2 = (t, e)" using eq Inr k b by simp
        from keepsD [OF Suc.IH this] show ?thesis using trans_sub [OF 2 _ itersFrom_step] by blast
      next
        case False
        then show ?thesis using eq Inr k b mono [OF 1 sub] mono [OF 2 sub]
          by (auto split: option.splits if_splits)
      qed
    qed
  qed
qed (simp add: keeps_def refl)

lemma runBranches_frame:
  assumes "distinct is" "\<And>i. i \<in> set is \<Longrightarrow> keeps (A i) (run i)"
    and "\<And>i j. i \<in> set is \<Longrightarrow> j \<in> set is \<Longrightarrow> i \<noteq> j \<Longrightarrow> A i \<inter> A j = {}"
    and "runBranches child run is s = (t, rs)"
  shows "R (\<Union> (A ` set is)) s t"
  using assms
proof (induction "is" arbitrary: s rs)
  case (Cons i "is")
  obtain c e where r: "run i (subRunner (child i) s) = (c, e)" by fastforce
  obtain rs' where b: "runBranches child run is (backTo s c) = (t, rs')"
    using Cons.prems(4) r by (auto split: prod.splits)
  have "R (A i) (subRunner (child i) s) c" by (rule keepsD [OF Cons.prems(2) r]) simp
  then have "R (A i) s (backTo s c)"
    using neutral_first [of "subRunner (child i) s" s] neutral_last [of _ s c "backTo s c"]
    by (simp add: subRunner_def backTo_def)
  moreover have "R (\<Union> (A ` set is)) (backTo s c) t"
    by (rule Cons.IH [OF _ _ _ b]) (use Cons.prems in auto)
  moreover have "A i \<inter> \<Union> (A ` set is) = {}" using Cons.prems(1,3) by fastforce
  ultimately show ?case using trans by fastforce
qed (simp add: refl)

lemma branches_region:
  assumes "\<And>i. i < n \<Longrightarrow> keeps (A i) (run i)" "\<And>i. A i \<subseteq> B"
    and "\<And>i j. i < n \<Longrightarrow> j < n \<Longrightarrow> i \<noteq> j \<Longrightarrow> A i \<inter> A j = {}"
    and "runBranches child run (arrange n ord) s = (t, rs)"
  shows "R B s t"
proof -
  have "R (\<Union> (A ` set (arrange n ord))) s t"
    by (rule runBranches_frame [OF distinct_arrange _ _ assms(4)]) (use assms(1,3) in \<open>auto simp: set_arrange\<close>)
  then show ?thesis by (rule mono) (use assms(2) in blast)
qed

lemma fork_frame:
  assumes "\<And>i. i < length binds \<Longrightarrow> keeps (region (path @ [i]) loop) (run i)"
  shows "keeps (region path loop) (execFork S binds run path loop)"
proof (rule keepsI)
  fix s t e assume eq: "execFork S binds run path loop s = (t, e)"
  obtain s1 rs where b: "runBranches (\<lambda>i. x_scope s) run (arrange (length binds) (sc_order S path loop)) s = (s1, rs)"
    by fastforce
  have "R (region path loop) s s1"
    by (rule branches_region [OF assms region_child region_child_disjoint b])
  then show "R (region path loop) s t"
    using eq b by (auto simp: execFork_def Let_def split: option.splits intro: neutral_last)
qed

lemma loopParallel_frame:
  assumes "\<And>l. keeps (region path l) (body l)"
  shows "keeps (region path loop) (execLoopParallel S var body items path loop)"
proof (rule keepsI)
  fix s t e assume eq: "execLoopParallel S var body items path loop s = (t, e)"
  obtain s1 rs where b: "runBranches (\<lambda>i. put var (items ! i) (x_scope s)) (\<lambda>i. body (loop @ [i]))
      (arrange (length items) (sc_order S path loop)) s = (s1, rs)" by fastforce
  have sub: "region path (loop @ [i]) \<subseteq> region path loop" for i
    by (auto simp: region_def dest: append_prefixD)
  have dis: "i \<noteq> j \<Longrightarrow> region path (loop @ [i]) \<inter> region path (loop @ [j]) = {}" for i j
    by (auto simp: region_def dest: prefix_snoc_unique)
  have "R (region path loop) s s1" by (rule branches_region [OF assms sub dis b])
  then show "R (region path loop) s t" using eq b by (simp add: execLoopParallel_def Let_def)
qed

lemma loop_frame:
  assumes "\<And>l. keeps (region path l) (body l)"
  shows "keeps (region path loop) (execLoop T I S var coll par body path loop)"
proof (rule keepsI)
  fix s t e assume eq: "execLoop T I S var coll par body path loop s = (t, e)"
  show "R (region path loop) s t"
  proof (cases "evalCollection T (x_scope s) coll")
    case (Inl x)
    then show ?thesis using eq by (simp add: execLoop_def refl)
  next
    case (Inr items)
    obtain s1 e1 where k: "checkControl (controlKey ''loop:'' path loop) (int (length items)) s = (s1, e1)"
      by fastforce
    have 0: "R (region path loop) s s1" by (rule control_same [OF region_self controlKinds_simps(2) k])
    have p: "keeps (region path loop) (execLoopParallel S var body items path loop)"
      by (rule loopParallel_frame [OF assms])
    have q: "keeps (region path loop) (loopItems var body loop 0 items)"
      by (rule keeps_mono [OF loopItems_frame itersFrom_region]) (rule assms)
    have "R (region path loop) s1 t \<Longrightarrow> R (region path loop) s t" by (rule control_first [OF region_self controlKinds_simps(2) k])
    then show ?thesis using eq Inr k 0 keepsD [OF p] keepsD [OF q]
      by (auto simp: execLoop_def refl split: if_splits option.splits)
  qed
qed

subsubsection \<open>The graph scheduler\<close>

lemma settle_neutral:
  "R A s (gs_x gs) \<Longrightarrow> R A s (gs_x (settleNode G i c e gs))"
  by (auto simp: settleNode_def bindTo_def split: option.split intro: neutral_last)

lemma finishNode_step:
  assumes "k < length (gs_running gs)" "distinct (pending gs)"
    and "\<And>i. i \<in> set (pending gs) \<Longrightarrow> keeps (A i) (run i)"
  shows "\<exists>i \<in> set (pending gs). R (A i) (gs_x gs) (gs_x (finishNode G run k gs)) \<and>
    distinct (pending (finishNode G run k gs)) \<and>
    set (pending (finishNode G run k gs)) = set (pending gs) - {i}"
proof -
  obtain i local where il: "gs_running gs ! k = (i, local)" by fastforce
  obtain c e where r: "run i (subRunner local (gs_x gs)) = (c, e)" by fastforce
  let ?gs = "gs\<lparr>gs_x := backTo (gs_x gs) c, gs_running := dropNth k (gs_running gs)\<rparr>"
  have fin: "finishNode G run k gs = trySchedule G (settleNode G i c e ?gs)"
    using il r by (simp add: finishNode_def)
  have mem: "i \<in> set (map fst (gs_running gs))" using assms(1) il by (metis fst_conv length_map nth_map nth_mem)
  then have i: "i \<in> set (pending gs)" by (simp add: pending_def)
  have "R (A i) (subRunner local (gs_x gs)) c" by (rule keepsD [OF assms(3) r]) (rule i)
  then have "R (A i) (gs_x gs) (gs_x ?gs)"
    using neutral_first [of "subRunner local (gs_x gs)" "gs_x gs" "A i" c]
      neutral_last [of "A i" "gs_x gs" c "backTo (gs_x gs) c"]
    by (simp add: subRunner_def backTo_def)
  then have R: "R (A i) (gs_x gs) (gs_x (finishNode G run k gs))"
    unfolding fin by (simp add: settle_neutral)
  have d: "distinct (map fst (gs_running gs))" "k < length (map fst (gs_running gs))"
    using assms(1,2) by (simp_all add: pending_def)
  have n: "map fst (gs_running gs) ! k = i" using assms(1) il by simp
  have "distinct (pending ?gs) \<and> set (pending ?gs) = set (pending gs) - {i}"
    using assms(2) mem set_dropNth [OF d(2,1)] distinct_dropNth [OF d(1), of k] n
    by (auto simp: pending_def map_dropNth)
  then show ?thesis
    using R i pending_trySchedule [of "settleNode G i c e ?gs" G] unfolding fin by (intro bexI [of _ i]) auto
qed

lemma graphLoop_frame:
  assumes "distinct (pending gs)" "\<And>i. i \<in> set (pending gs) \<Longrightarrow> keeps (A i) (run i)"
    and "\<And>i j. i \<in> set (pending gs) \<Longrightarrow> j \<in> set (pending gs) \<Longrightarrow> i \<noteq> j \<Longrightarrow> A i \<inter> A j = {}"
  shows "R (\<Union> (A ` set (pending gs))) (gs_x gs) (gs_x (graphLoop G run choices n gs))"
  using assms
proof (induction G run choices n gs rule: graphLoop.induct)
  case (1 G run choices n gs)
  show ?case
  proof (cases "graphIdle G gs")
    case True
    then show ?thesis by (simp add: graphLoop.simps [of G run choices n gs] refl)
  next
    case False
    let ?s = "startable G gs" and ?k = "choices n mod (startable G gs + length (gs_running gs))"
    let ?gs = "graphEvent G run (choices n) gs"
    have loop: "graphLoop G run choices n gs = graphLoop G run choices (Suc n) ?gs"
      using False by (simp add: graphLoop.simps [of G run choices n gs])
    have k: "?k < ?s + length (gs_running gs)" using False by (auto simp: graphIdle_def)
    show ?thesis
    proof (cases "?k < ?s")
      case True
      then have ev: "?gs = startNode ?k gs" and "?k < length (gs_launched gs)"
        by (auto simp: graphEvent_def Let_def startable_def split: if_splits)
      then have p: "distinct (pending ?gs)" "set (pending ?gs) = set (pending gs)"
        using startNode_pending 1(2) by auto
      have "R (\<Union> (A ` set (pending ?gs))) (gs_x ?gs) (gs_x (graphLoop G run choices (Suc n) ?gs))"
        by (rule "1.IH" [OF False p(1)]) (use 1(3,4) p(2) in auto)
      then show ?thesis unfolding loop p(2) by (simp add: ev startNode_def)
    next
      case end_event: False
      then have ev: "?gs = finishNode G run (?k - ?s) gs" and "?k - ?s < length (gs_running gs)"
        using k by (auto simp: graphEvent_def Let_def)
      from finishNode_step [where A = A and run = run and G = G, OF this(2) 1(2) 1(3)] obtain i where i: "i \<in> set (pending gs)"
        "R (A i) (gs_x gs) (gs_x ?gs)" "distinct (pending ?gs)" "set (pending ?gs) = set (pending gs) - {i}"
        unfolding ev by auto
      have rest: "R (\<Union> (A ` set (pending ?gs))) (gs_x ?gs) (gs_x (graphLoop G run choices (Suc n) ?gs))"
        by (rule "1.IH" [OF False i(3)]) (use 1(3,4) i(4) in auto)
      have "A i \<inter> \<Union> (A ` set (pending ?gs)) = {}"
        using 1(4) i(1,4) by auto
      from trans_sub [OF i(2) rest this] show ?thesis unfolding loop using i(1,4) by blast
    qed
  qed
qed

lemma graph_frame:
  assumes "\<And>i. i < length ids \<Longrightarrow> keeps (region (path @ [canonicalRanks ids i]) loop) (run i)"
  shows "keeps (region path loop) (execGraph I S ids needs run path loop)"
proof (rule keepsI)
  fix s t e assume eq: "execGraph I S ids needs run path loop s = (t, e)"
  define G where "G = \<lparr>ge_ids = ids, ge_needs = needs, ge_conc = nat (maxConc I)\<rparr>"
  define gs0 where "gs0 = \<lparr>gs_x = s, gs_todo = [0..<length ids], gs_launched = [], gs_running = [],
    gs_completed = [], gs_firstErr = None, gs_suspended = False\<rparr>"
  let ?A = "\<lambda>i. region (path @ [canonicalRanks ids i]) loop"
  have p: "distinct (pending (trySchedule G gs0))" "set (pending (trySchedule G gs0)) = {0..<length ids}"
    using pending_trySchedule [of gs0 G] by (simp_all add: gs0_def pending_def)
  have dis: "?A i \<inter> ?A j = {}" if "i < length ids" "j < length ids" "i \<noteq> j" for i j
    by (rule region_child_disjoint) (use that canonicalRanks_inject [of i ids j] in blast)
  have "R (\<Union> (?A ` set (pending (trySchedule G gs0)))) (gs_x (trySchedule G gs0))
      (gs_x (graphLoop G run (sc_event S path loop) 0 (trySchedule G gs0)))"
    by (rule graphLoop_frame [OF p(1)])
      (use assms p(2) dis in auto)
  then have "R (region path loop) (gs_x (trySchedule G gs0))
      (gs_x (graphLoop G run (sc_event S path loop) 0 (trySchedule G gs0)))"
    by (rule mono) (use region_child in blast)
  then have "R (region path loop) s (gs_x (graphLoop G run (sc_event S path loop) 0 (trySchedule G gs0)))"
    by (simp add: gs0_def)
  then show "R (region path loop) s t"
    using eq by (auto simp: execGraph_def Let_def G_def gs0_def refl split: if_splits)
qed

subsubsection \<open>All nodes\<close>

theorem exec_frame:
  "keeps (region path loop) (exec T I S n path loop)"
  "keeps (region path loop) (execForkBranch T I S fb path loop)"
  "keeps (region path loop) (execGraphNode T I S gn path loop)"
proof (induction n and fb and gn arbitrary: path loop and path loop and path loop
    rule: node.induct fork_branch.induct graph_node.induct)
  case (Branch cond thn els)
  show ?case unfolding exec.simps by (rule branch_frame; rule runAll_region) (use Branch in auto)
next
  case (Fork branches)
  show ?case unfolding exec.simps execForkBranch.simps by (rule fork_frame) (use Fork in \<open>auto simp: all_set_conv_all_nth\<close>)
next
  case (Loop var coll body par)
  show ?case unfolding exec.simps execForkBranch.simps by (rule loop_frame, rule runAll_region) (use Loop in auto)
next
  case (While cond limit body)
  show ?case unfolding exec.simps execWhile_def
    by (rule keeps_mono [OF whileIter_frame itersFrom_region], rule runAll_region) (use While in auto)
next
  case (Retry cond limit body)
  show ?case unfolding exec.simps execRetry_def
    by (rule keeps_mono [OF retryIter_frame itersFrom_region], rule runAll_region) (use Retry in auto)
next
  case (Graph nodes)
  show ?case unfolding exec.simps execForkBranch.simps by (rule graph_frame) (use Graph in \<open>auto simp: all_set_conv_all_nth\<close>)
next
  case (InvokeWorkflow b wfl args whole project)
  show ?case by (simp add: invokeWorkflow_frame)
next
  case (ForkBranch b nodes)
  show ?case unfolding execForkBranch.simps by (rule runAll_region) (use ForkBranch in auto)
qed (auto simp: keeps_def execLet_def execReturn_def bindTo_def refl intro: invoke_frame neutral
    split: sum.splits)

theorem execAll_frame: "execAll T I S nodes path loop s = (t, e) \<Longrightarrow> R (region path loop) s t"
  unfolding execAll_def by (rule keepsD [OF runAll_region]) (auto intro: exec_frame)

end


subsection \<open>Leaves are invoked at most once\<close>

abbreviation callKey :: "invocation \<Rightarrow> string" where
  "callKey iv \<equiv> CallKey (iv_Site iv)"

definition addressOf :: "invocation \<Rightarrow> address" where
  "addressOf iv = (cs_Path (iv_Site iv), cs_Loop (iv_Site iv))"

text \<open>The value a completed invocation leaves in the memo.\<close>

definition completedValue :: "go_text \<Rightarrow> interp \<Rightarrow> invocation \<Rightarrow> any option" where
  "completedValue T I iv =
     (case in_Invoker I (iv_Site iv) (iv_Leaf iv) (iv_Args iv) of
        InvOk res \<Rightarrow> (case Canonical T res of Inl e \<Rightarrow> None | Inr c \<Rightarrow> Some c)
      | _ \<Rightarrow> None)"

text \<open>
  The invocations of a piece of execution have distinct addresses in \<open>A\<close>, none was in the
  memo before, and the memo grows by exactly the results of the completed ones.
\<close>

definition freshCalls :: "go_text \<Rightarrow> interp \<Rightarrow> address set \<Rightarrow> exec_state \<Rightarrow> exec_state \<Rightarrow> invocation list \<Rightarrow> bool" where
  "freshCalls T I A s t new \<longleftrightarrow>
     x_calls t = x_calls s @ new \<and> distinct (map addressOf new) \<and> addressOf ` set new \<subseteq> A \<and>
     (\<forall>iv \<in> set new. map_of (x_memo s) (callKey iv) = None) \<and>
     (\<forall>k v. map_of (x_memo t) k = Some v \<longleftrightarrow>
        map_of (x_memo s) k = Some v \<or> (\<exists>iv \<in> set new. callKey iv = k \<and> completedValue T I iv = Some v))"

definition calledOnce :: "go_text \<Rightarrow> interp \<Rightarrow> address set \<Rightarrow> exec_state \<Rightarrow> exec_state \<Rightarrow> bool" where
  "calledOnce T I A s t \<longleftrightarrow> (\<exists>new. freshCalls T I A s t new)"

lemma freshCalls_trans:
  assumes "freshCalls T I A s t xs" "freshCalls T I B t u ys" "A \<inter> B = {}"
  shows "freshCalls T I (A \<union> B) s u (xs @ ys)"
proof -
  have "map_of (x_memo s) (callKey iv) = None" if "iv \<in> set ys" for iv
  proof (rule ccontr)
    assume "map_of (x_memo s) (callKey iv) \<noteq> None"
    then have "map_of (x_memo t) (callKey iv) \<noteq> None" using assms(1) by (auto simp: freshCalls_def)
    then show False using assms(2) that by (auto simp: freshCalls_def)
  qed
  moreover have "distinct (map addressOf (xs @ ys))"
    using assms unfolding freshCalls_def by (auto simp del: map_map)
  ultimately show ?thesis
    using assms by (auto simp: freshCalls_def)
qed

lemma freshCalls_Nil: "x_calls t = x_calls s \<Longrightarrow> x_memo t = x_memo s \<Longrightarrow> freshCalls T I A s t []"
  by (simp add: freshCalls_def)

lemma freshCalls_mono: "freshCalls T I A s t new \<Longrightarrow> A \<subseteq> B \<Longrightarrow> freshCalls T I B s t new"
  unfolding freshCalls_def by (elim conjE, intro conjI) (assumption | rule order_trans)+

lemma checkControl_calls:
  assumes "checkControl addr v s = (t, e)"
  shows "x_calls t = x_calls s" "x_memo t = x_memo s"
  using assms by (auto simp: checkControl_def split: option.splits if_splits)

lemma bindTo_calls [simp]:
  "x_calls (bindTo b v s) = x_calls s" "x_memo (bindTo b v s) = x_memo s" "x_control (bindTo b v s) = x_control s"
  by (simp_all add: bindTo_def)

lemma markSuspended_calls [simp]:
  "x_calls (markSuspended k s) = x_calls s" "x_memo (markSuspended k s) = x_memo s"
  "x_control (markSuspended k s) = x_control s"
  by (simp_all add: markSuspended_def)

lemma invoke_freshCalls:
  assumes "invoke T I (mkSite b p l w) lf args s = (t, e)"
  shows "calledOnce T I (region p l) s t"
proof -
  let ?site = "mkSite b p l w"
  show ?thesis
  proof (cases "map_of (x_memo s) (CallKey ?site)")
    case (Some v)
    then have "freshCalls T I (region p l) s t []"
      using assms by (intro freshCalls_Nil) (auto simp: invoke_def Let_def)
    then show ?thesis unfolding calledOnce_def by blast
  next
    case None
    show ?thesis
    proof (cases "evalArgs T (x_scope s) args")
      case (Inl x)
      then have "freshCalls T I (region p l) s t []"
        using assms None by (intro freshCalls_Nil) (auto simp: invoke_def Let_def)
      then show ?thesis unfolding calledOnce_def by blast
    next
      case (Inr a)
      let ?iv = "\<lparr>iv_Site = ?site, iv_Leaf = lf, iv_Args = a\<rparr>"
      have "addressOf ?iv \<in> region p l" by (simp add: addressOf_def mkSite_def region_self)
      then have "freshCalls T I (region p l) s t [?iv]"
        using assms None Inr
        by (cases "in_Invoker I ?site lf a")
          (auto simp: invoke_def Let_def freshCalls_def completedValue_def split: sum.splits if_splits)
      then show ?thesis unfolding calledOnce_def by blast
    qed
  qed
qed

interpretation once: address_frame "calledOnce T I" T I for T I
proof
  show "calledOnce T I A s u"
    if "checkControl (controlKey pre p l) v s = (t, e)" "calledOnce T I A t u" for p l A pre v s t e u
    using that checkControl_calls [OF that(1)] by (simp add: calledOnce_def freshCalls_def)
  show "calledOnce T I A s u"
    if "calledOnce T I A s t" "checkControl (controlKey pre p l) v t = (u, e)" for p l A s t pre v u e
    using that checkControl_calls [OF that(2)] by (simp add: calledOnce_def freshCalls_def)
  show "calledOnce T I (A \<union> B) s u"
    if "calledOnce T I A s t" "calledOnce T I B t u" "A \<inter> B = {}" for A s t B u
    using that freshCalls_trans unfolding calledOnce_def by blast
  show "calledOnce T I B s t" if "calledOnce T I A s t" "A \<subseteq> B" for A s t B
    using that freshCalls_mono [OF _ that(2)] unfolding calledOnce_def by blast
  show "calledOnce T I A s t" if "x_calls t = x_calls s" "x_memo t = x_memo s" for t s A
    using freshCalls_Nil [OF that] unfolding calledOnce_def by blast
qed (rule invoke_freshCalls)

lemma seedMemo_keys:
  "seedMemo T seed memo = Inr m \<Longrightarrow> set (keys m) = set (keys seed) \<union> set (keys memo)"
proof (induction T seed memo arbitrary: m rule: seedMemo.induct)
  case (2 T k v seed memo)
  then obtain c where c: "Canonical T v = Inr c" "seedMemo T seed (put k c memo) = Inr m"
    by (auto split: sum.splits)
  from "2.IH" [OF c] show ?case unfolding keys_put by auto
qed simp

text \<open>The invocations of a whole run, whatever it ends with.\<close>

lemma execRun_calls:
  assumes "execRun T I S prog inp seed = Inr (st, e)"
  shows "distinct (map callKey (x_calls st)) \<and>
    (\<forall>iv \<in> set (x_calls st). \<forall>s. seed = Some s \<longrightarrow> callKey iv \<notin> set (keys (rs_Memo s))) \<and>
    (\<forall>iv \<in> set (x_calls st). completedValue T I iv \<noteq> None \<longrightarrow> callKey iv \<in> set (keys (x_memo st)))"
proof -
  obtain memo scope control where
    m: "(case seed of None \<Rightarrow> Inr [] | Some s \<Rightarrow> seedMemo T (rs_Memo s) []) = Inr memo"
    and x: "execAll T I S (pg_Body prog) [] [] (startState memo control scope) = (st, e)"
    using assms by (auto simp: execRun_def split: sum.splits)
  from once.execAll_frame [OF x] obtain new where
    f: "freshCalls T I (region [] []) (startState memo control scope) st new"
    unfolding calledOnce_def by blast
  have c: "x_calls st = new" using f by (simp add: freshCalls_def startState_def)
  have "distinct (map addressOf new)" using f by (simp add: freshCalls_def)
  then have "distinct (map callKey new)"
    by (auto simp: distinct_map inj_on_def CallKey_inject addressOf_def)
  moreover have "callKey iv \<notin> set (keys (rs_Memo s))" if "iv \<in> set new" "seed = Some s" for iv s
  proof -
    have "set (keys memo) = set (keys (rs_Memo s))" using m that(2) seedMemo_keys [of T "rs_Memo s" "[]"] by simp
    moreover have "callKey iv \<notin> set (keys memo)"
      using f that(1) by (auto simp: freshCalls_def startState_def map_of_eq_None_iff)
    ultimately show ?thesis by simp
  qed
  moreover have "callKey iv \<in> set (keys (x_memo st))" if "iv \<in> set new" "completedValue T I iv \<noteq> None" for iv
  proof -
    from that f obtain v where "map_of (x_memo st) (callKey iv) = Some v" by (auto simp: freshCalls_def)
    then show ?thesis by (metis domI dom_map_of_conv_image_fst image_set)
  qed
  ultimately show ?thesis unfolding c by blast
qed


subsection \<open>Properties\<close>

text \<open>
  C3. A completed side effect never fires twice: in every run that starts, whether it completes,
  suspends or fails, under every schedule of its goroutines and whatever the invoker answers, no leaf
  key is invoked twice and no leaf already in the seed's memo is invoked; and when a run is started
  from the durable state an earlier one ended in (with any program, input, invoker and schedule, and
  whether it then completes, suspends or fails), no leaf that completed in the earlier run is invoked
  again.
\<close>

theorem completed_leaf_never_reissued:
  assumes "execRun T I S prog inp seed = Inr (st1, e1)"
    and "execRun T I' S' prog' inp' (Some (runStateOf st1)) = Inr (st2, e2)"
  shows "distinct (map callKey (x_calls st1)) \<and>
    (\<forall>iv \<in> set (x_calls st1). \<forall>s. seed = Some s \<longrightarrow> callKey iv \<notin> set (keys (rs_Memo s))) \<and>
    (\<forall>iv \<in> set (x_calls st1). \<forall>iv' \<in> set (x_calls st2).
       completedValue T I iv \<noteq> None \<longrightarrow> callKey iv' \<noteq> callKey iv)"
proof -
  have "callKey iv' \<notin> set (keys (x_memo st1))" if "iv' \<in> set (x_calls st2)" for iv'
    using execRun_calls [OF assms(2)] that by (auto simp: runStateOf_def)
  then show ?thesis using execRun_calls [OF assms(1)] by metis
qed

definition demo_invoker :: "call_site \<Rightarrow> leaf \<Rightarrow> any gomap \<Rightarrow> outcome" where
  "demo_invoker site lf args = (if lf = LeafTool ''b'' then InvSuspend else InvOk (AInt 1))"

definition demo_answers :: "call_site \<Rightarrow> leaf \<Rightarrow> any gomap \<Rightarrow> outcome" where
  "demo_answers site lf args = InvOk (AInt 1)"

definition demo_order :: "nat list \<Rightarrow> nat list \<Rightarrow> nat list" where
  "demo_order path loop = [1, 0]"

definition demo_event :: "nat list \<Rightarrow> nat list \<Rightarrow> nat \<Rightarrow> nat" where
  "demo_event path loop n = n"

definition demo_visible :: "nat list \<Rightarrow> nat list \<Rightarrow> bool" where
  "demo_visible path loop = True"

definition demo_schedule :: schedule where
  "demo_schedule = \<lparr>sc_order = demo_order, sc_visible = demo_visible, sc_event = demo_event\<rparr>"

definition demo_interp :: "(call_site \<Rightarrow> leaf \<Rightarrow> any gomap \<Rightarrow> outcome) \<Rightarrow> interp" where
  "demo_interp f = \<lparr>in_Invoker = f, in_MaxLoopIterations = 0, in_MaxConcurrency = 0\<rparr>"

definition demo_program :: program where
  "demo_program = \<lparr>pg_Workflow = ''w'', pg_Params = [''x''],
     pg_Body = [Fork [ForkBranch ''p'' [InvokeTool ''p'' ''a'' [(''v'', Ref [''x''])]],
                      ForkBranch ''q'' [InvokeTool ''q'' ''b'' []]],
                Return (List [Ref [''p''], Ref [''q'']])]\<rparr>"

definition demo_first :: "exec_state eval" where
  "demo_first = runProgram demo_text (demo_interp demo_invoker) demo_schedule demo_program (AInt 7) None"

definition demo_second :: "exec_state eval" where
  "demo_second =
     (case demo_first of
        Inl e \<Rightarrow> Inl e
      | Inr st \<Rightarrow> runProgram demo_text (demo_interp demo_answers) demo_schedule demo_program (AInt 7)
                   (Some (runStateOf st)))"

definition demo_failing :: "call_site \<Rightarrow> leaf \<Rightarrow> any gomap \<Rightarrow> outcome" where
  "demo_failing site lf args = InvError ''down''"

text \<open>A run that suspends, and one resumed from it that fails in the leaf it had suspended in.\<close>

theorem completed_leaf_never_reissued_witness:
  "\<exists>st1 st2. execRun demo_text (demo_interp demo_invoker) demo_schedule demo_program (AInt 7) None = Inr (st1, Some ErrSuspend) \<and>
     execRun demo_text (demo_interp demo_failing) demo_schedule demo_program (AInt 7) (Some (runStateOf st1)) =
       Inr (st2, Some (ErrInvoke ''down'')) \<and>
     length (x_calls st1) = 2 \<and> length (x_calls st2) = 1 \<and>
     (\<forall>iv \<in> set (x_calls st1). \<forall>iv' \<in> set (x_calls st2).
       completedValue demo_text (demo_interp demo_invoker) iv \<noteq> None \<longrightarrow> callKey iv' \<noteq> callKey iv)"
proof -
  let ?first = "execRun demo_text (demo_interp demo_invoker) demo_schedule demo_program (AInt 7) None"
  let ?second = "\<lambda>st. execRun demo_text (demo_interp demo_failing) demo_schedule demo_program (AInt 7) (Some (runStateOf st))"
  have "case ?first of Inl e \<Rightarrow> False | Inr (st1, e1) \<Rightarrow> e1 = Some ErrSuspend \<and> length (x_calls st1) = 2 \<and>
     (case ?second st1 of Inl e \<Rightarrow> False | Inr (st2, e2) \<Rightarrow> e2 = Some (ErrInvoke ''down'') \<and> length (x_calls st2) = 1)"
    by code_simp
  then obtain st1 st2 where r: "?first = Inr (st1, Some ErrSuspend)" "?second st1 = Inr (st2, Some (ErrInvoke ''down''))"
    "length (x_calls st1) = 2" "length (x_calls st2) = 1"
    by (auto split: sum.splits prod.splits)
  from completed_leaf_never_reissued [OF r(1,2)] r show ?thesis by blast
qed

text \<open>
  A fork all of whose branches end with a context cancellation is treated as a fork that
  succeeded: a cancelled run goes on after it, and completes.
\<close>

definition cancelled_invoker :: "call_site \<Rightarrow> leaf \<Rightarrow> any gomap \<Rightarrow> outcome" where
  "cancelled_invoker site lf args = InvCanceled"

definition cancelled_program :: program where
  "cancelled_program = \<lparr>pg_Workflow = ''w'', pg_Params = [],
     pg_Body = [Fork [ForkBranch ''p'' [InvokeTool ''p'' ''a'' []]], Return (Lit (AStr ''ok''))]\<rparr>"

lemma cancelled_fork_completes:
  "Run demo_text (demo_interp cancelled_invoker) demo_schedule cancelled_program (AObj []) = Inr (AStr ''ok'')"
  by code_simp

end
