(* ===== verification/Exec_Resume.thy ===== *)
theory Exec_Resume
  imports Exec_Once
begin

text \<open>
  Replay determinism of the interpreter: a run that pauses for human decisions any number of
  times and is resumed from its durable state ends like the run that was never interrupted.
\<close>

subsection \<open>Keys of an address set\<close>

definition memoKeys :: "address set \<Rightarrow> string set" where
  "memoKeys A = {k. \<exists>b w p l. (p, l) \<in> A \<and> k = CallKey (mkSite b p l w)}"

definition controlKeys :: "address set \<Rightarrow> string set" where
  "controlKeys A = {k. \<exists>pre p l. (p, l) \<in> A \<and> pre \<in> set controlKinds \<and> k = controlKey pre p l}"

lemma showInts_bracket: "showInts xs = CHR ''['' # tl (showInts xs) \<and> CHR ''['' \<notin> set (tl (showInts xs))"
  using set_Join [of "map showNat xs" "'' ''"]
  by (auto simp: showInts_def isDigit_def between_def dest!: showNat_chars)

lemma controlKey_inject:
  assumes "controlKey pre p l = controlKey pre' p' l'" "pre \<in> set controlKinds" "pre' \<in> set controlKinds"
  shows "p = p' \<and> l = l'"
proof -
  have "(pre @ showInts p) @ CHR ''|'' # showInts l = (pre' @ showInts p') @ CHR ''|'' # showInts l'"
    using assms(1) by (simp add: controlKey_def)
  from last_bar_split [OF this showInts_no_bar showInts_no_bar]
  have l: "showInts l = showInts l'" and "pre @ showInts p = pre' @ showInts p'" by simp_all
  then have "pre @ CHR ''['' # tl (showInts p) = pre' @ CHR ''['' # tl (showInts p')"
    using showInts_bracket by metis
  from last_bar_split [OF this] have "tl (showInts p) = tl (showInts p')" using showInts_bracket by blast
  then have "showInts p = showInts p'" using showInts_bracket by metis
  then show ?thesis using l by (simp add: showInts_inject)
qed

lemma memoKeys_disjoint: "A \<inter> B = {} \<Longrightarrow> memoKeys A \<inter> memoKeys B = {}"
  by (auto simp: memoKeys_def CallKey_inject mkSite_def)

lemma controlKeys_disjoint: "A \<inter> B = {} \<Longrightarrow> controlKeys A \<inter> controlKeys B = {}"
  using controlKey_inject unfolding controlKeys_def by blast

lemma memoKeys_mono: "A \<subseteq> B \<Longrightarrow> memoKeys A \<subseteq> memoKeys B"
  unfolding memoKeys_def by blast

lemma controlKeys_mono: "A \<subseteq> B \<Longrightarrow> controlKeys A \<subseteq> controlKeys B"
  unfolding controlKeys_def by blast

lemma memoKeys_site: "(p, l) \<in> A \<Longrightarrow> CallKey (mkSite b p l w) \<in> memoKeys A"
  unfolding memoKeys_def by blast

lemma controlKeys_addr: "(p, l) \<in> A \<Longrightarrow> pre \<in> set controlKinds \<Longrightarrow> controlKey pre p l \<in> controlKeys A"
  unfolding controlKeys_def by blast

subsection \<open>Growth of the durable state\<close>

definition grows :: "address set \<Rightarrow> exec_state \<Rightarrow> exec_state \<Rightarrow> bool" where
  "grows A s t \<longleftrightarrow>
     (\<forall>k. k \<notin> memoKeys A \<longrightarrow> map_of (x_memo t) k = map_of (x_memo s) k) \<and>
     (\<forall>k. k \<notin> controlKeys A \<longrightarrow> map_of (x_control t) k = map_of (x_control s) k) \<and>
     map_of (x_memo s) \<subseteq>\<^sub>m map_of (x_memo t) \<and> map_of (x_control s) \<subseteq>\<^sub>m map_of (x_control t) \<and>
     (x_suspended s \<longrightarrow> x_suspended t)"

lemma grows_mono: "grows A s t \<Longrightarrow> A \<subseteq> B \<Longrightarrow> grows B s t"
  using memoKeys_mono [of A B] controlKeys_mono [of A B] unfolding grows_def by blast

lemma growsAt_trans: "grows A s t \<Longrightarrow> grows A t u \<Longrightarrow> grows A s u"
  unfolding grows_def by (auto intro: map_le_trans)

lemma checkControl_grows:
  assumes "(p, l) \<in> A" "pre \<in> set controlKinds" "checkControl (controlKey pre p l) v s = (t, e)"
  shows "grows A s t"
  using assms controlKeys_addr [OF assms(1,2)]
  by (auto simp: checkControl_def grows_def map_le_def dom_def split: option.splits if_splits)

lemma invoke_grows:
  assumes "invoke T I (mkSite b p l w) lf args s = (t, e)"
  shows "grows (region p l) s t"
  using assms memoKeys_site [OF region_self, of b p l w]
  by (auto simp: invoke_def Let_def grows_def map_le_def dom_def bindTo_def markSuspended_def
      split: option.splits sum.splits outcome.splits if_splits)

interpretation frame: address_frame grows T I for T I
proof
  show "grows A s t" if "x_memo t = x_memo s" "x_control t = x_control s" "x_suspended t = x_suspended s" for t s A
    using that by (simp add: grows_def)
  show "grows (A \<union> B) s u" if "grows A s t" "grows B t u" for A s t B u
    using growsAt_trans [OF grows_mono [OF that(1), of "A \<union> B"] grows_mono [OF that(2), of "A \<union> B"]] by simp
  show "grows A s u" if "(p, l) \<in> A" "pre \<in> set controlKinds"
    "checkControl (controlKey pre p l) v s = (t, e)" "grows A t u" for p l A pre v s t e u
    using growsAt_trans [OF checkControl_grows [OF that(1-3)] that(4)] .
  show "grows A s u" if "(p, l) \<in> A" "pre \<in> set controlKinds"
    "grows A s t" "checkControl (controlKey pre p l) v t = (u, e)" for p l A pre s t v u e
    using growsAt_trans [OF that(3) checkControl_grows [OF that(1,2,4)]] .
qed (rule grows_mono invoke_grows; assumption)+

subsection \<open>Replays\<close>

text \<open>
  \<open>I\<close> answers every call; \<open>I'\<close> is an invoker that may pause at calls instead of answering.
\<close>

definition answers :: "interp \<Rightarrow> bool" where
  "answers I \<longleftrightarrow> (\<forall>site lf a. in_Invoker I site lf a \<noteq> InvSuspend \<and> in_Invoker I site lf a \<noteq> InvCanceled)"

definition pauses :: "interp \<Rightarrow> interp \<Rightarrow> bool" where
  "pauses I' I \<longleftrightarrow>
     in_MaxLoopIterations I' = in_MaxLoopIterations I \<and>
     (\<forall>site lf a. in_Invoker I' site lf a = in_Invoker I site lf a \<or> in_Invoker I' site lf a = InvSuspend)"

definition sameRunner :: "exec_state \<Rightarrow> exec_state \<Rightarrow> bool" where
  "sameRunner s t \<longleftrightarrow> x_scope s = x_scope t \<and> x_output s = x_output t \<and> x_done s = x_done t"

definition fresh :: "address set \<Rightarrow> exec_state \<Rightarrow> bool" where
  "fresh A s \<longleftrightarrow> (\<forall>k \<in> memoKeys A. map_of (x_memo s) k = None)"

text \<open>What \<open>s\<close> records at the addresses \<open>A\<close>, \<open>t\<close> records too.\<close>

definition contained :: "address set \<Rightarrow> exec_state \<Rightarrow> exec_state \<Rightarrow> bool" where
  "contained A s t \<longleftrightarrow>
     (\<forall>k \<in> memoKeys A. \<forall>v. map_of (x_memo s) k = Some v \<longrightarrow> map_of (x_memo t) k = Some v) \<and>
     (\<forall>k \<in> controlKeys A. \<forall>v. map_of (x_control s) k = Some v \<longrightarrow> map_of (x_control t) k = Some v)"

text \<open>
  \<open>r\<close> is a reference runner that succeeds without a suspension, \<open>r'\<close> a replay that starts from part of what \<open>r\<close>
  records: it ends like \<open>r\<close>, or pauses with part of what \<open>r\<close> records.
\<close>

definition gained :: "exec_state \<Rightarrow> exec_state \<Rightarrow> exec_state \<Rightarrow> bool" where
  "gained s t t' \<longleftrightarrow>
     (\<forall>k v. map_of (x_memo t) k = Some v \<longrightarrow> map_of (x_memo s) k = Some v \<or> map_of (x_memo t') k = Some v) \<and>
     (\<forall>k v. map_of (x_control t) k = Some v \<longrightarrow>
        map_of (x_control s) k = Some v \<or> map_of (x_control t') k = Some v)"

definition replayed ::
  "address set \<Rightarrow> exec_state \<Rightarrow> exec_state \<Rightarrow> exec_state \<Rightarrow> exec_error option \<Rightarrow> bool" where
  "replayed A s t t' e' \<longleftrightarrow>
     contained A t' t \<and>
     (e' = None \<and> sameRunner t t' \<and> gained s t t' \<or> e' = Some ErrSuspend \<and> x_suspended t')"

definition simAt :: "address set \<Rightarrow> runner \<Rightarrow> runner \<Rightarrow> exec_state \<Rightarrow> exec_state \<Rightarrow> bool" where
  "simAt A r r' s s' \<longleftrightarrow>
     (\<forall>t t' e'. r s = (t, None) \<longrightarrow> \<not> x_suspended t \<longrightarrow> r' s' = (t', e') \<longrightarrow> sameRunner s s' \<longrightarrow> fresh A s \<longrightarrow>
        contained A s' t \<longrightarrow> replayed A s t t' e')"

definition sim :: "address set \<Rightarrow> runner \<Rightarrow> runner \<Rightarrow> bool" where
  "sim A r r' \<longleftrightarrow> (\<forall>s s'. simAt A r r' s s')"

abbreviation keeps :: "address set \<Rightarrow> runner \<Rightarrow> bool" where
  "keeps \<equiv> frame.keeps"


lemma simD:
  "sim A r r' \<Longrightarrow> r s = (t, None) \<Longrightarrow> \<not> x_suspended t \<Longrightarrow> r' s' = (t', e') \<Longrightarrow> sameRunner s s' \<Longrightarrow> fresh A s \<Longrightarrow>
     contained A s' t \<Longrightarrow> replayed A s t t' e'"
  by (simp add: sim_def simAt_def)

lemma simI: "(\<And>s s'. simAt A r r' s s') \<Longrightarrow> sim A r r'"
  by (simp add: sim_def)

lemma keys_Un:
  "memoKeys (A \<union> B) = memoKeys A \<union> memoKeys B" "controlKeys (A \<union> B) = controlKeys A \<union> controlKeys B"
  unfolding memoKeys_def controlKeys_def by blast+

lemma contained_Un: "contained (A \<union> B) s t \<longleftrightarrow> contained A s t \<and> contained B s t"
  by (auto simp: contained_def keys_Un)

lemma contained_mono: "contained B s t \<Longrightarrow> A \<subseteq> B \<Longrightarrow> contained A s t"
  using memoKeys_mono [of A B] controlKeys_mono [of A B] by (auto simp: contained_def)

lemma fresh_mono: "fresh B s \<Longrightarrow> A \<subseteq> B \<Longrightarrow> fresh A s"
  using memoKeys_mono [of A B] by (auto simp: fresh_def)

lemma contained_refl: "contained A s s"
  by (simp add: contained_def)

lemma contained_trans: "contained A s t \<Longrightarrow> contained A t u \<Longrightarrow> contained A s u"
  by (auto simp: contained_def)

lemma grows_contained: "grows B s t \<Longrightarrow> contained A s t"
  by (auto simp: grows_def contained_def map_le_def dom_def)

lemma grows_elsewhere:
  assumes "grows B s t" "A \<inter> B = {}"
  shows "contained A t s"
  using assms memoKeys_disjoint [OF assms(2)] controlKeys_disjoint [OF assms(2)]
  by (auto simp: grows_def contained_def)

lemma fresh_elsewhere: "grows B s t \<Longrightarrow> A \<inter> B = {} \<Longrightarrow> fresh A s \<Longrightarrow> fresh A t"
  using memoKeys_disjoint [of A B] by (auto simp: grows_def fresh_def)

lemma contained_neutral:
  assumes "x_memo t = x_memo s" "x_control t = x_control s"
  shows "contained A s u = contained A t u" "contained A u s = contained A u t" "fresh A s = fresh A t"
  using assms by (simp_all add: contained_def fresh_def)

lemma gained_trans:
  assumes "gained s s1 s1'" "gained s1 t t'" "grows B s1' t'"
  shows "gained s t t'"
proof -
  have "map_of (x_memo s1') k = Some v \<Longrightarrow> map_of (x_memo t') k = Some v"
    "map_of (x_control s1') k = Some u \<Longrightarrow> map_of (x_control t') k = Some u" for k u v
    using assms(3) by (auto simp: grows_def map_le_def dom_def)
  then show ?thesis using assms(1,2) unfolding gained_def by blast
qed

lemma gained_refl: "gained s s t"
  by (simp add: gained_def)

text \<open>Sequential composition.\<close>

definition bindR :: "runner \<Rightarrow> runner \<Rightarrow> runner" where
  "bindR r k s = (case r s of (t, Some e) \<Rightarrow> (t, Some e) | (t, None) \<Rightarrow> k t)"

lemma simAt_bind:
  assumes "A \<inter> B = {}" and r: "simAt A r r' s s'" "keeps A r" "keeps A r'"
    and k: "sim B k k'" "keeps B k" "keeps B k'"
  shows "simAt (A \<union> B) (bindR r k) (bindR r' k') s s'"
  unfolding simAt_def
proof (intro allI impI)
  fix t t' e'
  assume ref: "bindR r k s = (t, None)" and un: "\<not> x_suspended t" and rep: "bindR r' k' s' = (t', e')"
    and same: "sameRunner s s'" and fr: "fresh (A \<union> B) s" and con: "contained (A \<union> B) s' t"
  obtain s1 where 1: "r s = (s1, None)" "k s1 = (t, None)"
    using ref by (auto simp: bindR_def split: prod.splits option.splits)
  obtain s1' e1' where p1: "r' s' = (s1', e1')" by fastforce
  have g: "grows A s s1" "grows B s1 t" "grows A s' s1'"
    using frame.keepsD r(2,3) k(2) 1 p1 by blast+
  have un1: "\<not> x_suspended s1" using g(2) un by (auto simp: grows_def)
  have BA: "B \<inter> A = {}" using assms(1) by blast
  have conA: "contained A s' s1"
    using con contained_trans [OF _ grows_elsewhere [OF g(2) assms(1)]] by (simp add: contained_Un)
  have first: "replayed A s s1 s1' e1'"
    using r(1) 1(1) un1 p1 same fresh_mono [OF fr] conA unfolding simAt_def by blast
  have conB: "contained B s1' t"
    using con contained_trans [OF grows_elsewhere [OF g(3) BA]] by (simp add: contained_Un)
  have At: "contained A s1 t" by (rule grows_contained [OF g(2)])
  show "replayed (A \<union> B) s t t' e'"
  proof (cases e1')
    case (Some e)
    then have "t' = s1'" "e' = Some e" using rep p1 by (simp_all add: bindR_def)
    then show ?thesis using first Some conB At
      by (auto simp: replayed_def contained_Un intro: contained_trans)
  next
    case None
    then have k': "k' s1' = (t', e')" using rep p1 by (simp add: bindR_def)
    have same1: "sameRunner s1 s1'" and gain1: "gained s s1 s1'" and fwd: "contained A s1' s1"
      using first None by (auto simp: replayed_def)
    have "fresh B s1" using fresh_elsewhere [OF g(1) BA] fresh_mono [OF fr] by blast
    from simD [OF k(1) 1(2) un k' same1 this conB] have end_B: "replayed B s1 t t' e'" .
    have g': "grows B s1' t'" using frame.keepsD k(3) k' by blast
    have "contained A t' t"
      using contained_trans [OF contained_trans [OF grows_elsewhere [OF g' assms(1)] fwd] At] .
    moreover have "gained s t t'" if "gained s1 t t'" by (rule gained_trans [OF gain1 that g'])
    ultimately show ?thesis using end_B by (auto simp: replayed_def contained_Un)
  qed
qed

lemma simAt_mono:
  assumes "simAt A r r' s s'" "A \<subseteq> B" "keeps A r" "keeps A r'"
  shows "simAt B r r' s s'"
proof -
  have "simAt (A \<union> (B - A)) (bindR r (\<lambda>t. (t, None))) (bindR r' (\<lambda>t. (t, None))) s s'"
    by (rule simAt_bind [OF _ assms(1,3,4)])
      (auto simp: sim_def simAt_def replayed_def contained_refl gained_refl frame.keeps_def frame.refl)
  moreover have "A \<union> (B - A) = B" using assms(2) by blast
  moreover have "bindR r (\<lambda>t. (t, None)) = r" for r
    by (auto simp: bindR_def fun_eq_iff split: prod.splits option.splits)
  ultimately show ?thesis by simp
qed

text \<open>A control decision in front: the replay takes the same one.\<close>

lemma simAt_control:
  assumes "(p, l) \<in> A" "pre \<in> set controlKinds" "sim A k k'" "keeps A k" "keeps A k'"
  shows "simAt A (bindR (checkControl (controlKey pre p l) v) k)
    (bindR (checkControl (controlKey pre p l) v) k') s s'"
  unfolding simAt_def
proof (intro allI impI)
  fix t t' e'
  let ?c = "controlKey pre p l"
  assume ref: "bindR (checkControl ?c v) k s = (t, None)" and un: "\<not> x_suspended t" and rep: "bindR (checkControl ?c v) k' s' = (t', e')"
    and same: "sameRunner s s'" and fr: "fresh A s" and con: "contained A s' t"
  obtain s1 where 1: "checkControl ?c v s = (s1, None)" "k s1 = (t, None)"
    using ref by (auto simp: bindR_def split: prod.splits option.splits)
  have s1: "s1 = s\<lparr>x_control := put ?c v (x_control s)\<rparr>"
    using 1(1) by (auto simp: checkControl_def split: option.splits if_splits)
  have "grows A s1 t" using frame.keepsD assms(4) 1(2) by blast
  then have ctl: "map_of (x_control t) ?c = Some v" by (auto simp: grows_def map_le_def s1)
  have key: "?c \<in> controlKeys A" by (rule controlKeys_addr [OF assms(1,2)])
  then have prev: "map_of (x_control s') ?c = Some w \<Longrightarrow> w = v" for w
    using con ctl by (auto simp: contained_def)
  let ?s1' = "s'\<lparr>x_control := put ?c v (x_control s')\<rparr>"
  have "checkControl ?c v s' = (?s1', None)"
    using prev by (auto simp: checkControl_def split: option.split)
  then have k': "k' ?s1' = (t', e')" using rep by (simp add: bindR_def)
  have "sameRunner s1 ?s1'" "fresh A s1" using same fr by (simp_all add: sameRunner_def fresh_def s1)
  moreover have "contained A ?s1' t" using con ctl by (auto simp: contained_def)
  ultimately have "replayed A s1 t t' e'" using simD [OF assms(3) 1(2) un k'] by blast
  moreover have "gained s t t'" if "gained s1 t t'" "contained A t' t" "grows A ?s1' t'"
  proof -
    have "map_of (x_control t') ?c = Some v" using that(3) by (auto simp: grows_def map_le_def)
    then show ?thesis using that(1) by (auto simp: gained_def s1 split: if_splits)
  qed
  moreover have "grows A ?s1' t'" using frame.keepsD [OF assms(5) k'] .
  ultimately show "replayed A s t t' e'" by (auto simp: replayed_def)
qed


subsection \<open>The constructs as compositions\<close>

definition ifDone :: "runner \<Rightarrow> runner" where
  "ifDone r s = (if x_done s then (s, None) else r s)"

definition finish0 :: runner where
  "finish0 s = (s, None)"

definition condR :: "go_text \<Rightarrow> ir_expr \<Rightarrow> string \<Rightarrow> nat list \<Rightarrow> nat list \<Rightarrow> runner \<Rightarrow> runner \<Rightarrow> runner" where
  "condR T cond pre p l thn els s =
     (case evalExpr T (x_scope s) cond of
        Inl e \<Rightarrow> (s, Some e)
      | Inr c \<Rightarrow> bindR (checkControl (controlKey pre p l) (takenOf c)) (if c then thn else els) s)"

lemma runAll_bind:
  "runAll i [] path loop = finish0"
  "runAll i (r # rs) path loop = ifDone (bindR (r (path @ [i]) loop) (runAll (Suc i) rs path loop))"
  by (auto simp: fun_eq_iff ifDone_def bindR_def finish0_def split: prod.splits option.splits)

lemma loopItems_bind:
  "loopItems var body loop idx [] = finish0"
  "loopItems var body loop idx (item # items) =
     (\<lambda>s. bindR (body (loop @ [idx])) (ifDone (loopItems var body loop (Suc idx) items))
            (s\<lparr>x_scope := put var item (x_scope s)\<rparr>))"
  by (auto simp: fun_eq_iff ifDone_def bindR_def finish0_def split: prod.splits option.splits)

lemma whileIter_bind:
  "whileIter T cond body path loop i 0 = finish0"
  "whileIter T cond body path loop i (Suc n) =
     condR T cond ''while:'' path (loop @ [i])
       (bindR (body (loop @ [i])) (ifDone (whileIter T cond body path loop (Suc i) n))) finish0"
  by (auto simp: fun_eq_iff ifDone_def bindR_def finish0_def condR_def split: prod.splits option.splits sum.splits)

lemma retryIter_bind:
  "retryIter T cond limit body path loop i (Suc n) =
     bindR (body (loop @ [i]))
       (ifDone (condR T cond ''retry:'' path (loop @ [i]) finish0
          (retryIter T cond limit body path loop (Suc i) n)))"
  by (auto simp: fun_eq_iff ifDone_def bindR_def finish0_def condR_def split: prod.splits option.splits sum.splits)

lemma execBranch_bind: "execBranch T cond thn els path loop = condR T cond ''br:'' path loop thn els"
  by (auto simp: fun_eq_iff execBranch_def bindR_def condR_def split: prod.splits option.splits sum.splits)

lemmas construct_binds = runAll_bind loopItems_bind whileIter_bind retryIter_bind execBranch_bind

subsection \<open>Growth of compositions\<close>

lemma keeps_bind:
  assumes "keeps A r" "keeps A k"
  shows "keeps A (bindR r k)"
proof (rule frame.keepsI)
  fix s t e assume eq: "bindR r k s = (t, e)"
  obtain s1 e1 where r: "r s = (s1, e1)" by fastforce
  have g: "grows A s s1" by (rule frame.keepsD [OF assms(1) r])
  show "grows A s t"
  proof (cases e1)
    case None
    then have "k s1 = (t, e)" using eq r by (simp add: bindR_def)
    from growsAt_trans [OF g frame.keepsD [OF assms(2) this]] show ?thesis .
  next
    case (Some x)
    then show ?thesis using eq r g by (simp add: bindR_def)
  qed
qed

lemma keeps_ifDone: "keeps A r \<Longrightarrow> keeps A (ifDone r)"
  by (auto simp: frame.keeps_def ifDone_def frame.refl)

lemma keeps_finish0: "keeps A finish0"
  by (auto simp: frame.keeps_def finish0_def frame.refl)

lemma keeps_control: "(p, l) \<in> A \<Longrightarrow> pre \<in> set controlKinds \<Longrightarrow> keeps A (checkControl (controlKey pre p l) v)"
  by (auto simp: frame.keeps_def intro: checkControl_grows)

lemma keeps_cond:
  assumes "(p, l) \<in> A" "pre \<in> set controlKinds" "keeps A thn" "keeps A els"
  shows "keeps A (condR T cond pre p l thn els)"
proof -
  have "keeps A (bindR (checkControl (controlKey pre p l) (takenOf c)) (if c then thn else els))" for c
    using assms by (auto intro: keeps_bind keeps_control)
  then show ?thesis by (auto simp: frame.keeps_def condR_def frame.refl split: sum.splits)
qed

subsection \<open>Simulation of sequential constructs\<close>

lemma sim_bind:
  assumes "A \<inter> B = {}" "sim A r r'" "keeps A r" "keeps A r'" "sim B k k'" "keeps B k" "keeps B k'"
  shows "sim (A \<union> B) (bindR r k) (bindR r' k')"
  using assms simAt_bind [OF assms(1) _ assms(3-7)] by (simp add: sim_def)

lemma sim_mono: "sim A r r' \<Longrightarrow> A \<subseteq> B \<Longrightarrow> keeps A r \<Longrightarrow> keeps A r' \<Longrightarrow> sim B r r'"
  unfolding sim_def using simAt_mono [of A r r' _ _ B] by blast

lemma sim_finish0: "sim A finish0 finish0"
  by (auto simp: sim_def simAt_def finish0_def replayed_def contained_refl gained_refl)

lemma sim_ifDone: "sim A r r' \<Longrightarrow> sim A (ifDone r) (ifDone r')"
  unfolding sim_def simAt_def ifDone_def
  by (auto simp: replayed_def contained_refl gained_refl sameRunner_def split: if_splits)

lemma sim_cond:
  assumes "(p, l) \<in> A" "pre \<in> set controlKinds"
    and "sim A thn thn'" "keeps A thn" "keeps A thn'" "sim A els els'" "keeps A els" "keeps A els'"
  shows "sim A (condR T cond pre p l thn els) (condR T cond pre p l thn' els')"
proof (rule simI)
  fix s s'
  show "simAt A (condR T cond pre p l thn els) (condR T cond pre p l thn' els') s s'"
  proof (cases "evalExpr T (x_scope s) cond")
    case (Inl e)
    then show ?thesis by (simp add: simAt_def condR_def)
  next
    case (Inr c)
    have "simAt A (bindR (checkControl (controlKey pre p l) (takenOf c)) (if c then thn else els))
      (bindR (checkControl (controlKey pre p l) (takenOf c)) (if c then thn' else els')) s s'"
      by (rule simAt_control [OF assms(1,2)]) (use assms(3-) in auto)
    then show ?thesis using Inr by (auto simp: simAt_def condR_def sameRunner_def)
  qed
qed

lemma sim_setScope:
  assumes "sim A r r'"
  shows "sim A (\<lambda>s. r (s\<lparr>x_scope := f (x_scope s)\<rparr>)) (\<lambda>s. r' (s\<lparr>x_scope := f (x_scope s)\<rparr>))"
proof (rule simI)
  fix s s'
  let ?f = "\<lambda>s. s\<lparr>x_scope := f (x_scope s)\<rparr>"
  have eqs: "sameRunner s s' \<Longrightarrow> sameRunner (?f s) (?f s')" "fresh A (?f s) = fresh A s"
    "contained A (?f s') t = contained A s' t" "replayed A (?f s) t t' e' = replayed A s t t' e'" for t t' e'
    by (simp_all add: sameRunner_def fresh_def contained_def replayed_def gained_def)
  have "simAt A r r' (?f s) (?f s')" using assms by (simp add: sim_def)
  then show "simAt A (\<lambda>s. r (?f s)) (\<lambda>s. r' (?f s)) s s'"
    unfolding simAt_def using eqs by simp
qed

lemma keeps_setScope:
  assumes "keeps A r"
  shows "keeps A (\<lambda>s. r (s\<lparr>x_scope := f (x_scope s)\<rparr>))"
proof (rule frame.keepsI)
  fix s t e assume "r (s\<lparr>x_scope := f (x_scope s)\<rparr>) = (t, e)"
  from frame.keepsD [OF assms this] show "grows A s t" by (simp add: grows_def)
qed

lemma nodesFrom_self_disjoint: "nodesFrom path (loop @ [i]) 0 \<inter> insert (path, loop @ [i]) (itersFrom path loop (Suc i)) = {}"
  by (auto simp: nodesFrom_def itersFrom_def prefix_def)

lemma nodesFrom_iters: "nodesFrom path (loop @ [i]) 0 \<subseteq> itersFrom path loop i"
  using nodesFrom_region iter_in_itersFrom [of i i] by blast

lemma itersFrom_Suc: "itersFrom path loop (Suc i) \<subseteq> itersFrom path loop i"
  using itersFrom_step(2) by blast

lemma itersFrom_addr: "(path, loop @ [i]) \<in> itersFrom path loop i"
  using iter_in_itersFrom [of i i] region_self by blast

text \<open>A list of nodes, and the bodies of loops.\<close>

definition simNode :: "addressed \<Rightarrow> addressed \<Rightarrow> bool" where
  "simNode r r' \<longleftrightarrow> (\<forall>path loop. sim (region path loop) (r path loop) (r' path loop) \<and>
     keeps (region path loop) (r path loop) \<and> keeps (region path loop) (r' path loop))"

lemma sim_runAll:
  assumes "list_all2 simNode rs rs'"
  shows "sim (nodesFrom path loop i) (runAll i rs path loop) (runAll i rs' path loop) \<and>
    keeps (nodesFrom path loop i) (runAll i rs path loop) \<and> keeps (nodesFrom path loop i) (runAll i rs' path loop)"
  using assms
proof (induction rs rs' arbitrary: i rule: list_all2_induct)
  case Nil
  then show ?case by (simp add: runAll_bind sim_finish0 keeps_finish0)
next
  case (Cons r rs r' rs')
  let ?A = "region (path @ [i]) loop" and ?B = "nodesFrom path loop (Suc i)"
  have r: "sim ?A (r (path @ [i]) loop) (r' (path @ [i]) loop)"
    "keeps ?A (r (path @ [i]) loop)" "keeps ?A (r' (path @ [i]) loop)"
    using Cons.hyps by (simp_all add: simNode_def)
  note IH = Cons.IH [of "Suc i", THEN conjunct1] Cons.IH [of "Suc i", THEN conjunct2, THEN conjunct1]
    Cons.IH [of "Suc i", THEN conjunct2, THEN conjunct2]
  have sub: "?A \<subseteq> ?A \<union> ?B" "?B \<subseteq> ?A \<union> ?B" by blast+
  have k: "keeps (?A \<union> ?B) (bindR (r (path @ [i]) loop) (runAll (Suc i) rs path loop))"
    "keeps (?A \<union> ?B) (bindR (r' (path @ [i]) loop) (runAll (Suc i) rs' path loop))"
    using keeps_bind frame.keeps_mono [OF _ sub(1)] frame.keeps_mono [OF _ sub(2)] r(2,3) IH(2,3) by blast+
  have s: "sim (?A \<union> ?B) (bindR (r (path @ [i]) loop) (runAll (Suc i) rs path loop))
      (bindR (r' (path @ [i]) loop) (runAll (Suc i) rs' path loop))"
    by (rule sim_bind [OF nodesFrom_step(1) r IH])
  have "sim (nodesFrom path loop i) (bindR (r (path @ [i]) loop) (runAll (Suc i) rs path loop))
      (bindR (r' (path @ [i]) loop) (runAll (Suc i) rs' path loop))"
    by (rule sim_mono [OF s nodesFrom_step(2) k])
  then show ?case
    unfolding runAll_bind using frame.keeps_mono [OF _ nodesFrom_step(2)] k
    by (blast intro: sim_ifDone keeps_ifDone)
qed


definition simKeeps :: "address set \<Rightarrow> runner \<Rightarrow> runner \<Rightarrow> bool" where
  "simKeeps A r r' \<longleftrightarrow> sim A r r' \<and> keeps A r \<and> keeps A r'"

lemma simKeeps_mono: "simKeeps A r r' \<Longrightarrow> A \<subseteq> B \<Longrightarrow> simKeeps B r r'"
  unfolding simKeeps_def by (blast intro: sim_mono frame.keeps_mono)

lemma simKeeps_bind:
  assumes "simKeeps A r r'" "simKeeps B k k'" "A \<inter> B = {}" "A \<union> B \<subseteq> C"
  shows "simKeeps C (bindR r k) (bindR r' k')"
proof -
  have "keeps C r" "keeps C r'" "keeps C k" "keeps C k'"
    using assms frame.keeps_mono unfolding simKeeps_def by (meson le_sup_iff)+
  then have k: "keeps C (bindR r k)" "keeps C (bindR r' k')" by (blast intro: keeps_bind)+
  have "keeps (A \<union> B) r" "keeps (A \<union> B) r'" "keeps (A \<union> B) k" "keeps (A \<union> B) k'"
    using assms(1,2) frame.keeps_mono unfolding simKeeps_def by (meson sup_ge1 sup_ge2)+
  then have "keeps (A \<union> B) (bindR r k)" "keeps (A \<union> B) (bindR r' k')" by (blast intro: keeps_bind)+
  moreover have "sim (A \<union> B) (bindR r k) (bindR r' k')"
    using assms(1-3) unfolding simKeeps_def by (blast intro: sim_bind)
  ultimately have "sim C (bindR r k) (bindR r' k')" using assms(4) by (blast intro: sim_mono)
  with k show ?thesis by (simp add: simKeeps_def)
qed

lemma simKeeps_ifDone: "simKeeps A r r' \<Longrightarrow> simKeeps A (ifDone r) (ifDone r')"
  by (simp add: simKeeps_def sim_ifDone keeps_ifDone)

lemma simKeeps_finish0: "simKeeps A finish0 finish0"
  by (simp add: simKeeps_def sim_finish0 keeps_finish0)

lemma simKeeps_cond:
  assumes "(p, l) \<in> A" "pre \<in> set controlKinds" "simKeeps A thn thn'" "simKeeps A els els'"
  shows "simKeeps A (condR T cond pre p l thn els) (condR T cond pre p l thn' els')"
  using assms unfolding simKeeps_def by (intro conjI sim_cond keeps_cond) simp_all

text \<open>Bodies of loops: simulated for every iteration vector.\<close>

definition simBody :: "nat list \<Rightarrow> (nat list \<Rightarrow> runner) \<Rightarrow> (nat list \<Rightarrow> runner) \<Rightarrow> bool" where
  "simBody path body body' \<longleftrightarrow> (\<forall>l. simKeeps (nodesFrom path l 0) (body l) (body' l))"

lemma simBody_iter:
  assumes "simBody path body body'"
    and "simKeeps (insert (path, loop @ [i]) (itersFrom path loop (Suc i))) rest rest'"
  shows "simKeeps (itersFrom path loop i) (bindR (body (loop @ [i])) (ifDone rest))
    (bindR (body' (loop @ [i])) (ifDone rest'))"
proof (rule simKeeps_bind [OF _ simKeeps_ifDone [OF assms(2)] nodesFrom_self_disjoint])
  show "simKeeps (nodesFrom path (loop @ [i]) 0) (body (loop @ [i])) (body' (loop @ [i]))"
    using assms(1) by (simp add: simBody_def)
  show "nodesFrom path (loop @ [i]) 0 \<union> insert (path, loop @ [i]) (itersFrom path loop (Suc i))
      \<subseteq> itersFrom path loop i"
    using nodesFrom_iters itersFrom_Suc itersFrom_addr by blast
qed

lemma sim_loopItems:
  assumes "simBody path body body'"
  shows "simKeeps (itersFrom path loop idx) (loopItems var body loop idx items) (loopItems var body' loop idx items)"
proof (induction items arbitrary: idx)
  case (Cons item items)
  let ?R = "\<lambda>body. bindR (body (loop @ [idx])) (ifDone (loopItems var body loop (Suc idx) items))"
  have "simKeeps (itersFrom path loop idx) (?R body) (?R body')"
    by (rule simBody_iter [OF assms simKeeps_mono [OF Cons.IH]]) blast
  then show ?case unfolding loopItems_bind simKeeps_def
    using sim_setScope [of _ "?R body" "?R body'"] keeps_setScope by blast
qed (simp add: loopItems_bind simKeeps_finish0)

lemma sim_whileIter:
  assumes "simBody path body body'"
  shows "simKeeps (itersFrom path loop i) (whileIter T cond body path loop i n) (whileIter T cond body' path loop i n)"
proof (induction n arbitrary: i)
  case (Suc n)
  show ?case unfolding whileIter_bind
    by (rule simKeeps_cond [OF itersFrom_addr _ simBody_iter [OF assms simKeeps_mono [OF Suc.IH]] simKeeps_finish0])
      auto
qed (simp add: whileIter_bind simKeeps_finish0)

lemma simKeeps_fail: "simKeeps A (\<lambda>s. (s, Some e)) (\<lambda>s. (s, Some e))"
  by (auto simp: simKeeps_def sim_def simAt_def frame.keeps_def frame.refl)

lemma sim_retryIter:
  assumes "simBody path body body'"
  shows "simKeeps (itersFrom path loop i) (retryIter T cond limit body path loop i n)
    (retryIter T cond limit body' path loop i n)"
proof (induction n arbitrary: i)
  case (Suc n)
  let ?A = "insert (path, loop @ [i]) (itersFrom path loop (Suc i))"
  have "simKeeps ?A (retryIter T cond limit body path loop (Suc i) n) (retryIter T cond limit body' path loop (Suc i) n)"
    by (rule simKeeps_mono [OF Suc.IH]) blast
  then show ?case unfolding retryIter_bind
    by (intro simBody_iter [OF assms] simKeeps_cond simKeeps_finish0) auto
next
  case 0
  have "retryIter T cond limit b path loop i 0 = (\<lambda>s. (s, Some (ErrRetryExhausted limit)))" for b
    by (simp add: fun_eq_iff)
  then show ?case using simKeeps_fail by metis
qed

subsection \<open>Simulation of leaves\<close>

lemma sim_invoke:
  assumes "pauses I' I"
  shows "simKeeps (region p l) (invoke T I (mkSite b p l w) lf args) (invoke T I' (mkSite b p l w) lf args)"
proof -
  let ?site = "mkSite b p l w" and ?A = "region p l"
  let ?k = "CallKey ?site"
  have key: "?k \<in> memoKeys ?A" by (rule memoKeys_site [OF region_self])
  have "replayed ?A s t t' e'"
    if ref: "invoke T I ?site lf args s = (t, None)" and rep: "invoke T I' ?site lf args s' = (t', e')"
      and same: "sameRunner s s'" and fr: "fresh ?A s" and con: "contained ?A s' t" for s t s' t' e'
  proof -
    have "map_of (x_memo s) ?k = None" using fr key by (simp add: fresh_def)
    then obtain a res c where a: "evalArgs T (x_scope s) args = Inr a"
      and res: "in_Invoker I ?site lf a = InvOk res" "Canonical T res = Inr c"
      and t: "t = bindTo b c (s\<lparr>x_calls := x_calls s @ [\<lparr>iv_Site = ?site, iv_Leaf = lf, iv_Args = a\<rparr>],
        x_memo := put ?k c (x_memo s)\<rparr>)"
      using ref by (auto simp: invoke_def Let_def mkSite_def split: sum.splits outcome.splits)
    have bind_same: "sameRunner (bindTo b c u) (bindTo b c u')" if "sameRunner u u'" for u u'
      using that by (simp add: sameRunner_def bindTo_def)
    have memo_t: "map_of (x_memo t) ?k = Some c" by (simp add: t)
    show ?thesis
    proof (cases "map_of (x_memo s') ?k")
      case (Some v)
      then have "v = c" using con key memo_t by (auto simp: contained_def)
      then have "t' = bindTo b c s'" "e' = None"
        using rep Some by (simp_all add: invoke_def Let_def mkSite_def)
      then show ?thesis
        using con Some \<open>v = c\<close> same
        by (auto simp: replayed_def t contained_def gained_def sameRunner_def bindTo_def)
    next
      case None
      have a': "evalArgs T (x_scope s') args = Inr a" using a same by (simp add: sameRunner_def)
      consider "in_Invoker I' ?site lf a = InvOk res" | "in_Invoker I' ?site lf a = InvSuspend"
        using assms res(1) by (auto simp: pauses_def) metis
      then show ?thesis
      proof cases
        case 1
        then have "e' = None" and t': "t' = bindTo b c (s'\<lparr>x_calls := x_calls s' @ [\<lparr>iv_Site = ?site, iv_Leaf = lf, iv_Args = a\<rparr>],
            x_memo := put ?k c (x_memo s')\<rparr>)"
          using rep None a' res(2) by (simp_all add: invoke_def Let_def mkSite_def)
        then show ?thesis using con same
          by (auto simp: replayed_def t contained_def gained_def sameRunner_def bindTo_def)
      next
        case 2
        then have "e' = Some ErrSuspend" "x_suspended t'" "x_memo t' = x_memo s'" "x_control t' = x_control s'"
          using rep None a' by (auto simp: invoke_def Let_def markSuspended_def)
        then show ?thesis using con by (simp add: replayed_def contained_def)
      qed
    qed
  qed
  then show ?thesis
    unfolding simKeeps_def sim_def simAt_def frame.keeps_def by (blast intro: invoke_grows)
qed

text \<open>Runners that only read and write the runner's own part of the state.\<close>

definition localRunner :: "runner \<Rightarrow> bool" where
  "localRunner r \<longleftrightarrow>
     (\<exists>f. \<forall>s. r s = (case f (x_scope s) (x_output s) (x_done s) of
        (sc, out, d, e) \<Rightarrow> (s\<lparr>x_scope := sc, x_output := out, x_done := d\<rparr>, e)))"

lemma sim_local:
  assumes "localRunner r"
  shows "simKeeps A r r"
proof -
  obtain f where f: "\<And>s. r s = (case f (x_scope s) (x_output s) (x_done s) of
      (sc, out, d, e) \<Rightarrow> (s\<lparr>x_scope := sc, x_output := out, x_done := d\<rparr>, e))"
    using assms by (auto simp: localRunner_def)
  have "replayed A s t t' e'" if "r s = (t, None)" "r s' = (t', e')" "sameRunner s s'" "contained A s' t" for s t s' t' e'
    using that by (auto simp: f sameRunner_def replayed_def contained_def gained_def split: prod.splits)
  moreover have "grows A s t" if "r s = (t, e)" for s t e
    using that by (auto simp: f grows_def split: prod.splits)
  ultimately show ?thesis unfolding simKeeps_def sim_def simAt_def frame.keeps_def by blast
qed

lemma local_let: "localRunner (execLet T b v)"
  unfolding localRunner_def
  by (rule exI [of _ "\<lambda>sc out d. case evalValue T sc v of Inl e \<Rightarrow> (sc, out, d, Some e)
      | Inr x \<Rightarrow> (if b \<noteq> [] then put b x sc else sc, out, d, None)"])
    (auto simp: execLet_def bindTo_def split: sum.splits)

lemma local_return: "localRunner (execReturn T v)"
  unfolding localRunner_def
  by (rule exI [of _ "\<lambda>sc out d. case evalValue T sc v of Inl e \<Rightarrow> (sc, out, d, Some e)
      | Inr x \<Rightarrow> (sc, x, True, None)"])
    (auto simp: execReturn_def split: sum.splits)

definition projectStep :: "string \<Rightarrow> string \<Rightarrow> bool \<Rightarrow> runner" where
  "projectStep b wfl project s =
     (if project \<and> b \<noteq> [] then
        (case projectValueField wfl (lookupScope (x_scope s) b) of
           Inl e \<Rightarrow> (s, Some e)
         | Inr v \<Rightarrow> (s\<lparr>x_scope := put b v (x_scope s)\<rparr>, None))
      else (s, None))"

lemma local_project: "localRunner (projectStep b wfl project)"
  unfolding localRunner_def
  by (rule exI [of _ "\<lambda>sc out d. if project \<and> b \<noteq> [] then
        (case projectValueField wfl (lookupScope sc b) of Inl e \<Rightarrow> (sc, out, d, Some e) | Inr v \<Rightarrow> (put b v sc, out, d, None))
      else (sc, out, d, None)"])
    (auto simp: projectStep_def split: sum.splits)

lemma invokeWorkflow_bind:
  "execInvokeWorkflow T I b wfl args whole project path loop =
     bindR (invoke T I (mkSite b path loop whole) (LeafWorkflow wfl) args) (projectStep b wfl project)"
  by (auto simp: fun_eq_iff execInvokeWorkflow_def bindR_def projectStep_def split: prod.splits option.splits sum.splits)

lemma sim_invokeWorkflow:
  assumes "pauses I' I"
  shows "simKeeps (region path loop) (execInvokeWorkflow T I b wfl args whole project path loop)
    (execInvokeWorkflow T I' b wfl args whole project path loop)"
  unfolding invokeWorkflow_bind
  by (rule simKeeps_bind [OF sim_invoke [OF assms] sim_local [OF local_project, of "{}"]]) simp_all


subsection \<open>Runs that never pause\<close>

definition steady :: "runner \<Rightarrow> bool" where
  "steady r \<longleftrightarrow> (\<forall>s t e. r s = (t, e) \<longrightarrow> \<not> x_suspended s \<longrightarrow>
     \<not> x_suspended t \<and> e \<noteq> Some ErrSuspend \<and> e \<noteq> Some ErrCanceled)"

lemma steadyD: "steady r \<Longrightarrow> r s = (t, e) \<Longrightarrow> \<not> x_suspended s \<Longrightarrow>
    \<not> x_suspended t \<and> e \<noteq> Some ErrSuspend \<and> e \<noteq> Some ErrCanceled"
  by (simp add: steady_def)

lemma steady_bind:
  assumes "steady r" "steady k"
  shows "steady (bindR r k)"
  unfolding steady_def
proof (intro allI impI)
  fix s t e assume eq: "bindR r k s = (t, e)" and s: "\<not> x_suspended s"
  obtain s1 e1 where r: "r s = (s1, e1)" by fastforce
  show "\<not> x_suspended t \<and> e \<noteq> Some ErrSuspend \<and> e \<noteq> Some ErrCanceled"
    using steadyD [OF assms(1) r s] steadyD [OF assms(2), of s1 t e] eq r
    by (cases e1) (auto simp: bindR_def)
qed

lemma steady_ifDone: "steady r \<Longrightarrow> steady (ifDone r)"
  by (auto simp: steady_def ifDone_def)

lemma steady_finish0: "steady finish0"
  by (auto simp: steady_def finish0_def)

text \<open>Evaluation never reports a suspension or a cancellation.\<close>

definition plainError :: "exec_error \<Rightarrow> bool" where
  "plainError e \<longleftrightarrow> e \<noteq> ErrSuspend \<and> e \<noteq> ErrCanceled"

lemma resolvePath_plain: "resolvePath sc p = Inl e \<Longrightarrow> plainError e"
  by (cases p) (auto simp: plainError_def split: option.splits)

lemma eval_plain:
  "evalValue T sc v = Inl e \<Longrightarrow> plainError e"
  "evalFields T sc fs out = Inl e \<Longrightarrow> plainError e"
  "evalElems T sc vs = Inl e \<Longrightarrow> plainError e"
  "evalParts T sc vs = Inl e \<Longrightarrow> plainError e"
  by (induction T sc v and T sc fs out and T sc vs and T sc vs rule: evalValue_evalFields_evalElems_evalParts.induct)
    (auto split: sum.splits dest: resolvePath_plain)

lemma evalExpr_plain: "evalExpr T sc x = Inl e \<Longrightarrow> plainError e"
proof (induction T sc x rule: evalExpr.induct)
  case (4 T sc op x y)
  have "leafValue T sc x = Inl e \<Longrightarrow> plainError e" for x e
    by (cases x) (auto simp: leafValue_def plainError_def dest: eval_plain(1))
  moreover have "evalComparison op lv rv = Inl e \<Longrightarrow> plainError e" for lv rv
    by (auto simp: evalComparison_def compareOrdered_def plainError_def split: option.splits if_splits)
  ultimately show ?case using 4 by (auto split: if_splits sum.splits)
qed (auto simp: plainError_def split: sum.splits dest: eval_plain(1))

lemma steady_control: "steady (checkControl addr v)"
  by (auto simp: steady_def checkControl_def split: option.splits if_splits)

lemma steady_cond:
  assumes "steady thn" "steady els"
  shows "steady (condR T cond pre p l thn els)"
proof -
  have "steady (bindR (checkControl (controlKey pre p l) (takenOf c)) (if c then thn else els))" for c
    using assms by (auto intro: steady_bind steady_control)
  then show ?thesis
    by (auto simp: steady_def condR_def plainError_def split: sum.splits dest: evalExpr_plain)
qed

lemma steady_invoke:
  assumes "answers I"
  shows "steady (invoke T I site lf args)"
proof -
  have "in_Invoker I site lf a \<noteq> InvSuspend \<and> in_Invoker I site lf a \<noteq> InvCanceled" for a
    using assms by (simp add: answers_def)
  then show ?thesis
    by (auto simp: steady_def invoke_def Let_def evalArgs_def plainError_def bindTo_def
        split: option.splits sum.splits outcome.splits if_splits dest: eval_plain(2))
qed

lemma steady_local:
  "steady (execLet T b v)" "steady (execReturn T v)" "steady (projectStep b wfl project)"
  by (auto simp: steady_def execLet_def execReturn_def projectStep_def projectValueField_def bindTo_def plainError_def
      split: sum.splits any.splits if_splits dest: eval_plain(1))

lemma steady_runAll: "(\<And>r p l. r \<in> set rs \<Longrightarrow> steady (r p l)) \<Longrightarrow> steady (runAll i rs path loop)"
  by (induction rs arbitrary: i) (auto simp: runAll_bind intro!: steady_finish0 steady_ifDone steady_bind)

lemma steady_loopItems:
  assumes "\<And>l. steady (body l)"
  shows "steady (loopItems var body loop idx items)"
proof (induction items arbitrary: idx)
  case (Cons item items)
  have "steady (bindR (body (loop @ [idx])) (ifDone (loopItems var body loop (Suc idx) items)))"
    by (intro steady_bind steady_ifDone assms Cons.IH)
  then show ?case unfolding loopItems_bind by (simp add: steady_def)
qed (simp add: loopItems_bind steady_finish0)

lemma steady_whileIter: "(\<And>l. steady (body l)) \<Longrightarrow> steady (whileIter T cond body path loop i n)"
  by (induction n arbitrary: i)
    (auto simp: whileIter_bind intro!: steady_finish0 steady_cond steady_bind steady_ifDone)

lemma steady_retryIter: "(\<And>l. steady (body l)) \<Longrightarrow> steady (retryIter T cond limit body path loop i n)"
proof (induction n arbitrary: i)
  case (Suc n)
  then show ?case unfolding retryIter_bind
    by (intro steady_bind steady_ifDone steady_cond steady_finish0) simp_all
qed (auto simp: steady_def)

lemma classify_plain:
  assumes "\<forall>e \<in> set errs. e \<noteq> Some ErrSuspend \<and> e \<noteq> Some ErrCanceled" "\<not> susp"
  shows "classifyConcurrent susp errs \<noteq> Some ErrSuspend \<and> classifyConcurrent susp errs \<noteq> Some ErrCanceled"
  using assms by (induction errs) auto

lemma classify_None:
  assumes "classifyConcurrent susp errs = None"
  shows "\<not> susp" "\<forall>e \<in> set errs. e = None \<or> e = Some ErrSuspend \<or> e = Some ErrCanceled"
  using assms by (induction errs) (auto split: if_splits)

lemma steady_runBranches:
  assumes "\<And>i. i \<in> set is \<Longrightarrow> steady (run i)" "runBranches child run is s = (t, rs)" "\<not> x_suspended s"
  shows "\<not> x_suspended t \<and> (\<forall>(i, e, sc) \<in> set rs. e \<noteq> Some ErrSuspend \<and> e \<noteq> Some ErrCanceled)"
  using assms
proof (induction "is" arbitrary: s rs)
  case (Cons i "is")
  obtain c e where r: "run i (subRunner (child i) s) = (c, e)" by fastforce
  obtain rs' where b: "runBranches child run is (backTo s c) = (t, rs')" and rs: "rs = (i, e, x_scope c) # rs'"
    using Cons.prems(2) r by (auto split: prod.splits)
  have c: "\<not> x_suspended c \<and> e \<noteq> Some ErrSuspend \<and> e \<noteq> Some ErrCanceled"
    using steadyD [OF Cons.prems(1) r] Cons.prems(3) by (simp add: subRunner_def)
  then have "\<not> x_suspended t \<and> (\<forall>(i, e, sc) \<in> set rs'. e \<noteq> Some ErrSuspend \<and> e \<noteq> Some ErrCanceled)"
    using Cons.IH [OF _ b] Cons.prems(1) by (simp add: backTo_def)
  then show ?case using rs c by auto
qed simp

lemma steady_branchErr:
  assumes "\<forall>(i, e, sc) \<in> set rs. e \<noteq> Some ErrSuspend \<and> e \<noteq> Some ErrCanceled"
  shows "branchErr rs i \<noteq> Some ErrSuspend \<and> branchErr rs i \<noteq> Some ErrCanceled"
  using assms by (auto simp: branchErr_def split: option.splits dest!: map_of_SomeD)

lemma steady_fork:
  assumes "\<And>i. i < length binds \<Longrightarrow> steady (run i)"
  shows "steady (execFork S binds run path loop)"
  unfolding steady_def
proof (intro allI impI)
  fix s t e assume eq: "execFork S binds run path loop s = (t, e)" and s: "\<not> x_suspended s"
  obtain s1 rs where b: "runBranches (\<lambda>i. x_scope s) run (arrange (length binds) (sc_order S path loop)) s = (s1, rs)"
    by fastforce
  have r: "\<not> x_suspended s1" "\<forall>(i, e, sc) \<in> set rs. e \<noteq> Some ErrSuspend \<and> e \<noteq> Some ErrCanceled"
    using steady_runBranches [OF _ b s] assms by (auto simp: set_arrange)
  let ?errs = "map (branchErr rs) [0..<length binds]"
  have "classifyConcurrent (seesSuspension S path loop s s1 ?errs) ?errs \<noteq> Some ErrSuspend \<and>
      classifyConcurrent (seesSuspension S path loop s s1 ?errs) ?errs \<noteq> Some ErrCanceled"
    by (rule classify_plain) (use r steady_branchErr [OF r(2)] in \<open>auto simp: seesSuspension_def\<close>)
  then show "\<not> x_suspended t \<and> e \<noteq> Some ErrSuspend \<and> e \<noteq> Some ErrCanceled"
    using eq b r(1) by (auto simp: execFork_def Let_def split: option.splits)
qed

lemma steady_loopParallel:
  assumes "\<And>l. steady (body l)"
  shows "steady (execLoopParallel S var body items path loop)"
  unfolding steady_def
proof (intro allI impI)
  fix s t e assume eq: "execLoopParallel S var body items path loop s = (t, e)" and s: "\<not> x_suspended s"
  obtain s1 rs where b: "runBranches (\<lambda>i. put var (items ! i) (x_scope s)) (\<lambda>i. body (loop @ [i]))
      (arrange (length items) (sc_order S path loop)) s = (s1, rs)" by fastforce
  have r: "\<not> x_suspended s1" "\<forall>(i, e, sc) \<in> set rs. e \<noteq> Some ErrSuspend \<and> e \<noteq> Some ErrCanceled"
    using steady_runBranches [OF _ b s] assms by auto
  let ?errs = "map (branchErr rs) [0..<length items]"
  have "classifyConcurrent (seesSuspension S path loop s s1 ?errs) ?errs \<noteq> Some ErrSuspend \<and>
      classifyConcurrent (seesSuspension S path loop s s1 ?errs) ?errs \<noteq> Some ErrCanceled"
    by (rule classify_plain) (use r steady_branchErr [OF r(2)] in \<open>auto simp: seesSuspension_def\<close>)
  then show "\<not> x_suspended t \<and> e \<noteq> Some ErrSuspend \<and> e \<noteq> Some ErrCanceled"
    using eq b r(1) by (auto simp: execLoopParallel_def Let_def)
qed

definition loopBody ::
  "schedule \<Rightarrow> string \<Rightarrow> bool \<Rightarrow> (nat list \<Rightarrow> runner) \<Rightarrow> any list \<Rightarrow> nat list \<Rightarrow> nat list \<Rightarrow> runner" where
  "loopBody S var par body items path loop =
     (if par then execLoopParallel S var body items path loop else loopItems var body loop 0 items)"

lemma execLoop_bind:
  "execLoop T I S var coll par body path loop s =
     (case evalCollection T (x_scope s) coll of
        Inl e \<Rightarrow> (s, Some e)
      | Inr items \<Rightarrow>
          if int (length items) > maxIters I then (s, Some (ErrTooManyItems (length items) (maxIters I)))
          else bindR (checkControl (controlKey ''loop:'' path loop) (int (length items)))
                 (loopBody S var par body items path loop) s)"
  by (simp add: execLoop_def bindR_def loopBody_def split: sum.split prod.split option.split)

lemma evalCollection_plain: "evalCollection T sc v = Inl e \<Longrightarrow> plainError e"
  by (auto simp: evalCollection_def plainError_def split: sum.splits any.splits dest: eval_plain(1))

lemma steady_loop:
  assumes "\<And>l. steady (body l)"
  shows "steady (execLoop T I S var coll par body path loop)"
proof -
  have "steady (bindR (checkControl (controlKey ''loop:'' path loop) (int (length items)))
      (loopBody S var par body items path loop))" for items
    by (intro steady_bind steady_control)
      (simp add: loopBody_def steady_loopParallel [OF assms] steady_loopItems [OF assms])
  then show ?thesis
    by (auto simp: steady_def execLoop_bind plainError_def split: sum.splits if_splits dest: evalCollection_plain)
qed

text \<open>Programs of the \<open>.agent\<close> surface have no \<open>Graph\<close> node.\<close>

primrec noGraph :: "node \<Rightarrow> bool" and noGraphBranch :: "fork_branch \<Rightarrow> bool"
  and noGraphNode :: "graph_node \<Rightarrow> bool" where
  "noGraph (InvokeTool b u a) = True"
| "noGraph (InvokeAgent b u a w) = True"
| "noGraph (InvokeWorkflow b u a w p) = True"
| "noGraph (LetBind b v) = True"
| "noGraph (Branch c thn els) = (list_all noGraph thn \<and> list_all noGraph els)"
| "noGraph (Fork bs) = list_all noGraphBranch bs"
| "noGraph (Loop v c body par) = list_all noGraph body"
| "noGraph (While c l body) = list_all noGraph body"
| "noGraph (Retry c l body) = list_all noGraph body"
| "noGraph (Return v) = True"
| "noGraph (Graph ns) = False"
| "noGraph (Approval b d r a) = True"
| "noGraph NilNode = True"
| "noGraphBranch (ForkBranch b nodes) = list_all noGraph nodes"
| "noGraphNode (GraphNode i needs run) = noGraph run"

lemma steady_exec:
  assumes "answers I"
  shows "noGraph n \<Longrightarrow> steady (exec T I S n path loop)"
    "noGraphBranch fb \<Longrightarrow> steady (execForkBranch T I S fb path loop)"
    "noGraphNode gn \<Longrightarrow> steady (execGraphNode T I S gn path loop)"
proof (induction n and fb and gn arbitrary: path loop and path loop and path loop
    rule: node.induct fork_branch.induct graph_node.induct)
  case (Branch cond thn els)
  then show ?case
    by (auto simp: execBranch_bind list_all_iff intro!: steady_cond steady_runAll)
next
  case (Fork branches)
  then show ?case by (auto simp: list_all_iff intro!: steady_fork)
next
  case (Loop var coll body par)
  then show ?case by (auto simp: list_all_iff intro!: steady_loop steady_runAll)
next
  case (While cond limit body)
  then show ?case by (auto simp: execWhile_def list_all_iff intro!: steady_whileIter steady_runAll)
next
  case (Retry cond limit body)
  then show ?case by (auto simp: execRetry_def list_all_iff intro!: steady_retryIter steady_runAll)
next
  case (ForkBranch b nodes)
  then show ?case by (auto simp: list_all_iff intro!: steady_runAll)
qed (auto simp: invokeWorkflow_bind steady_invoke [OF assms] steady_local intro!: steady_bind, simp add: steady_def)


subsection \<open>Simulation of concurrent constructs\<close>

definition eqOn :: "address set \<Rightarrow> exec_state \<Rightarrow> exec_state \<Rightarrow> bool" where
  "eqOn A s t \<longleftrightarrow> contained A s t \<and> contained A t s"

lemma eqOn_elsewhere: "grows B s t \<Longrightarrow> A \<inter> B = {} \<Longrightarrow> eqOn A s t"
  by (simp add: eqOn_def grows_contained grows_elsewhere)

lemma eqOn_trans: "eqOn A s t \<Longrightarrow> eqOn A t u \<Longrightarrow> eqOn A s u"
  by (auto simp: eqOn_def intro: contained_trans)

lemma eqOn_neutral: "x_memo t = x_memo s \<Longrightarrow> x_control t = x_control s \<Longrightarrow> eqOn A s t"
  by (simp add: eqOn_def contained_def)

text \<open>Each goroutine, seen alone: its address set is untouched by the others.\<close>

lemma runBranches_part:
  assumes "distinct is" "\<And>i. i \<in> set is \<Longrightarrow> keeps (A i) (run i)"
    and "\<And>i j. i \<in> set is \<Longrightarrow> j \<in> set is \<Longrightarrow> i \<noteq> j \<Longrightarrow> A i \<inter> A j = {}"
    and "runBranches child run is s = (t, rs)" "i \<in> set is"
  shows "\<exists>u c e. run i (subRunner (child i) u) = (c, e) \<and> map_of rs i = Some (e, x_scope c) \<and>
    eqOn (A i) s u \<and> eqOn (A i) c t \<and> (x_suspended c \<longrightarrow> x_suspended t)"
  using assms
proof (induction "is" arbitrary: s rs)
  case (Cons j "is")
  obtain c e where r: "run j (subRunner (child j) s) = (c, e)" by fastforce
  obtain rs' where b: "runBranches child run is (backTo s c) = (t, rs')" and rs: "rs = (j, e, x_scope c) # rs'"
    using Cons.prems(4) r by (auto split: prod.splits)
  have g1: "grows (A j) s (backTo s c)"
    using frame.keepsD [OF Cons.prems(2) r] by (simp add: grows_def subRunner_def backTo_def)
  have g2: "grows (\<Union> (A ` set is)) (backTo s c) t"
    by (rule frame.runBranches_frame [OF _ _ _ b]) (use Cons.prems in auto)
  show ?case
  proof (cases "i = j")
    case True
    have "A j \<inter> \<Union> (A ` set is) = {}" using Cons.prems(1,3) by fastforce
    then have "eqOn (A j) (backTo s c) t" using eqOn_elsewhere [OF g2] by blast
    moreover have "eqOn (A j) c (backTo s c)" by (rule eqOn_neutral) (simp_all add: backTo_def)
    ultimately have "eqOn (A j) c t" by (rule eqOn_trans [rotated])
    moreover have "x_suspended c \<longrightarrow> x_suspended t" using g2 by (simp add: grows_def backTo_def)
    moreover have "eqOn (A j) s s" by (rule eqOn_neutral) simp_all
    ultimately show ?thesis using r rs True by auto
  next
    case False
    then have i: "i \<in> set is" using Cons.prems(5) by simp
    have "A i \<inter> A j = {}" using Cons.prems(3) False i by simp
    then have e: "eqOn (A i) s (backTo s c)" by (rule eqOn_elsewhere [OF g1])
    have "\<exists>u d e. run i (subRunner (child i) u) = (d, e) \<and> map_of rs' i = Some (e, x_scope d) \<and>
      eqOn (A i) (backTo s c) u \<and> eqOn (A i) d t \<and> (x_suspended d \<longrightarrow> x_suspended t)" (is "\<exists>u d e. ?P u d e")
      by (rule Cons.IH [OF _ _ _ b i]) (use Cons.prems in auto)
    then obtain u c1 e1 where "?P u c1 e1" by blast
    then show ?thesis using eqOn_trans [OF e] rs False by (intro exI [of _ u] exI [of _ c1] exI [of _ e1]) auto
  qed
qed simp

lemma keys_UN:
  "k \<in> memoKeys (\<Union> (A ` J)) \<longleftrightarrow> (\<exists>i \<in> J. k \<in> memoKeys (A i))"
  "k \<in> controlKeys (\<Union> (A ` J)) \<longleftrightarrow> (\<exists>i \<in> J. k \<in> controlKeys (A i))"
  unfolding memoKeys_def controlKeys_def by blast+

lemma contained_UN: "(\<And>i. i \<in> J \<Longrightarrow> contained (A i) s t) \<Longrightarrow> contained (\<Union> (A ` J)) s t"
  by (auto simp: contained_def keys_UN)

definition gainedOn :: "address set \<Rightarrow> exec_state \<Rightarrow> exec_state \<Rightarrow> exec_state \<Rightarrow> bool" where
  "gainedOn A s t t' \<longleftrightarrow>
     (\<forall>k \<in> memoKeys A. \<forall>v. map_of (x_memo t) k = Some v \<longrightarrow>
        map_of (x_memo s) k = Some v \<or> map_of (x_memo t') k = Some v) \<and>
     (\<forall>k \<in> controlKeys A. \<forall>v. map_of (x_control t) k = Some v \<longrightarrow>
        map_of (x_control s) k = Some v \<or> map_of (x_control t') k = Some v)"

lemma gained_UN:
  assumes "grows (\<Union> (A ` J)) s t" "\<And>i. i \<in> J \<Longrightarrow> gainedOn (A i) s t t'"
  shows "gained s t t'"
  using assms unfolding gained_def gainedOn_def grows_def keys_UN by (metis (no_types, lifting))

lemma gainedOn_eqOn:
  "gained u c c' \<Longrightarrow> eqOn A s u \<Longrightarrow> eqOn A c t \<Longrightarrow> eqOn A c' t' \<Longrightarrow> gainedOn A s t t'"
  unfolding gained_def gainedOn_def eqOn_def contained_def
  by (elim conjE, intro conjI ballI allI impI) (metis (no_types, lifting))+

text \<open>
  The two executions of the branches, in two orders: every branch of the replay ends like the
  branch of the reference, or pauses.
\<close>

lemma branches_replayed:
  fixes A :: "nat \<Rightarrow> address set"
  assumes run: "\<And>i. i < n \<Longrightarrow> simKeeps (A i) (run i) (run' i)" "\<And>i. i < n \<Longrightarrow> steady (run i)"
    and disj: "\<And>i j. i < n \<Longrightarrow> j < n \<Longrightarrow> i \<noteq> j \<Longrightarrow> A i \<inter> A j = {}"
    and ref: "runBranches child run (arrange n ord) s = (t, rs)"
    and ok: "classifyConcurrent seen (map (branchErr rs) [0..<n]) = None" "\<not> x_suspended t"
    and rep: "runBranches child run' (arrange n ord') s' = (t', rs')"
    and fr: "\<And>i. i < n \<Longrightarrow> fresh (A i) s" and con: "\<And>i. i < n \<Longrightarrow> contained (A i) s' t"
    and i: "i < n"
  shows "\<exists>sc. map_of rs i = Some (None, sc) \<and> contained (A i) t' t \<and>
    (map_of rs' i = Some (None, sc) \<and> gainedOn (A i) s t t' \<or>
     (\<exists>sc'. map_of rs' i = Some (Some ErrSuspend, sc')) \<and> x_suspended t')"
proof -
  have k: "\<And>i. i < n \<Longrightarrow> keeps (A i) (run i)" "\<And>i. i < n \<Longrightarrow> keeps (A i) (run' i)"
    using run(1) by (auto simp: simKeeps_def)
  have mem: "i \<in> set (arrange n ord)" "i \<in> set (arrange n ord')" using i by (auto simp: set_arrange)
  have "\<exists>u c e. run i (subRunner (child i) u) = (c, e) \<and> map_of rs i = Some (e, x_scope c) \<and>
    eqOn (A i) s u \<and> eqOn (A i) c t \<and> (x_suspended c \<longrightarrow> x_suspended t)"
    by (rule runBranches_part [OF distinct_arrange _ _ ref mem(1)]) (use k(1) disj in \<open>auto simp: set_arrange\<close>)
  then obtain u c e where r: "run i (subRunner (child i) u) = (c, e)" "map_of rs i = Some (e, x_scope c)"
    "eqOn (A i) s u" "eqOn (A i) c t" "x_suspended c \<longrightarrow> x_suspended t" by blast
  have "\<exists>u c e. run' i (subRunner (child i) u) = (c, e) \<and> map_of rs' i = Some (e, x_scope c) \<and>
    eqOn (A i) s' u \<and> eqOn (A i) c t' \<and> (x_suspended c \<longrightarrow> x_suspended t')"
    by (rule runBranches_part [OF distinct_arrange _ _ rep mem(2)]) (use k(2) disj in \<open>auto simp: set_arrange\<close>)
  then obtain u' c' e' where r': "run' i (subRunner (child i) u') = (c', e')" "map_of rs' i = Some (e', x_scope c')"
    "eqOn (A i) s' u'" "eqOn (A i) c' t'" "x_suspended c' \<longrightarrow> x_suspended t'" by blast
  have "grows (\<Union> (A ` set (arrange n ord))) s t"
    by (rule frame.runBranches_frame [OF distinct_arrange _ _ ref]) (use k(1) disj in \<open>auto simp: set_arrange\<close>)
  then have "\<not> x_suspended s" using ok(2) by (auto simp: grows_def)
  then have "\<forall>(i, e, sc) \<in> set rs. e \<noteq> Some ErrSuspend \<and> e \<noteq> Some ErrCanceled"
    using steady_runBranches [OF _ ref] run(2) by (auto simp: set_arrange)
  then have "branchErr rs i \<noteq> Some ErrSuspend \<and> branchErr rs i \<noteq> Some ErrCanceled" by (rule steady_branchErr)
  moreover have "branchErr rs i \<in> set (map (branchErr rs) [0..<n])" using i by simp
  ultimately have "branchErr rs i = None" using classify_None(2) [OF ok(1)] by blast
  then have e: "e = None" using r(2) by (simp add: branchErr_def)
  have "fresh (A i) (subRunner (child i) u)"
    using fr [OF i] r(3) by (fastforce simp: fresh_def eqOn_def contained_def subRunner_def)
  moreover have "contained (A i) (subRunner (child i) u') c"
  proof -
    have "contained (A i) u' c" using con [OF i] r(4) r'(3) unfolding eqOn_def by (blast intro: contained_trans)
    then show ?thesis by (simp add: contained_def subRunner_def)
  qed
  moreover have "sameRunner (subRunner (child i) u) (subRunner (child i) u')"
    by (simp add: sameRunner_def subRunner_def)
  ultimately have rp: "replayed (A i) (subRunner (child i) u) c c' e'"
    using simD run(1) [OF i] r(1,5) ok(2) r'(1) e unfolding simKeeps_def by blast
  then have "contained (A i) t' t"
    using r(4) r'(4) unfolding eqOn_def replayed_def by (blast intro: contained_trans)
  moreover have "gainedOn (A i) s t t'" if "gained (subRunner (child i) u) c c'"
    using that gainedOn_eqOn [OF _ r(3,4) r'(4)] by (simp add: gained_def subRunner_def)
  ultimately show ?thesis
    using rp r(2) r'(2,5) e by (auto simp: replayed_def sameRunner_def)
qed


lemma runBranches_runner:
  "runBranches child run is s = (t, rs) \<Longrightarrow> x_scope t = x_scope s \<and> x_output t = x_output s \<and> x_done t = x_done s"
proof (induction "is" arbitrary: s rs)
  case (Cons i "is")
  obtain c e where r: "run i (subRunner (child i) s) = (c, e)" by fastforce
  obtain rs' where b: "runBranches child run is (backTo s c) = (t, rs')"
    using Cons.prems r by (auto split: prod.splits)
  from Cons.IH [OF b] show ?case by (simp add: backTo_def)
qed simp

lemma classify_pausing:
  assumes "\<forall>e \<in> set errs. e = None \<or> e = Some ErrSuspend"
  shows "classifyConcurrent susp errs = (if susp then Some ErrSuspend else None)"
  using assms
proof (induction errs)
  case (Cons e errs)
  then have "\<not> (e \<noteq> None \<and> e \<noteq> Some ErrCanceled \<and> e \<noteq> Some ErrSuspend)" by fastforce
  then have "classifyConcurrent susp (e # errs) = classifyConcurrent susp errs"
    by (simp only: classifyConcurrent.simps if_False)
  then show ?case using Cons by simp
qed simp

lemma branches_core:
  fixes A :: "nat \<Rightarrow> address set"
  assumes run: "\<And>i. i < n \<Longrightarrow> simKeeps (A i) (run i) (run' i)" "\<And>i. i < n \<Longrightarrow> steady (run i)"
    and disj: "\<And>i j. i < n \<Longrightarrow> j < n \<Longrightarrow> i \<noteq> j \<Longrightarrow> A i \<inter> A j = {}"
    and sub: "\<And>i. A i \<subseteq> B"
    and ref: "runBranches child run (arrange n ord) s = (t, rs)"
    and ok: "classifyConcurrent seen (map (branchErr rs) [0..<n]) = None" "\<not> x_suspended t"
    and rep: "runBranches child run' (arrange n ord') s' = (t', rs')"
    and fr: "fresh B s" and con: "contained B s' t"
    and seen: "seen' = seesSuspension S' path loop s' t' (map (branchErr rs') [0..<n])"
  shows "contained B t' t \<and>
    (if seen' then classifyConcurrent seen' (map (branchErr rs') [0..<n]) = Some ErrSuspend \<and> x_suspended t'
     else classifyConcurrent seen' (map (branchErr rs') [0..<n]) = None \<and>
       gained s t t' \<and> (\<forall>i < n. map_of rs' i = map_of rs i))"
proof -
  have k: "\<And>i. i < n \<Longrightarrow> keeps (A i) (run i)" "\<And>i. i < n \<Longrightarrow> keeps (A i) (run' i)"
    using run(1) by (auto simp: simKeeps_def)
  have g: "grows (\<Union> (A ` {0..<n})) s t" "grows (\<Union> (A ` {0..<n})) s' t'"
    using frame.runBranches_frame [OF distinct_arrange _ _ ref, of A]
      frame.runBranches_frame [OF distinct_arrange _ _ rep, of A] k disj by (auto simp: set_arrange)
  have each: "\<exists>sc. map_of rs i = Some (None, sc) \<and> contained (A i) t' t \<and>
    (map_of rs' i = Some (None, sc) \<and> gainedOn (A i) s t t' \<or>
     (\<exists>sc'. map_of rs' i = Some (Some ErrSuspend, sc')) \<and> x_suspended t')" if "i < n" for i
    by (rule branches_replayed [OF run disj ref ok rep _ _ that])
      (use fresh_mono [OF fr sub] contained_mono [OF con sub] in auto)
  have "contained (\<Union> (A ` {0..<n})) t' t" by (rule contained_UN) (use each in auto)
  then have "contained B t' t"
    using g(2) con unfolding contained_def grows_def by metis
  moreover have "\<forall>e \<in> set (map (branchErr rs') [0..<n]). e = None \<or> e = Some ErrSuspend"
    using each by (fastforce simp: branchErr_def)
  then have "classifyConcurrent seen' (map (branchErr rs') [0..<n]) = (if seen' then Some ErrSuspend else None)"
    by (rule classify_pausing)
  moreover have "gained s t t' \<and> (\<forall>i < n. map_of rs' i = map_of rs i)" if "\<not> seen'"
  proof -
    have none: "map_of rs' i = map_of rs i \<and> gainedOn (A i) s t t'" if "i < n" for i
    proof -
      have "\<not> (\<exists>sc'. map_of rs' i = Some (Some ErrSuspend, sc') \<and> x_suspended t')"
      proof
        assume "\<exists>sc'. map_of rs' i = Some (Some ErrSuspend, sc') \<and> x_suspended t'"
        then have "branchErr rs' i = Some ErrSuspend" "x_suspended t'" by (auto simp: branchErr_def)
        moreover have "branchErr rs' i \<in> set (map (branchErr rs') [0..<n])" using that by simp
        ultimately show False using \<open>\<not> seen'\<close> unfolding seen seesSuspension_def by metis
      qed
      then show ?thesis using each [OF that] by auto
    qed
    have "gained s t t'" by (rule gained_UN [OF g(1)]) (use none in simp)
    then show ?thesis using none by blast
  qed
  moreover have "x_suspended t'" if seen' using that by (simp add: seen seesSuspension_def)
  ultimately show ?thesis by (cases seen') auto
qed

lemma publish_cong:
  "(\<And>j. i \<le> j \<Longrightarrow> j < i + length binds \<Longrightarrow> map_of rs' j = map_of rs j) \<Longrightarrow> publish rs' i binds sc = publish rs i binds sc"
proof (induction binds arbitrary: i sc)
  case (Cons b binds)
  have "branchVal rs' i b = branchVal rs i b" using Cons.prems [of i] by (simp add: branchVal_def)
  then show ?case using Cons.IH [of "Suc i"] Cons.prems by simp
qed simp

lemma sim_fork:
  assumes "\<And>i. i < length binds \<Longrightarrow> simKeeps (region (path @ [i]) loop) (run i) (run' i)"
    and "\<And>i. i < length binds \<Longrightarrow> steady (run i)"
  shows "simKeeps (region path loop) (execFork S binds run path loop) (execFork S' binds run' path loop)"
proof -
  let ?n = "length binds" and ?A = "\<lambda>i. region (path @ [i]) loop" and ?B = "region path loop"
  have "replayed ?B s t t' e'"
    if ref: "execFork S binds run path loop s = (t, None)" and un: "\<not> x_suspended t" and rep: "execFork S' binds run' path loop s' = (t', e')"
      and same: "sameRunner s s'" and fr: "fresh ?B s" and con: "contained ?B s' t" for s t s' t' e'
  proof -
    obtain t1 rs where b: "runBranches (\<lambda>i. x_scope s) run (arrange ?n (sc_order S path loop)) s = (t1, rs)" by fastforce
    obtain t1' rs' where b': "runBranches (\<lambda>i. x_scope s) run' (arrange ?n (sc_order S' path loop)) s' = (t1', rs')"
      by fastforce
    let ?seen = "seesSuspension S path loop s t1 (map (branchErr rs) [0..<?n])"
    let ?seen' = "seesSuspension S' path loop s' t1' (map (branchErr rs') [0..<?n])"
    have ok: "classifyConcurrent ?seen (map (branchErr rs) [0..<?n]) = None"
      and t: "t = t1\<lparr>x_scope := publish rs 0 binds (x_scope t1)\<rparr>"
      using ref b by (auto simp: execFork_def Let_def split: option.splits)
    have con1: "contained ?B s' t1" using con by (simp add: t contained_def)
    have un1: "\<not> x_suspended t1" using un by (simp add: t)
    have core: "contained ?B t1' t1 \<and>
      (if ?seen' then classifyConcurrent ?seen' (map (branchErr rs') [0..<?n]) = Some ErrSuspend \<and> x_suspended t1'
       else classifyConcurrent ?seen' (map (branchErr rs') [0..<?n]) = None \<and>
         gained s t1 t1' \<and> (\<forall>i < ?n. map_of rs' i = map_of rs i))"
      by (rule branches_core [OF assms region_child_disjoint region_child b ok un1 b' fr con1 refl])
    have r': "execFork S' binds run' path loop s' =
      (case classifyConcurrent ?seen' (map (branchErr rs') [0..<?n]) of
         Some e \<Rightarrow> (t1', Some e) | None \<Rightarrow> (t1'\<lparr>x_scope := publish rs' 0 binds (x_scope t1')\<rparr>, None))"
      using b' same by (simp add: execFork_def Let_def sameRunner_def)
    show ?thesis
    proof (cases ?seen')
      case True
      then show ?thesis using core r' rep by (auto simp: replayed_def contained_def t)
    next
      case False
      have "publish rs' 0 binds sc = publish rs 0 binds sc" for sc
        by (rule publish_cong) (use core False in auto)
      then have "t' = t1'\<lparr>x_scope := publish rs 0 binds (x_scope t1')\<rparr>" "e' = None"
        using core False r' rep by auto
      then show ?thesis
        using core False same runBranches_runner [OF b] runBranches_runner [OF b']
        by (auto simp: replayed_def contained_def gained_def t sameRunner_def)
    qed
  qed
  moreover have "keeps ?B (execFork S binds run path loop)" "keeps ?B (execFork S' binds run' path loop)"
    using assms(1) by (auto intro!: frame.fork_frame simp: simKeeps_def)
  ultimately show ?thesis unfolding simKeeps_def sim_def simAt_def by blast
qed

lemma sim_loopParallel:
  assumes "\<And>l. simKeeps (region path l) (body l) (body' l)" "\<And>l. steady (body l)"
  shows "simKeeps (region path loop) (execLoopParallel S var body items path loop)
    (execLoopParallel S' var body' items path loop)"
proof -
  let ?n = "length items" and ?A = "\<lambda>i. region path (loop @ [i])" and ?B = "region path loop"
  have sub: "?A i \<subseteq> ?B" for i by (auto simp: region_def dest: append_prefixD)
  have dis: "i < ?n \<Longrightarrow> j < ?n \<Longrightarrow> i \<noteq> j \<Longrightarrow> ?A i \<inter> ?A j = {}" for i j
    by (auto simp: region_def dest: prefix_snoc_unique)
  have "replayed ?B s t t' e'"
    if ref: "execLoopParallel S var body items path loop s = (t, None)" and un: "\<not> x_suspended t"
      and rep: "execLoopParallel S' var body' items path loop s' = (t', e')"
      and same: "sameRunner s s'" and fr: "fresh ?B s" and con: "contained ?B s' t" for s t s' t' e'
  proof -
    let ?c = "\<lambda>i. put var (items ! i) (x_scope s)"
    obtain rs where b: "runBranches ?c (\<lambda>i. body (loop @ [i])) (arrange ?n (sc_order S path loop)) s = (t, rs)"
      and ok: "classifyConcurrent (seesSuspension S path loop s t (map (branchErr rs) [0..<?n])) (map (branchErr rs) [0..<?n]) = None"
      using ref by (auto simp: execLoopParallel_def Let_def split: prod.splits)
    let ?seen' = "\<lambda>rs'. seesSuspension S' path loop s' t' (map (branchErr rs') [0..<?n])"
    obtain rs' where b': "runBranches ?c (\<lambda>i. body' (loop @ [i])) (arrange ?n (sc_order S' path loop)) s' = (t', rs')"
      and e': "e' = classifyConcurrent (?seen' rs') (map (branchErr rs') [0..<?n])"
      using rep same by (auto simp: execLoopParallel_def Let_def sameRunner_def split: prod.splits)
    have core: "contained ?B t' t \<and>
      (if ?seen' rs' then classifyConcurrent (?seen' rs') (map (branchErr rs') [0..<?n]) = Some ErrSuspend \<and> x_suspended t'
       else classifyConcurrent (?seen' rs') (map (branchErr rs') [0..<?n]) = None \<and>
         gained s t t' \<and> (\<forall>i < ?n. map_of rs' i = map_of rs i))"
      by (rule branches_core [where A = ?A, OF assms dis sub b ok un b' fr con refl])
    then show ?thesis
      using e' same runBranches_runner [OF b] runBranches_runner [OF b']
      by (auto simp: replayed_def sameRunner_def split: if_splits)
  qed
  moreover have "keeps ?B (execLoopParallel S var body items path loop)"
    "keeps ?B (execLoopParallel S' var body' items path loop)"
    using assms(1) by (auto intro!: frame.loopParallel_frame simp: simKeeps_def)
  ultimately show ?thesis unfolding simKeeps_def sim_def simAt_def by blast
qed

lemma sim_loop:
  assumes "simBody path body body'" "\<And>l. steady (body l)" "maxIters I' = maxIters I"
  shows "simKeeps (region path loop) (execLoop T I S var coll par body path loop)
    (execLoop T I' S' var coll par body' path loop)"
proof -
  have reg: "simKeeps (region path l) (body l) (body' l)" for l
    by (rule simKeeps_mono [OF _ nodesFrom_region]) (use assms(1) in \<open>auto simp: simBody_def\<close>)
  have k: "simKeeps (region path loop) (loopBody S var par body items path loop)
      (loopBody S' var par body' items path loop)" for items
    using sim_loopParallel [OF reg assms(2)] simKeeps_mono [OF sim_loopItems [OF assms(1)] itersFrom_region]
    by (simp add: loopBody_def)
  have "simAt (region path loop) (execLoop T I S var coll par body path loop)
    (execLoop T I' S' var coll par body' path loop) s s'" for s s'
  proof (cases "evalCollection T (x_scope s) coll")
    case (Inl e)
    then show ?thesis by (simp add: simAt_def execLoop_bind)
  next
    case (Inr items)
    have "simAt (region path loop) (bindR (checkControl (controlKey ''loop:'' path loop) (int (length items)))
        (loopBody S var par body items path loop))
      (bindR (checkControl (controlKey ''loop:'' path loop) (int (length items)))
        (loopBody S' var par body' items path loop)) s s'"
      using k [of items] unfolding simKeeps_def by (intro simAt_control region_self) simp_all
    then show ?thesis using Inr assms(3) by (auto simp: simAt_def execLoop_bind sameRunner_def)
  qed
  moreover have "keeps (region path loop) (execLoop T I S var coll par body path loop)"
    "keeps (region path loop) (execLoop T I' S' var coll par body' path loop)"
    using reg by (auto intro!: frame.loop_frame simp: simKeeps_def)
  ultimately show ?thesis by (simp add: simKeeps_def sim_def)
qed


subsection \<open>Simulation of programs\<close>

lemma sim_exec:
  assumes "answers I" "pauses I' I"
  shows "noGraph n \<Longrightarrow> simNode (exec T I S n) (exec T I' S' n)"
    "noGraphBranch fb \<Longrightarrow> simNode (execForkBranch T I S fb) (execForkBranch T I' S' fb)"
    "noGraphNode gn \<Longrightarrow> simNode (execGraphNode T I S gn) (execGraphNode T I' S' gn)"
proof (induction n and fb and gn rule: node.induct fork_branch.induct graph_node.induct)
  have max: "maxIters I' = maxIters I" "effectiveMax I' k = effectiveMax I k" for k
    using assms(2) by (simp_all add: pauses_def maxIters_def effectiveMax_def)
  have all: "simKeeps (nodesFrom path loop 0) (runAll 0 (map (exec T I S) ns) path loop)
      (runAll 0 (map (exec T I' S') ns) path loop)"
    if "\<And>n. n \<in> set ns \<Longrightarrow> simNode (exec T I S n) (exec T I' S' n)" for ns path loop
    using sim_runAll [of "map (exec T I S) ns" "map (exec T I' S') ns" path loop 0] that
    unfolding simKeeps_def by (simp add: list_all2_conv_all_nth)
  have body: "simBody path (runAll 0 (map (exec T I S) ns) path) (runAll 0 (map (exec T I' S') ns) path)"
    if "\<And>n. n \<in> set ns \<Longrightarrow> simNode (exec T I S n) (exec T I' S' n)" for ns path
    using all [OF that] by (simp add: simBody_def)
  have st: "steady (runAll 0 (map (exec T I S) ns) path loop)" if "list_all noGraph ns" for ns path loop
    by (rule steady_runAll) (use that steady_exec(1) [OF assms(1)] in \<open>auto simp: list_all_iff\<close>)
  note node = simNode_def simKeeps_def [symmetric]
  {
    case (Branch cond thn els)
    then have IH: "\<And>n. n \<in> set thn \<Longrightarrow> simNode (exec T I S n) (exec T I' S' n)"
      "\<And>n. n \<in> set els \<Longrightarrow> simNode (exec T I S n) (exec T I' S' n)" by (auto simp: list_all_iff)
    have sub: "nodesFrom (path @ [i]) loop 0 \<subseteq> region path loop" for path loop i
      using nodesFrom_region region_child by blast
    show ?case unfolding node exec.simps execBranch_bind
      by (intro allI simKeeps_cond region_self controlKinds_simps simKeeps_mono [OF all [OF IH(1)] sub] simKeeps_mono [OF all [OF IH(2)] sub])
  next
    case (Fork branches)
    then have IH: "\<And>b. b \<in> set branches \<Longrightarrow> simNode (execForkBranch T I S b) (execForkBranch T I' S' b)"
      and g: "\<And>b. b \<in> set branches \<Longrightarrow> noGraphBranch b" by (auto simp: list_all_iff)
    show ?case unfolding node exec.simps
      by (intro allI sim_fork)
        (use IH steady_exec(2) [OF assms(1)] g in \<open>auto simp: node\<close>)
  next
    case (Loop var coll lbody par)
    then have IH: "\<And>n. n \<in> set lbody \<Longrightarrow> simNode (exec T I S n) (exec T I' S' n)"
      and g: "list_all noGraph lbody" by (auto simp: list_all_iff)
    show ?case unfolding node exec.simps by (intro allI sim_loop [OF body [OF IH] st [OF g] max(1)])
  next
    case (While cond limit lbody)
    then have IH: "\<And>n. n \<in> set lbody \<Longrightarrow> simNode (exec T I S n) (exec T I' S' n)" by (auto simp: list_all_iff)
    show ?case unfolding node exec.simps execWhile_def max(2)
      by (intro allI simKeeps_mono [OF sim_whileIter [OF body [OF IH]] itersFrom_region])
  next
    case (Retry cond limit lbody)
    then have IH: "\<And>n. n \<in> set lbody \<Longrightarrow> simNode (exec T I S n) (exec T I' S' n)" by (auto simp: list_all_iff)
    show ?case unfolding node exec.simps execRetry_def max(2)
      by (intro allI simKeeps_mono [OF sim_retryIter [OF body [OF IH]] itersFrom_region])
  next
    case (ForkBranch b nodes)
    then have IH: "\<And>n. n \<in> set nodes \<Longrightarrow> simNode (exec T I S n) (exec T I' S' n)" by (auto simp: list_all_iff)
    show ?case unfolding node execForkBranch.simps by (intro allI simKeeps_mono [OF all [OF IH] nodesFrom_region])
  next
    case (InvokeWorkflow b wfl args whole project)
    show ?case unfolding node exec.simps by (intro allI sim_invokeWorkflow assms(2))
  next
    case (LetBind b v)
    show ?case unfolding node exec.simps by (intro allI sim_local local_let)
  next
    case (Return v)
    show ?case unfolding node exec.simps by (intro allI sim_local local_return)
  next
    case (InvokeTool b u a)
    show ?case unfolding node exec.simps by (intro allI sim_invoke assms(2))
  next
    case (InvokeAgent b u a w)
    show ?case unfolding node exec.simps by (intro allI sim_invoke assms(2))
  next
    case (Approval b d r a)
    show ?case unfolding node exec.simps by (intro allI sim_invoke assms(2))
  next
    case NilNode
    show ?case unfolding node exec.simps by (intro allI simKeeps_fail)
  next
    case (Graph nodes)
    then show ?case by simp
  next
    case (GraphNode i needs run)
    then show ?case by simp
  }
qed

lemma sim_execAll:
  assumes "answers I" "pauses I' I" "list_all noGraph nodes"
  shows "simKeeps (region path loop) (execAll T I S nodes path loop) (execAll T I' S' nodes path loop)"
    and "steady (execAll T I S nodes path loop)"
proof -
  have n: "\<And>n. n \<in> set nodes \<Longrightarrow> simNode (exec T I S n) (exec T I' S' n)"
    using sim_exec(1) [OF assms(1,2)] assms(3) by (auto simp: list_all_iff)
  have "simKeeps (nodesFrom path loop 0) (execAll T I S nodes path loop) (execAll T I' S' nodes path loop)"
    using sim_runAll [of "map (exec T I S) nodes" "map (exec T I' S') nodes" path loop 0] n
    unfolding simKeeps_def execAll_def by (simp add: list_all2_conv_all_nth)
  then show "simKeeps (region path loop) (execAll T I S nodes path loop) (execAll T I' S' nodes path loop)"
    by (rule simKeeps_mono [OF _ nodesFrom_region])
  show "steady (execAll T I S nodes path loop)" unfolding execAll_def
    by (rule steady_runAll) (use assms(3) steady_exec(1) [OF assms(1)] in \<open>auto simp: list_all_iff\<close>)
qed


subsection \<open>Durable states are well-formed\<close>

definition wfState :: "address set \<Rightarrow> exec_state \<Rightarrow> exec_state \<Rightarrow> bool" where
  "wfState A s t \<longleftrightarrow>
     (wf_map (x_memo s) \<longrightarrow> wf_map (x_memo t)) \<and> (wf_map (x_control s) \<longrightarrow> wf_map (x_control t))"

lemma checkControl_wf:
  assumes "checkControl addr v s = (t, e)"
  shows "x_memo t = x_memo s" "wf_map (x_control s) \<Longrightarrow> wf_map (x_control t)"
  using assms by (auto simp: checkControl_def split: option.splits if_splits)

interpretation wfs: address_frame wfState T I for T I
proof
  show "wfState (region p l) s t" if "invoke T I (mkSite b p l w) lf args s = (t, e)" for b p l w lf args s t e
    using that by (auto simp: wfState_def invoke_def Let_def split: option.splits sum.splits outcome.splits)
  show "wfState A s u" if "checkControl (controlKey pre p l) v s = (t, e)" "wfState A t u" for p l A pre v s t e u
    using that(2) checkControl_wf [OF that(1)] by (simp add: wfState_def)
  show "wfState A s u" if "wfState A s t" "checkControl (controlKey pre p l) v t = (u, e)" for p l A pre s t v u e
    using that(1) checkControl_wf [OF that(2)] by (simp add: wfState_def)
qed (auto simp: wfState_def)

lemma map_add_shift: "g k = None \<Longrightarrow> f(k \<mapsto> v) ++ g = f ++ g(k \<mapsto> v)"
  by (auto simp: map_add_def fun_eq_iff split: option.splits)

lemma seedMemo_canonical:
  assumes "wf_map seed" "\<forall>(k, v) \<in> set seed. Canonical T v = Inr v" "wf_map memo"
  shows "\<exists>m. seedMemo T seed memo = Inr m \<and> map_of m = map_of memo ++ map_of seed \<and> wf_map m"
  using assms
proof (induction seed arbitrary: memo)
  case (Cons kv seed)
  obtain k v where kv: "kv = (k, v)" by (cases kv)
  have "\<exists>m. seedMemo T seed (put k v memo) = Inr m \<and> map_of m = map_of (put k v memo) ++ map_of seed \<and> wf_map m"
    by (rule Cons.IH) (use Cons.prems in auto)
  moreover have "map_of seed k = None" using Cons.prems(1) kv by (simp add: map_of_eq_None_iff)
  ultimately obtain m where m: "seedMemo T seed (put k v memo) = Inr m" "wf_map m"
    "map_of m = map_of memo ++ map_of (kv # seed)"
    unfolding kv map_of_put map_of.simps(2) fst_conv snd_conv by (metis map_add_shift)
  moreover have "seedMemo T (kv # seed) memo = seedMemo T seed (put k v memo)" using Cons.prems(2) kv by simp
  ultimately show ?case by metis
qed simp

lemma fold_put_control:
  assumes "wf_map (xs :: 'v gomap)"
  shows "map_of (fold (\<lambda>(k, v). put k v) xs m) = map_of m ++ map_of xs \<and>
    (wf_map m \<longrightarrow> wf_map (fold (\<lambda>(k, v). put k v) xs m))"
  using assms
proof (induction xs arbitrary: m)
  case (Cons kv xs)
  obtain k v where kv: "kv = (k, v)" by (cases kv)
  have "map_of xs k = None" using Cons.prems kv by (simp add: map_of_eq_None_iff)
  then have "map_of (put k v m) ++ map_of xs = map_of m ++ map_of (kv # xs)"
    unfolding kv map_of_put map_of.simps(2) fst_conv snd_conv by (rule map_add_shift)
  moreover have "fold (\<lambda>(k, v). put k v) (kv # xs) m = fold (\<lambda>(k, v). put k v) xs (put k v m)" by (simp add: kv)
  moreover have "wf_map xs" "wf_map m \<longrightarrow> wf_map (put k v m)" using Cons.prems by simp_all
  ultimately show ?case using Cons.IH [of "put k v m"] by metis
qed simp

subsection \<open>Resuming\<close>

definition wfAnswers :: "(rat \<Rightarrow> bool) \<Rightarrow> interp \<Rightarrow> bool" where
  "wfAnswers rep I \<longleftrightarrow> (\<forall>site lf a res. in_Invoker I site lf a = InvOk res \<longrightarrow> wfAny rep res)"

text \<open>The durable state holds part of what the uninterrupted run records.\<close>

definition partOf :: "run_state \<Rightarrow> exec_state \<Rightarrow> bool" where
  "partOf rs st \<longleftrightarrow> wf_map (rs_Memo rs) \<and> wf_map (rs_Control rs) \<and>
     map_of (rs_Memo rs) \<subseteq>\<^sub>m map_of (x_memo st) \<and> map_of (rs_Control rs) \<subseteq>\<^sub>m map_of (x_control st)"

definition noState :: run_state where
  "noState = \<lparr>rs_Memo = [], rs_Control = [], rs_Suspended = False, rs_SuspendKey = []\<rparr>"

abbreviation seedState :: "run_state option \<Rightarrow> run_state" where
  "seedState seed \<equiv> (case seed of None \<Rightarrow> noState | Some rs \<Rightarrow> rs)"

lemma runProgram_seed:
  "runProgram T I S prog inp seed =
     (case seedMemo T (rs_Memo (seedState seed)) [] of
        Inl e \<Rightarrow> Inl e
      | Inr memo \<Rightarrow>
          (case Canonical T inp of
             Inl e \<Rightarrow> Inl (ErrInput e)
           | Inr c \<Rightarrow>
               (case execAll T I S (pg_Body prog) [] []
                       (startState memo (fold (\<lambda>(k, v). put k v) (rs_Control (seedState seed)) [])
                          (paramScope (pg_Params prog) c)) of
                  (st, None) \<Rightarrow> Inr st
                | (st, Some e) \<Rightarrow> if e = ErrSuspend then Inr st else Inl e)))"
  by (cases seed) (auto simp: runProgram_def execRun_def noState_def split: sum.split)

lemma memo_canonical:
  assumes "text_laws T rep" "wfAnswers rep I"
    and "execAll T I S nodes [] [] (startState [] [] sc) = (st, e)" "map_of (x_memo st) k = Some v"
  shows "Canonical T v = Inr v"
proof -
  from once.execAll_frame [OF assms(3)] obtain new where
    "freshCalls T I (region [] []) (startState [] [] sc) st new" unfolding calledOnce_def by blast
  with assms(4) obtain iv where "completedValue T I iv = Some v"
    by (auto simp: freshCalls_def startState_def)
  then obtain res where "in_Invoker I (iv_Site iv) (iv_Leaf iv) (iv_Args iv) = InvOk res" "Canonical T res = Inr v"
    by (auto simp: completedValue_def split: outcome.splits sum.splits)
  moreover from this have "wfAny rep res" using assms(2) unfolding wfAnswers_def by blast
  ultimately show ?thesis using canonical_fixed_point [OF assms(1)] by blast
qed

lemma resume_step:
  assumes laws: "text_laws T rep" "wfAnswers rep I" "answers I" "list_all noGraph (pg_Body prog)"
    and ref: "runProgram T I S prog inp None = Inr st"
    and part: "partOf (seedState seed) st" and p: "pauses I' I"
  shows "\<exists>st'. runProgram T I' S' prog inp seed = Inr st' \<and> partOf (runStateOf st') st \<and>
    (x_suspended st' \<or> x_output st' = x_output st \<and> map_of (x_memo st') = map_of (x_memo st) \<and>
       map_of (x_control st') = map_of (x_control st)) \<and>
    (answers I' \<longrightarrow> \<not> x_suspended st')"
proof -
  let ?rs = "seedState seed" and ?A = "region [] []"
  obtain c e where inp: "Canonical T inp = Inr c"
    and x: "execAll T I S (pg_Body prog) [] [] (startState [] [] (paramScope (pg_Params prog) c)) = (st, e)"
    and e: "e = None \<or> e = Some ErrSuspend"
    using ref by (auto simp: runProgram_seed noState_def split: sum.splits prod.splits option.splits if_splits)
  let ?s = "startState [] [] (paramScope (pg_Params prog) c)"
  have sim: "simKeeps ?A (execAll T I S (pg_Body prog) [] []) (execAll T I' S' (pg_Body prog) [] [])"
    and st: "steady (execAll T I S (pg_Body prog) [] [])"
    using sim_execAll [OF laws(3) p laws(4)] by blast+
  have e0: "e = None" and un: "\<not> x_suspended st" using e steadyD [OF st x] by (auto simp: startState_def)
  have can: "\<forall>(k, v) \<in> set (rs_Memo ?rs). Canonical T v = Inr v"
  proof clarify
    fix k v assume "(k, v) \<in> set (rs_Memo ?rs)"
    then have "map_of (rs_Memo ?rs) k = Some v" using part by (simp add: partOf_def)
    then have "map_of (x_memo st) k = Some v" using part by (auto simp: partOf_def map_le_def dom_def)
    then show "Canonical T v = Inr v" by (rule memo_canonical [OF laws(1,2) x])
  qed
  obtain m where m: "seedMemo T (rs_Memo ?rs) [] = Inr m" "map_of m = map_of (rs_Memo ?rs)" "wf_map m"
    using seedMemo_canonical [OF _ can, of "[]"] part by (auto simp: partOf_def)
  define ctl where "ctl = fold (\<lambda>(k, v). put k v) (rs_Control ?rs) []"
  have ctl: "map_of ctl = map_of (rs_Control ?rs)" "wf_map ctl"
    using fold_put_control [of "rs_Control ?rs" "[]"] part by (auto simp: ctl_def partOf_def)
  let ?s' = "startState m ctl (paramScope (pg_Params prog) c)"
  obtain t' e' where x': "execAll T I' S' (pg_Body prog) [] [] ?s' = (t', e')" by fastforce
  have "sameRunner ?s ?s'" "fresh ?A ?s" "contained ?A ?s' st"
    using part m(2) ctl(1)
    by (auto simp: sameRunner_def fresh_def contained_def startState_def partOf_def map_le_def dom_def)
  then have rp: "replayed ?A ?s st t' e'"
    using sim x e0 un x' unfolding simKeeps_def by (blast intro: simD)
  have run: "runProgram T I' S' prog inp seed = Inr t'"
    using rp m(1) inp x' by (auto simp: runProgram_seed ctl_def replayed_def)
  have g: "grows ?A ?s' t'" using sim x' unfolding simKeeps_def by (blast intro: frame.keepsD)
  have le: "map_of (x_memo t') \<subseteq>\<^sub>m map_of (x_memo st)" "map_of (x_control t') \<subseteq>\<^sub>m map_of (x_control st)"
  proof -
    have "map_of (x_memo st) k = Some v" if "map_of (x_memo t') k = Some v" for k v
      using that rp g m(2) part
      by (cases "k \<in> memoKeys ?A") (auto simp: replayed_def contained_def grows_def startState_def partOf_def map_le_def dom_def)
    then show "map_of (x_memo t') \<subseteq>\<^sub>m map_of (x_memo st)" by (auto simp: map_le_def)
    have "map_of (x_control st) k = Some v" if "map_of (x_control t') k = Some v" for k v
      using that rp g ctl(1) part
      by (cases "k \<in> controlKeys ?A") (auto simp: replayed_def contained_def grows_def startState_def partOf_def map_le_def dom_def)
    then show "map_of (x_control t') \<subseteq>\<^sub>m map_of (x_control st)" by (auto simp: map_le_def)
  qed
  have wf: "wf_map (x_memo t')" "wf_map (x_control t')"
    using wfs.execAll_frame [OF x'] m(3) ctl(2) by (simp_all add: wfState_def startState_def)
  have fin: "x_output t' = x_output st \<and> map_of (x_memo t') = map_of (x_memo st) \<and>
      map_of (x_control t') = map_of (x_control st)" if "\<not> x_suspended t'"
  proof -
    have "sameRunner st t'" "gained ?s st t'" using rp that by (auto simp: replayed_def)
    then have "map_of (x_memo st) \<subseteq>\<^sub>m map_of (x_memo t')" "map_of (x_control st) \<subseteq>\<^sub>m map_of (x_control t')"
      by (auto simp: gained_def startState_def map_le_def)
    then show ?thesis using le \<open>sameRunner st t'\<close> by (auto simp: sameRunner_def intro: map_le_antisym)
  qed
  have "\<not> x_suspended t'" if "answers I'"
  proof -
    have "pauses I' I'" by (simp add: pauses_def)
    from steadyD [OF sim_execAll(2) [OF that this laws(4)] x'] show ?thesis by (simp add: startState_def)
  qed
  then show ?thesis using run le wf fin by (auto simp: partOf_def runStateOf_def)
qed

text \<open>The states from which a run can be resumed: none, or what a paused run has left.\<close>

inductive resumable :: "go_text \<Rightarrow> interp \<Rightarrow> program \<Rightarrow> any \<Rightarrow> run_state option \<Rightarrow> bool"
  for T I prog inp where
  start: "resumable T I prog inp None"
| paused: "resumable T I prog inp seed \<Longrightarrow> pauses I' I \<Longrightarrow> runProgram T I' S prog inp seed = Inr st \<Longrightarrow>
    resumable T I prog inp (Some (runStateOf st))"

lemma resumable_part:
  assumes "resumable T I prog inp seed"
    and "text_laws T rep" "wfAnswers rep I" "answers I" "list_all noGraph (pg_Body prog)"
    and "runProgram T I S prog inp None = Inr st"
  shows "partOf (seedState seed) st"
  using assms(1)
proof (induction rule: resumable.induct)
  case start
  show ?case by (simp add: noState_def partOf_def)
next
  case (paused seed I' S' st1)
  from resume_step [OF assms(2-6) paused.IH paused.hyps(2), of S'] paused.hyps(3)
  show ?case by auto
qed


subsection \<open>Properties\<close>

text \<open>
  C4. Suspending and resuming does not change a run: take a program without needs-graphs whose
  uninterrupted run with an answering invoker ends without error. Pause it at any calls, any
  number of times and under any schedules, and resume each time from the durable state that
  was left: the next run reports no error (no divergence of the control record), and it
  either pauses again or ends with the same output, memo and control record as the
  uninterrupted run; once the invoker answers every call, it does end.
\<close>

theorem suspend_resume_is_transparent:
  assumes "text_laws T rep" "wfAnswers rep I" "answers I" "list_all noGraph (pg_Body prog)"
    and "runProgram T I S prog inp None = Inr st"
    and "resumable T I prog inp seed" "pauses I' I"
  shows "\<exists>st'. runProgram T I' S' prog inp seed = Inr st' \<and>
    (x_suspended st' \<or> x_output st' = x_output st \<and> map_of (x_memo st') = map_of (x_memo st) \<and>
       map_of (x_control st') = map_of (x_control st)) \<and>
    (answers I' \<longrightarrow> \<not> x_suspended st')"
  using resume_step [OF assms(1-5) resumable_part [OF assms(6,1-5)] assms(7), of S'] by blast

theorem suspend_resume_is_transparent_witness:
  "\<exists>st st1 st2. runProgram demo_text (demo_interp demo_answers) demo_schedule demo_program (AInt 7) None = Inr st \<and>
     demo_first = Inr st1 \<and> x_suspended st1 \<and> demo_second = Inr st2 \<and> x_output st2 = x_output st"
proof -
  let ?I = "demo_interp demo_answers" and ?J = "demo_interp demo_invoker"
  have l: "text_laws demo_text (\<lambda>q. q = 1 / 2)"
    by (simp add: text_laws_def demo_text_def parseDigits_def isDigit_def between_def)
  have w: "wfAnswers (\<lambda>q. q = 1 / 2) ?I"
    by (auto simp: wfAnswers_def demo_interp_def demo_answers_def int64_def)
  have a: "answers ?I" by (simp add: answers_def demo_interp_def demo_answers_def)
  have g: "list_all noGraph (pg_Body demo_program)" by (simp add: demo_program_def)
  have p: "pauses ?J ?I" "pauses ?I ?I"
    by (simp_all add: pauses_def demo_interp_def demo_invoker_def demo_answers_def)
  have "case runProgram demo_text ?I demo_schedule demo_program (AInt 7) None of Inl e \<Rightarrow> False | Inr st \<Rightarrow> True"
    by code_simp
  then obtain st where st: "runProgram demo_text ?I demo_schedule demo_program (AInt 7) None = Inr st"
    by (auto split: sum.splits)
  have "case demo_first of Inl e \<Rightarrow> False | Inr st \<Rightarrow> x_suspended st" by code_simp
  then obtain st1 where 1: "demo_first = Inr st1" "x_suspended st1" by (auto split: sum.splits)
  have r: "resumable demo_text ?I demo_program (AInt 7) (Some (runStateOf st1))"
    by (rule resumable.paused [OF resumable.start p(1) 1(1) [unfolded demo_first_def]])
  from suspend_resume_is_transparent [OF l w a g st r p(2), of demo_schedule] a obtain st2 where
    2: "runProgram demo_text ?I demo_schedule demo_program (AInt 7) (Some (runStateOf st1)) = Inr st2"
      "x_output st2 = x_output st" by blast
  then have "demo_second = Inr st2" unfolding demo_second_def 1(1) by simp
  then show ?thesis using st 1 2 by blast
qed

end
