(* ===== verification/Exec_Bounds.thy ===== *)
theory Exec_Bounds
  imports Exec_Resume
begin

text \<open>
  Static analysis of programs (\<open>internal/execir/analyze.go\<close>): which programs need the
  interpreter, and the upper bounds on how often a run invokes each callee.
\<close>

subsection \<open>Which programs need the interpreter\<close>

primrec nodeRequiresInterpreter :: "node \<Rightarrow> bool"
  and branchRequiresInterpreter :: "fork_branch \<Rightarrow> bool"
  and graphNodeRequiresInterpreter :: "graph_node \<Rightarrow> bool" where
  "nodeRequiresInterpreter (InvokeTool b u a) = False"
| "nodeRequiresInterpreter (InvokeAgent b u a w) = False"
| "nodeRequiresInterpreter (InvokeWorkflow b u a w p) = False"
| "nodeRequiresInterpreter (LetBind b v) = False"
| "nodeRequiresInterpreter (Branch c thn els) = True"
| "nodeRequiresInterpreter (Fork bs) = list_ex id (map branchRequiresInterpreter bs)"
| "nodeRequiresInterpreter (Loop v c body par) = True"
| "nodeRequiresInterpreter (While c l body) = True"
| "nodeRequiresInterpreter (Retry c l body) = True"
| "nodeRequiresInterpreter (Return v) = False"
| "nodeRequiresInterpreter (Graph ns) = list_ex id (map graphNodeRequiresInterpreter ns)"
| "nodeRequiresInterpreter (Approval b d r a) = False"
| "nodeRequiresInterpreter NilNode = False"
| "branchRequiresInterpreter (ForkBranch b nodes) = list_ex id (map nodeRequiresInterpreter nodes)"
| "graphNodeRequiresInterpreter (GraphNode i needs run) = (run \<noteq> NilNode \<and> nodeRequiresInterpreter run)"

definition nodesRequireInterpreter :: "node list \<Rightarrow> bool" where
  "nodesRequireInterpreter nodes = list_ex nodeRequiresInterpreter nodes"

definition RequiresInterpreter :: "program option \<Rightarrow> bool" where
  "RequiresInterpreter p = (case p of None \<Rightarrow> False | Some prog \<Rightarrow> nodesRequireInterpreter (pg_Body prog))"

subsection \<open>Invocation bounds\<close>

record invocation_bound =
  ib_Kind :: string
  ib_Callee :: string
  ib_Max :: int
  ib_DataBounded :: bool

record inv_acc =
  ac_max :: int
  ac_dataBounded :: bool

type_synonym callee_key = "string \<times> string"

type_synonym bounds = "(callee_key \<times> inv_acc) list"

definition MaxInt :: int where
  "MaxInt = 2 ^ 63 - 1"

definition satMul :: "int \<Rightarrow> int \<Rightarrow> int" where
  "satMul a b = (if a \<le> 0 \<or> b \<le> 0 then 0 else if a > MaxInt div b then MaxInt else a * b)"

definition satAdd :: "int \<Rightarrow> int \<Rightarrow> int" where
  "satAdd a b = (if b > 0 \<and> a > MaxInt - b then MaxInt else a + b)"

definition maxIntBound :: "int \<Rightarrow> int \<Rightarrow> int" where
  "maxIntBound a b = (if a > b then a else b)"

text \<open>\<open>acc[k]\<close>, the zero value when the key is absent.\<close>

definition accGet :: "bounds \<Rightarrow> callee_key \<Rightarrow> inv_acc" where
  "accGet acc k = (case map_of acc k of None \<Rightarrow> \<lparr>ac_max = 0, ac_dataBounded = False\<rparr> | Some v \<Rightarrow> v)"

definition addTo :: "callee_key \<Rightarrow> int \<Rightarrow> bool \<Rightarrow> bounds \<Rightarrow> bounds" where
  "addTo k n db acc =
     AList.update k \<lparr>ac_max = satAdd (ac_max (accGet acc k)) n,
                     ac_dataBounded = ac_dataBounded (accGet acc k) \<or> db\<rparr> acc"

definition addCallee :: "string \<Rightarrow> string \<Rightarrow> int \<Rightarrow> bool \<Rightarrow> bounds \<Rightarrow> bounds" where
  "addCallee kind callee factor db acc = (if callee = [] then acc else addTo (kind, callee) factor db acc)"

definition mergeSum :: "bounds \<Rightarrow> bounds \<Rightarrow> bounds" where
  "mergeSum other acc = fold (\<lambda>(k, v). addTo k (ac_max v) (ac_dataBounded v)) other acc"

definition maxInto :: "callee_key \<times> inv_acc \<Rightarrow> bounds \<Rightarrow> bounds" where
  "maxInto kv maxed =
     (let (k, v) = kv; cur = accGet maxed k;
          m = (if map_of maxed k = None \<or> ac_max v > ac_max cur then maxIntBound (ac_max cur) (ac_max v)
               else ac_max cur)
      in AList.update k \<lparr>ac_max = m, ac_dataBounded = ac_dataBounded cur \<or> ac_dataBounded v\<rparr> maxed)"

definition mergeMaxInto :: "bounds \<Rightarrow> bounds \<Rightarrow> bounds \<Rightarrow> bounds" where
  "mergeMaxInto thn els dst =
     mergeSum (fold maxInto els (fold (\<lambda>(k, v). AList.update k v) thn [])) dst"

text \<open>
  \<open>boundsOf\<close>: a node adds its share to the accumulated map, given the product of the enclosing
  loop bounds, whether one of them depends on data, and the global cap.
\<close>

type_synonym bounder = "int \<Rightarrow> bool \<Rightarrow> int \<Rightarrow> bounds \<Rightarrow> bounds"

definition runBounds :: "bounder list \<Rightarrow> int \<Rightarrow> bool \<Rightarrow> int \<Rightarrow> bounds" where
  "runBounds bs factor db cap = fold (\<lambda>b. b factor db cap) bs []"

definition loopLimit :: "int \<Rightarrow> int \<Rightarrow> int" where
  "loopLimit limit cap = (if limit \<le> 0 \<or> limit > cap then cap else limit)"

primrec nodeBounds :: "node \<Rightarrow> bounder" and branchBounds :: "fork_branch \<Rightarrow> bounder"
  and graphNodeBounds :: "graph_node \<Rightarrow> bounder" where
  "nodeBounds (InvokeTool b uses a) = (\<lambda>f db cap. addCallee ''tool'' uses f db)"
| "nodeBounds (InvokeAgent b agent a w) = (\<lambda>f db cap. addCallee ''agent'' agent f db)"
| "nodeBounds (InvokeWorkflow b wfl a w p) = (\<lambda>f db cap. addCallee ''workflow'' wfl f db)"
| "nodeBounds (LetBind b v) = (\<lambda>f db cap acc. acc)"
| "nodeBounds (Branch c thn els) =
     (\<lambda>f db cap. mergeMaxInto (runBounds (map nodeBounds thn) f db cap) (runBounds (map nodeBounds els) f db cap))"
| "nodeBounds (Fork bs) = (\<lambda>f db cap acc. fold (\<lambda>b. b f db cap) (map branchBounds bs) acc)"
| "nodeBounds (Loop v c body par) =
     (\<lambda>f db cap. mergeSum (runBounds (map nodeBounds body) (satMul f cap) True cap))"
| "nodeBounds (While c limit body) =
     (\<lambda>f db cap. mergeSum (runBounds (map nodeBounds body) (satMul f (loopLimit limit cap)) db cap))"
| "nodeBounds (Retry c limit body) =
     (\<lambda>f db cap. mergeSum (runBounds (map nodeBounds body) (satMul f (loopLimit limit cap)) db cap))"
| "nodeBounds (Return v) = (\<lambda>f db cap acc. acc)"
| "nodeBounds (Graph ns) = (\<lambda>f db cap acc. fold (\<lambda>b. b f db cap) (map graphNodeBounds ns) acc)"
| "nodeBounds (Approval b d r a) = (\<lambda>f db cap acc. acc)"
| "nodeBounds NilNode = (\<lambda>f db cap acc. acc)"
| "branchBounds (ForkBranch b nodes) = (\<lambda>f db cap. mergeSum (runBounds (map nodeBounds nodes) f db cap))"
| "graphNodeBounds (GraphNode i needs run) =
     (\<lambda>f db cap acc. if run \<noteq> NilNode then mergeSum (runBounds [nodeBounds run] f db cap) acc else acc)"

definition boundsOf :: "node list \<Rightarrow> int \<Rightarrow> bool \<Rightarrow> int \<Rightarrow> bounds" where
  "boundsOf nodes = runBounds (map nodeBounds nodes)"

definition lessInvocation :: "invocation_bound \<Rightarrow> invocation_bound \<Rightarrow> bool" where
  "lessInvocation a b =
     (if ib_Kind a \<noteq> ib_Kind b then ib_Kind a < ib_Kind b else ib_Callee a < ib_Callee b)"

text \<open>The insertion sort; the sorted prefix is kept with its last element first.\<close>

fun sinkBound :: "invocation_bound \<Rightarrow> invocation_bound list \<Rightarrow> invocation_bound list" where
  "sinkBound x [] = [x]"
| "sinkBound x (y # ys) = (if lessInvocation x y then y # sinkBound x ys else x # y # ys)"

definition sortInvocationBounds :: "invocation_bound list \<Rightarrow> invocation_bound list" where
  "sortInvocationBounds bs = rev (fold sinkBound bs [])"

definition boundEntry :: "callee_key \<times> inv_acc \<Rightarrow> invocation_bound" where
  "boundEntry kv =
     \<lparr>ib_Kind = fst (fst kv), ib_Callee = snd (fst kv), ib_Max = ac_max (snd kv),
      ib_DataBounded = ac_dataBounded (snd kv)\<rparr>"

definition InvocationBounds :: "program option \<Rightarrow> int \<Rightarrow> invocation_bound list" where
  "InvocationBounds p globalLoopCap =
     (case p of
        None \<Rightarrow> []
      | Some prog \<Rightarrow>
          sortInvocationBounds
            (map boundEntry (boundsOf (pg_Body prog) 1 False (if globalLoopCap \<le> 0 then 1 else globalLoopCap))))"

subsection \<open>The bound in exact arithmetic\<close>

definition calleeCount :: "callee_key \<Rightarrow> string \<Rightarrow> string \<Rightarrow> nat" where
  "calleeCount k kind callee = (if callee \<noteq> [] \<and> k = (kind, callee) then 1 else 0)"

primrec nodeCount :: "callee_key \<Rightarrow> int \<Rightarrow> node \<Rightarrow> nat"
  and branchCount :: "callee_key \<Rightarrow> int \<Rightarrow> fork_branch \<Rightarrow> nat"
  and graphNodeCount :: "callee_key \<Rightarrow> int \<Rightarrow> graph_node \<Rightarrow> nat" where
  "nodeCount k cap (InvokeTool b uses a) = calleeCount k ''tool'' uses"
| "nodeCount k cap (InvokeAgent b agent a w) = calleeCount k ''agent'' agent"
| "nodeCount k cap (InvokeWorkflow b wfl a w p) = calleeCount k ''workflow'' wfl"
| "nodeCount k cap (LetBind b v) = 0"
| "nodeCount k cap (Branch c thn els) =
     max (sum_list (map (nodeCount k cap) thn)) (sum_list (map (nodeCount k cap) els))"
| "nodeCount k cap (Fork bs) = sum_list (map (branchCount k cap) bs)"
| "nodeCount k cap (Loop v c body par) = nat cap * sum_list (map (nodeCount k cap) body)"
| "nodeCount k cap (While c limit body) = nat (loopLimit limit cap) * sum_list (map (nodeCount k cap) body)"
| "nodeCount k cap (Retry c limit body) = nat (loopLimit limit cap) * sum_list (map (nodeCount k cap) body)"
| "nodeCount k cap (Return v) = 0"
| "nodeCount k cap (Graph ns) = sum_list (map (graphNodeCount k cap) ns)"
| "nodeCount k cap (Approval b d r a) = 0"
| "nodeCount k cap NilNode = 0"
| "branchCount k cap (ForkBranch b nodes) = sum_list (map (nodeCount k cap) nodes)"
| "graphNodeCount k cap (GraphNode i needs run) = nodeCount k cap run"

definition sat :: "int \<Rightarrow> int" where
  "sat n = min MaxInt n"

definition accMax :: "bounds \<Rightarrow> callee_key \<Rightarrow> int" where
  "accMax acc k = ac_max (accGet acc k)"

lemma satMul_sat:
  assumes "0 \<le> a" "0 < b"
  shows "satMul a b = sat (a * b)"
proof -
  have m: "MaxInt div b * b + MaxInt mod b = MaxInt" "0 \<le> MaxInt mod b" "MaxInt mod b < b"
    using assms(2) by (simp_all only: div_mult_mod_eq pos_mod_sign pos_mod_bound)
  have "a > MaxInt div b \<longleftrightarrow> a * b > MaxInt"
  proof
    assume "a > MaxInt div b"
    then have "(MaxInt div b + 1) * b \<le> a * b" using assms(2) by (intro mult_right_mono) simp_all
    then have "MaxInt div b * b + b \<le> a * b" by (simp only: distrib_right mult_1)
    then show "a * b > MaxInt" using m by linarith
  next
    assume "a * b > MaxInt"
    show "a > MaxInt div b"
    proof (rule ccontr)
      assume "\<not> a > MaxInt div b"
      then have "a * b \<le> MaxInt div b * b" using assms(2) by (intro mult_right_mono) simp_all
      then show False using m \<open>a * b > MaxInt\<close> by linarith
    qed
  qed
  then show ?thesis using assms by (auto simp: satMul_def sat_def MaxInt_def)
qed

lemma satAdd_sat: "0 \<le> a \<Longrightarrow> 0 \<le> b \<Longrightarrow> a \<le> MaxInt \<Longrightarrow> satAdd a b = sat (a + b)"
  by (auto simp: satAdd_def sat_def)

lemma sat_simps [simp]: "sat 0 = 0" "0 \<le> n \<Longrightarrow> 0 \<le> sat n" "sat n \<le> MaxInt" "sat (sat n) = sat n"
  by (simp_all add: sat_def MaxInt_def)

lemma sat_add: "0 \<le> a \<Longrightarrow> 0 \<le> b \<Longrightarrow> sat (sat a + sat b) = sat (a + b)"
  by (auto simp: sat_def MaxInt_def)

lemma sat_mult: "0 \<le> a \<Longrightarrow> sat (sat a * int n) = sat (a * int n)"
proof (cases "n = 0 \<or> a \<le> MaxInt")
  case False
  assume "0 \<le> a"
  have "MaxInt * 1 \<le> MaxInt * int n" "a * 1 \<le> a * int n" using False by (auto simp: MaxInt_def)
  then show ?thesis using False by (simp add: sat_def)
qed (auto simp: sat_def)

lemma sat_max: "max (sat a) (sat b) = sat (max a b)"
  by (auto simp: sat_def)

subsection \<open>The code computes the saturated bound\<close>

definition saturated :: "bounds \<Rightarrow> bool" where
  "saturated acc \<longleftrightarrow> (\<forall>k. 0 \<le> accMax acc k \<and> accMax acc k \<le> MaxInt)"

lemma saturatedD: "saturated acc \<Longrightarrow> 0 \<le> accMax acc k" "saturated acc \<Longrightarrow> accMax acc k \<le> MaxInt"
  unfolding saturated_def by blast+

lemma sat_saturated: "saturated acc \<Longrightarrow> sat (accMax acc k) = accMax acc k"
  by (simp add: sat_def saturatedD(2))

lemma accMax_Nil [simp]: "accMax [] k = 0"
  by (simp add: accMax_def accGet_def)

lemma accMax_update: "accMax (AList.update k v acc) j = (if j = k then ac_max v else accMax acc j)"
  by (simp add: accMax_def accGet_def update_conv')

lemma accMax_addTo:
  assumes "saturated acc" "0 \<le> n" "n \<le> MaxInt"
  shows "accMax (addTo k n db acc) j = sat (accMax acc j + (if j = k then n else 0))" "saturated (addTo k n db acc)"
proof -
  have v: "satAdd (ac_max (accGet acc k)) n = sat (accMax acc k + n)"
    using satAdd_sat [OF saturatedD(1) [OF assms(1)] assms(2) saturatedD(2) [OF assms(1)], of k]
    by (simp add: accMax_def)
  have upd: "accMax (addTo k n db acc) j = sat (accMax acc j + (if j = k then n else 0))" for j
    using sat_saturated [OF assms(1)] by (simp add: addTo_def accMax_update v)
  show "accMax (addTo k n db acc) j = sat (accMax acc j + (if j = k then n else 0))" by (rule upd)
  show "saturated (addTo k n db acc)"
    unfolding saturated_def upd using saturatedD(1) [OF assms(1)] assms(2) by simp
qed

lemma accMax_mergeSum:
  assumes "saturated acc" "distinct (map fst other)" "\<forall>(k, v) \<in> set other. 0 \<le> ac_max v \<and> ac_max v \<le> MaxInt"
  shows "accMax (mergeSum other acc) j = sat (accMax acc j + accMax other j)" "saturated (mergeSum other acc)"
proof -
  have "saturated (mergeSum other acc) \<and> (\<forall>j. accMax (mergeSum other acc) j = sat (accMax acc j + accMax other j))"
    using assms
  proof (induction other arbitrary: acc)
    case Nil
    then show ?case by (simp add: mergeSum_def sat_saturated)
  next
    case (Cons kv other)
    obtain k v where kv: "kv = (k, v)" by (cases kv)
    let ?acc = "addTo k (ac_max v) (ac_dataBounded v) acc"
    have v: "0 \<le> ac_max v" "ac_max v \<le> MaxInt" using Cons.prems(3) kv by auto
    note add = accMax_addTo [OF Cons.prems(1) v]
    have IH: "saturated (mergeSum other ?acc)" "accMax (mergeSum other ?acc) j = sat (accMax ?acc j + accMax other j)" for j
      using Cons.IH [OF add(2), of k "ac_dataBounded v"] Cons.prems(2,3) by (simp_all del: split_paired_All)
    have m: "mergeSum (kv # other) acc = mergeSum other ?acc" by (simp add: mergeSum_def kv)
    have "k \<notin> fst ` set other" using Cons.prems(2) kv by simp
    then have o: "accMax (kv # other) j = (if j = k then ac_max v else accMax other j)" "accMax other k = 0" for j
      by (auto simp: accMax_def accGet_def kv map_of_eq_None_iff [THEN iffD2] split: option.splits)
    have "accMax (mergeSum other ?acc) j = sat (accMax acc j + accMax (kv # other) j)" for j
      using saturatedD [OF Cons.prems(1), of k] sat_saturated [OF Cons.prems(1), of j] v
      by (simp add: IH add(1) o)
    then show ?case using IH m by simp
  qed
  then show "accMax (mergeSum other acc) j = sat (accMax acc j + accMax other j)" "saturated (mergeSum other acc)"
    by blast+
qed

text \<open>The maps built by the analysis have distinct keys and values in range.\<close>

definition goodBounds :: "bounds \<Rightarrow> bool" where
  "goodBounds acc \<longleftrightarrow> distinct (map fst acc) \<and> saturated acc"

lemma goodBounds_entries: "goodBounds acc \<Longrightarrow> \<forall>(k, v) \<in> set acc. 0 \<le> ac_max v \<and> ac_max v \<le> MaxInt"
proof clarify
  fix k v assume g: "goodBounds acc" and "(k, v) \<in> set acc"
  then have "accMax acc k = ac_max v" by (simp add: goodBounds_def accMax_def accGet_def)
  then show "0 \<le> ac_max v \<and> ac_max v \<le> MaxInt" using g by (metis goodBounds_def saturated_def)
qed

lemma distinct_addTo: "distinct (map fst acc) \<Longrightarrow> distinct (map fst (addTo k n db acc))"
  by (simp add: addTo_def distinct_update)

lemma mergeSum_good:
  assumes "goodBounds acc" "goodBounds other"
  shows "goodBounds (mergeSum other acc)" "accMax (mergeSum other acc) j = sat (accMax acc j + accMax other j)"
proof -
  have "distinct (map fst acc) \<Longrightarrow> distinct (map fst (mergeSum xs acc))" for xs
    unfolding mergeSum_def by (induction xs arbitrary: acc) (auto simp: distinct_addTo)
  then show "goodBounds (mergeSum other acc)" "accMax (mergeSum other acc) j = sat (accMax acc j + accMax other j)"
    using assms accMax_mergeSum [OF _ _ goodBounds_entries [OF assms(2)], of acc] by (auto simp: goodBounds_def)
qed

lemma good_Nil: "goodBounds []"
  by (simp add: goodBounds_def saturated_def MaxInt_def)

lemma good_addCallee:
  assumes "goodBounds acc" "0 \<le> f" "f \<le> MaxInt"
  shows "goodBounds (addCallee kind callee f db acc)"
    "accMax (addCallee kind callee f db acc) j = sat (accMax acc j + f * int (calleeCount j kind callee))"
proof -
  have g: "distinct (map fst acc)" "saturated acc" using assms(1) by (simp_all add: goodBounds_def)
  show "goodBounds (addCallee kind callee f db acc)"
    using assms accMax_addTo(2) [OF g(2) assms(2,3)] distinct_addTo [OF g(1)]
    by (simp add: goodBounds_def addCallee_def)
  show "accMax (addCallee kind callee f db acc) j = sat (accMax acc j + f * int (calleeCount j kind callee))"
    using accMax_addTo(1) [OF g(2) assms(2,3), of "(kind, callee)" db j] sat_saturated [OF g(2)]
    by (auto simp: addCallee_def calleeCount_def)
qed

lemma good_copy:
  assumes "goodBounds thn"
  shows "goodBounds (fold (\<lambda>(k, v). AList.update k v) thn []) \<and>
    accMax (fold (\<lambda>(k, v). AList.update k v) thn []) = accMax thn"
proof -
  have "map_of (fold (\<lambda>(k, v). AList.update k v) xs m) = map_of m ++ map_of xs" if "distinct (map fst xs)"
    for xs m :: bounds
    using that
  proof (induction xs arbitrary: m)
    case (Cons kv xs)
    then have "map_of xs (fst kv) = None" by (simp add: map_of_eq_None_iff)
    then have "(map_of m)(fst kv \<mapsto> snd kv) ++ map_of xs = map_of m ++ map_of (kv # xs)"
      by (auto simp: map_add_def fun_eq_iff split: option.splits)
    then show ?case using Cons by (simp add: case_prod_beta update_conv' del: map_of.simps)
  qed simp
  moreover have "distinct (map fst m) \<Longrightarrow> distinct (map fst (fold (\<lambda>(k, v). AList.update k v) xs m))" for xs m :: bounds
    by (induction xs arbitrary: m) (auto simp: distinct_update)
  ultimately show ?thesis
    using assms by (simp add: goodBounds_def saturated_def accMax_def [abs_def] accGet_def)
qed

lemma good_maxInto:
  assumes "distinct (map fst els)" "\<forall>(k, v) \<in> set els. 0 \<le> ac_max v \<and> ac_max v \<le> MaxInt" "goodBounds acc"
  shows "goodBounds (fold maxInto els acc) \<and> (\<forall>j. accMax (fold maxInto els acc) j = max (accMax acc j) (accMax els j))"
  using assms
proof (induction els arbitrary: acc)
  case Nil
  then show ?case by (simp add: goodBounds_def saturatedD(1) max_absorb1 del: split_paired_All)
next
  case (Cons kv els)
  obtain k v where kv: "kv = (k, v)" by (cases kv)
  have v: "0 \<le> ac_max v" "ac_max v \<le> MaxInt" using Cons.prems(2) kv by auto
  have absent: "map_of acc k = None \<Longrightarrow> accMax acc k = 0" by (simp add: accMax_def accGet_def)
  have upd: "accMax (maxInto kv acc) j = (if j = k then max (accMax acc k) (ac_max v) else accMax acc j)" for j
    using absent v(1) by (auto simp: maxInto_def kv Let_def accMax_update maxIntBound_def accMax_def [symmetric])
  have good: "goodBounds (maxInto kv acc)"
  proof -
    have "saturated (maxInto kv acc)"
      unfolding saturated_def upd
      using Cons.prems(3) v saturatedD [of acc] by (auto simp: goodBounds_def simp del: split_paired_All)
    moreover have "distinct (map fst (maxInto kv acc))"
      using Cons.prems(3) by (simp add: goodBounds_def maxInto_def kv Let_def distinct_update)
    ultimately show ?thesis by (simp add: goodBounds_def)
  qed
  have "k \<notin> fst ` set els" using Cons.prems(1) kv by simp
  then have o: "accMax (kv # els) j = (if j = k then ac_max v else accMax els j)" "accMax els k = 0" for j
    by (auto simp: accMax_def accGet_def kv map_of_eq_None_iff [THEN iffD2] split: option.splits)
  have pos: "0 \<le> accMax acc k" using Cons.prems(3) by (simp add: goodBounds_def saturatedD(1))
  have "goodBounds (fold maxInto els (maxInto kv acc)) \<and>
      (\<forall>j. accMax (fold maxInto els (maxInto kv acc)) j = max (accMax (maxInto kv acc) j) (accMax els j))"
    by (rule Cons.IH) (use Cons.prems good in auto)
  then show ?case using o upd pos v(1) by auto
qed

lemma good_mergeMax:
  assumes "goodBounds thn" "goodBounds els" "goodBounds dst"
  shows "goodBounds (mergeMaxInto thn els dst)"
    "accMax (mergeMaxInto thn els dst) j = sat (accMax dst j + max (accMax thn j) (accMax els j))"
proof -
  have m: "goodBounds (fold maxInto els (fold (\<lambda>(k, v). AList.update k v) thn []))"
    "accMax (fold maxInto els (fold (\<lambda>(k, v). AList.update k v) thn [])) j = max (accMax thn j) (accMax els j)" for j
    using good_maxInto [OF _ goodBounds_entries [OF assms(2)]] good_copy [OF assms(1)] assms(2)
    by (simp_all add: goodBounds_def del: split_paired_All)
  show "goodBounds (mergeMaxInto thn els dst)"
    "accMax (mergeMaxInto thn els dst) j = sat (accMax dst j + max (accMax thn j) (accMax els j))"
    using mergeSum_good [OF assms(3) m(1)] m(2) by (simp_all add: mergeMaxInto_def)
qed


text \<open>\<open>addsUp b c cap\<close>: the bounder \<open>b\<close> adds \<open>f\<close> times the exact count \<open>c\<close>, saturated.\<close>

definition addsUp :: "bounder \<Rightarrow> (callee_key \<Rightarrow> nat) \<Rightarrow> int \<Rightarrow> bool" where
  "addsUp b c cap \<longleftrightarrow> (\<forall>f db acc. 0 \<le> f \<longrightarrow> f \<le> MaxInt \<longrightarrow> goodBounds acc \<longrightarrow>
     goodBounds (b f db cap acc) \<and> (\<forall>k. accMax (b f db cap acc) k = sat (accMax acc k + f * int (c k))))"

lemma addsUpD:
  assumes "addsUp b c cap" "0 \<le> f" "f \<le> MaxInt" "goodBounds acc"
  shows "goodBounds (b f db cap acc)" "accMax (b f db cap acc) k = sat (accMax acc k + f * int (c k))"
  using assms unfolding addsUp_def by blast+

lemma good_sat: "goodBounds acc \<Longrightarrow> sat (accMax acc k) = accMax acc k" "goodBounds acc \<Longrightarrow> 0 \<le> accMax acc k"
  by (simp_all add: goodBounds_def sat_saturated saturatedD(1))

lemma sat_accumulate: "0 \<le> a \<Longrightarrow> 0 \<le> b \<Longrightarrow> sat (sat a + b) = sat (a + b)"
  by (auto simp: sat_def)

lemma addsUp_none: "addsUp (\<lambda>f db cap acc. acc) (\<lambda>k. 0) cap"
  by (simp add: addsUp_def good_sat del: split_paired_All)

lemma addsUp_callee: "addsUp (\<lambda>f db cap. addCallee kind callee f db) (\<lambda>k. calleeCount k kind callee) cap"
  unfolding addsUp_def using good_addCallee by blast

lemma addsUp_fold:
  assumes "\<And>x. x \<in> set xs \<Longrightarrow> addsUp (B x) (\<lambda>k. C k x) cap"
  shows "addsUp (\<lambda>f db cap acc. fold (\<lambda>b. b f db cap) (map B xs) acc) (\<lambda>k. sum_list (map (C k) xs)) cap"
  unfolding addsUp_def
proof (intro allI impI)
  fix f db and acc :: bounds assume f: "0 \<le> f" "f \<le> MaxInt" and "goodBounds acc"
  then show "goodBounds (fold (\<lambda>b. b f db cap) (map B xs) acc) \<and>
    (\<forall>k. accMax (fold (\<lambda>b. b f db cap) (map B xs) acc) k = sat (accMax acc k + f * int (sum_list (map (C k) xs))))"
    using assms
  proof (induction xs arbitrary: acc)
    case Nil
    then show ?case by (simp add: good_sat del: split_paired_All)
  next
    case (Cons x xs)
    let ?acc = "B x f db cap acc"
    have "addsUp (B x) (\<lambda>k. C k x) cap" by (rule Cons.prems(4)) simp
    note x = addsUpD [OF this f Cons.prems(3), of db]
    have "goodBounds (fold (\<lambda>b. b f db cap) (map B xs) ?acc) \<and>
        (\<forall>k. accMax (fold (\<lambda>b. b f db cap) (map B xs) ?acc) k = sat (accMax ?acc k + f * int (sum_list (map (C k) xs))))"
      by (rule Cons.IH [OF f x(1)]) (rule Cons.prems(4), simp)
    moreover have "sat (accMax ?acc k + f * int (sum_list (map (C k) xs))) =
        sat (accMax acc k + f * int (sum_list (map (C k) (x # xs))))" for k
      using sat_accumulate [of "accMax acc k + f * int (C k x)" "f * int (sum_list (map (C k) xs))"]
        good_sat(2) [OF Cons.prems(3), of k] f by (simp add: x(2) algebra_simps)
    ultimately show ?case by (simp del: split_paired_All)
  qed
qed

lemma runBounds_exact:
  assumes "\<And>x. x \<in> set xs \<Longrightarrow> addsUp (B x) (\<lambda>k. C k x) cap" "0 \<le> f" "f \<le> MaxInt"
  shows "goodBounds (runBounds (map B xs) f db cap)"
    "accMax (runBounds (map B xs) f db cap) k = sat (f * int (sum_list (map (C k) xs)))"
  using addsUpD [OF addsUp_fold [of xs B C cap, OF assms(1)] assms(2,3) good_Nil, of db]
  by (simp_all add: runBounds_def)

lemma addsUp_nested:
  assumes "\<And>x. x \<in> set xs \<Longrightarrow> addsUp (B x) (\<lambda>k. C k x) cap" "0 < m"
  shows "addsUp (\<lambda>f db cap. mergeSum (runBounds (map B xs) (satMul f m) (D db) cap))
    (\<lambda>k. nat m * sum_list (map (C k) xs)) cap"
  unfolding addsUp_def
proof (intro allI impI conjI)
  fix f db and acc :: bounds and k assume f: "0 \<le> f" "f \<le> MaxInt" and acc: "goodBounds acc"
  have mul: "satMul f m = sat (f * m)" using f assms(2) by (simp add: satMul_sat)
  have r: "0 \<le> satMul f m" "satMul f m \<le> MaxInt" using f assms(2) by (simp_all add: mul)
  note inner = runBounds_exact [of xs B C cap, OF assms(1) r, of "D db"]
  show "goodBounds (mergeSum (runBounds (map B xs) (satMul f m) (D db) cap) acc)"
    by (rule mergeSum_good(1) [OF acc inner(1)])
  have "sat (satMul f m * int (sum_list (map (C k) xs))) = sat (f * m * int (sum_list (map (C k) xs)))"
    using sat_mult [of "f * m"] f assms(2) by (simp add: mul)
  then have "accMax (mergeSum (runBounds (map B xs) (satMul f m) (D db) cap) acc) k =
      sat (accMax acc k + sat (f * m * int (sum_list (map (C k) xs))))"
    using mergeSum_good(2) [OF acc inner(1), of k] by (simp add: inner(2))
  also have "\<dots> = sat (accMax acc k + f * m * int (sum_list (map (C k) xs)))"
    using sat_accumulate [of "f * m * int (sum_list (map (C k) xs))" "accMax acc k"] f assms(2)
      good_sat(2) [OF acc, of k] by (simp add: add.commute)
  finally show "accMax (mergeSum (runBounds (map B xs) (satMul f m) (D db) cap) acc) k =
      sat (accMax acc k + f * int (nat m * sum_list (map (C k) xs)))"
    using assms(2) by (simp add: algebra_simps)
qed

lemma addsUp_plain:
  assumes "\<And>x. x \<in> set xs \<Longrightarrow> addsUp (B x) (\<lambda>k. C k x) cap"
  shows "addsUp (\<lambda>f db cap. mergeSum (runBounds (map B xs) f db cap)) (\<lambda>k. sum_list (map (C k) xs)) cap"
proof -
  have "satMul f 1 = f" if "0 \<le> f" "f \<le> MaxInt" for f using that by (auto simp: satMul_def)
  then show ?thesis using addsUp_nested [of xs B C cap 1 "\<lambda>x. x", OF assms] by (simp add: addsUp_def)
qed

lemma addsUp_branch:
  assumes "\<And>x. x \<in> set thn \<Longrightarrow> addsUp (B x) (\<lambda>k. C k x) cap" "\<And>x. x \<in> set els \<Longrightarrow> addsUp (B x) (\<lambda>k. C k x) cap"
  shows "addsUp (\<lambda>f db cap. mergeMaxInto (runBounds (map B thn) f db cap) (runBounds (map B els) f db cap))
    (\<lambda>k. max (sum_list (map (C k) thn)) (sum_list (map (C k) els))) cap"
  unfolding addsUp_def
proof (intro allI impI conjI)
  fix f db and acc :: bounds and k assume f: "0 \<le> f" "f \<le> MaxInt" and acc: "goodBounds acc"
  note t = runBounds_exact [of thn B C cap, OF assms(1) f, of db] 
  note e = runBounds_exact [of els B C cap, OF assms(2) f, of db]
  show "goodBounds (mergeMaxInto (runBounds (map B thn) f db cap) (runBounds (map B els) f db cap) acc)"
    by (rule good_mergeMax(1) [OF t(1) e(1) acc])
  let ?a = "sum_list (map (C k) thn)" and ?b = "sum_list (map (C k) els)"
  have "max (f * int ?a) (f * int ?b) = f * int (max ?a ?b)" using f(1)
    by (cases "?a \<le> ?b") (simp_all add: max_absorb1 max_absorb2 mult_left_mono)
  then have "accMax (mergeMaxInto (runBounds (map B thn) f db cap) (runBounds (map B els) f db cap) acc) k =
      sat (accMax acc k + sat (f * int (max ?a ?b)))"
    using good_mergeMax(2) [OF t(1) e(1) acc, of k] by (simp add: t(2) e(2) sat_max)
  then show "accMax (mergeMaxInto (runBounds (map B thn) f db cap) (runBounds (map B els) f db cap) acc) k =
      sat (accMax acc k + f * int (max ?a ?b))"
    using sat_accumulate [of "f * int (max ?a ?b)" "accMax acc k"] f good_sat(2) [OF acc, of k]
    by (simp add: add.commute)
qed

lemma loopLimit_pos: "0 < cap \<Longrightarrow> 0 < loopLimit limit cap"
  by (simp add: loopLimit_def)

lemma bounds_exact:
  assumes "0 < cap"
  shows "addsUp (nodeBounds n) (\<lambda>k. nodeCount k cap n) cap"
    "addsUp (branchBounds fb) (\<lambda>k. branchCount k cap fb) cap"
    "addsUp (graphNodeBounds gn) (\<lambda>k. graphNodeCount k cap gn) cap"
proof (induction n and fb and gn rule: node.induct fork_branch.induct graph_node.induct)
  case (Loop v c body par)
  have "addsUp (\<lambda>f db cap'. mergeSum (runBounds (map nodeBounds body) (satMul f cap) True cap'))
      (\<lambda>k. nat cap * sum_list (map (nodeCount k cap) body)) cap"
    by (rule addsUp_nested [where D = "\<lambda>x. True"]) (use Loop assms in auto)
  then show ?case by (simp add: addsUp_def)
next
  case (While c limit body)
  have "addsUp (\<lambda>f db cap'. mergeSum (runBounds (map nodeBounds body) (satMul f (loopLimit limit cap)) db cap'))
      (\<lambda>k. nat (loopLimit limit cap) * sum_list (map (nodeCount k cap) body)) cap"
    by (rule addsUp_nested) (use While assms loopLimit_pos in auto)
  then show ?case by (simp add: addsUp_def)
next
  case (Retry c limit body)
  have "addsUp (\<lambda>f db cap'. mergeSum (runBounds (map nodeBounds body) (satMul f (loopLimit limit cap)) db cap'))
      (\<lambda>k. nat (loopLimit limit cap) * sum_list (map (nodeCount k cap) body)) cap"
    by (rule addsUp_nested) (use Retry assms loopLimit_pos in auto)
  then show ?case by (simp add: addsUp_def)
next
  case (GraphNode i needs run)
  have "addsUp (\<lambda>f db cap. mergeSum (runBounds (map nodeBounds [run]) f db cap))
      (\<lambda>k. sum_list (map (nodeCount k cap) [run])) cap"
    by (rule addsUp_plain) (use GraphNode in auto)
  then show ?case using addsUp_none by (cases "run = NilNode") simp_all
qed (auto intro: addsUp_callee addsUp_none addsUp_branch addsUp_fold addsUp_plain)

definition bodyCount :: "callee_key \<Rightarrow> int \<Rightarrow> node list \<Rightarrow> nat" where
  "bodyCount k cap nodes = sum_list (map (nodeCount k cap) nodes)"

lemma boundsOf_exact:
  assumes "0 < cap"
  shows "goodBounds (boundsOf nodes 1 False cap)"
    "accMax (boundsOf nodes 1 False cap) k = sat (int (bodyCount k cap nodes))"
  using runBounds_exact [of nodes nodeBounds "\<lambda>k. nodeCount k cap" cap 1 False, OF bounds_exact(1) [OF assms]]
  by (simp_all add: boundsOf_def bodyCount_def MaxInt_def)


subsection \<open>How often a run invokes a callee\<close>

fun calleeOf :: "leaf \<Rightarrow> callee_key option" where
  "calleeOf (LeafTool uses) = Some (''tool'', uses)"
| "calleeOf (LeafAgent agent) = Some (''agent'', agent)"
| "calleeOf (LeafWorkflow wfl) = Some (''workflow'', wfl)"
| "calleeOf (LeafApproval desc redact) = None"

definition callsTo :: "callee_key \<Rightarrow> exec_state \<Rightarrow> nat" where
  "callsTo k st = length (filter (\<lambda>iv. calleeOf (iv_Leaf iv) = Some k) (x_calls st))"

definition costs :: "callee_key \<Rightarrow> nat \<Rightarrow> runner \<Rightarrow> bool" where
  "costs k n r \<longleftrightarrow> (\<forall>s t e. r s = (t, e) \<longrightarrow> callsTo k t \<le> callsTo k s + n)"

lemma costsI: "(\<And>s t e. r s = (t, e) \<Longrightarrow> callsTo k t \<le> callsTo k s + n) \<Longrightarrow> costs k n r"
  by (simp add: costs_def)

lemma costsD: "costs k n r \<Longrightarrow> r s = (t, e) \<Longrightarrow> callsTo k t \<le> callsTo k s + n"
  by (simp add: costs_def)

lemma costs_mono: "costs k m r \<Longrightarrow> m \<le> n \<Longrightarrow> costs k n r"
  using costsD [of k m r] by (intro costsI) (meson add_left_mono le_trans)

lemma callsTo_neutral: "x_calls t = x_calls s \<Longrightarrow> callsTo k t = callsTo k s"
  by (simp add: callsTo_def)

lemma costs_quiet:
  assumes "\<And>s t e. r s = (t, e) \<Longrightarrow> x_calls t = x_calls s"
  shows "costs k n r"
proof (rule costsI)
  fix s t e assume "r s = (t, e)"
  then have "callsTo k t = callsTo k s" by (rule callsTo_neutral [OF assms])
  then show "callsTo k t \<le> callsTo k s + n" by simp
qed

lemma costs_bind:
  assumes "costs k m r" "costs k n q"
  shows "costs k (m + n) (bindR r q)"
proof (rule costsI)
  fix s t e assume eq: "bindR r q s = (t, e)"
  obtain s1 e1 where r: "r s = (s1, e1)" by fastforce
  note 1 = costsD [OF assms(1) r]
  show "callsTo k t \<le> callsTo k s + (m + n)"
  proof (cases e1)
    case None
    then have "q s1 = (t, e)" using eq r by (simp add: bindR_def)
    from costsD [OF assms(2) this] 1 show ?thesis by linarith
  next
    case (Some x)
    then show ?thesis using eq r 1 by (simp add: bindR_def)
  qed
qed

lemma costs_ifDone: "costs k n r \<Longrightarrow> costs k n (ifDone r)"
  by (auto simp: costs_def ifDone_def)

lemma costs_finish0: "costs k n finish0"
  by (simp add: costs_def finish0_def)

lemma costs_control: "costs k n (checkControl addr v)"
  by (rule costs_quiet) (rule checkControl_calls(1))

lemma costs_cond:
  assumes "costs k n thn" "costs k n els"
  shows "costs k n (condR T cond pre p l thn els)"
proof -
  have "costs k (0 + n) (bindR (checkControl (controlKey pre p l) (takenOf c)) (if c then thn else els))" for c
    by (rule costs_bind [OF costs_control]) (simp add: assms)
  then show ?thesis by (auto simp: costs_def condR_def split: sum.splits)
qed

lemma costs_at: "costs k n r \<Longrightarrow> (\<And>s. x_calls (g s) = x_calls s) \<Longrightarrow> costs k n (\<lambda>s. r (g s))"
  using costsD [of k n r] callsTo_neutral [of "g s" s k for s] by (intro costsI) metis

lemma costs_invoke:
  assumes "calleeOf lf = Some (kind, callee) \<or> calleeOf lf = None" "snd k \<noteq> []"
  shows "costs k (if calleeOf lf = None then 0 else calleeCount k kind callee) (invoke T I site lf args)"
proof (rule costsI)
  fix s t e assume eq: "invoke T I site lf args s = (t, e)"
  have "x_calls t = x_calls s \<or> (\<exists>a. x_calls t = x_calls s @ [\<lparr>iv_Site = site, iv_Leaf = lf, iv_Args = a\<rparr>])"
    using eq by (auto simp: invoke_def Let_def split: option.splits sum.splits outcome.splits)
  then show "callsTo k t \<le> callsTo k s + (if calleeOf lf = None then 0 else calleeCount k kind callee)"
    using assms by (auto simp: callsTo_def calleeCount_def)
qed

lemma costs_runAll:
  assumes "\<And>n p l. n \<in> set ns \<Longrightarrow> costs k (c n) (R n p l)"
  shows "costs k (sum_list (map c ns)) (runAll i (map R ns) path loop)"
  using assms
proof (induction ns arbitrary: i)
  case (Cons n ns)
  have "costs k (c n + sum_list (map c ns)) (bindR (R n (path @ [i]) loop) (runAll (Suc i) (map R ns) path loop))"
    by (rule costs_bind) (use Cons in auto)
  then show ?case by (simp only: construct_binds costs_ifDone list.map sum_list.Cons)
qed (simp add: costs_def)

lemma costs_loopItems:
  assumes "\<And>l. costs k n (body l)"
  shows "costs k (length items * n) (loopItems var body loop idx items)"
proof (induction items arbitrary: idx)
  case (Cons item items)
  have "costs k (n + length items * n)
      (bindR (body (loop @ [idx])) (ifDone (loopItems var body loop (Suc idx) items)))"
    by (rule costs_bind [OF assms costs_ifDone [OF Cons.IH]])
  from costs_at [OF this, of "\<lambda>s. s\<lparr>x_scope := put var item (x_scope s)\<rparr>"]
  show ?case by (simp add: construct_binds)
qed (simp add: costs_def)

lemma costs_whileIter:
  assumes "\<And>l. costs k n (body l)"
  shows "costs k (m * n) (whileIter T cond body path loop i m)"
proof (induction m arbitrary: i)
  case (Suc m)
  have "costs k (n + m * n) (bindR (body (loop @ [i])) (ifDone (whileIter T cond body path loop (Suc i) m)))"
    by (rule costs_bind [OF assms costs_ifDone [OF Suc.IH]])
  then show ?case by (simp only: construct_binds mult_Suc costs_cond costs_finish0)
qed (simp add: costs_def)

lemma costs_retryIter:
  assumes "\<And>l. costs k n (body l)"
  shows "costs k (m * n) (retryIter T cond limit body path loop i m)"
proof (induction m arbitrary: i)
  case (Suc m)
  have "costs k (n + m * n) (bindR (body (loop @ [i])) (ifDone (condR T cond ''retry:'' path (loop @ [i]) finish0
      (retryIter T cond limit body path loop (Suc i) m))))"
    by (rule costs_bind [OF assms costs_ifDone [OF costs_cond [OF costs_finish0 Suc.IH]]])
  then show ?case by (simp only: construct_binds mult_Suc)
qed (simp add: costs_def)

lemma costs_runBranches:
  assumes "\<And>i. i \<in> set is \<Longrightarrow> costs k (c i) (run i)" "runBranches child run is s = (t, rs)"
  shows "callsTo k t \<le> callsTo k s + sum_list (map c is)"
  using assms
proof (induction "is" arbitrary: s rs)
  case (Cons i "is")
  obtain u e where r: "run i (subRunner (child i) s) = (u, e)" by fastforce
  obtain rs' where rest: "runBranches child run is (backTo s u) = (t, rs')"
    using Cons.prems(2) r by (auto split: prod.splits)
  have "callsTo k u \<le> callsTo k (subRunner (child i) s) + c i"
    by (rule costsD [OF Cons.prems(1) r]) simp
  moreover have "callsTo k (subRunner (child i) s) = callsTo k s" "callsTo k (backTo s u) = callsTo k u"
    by (simp_all add: subRunner_def backTo_def callsTo_def)
  moreover have "callsTo k t \<le> callsTo k (backTo s u) + sum_list (map c is)"
    by (rule Cons.IH [OF _ rest]) (rule Cons.prems(1), simp)
  ultimately show ?case by simp
qed simp

lemma sum_list_arrange: "sum_list (map c (arrange n xs)) = sum_list (map c [0..<n])" for c :: "nat \<Rightarrow> nat"
  using sum_list_distinct_conv_sum_set [OF distinct_arrange [of n xs], of c]
  by (simp only: set_arrange interv_sum_list_conv_sum_set_nat set_upt)

lemma sum_list_nth: "sum_list (map (\<lambda>i. c (xs ! i)) [0..<length xs]) = sum_list (map c xs)"
proof -
  have "map (\<lambda>i. c (xs ! i)) [0..<length xs] = map c xs" by (rule nth_equalityI) simp_all
  then show ?thesis by (rule arg_cong)
qed

lemma costs_fork:
  assumes "\<And>i. i < length binds \<Longrightarrow> costs k (c i) (run i)"
  shows "costs k (sum_list (map c [0..<length binds])) (execFork S binds run path loop)"
proof (rule costsI)
  fix s t e assume eq: "execFork S binds run path loop s = (t, e)"
  let ?order = "arrange (length binds) (sc_order S path loop)"
  obtain t1 rs where b: "runBranches (\<lambda>i. x_scope s) run ?order s = (t1, rs)" by fastforce
  have "callsTo k t1 \<le> callsTo k s + sum_list (map c ?order)"
    by (rule costs_runBranches [OF _ b]) (simp add: set_arrange assms)
  moreover have "x_calls t = x_calls t1" using eq b by (auto simp: execFork_def Let_def split: option.splits)
  ultimately show "callsTo k t \<le> callsTo k s + sum_list (map c [0..<length binds])"
    using callsTo_neutral [of t t1 k] by (simp add: sum_list_arrange)
qed

lemma costs_loopParallel:
  assumes "\<And>l. costs k n (body l)"
  shows "costs k (length items * n) (execLoopParallel S var body items path loop)"
proof (rule costsI)
  fix s t e assume eq: "execLoopParallel S var body items path loop s = (t, e)"
  let ?order = "arrange (length items) (sc_order S path loop)"
  obtain rs where b: "runBranches (\<lambda>i. put var (items ! i) (x_scope s)) (\<lambda>i. body (loop @ [i])) ?order s = (t, rs)"
    using eq by (auto simp: execLoopParallel_def Let_def split: prod.splits)
  have "callsTo k t \<le> callsTo k s + sum_list (map (\<lambda>i. n) ?order)"
    by (rule costs_runBranches [OF _ b]) (rule assms)
  then show "callsTo k t \<le> callsTo k s + length items * n"
    using distinct_card [OF distinct_arrange [of "length items" "sc_order S path loop"]]
    by (simp add: set_arrange map_replicate_const sum_list_replicate)
qed

lemma costs_loop:
  assumes "\<And>l. costs k n (body l)" "maxIters I \<le> cap"
  shows "costs k (nat cap * n) (execLoop T I S var coll par body path loop)"
proof -
  have "costs k (0 + nat cap * n) (bindR (checkControl (controlKey ''loop:'' path loop) (int (length items)))
      (loopBody S var par body items path loop))" if "int (length items) \<le> maxIters I" for items
  proof (rule costs_bind [OF costs_control])
    have "costs k (length items * n) (loopBody S var par body items path loop)"
      by (simp add: loopBody_def costs_loopParallel [OF assms(1)] costs_loopItems [OF assms(1)])
    then show "costs k (nat cap * n) (loopBody S var par body items path loop)"
      by (rule costs_mono) (use that assms(2) in \<open>auto intro: mult_right_mono\<close>)
  qed
  from costsD [OF this [unfolded add_0]]
  have b: "bindR (checkControl (controlKey ''loop:'' path loop) (int (length items)))
      (loopBody S var par body items path loop) s = (t, e) \<Longrightarrow> \<not> maxIters I < int (length items) \<Longrightarrow>
      callsTo k t \<le> callsTo k s + nat cap * n" for items s t e
    by (metis not_less)
  show ?thesis
    by (rule costsI) (auto simp: execLoop_bind split: sum.splits if_splits dest: b)
qed

lemma effectiveMax_le: "maxIters I \<le> cap \<Longrightarrow> effectiveMax I limit \<le> nat (loopLimit limit cap)"
  by (auto simp: effectiveMax_def loopLimit_def)


text \<open>The nodes a graph has not finished pay for the calls still to come.\<close>

definition owed :: "(nat \<Rightarrow> nat) \<Rightarrow> graph_state \<Rightarrow> nat" where
  "owed c gs = sum_list (map c (pending gs))"

lemma sum_list_dropNth:
  fixes c :: "'a \<Rightarrow> nat"
  assumes "j < length xs"
  shows "sum_list (map c (dropNth j xs)) + c (xs ! j) = sum_list (map c xs)"
proof -
  obtain ys zs where xs: "xs = ys @ xs ! j # zs" "dropNth j xs = ys @ zs"
    using assms by (rule dropNth_split)
  have "sum_list (map c xs) = sum_list (map c (ys @ xs ! j # zs))" by (rule arg_cong [OF xs(1)])
  then show ?thesis by (simp add: xs(2))
qed

lemma sum_list_filter_split:
  "sum_list (map c (filter P xs)) + sum_list (map c (filter (\<lambda>x. \<not> P x) xs)) = sum_list (map c xs)"
  for c :: "'a \<Rightarrow> nat"
  by (induction xs) auto

lemma owed_trySchedule: "owed c (trySchedule G gs) = owed c gs"
  using sum_list_filter_split [of c "nodeReady G (gs_completed gs)" "gs_todo gs"]
  by (simp add: owed_def pending_def trySchedule_def)

lemma owed_settle: "owed c (settleNode G i s e gs) = owed c gs"
  by (simp add: owed_def)

lemma owed_start: "j < length (gs_launched gs) \<Longrightarrow> owed c (startNode j gs) = owed c gs"
  using sum_list_dropNth [of j "gs_launched gs" c] by (simp add: owed_def pending_def startNode_def)

lemma settle_calls: "x_calls (gs_x (settleNode G i s e gs)) = x_calls (gs_x gs)"
  by (simp add: settleNode_def split: option.split)

lemma costs_finish:
  assumes "j < length (gs_running gs)" "\<And>i. i \<in> set (pending gs) \<Longrightarrow> costs k (c i) (run i)"
  shows "callsTo k (gs_x (finishNode G run j gs)) + owed c (finishNode G run j gs) \<le> callsTo k (gs_x gs) + owed c gs"
    "set (pending (finishNode G run j gs)) \<subseteq> set (pending gs)"
proof -
  obtain i local where il: "gs_running gs ! j = (i, local)" by fastforce
  obtain u e where r: "run i (subRunner local (gs_x gs)) = (u, e)" by fastforce
  let ?gs = "gs\<lparr>gs_x := backTo (gs_x gs) u, gs_running := dropNth j (gs_running gs)\<rparr>"
  have fin: "finishNode G run j gs = trySchedule G (settleNode G i u e ?gs)"
    using il r by (simp add: finishNode_def)
  have n: "map fst (gs_running gs) ! j = i" "j < length (map fst (gs_running gs))" using assms(1) il by simp_all
  then have "i \<in> set (map fst (gs_running gs))" by (metis nth_mem)
  then have "i \<in> set (pending gs)" by (simp add: pending_def)
  then have "callsTo k u \<le> callsTo k (subRunner local (gs_x gs)) + c i" by (rule costsD [OF assms(2) r])
  then have calls: "callsTo k (gs_x (finishNode G run j gs)) \<le> callsTo k (gs_x gs) + c i"
    unfolding fin by (simp add: callsTo_def settle_calls) (simp add: subRunner_def backTo_def)
  have "owed c ?gs + c i = owed c gs"
    using sum_list_dropNth [OF n(2), of c] n(1) by (simp add: owed_def pending_def map_dropNth)
  then show "callsTo k (gs_x (finishNode G run j gs)) + owed c (finishNode G run j gs) \<le> callsTo k (gs_x gs) + owed c gs"
    using calls by (simp add: fin owed_trySchedule owed_settle)
  have "set (pending (trySchedule G g)) = set (pending g)" for g
    by (auto simp: pending_def trySchedule_def)
  moreover have "set (dropNth j xs) \<subseteq> set xs" for xs :: "(nat \<times> scope) list"
    unfolding dropNth_def using set_take_subset set_drop_subset by fastforce
  then have "set (pending ?gs) \<subseteq> set (pending gs)" by (auto simp: pending_def)
  ultimately show "set (pending (finishNode G run j gs)) \<subseteq> set (pending gs)"
    unfolding fin by simp
qed

lemma costs_graphLoop:
  assumes "\<And>i. i \<in> set (pending gs) \<Longrightarrow> costs k (c i) (run i)"
  shows "callsTo k (gs_x (graphLoop G run choices n gs)) \<le> callsTo k (gs_x gs) + owed c gs"
  using assms
proof (induction G run choices n gs rule: graphLoop.induct)
  case (1 G run choices n gs)
  show ?case
  proof (cases "graphIdle G gs")
    case True
    then show ?thesis by (simp add: graphLoop.simps [of G run choices n gs])
  next
    case False
    let ?s = "startable G gs" and ?j = "choices n mod (startable G gs + length (gs_running gs))"
    let ?gs = "graphEvent G run (choices n) gs"
    have j: "?j < ?s + length (gs_running gs)" using False by (auto simp: graphIdle_def)
    have event: "callsTo k (gs_x ?gs) + owed c ?gs \<le> callsTo k (gs_x gs) + owed c gs \<and> set (pending ?gs) \<subseteq> set (pending gs)"
    proof (cases "?j < ?s")
      case True
      then have "?gs = startNode ?j gs" "?j < length (gs_launched gs)"
        by (auto simp: graphEvent_def Let_def startable_def split: if_splits)
      moreover have "set (pending (startNode ?j gs)) \<subseteq> set (pending gs)"
        using \<open>?j < length (gs_launched gs)\<close> set_take_subset [of ?j "gs_launched gs"] set_drop_subset [of "Suc ?j" "gs_launched gs"]
        by (auto simp: pending_def startNode_def dropNth_def)
      moreover have "gs_x (startNode ?j gs) = gs_x gs" by (simp add: startNode_def)
      ultimately show ?thesis using owed_start [of ?j gs c] by simp
    next
      case False
      then have ev: "?gs = finishNode G run (?j - ?s) gs" and r: "?j - ?s < length (gs_running gs)"
        using j by (auto simp: graphEvent_def Let_def)
      show ?thesis unfolding ev using costs_finish [OF r, where run = run and c = c] "1.prems" by blast
    qed
    then have "callsTo k (gs_x (graphLoop G run choices (Suc n) ?gs)) \<le> callsTo k (gs_x ?gs) + owed c ?gs"
      using "1.prems" by (intro "1.IH" [OF False]) blast
    moreover have "graphLoop G run choices n gs = graphLoop G run choices (Suc n) ?gs"
      using False by (simp add: graphLoop.simps [of G run choices n gs])
    ultimately show ?thesis using event by simp
  qed
qed

lemma costs_graph:
  assumes "\<And>i. i < length ids \<Longrightarrow> costs k (c i) (run i)"
  shows "costs k (sum_list (map c [0..<length ids])) (execGraph I S ids needs run path loop)"
proof (rule costsI)
  fix s t e assume eq: "execGraph I S ids needs run path loop s = (t, e)"
  define G where "G = \<lparr>ge_ids = ids, ge_needs = needs, ge_conc = nat (maxConc I)\<rparr>"
  define gs0 where "gs0 = \<lparr>gs_x = s, gs_todo = [0..<length ids], gs_launched = [], gs_running = [],
    gs_completed = [], gs_firstErr = None, gs_suspended = False\<rparr>"
  let ?gs = "graphLoop G run (sc_event S path loop) 0 (trySchedule G gs0)"
  have p: "set (pending (trySchedule G gs0)) = {0..<length ids}"
    by (auto simp: gs0_def pending_def trySchedule_def)
  have "callsTo k (gs_x ?gs) \<le> callsTo k (gs_x (trySchedule G gs0)) + owed c (trySchedule G gs0)"
    by (rule costs_graphLoop) (simp add: p assms)
  then have "callsTo k (gs_x ?gs) \<le> callsTo k s + sum_list (map c [0..<length ids])"
    unfolding owed_trySchedule by (simp add: gs0_def owed_def pending_def)
  moreover have "t = s \<or> t = gs_x ?gs"
    using eq by (auto simp: execGraph_def Let_def G_def gs0_def split: if_splits)
  ultimately show "callsTo k t \<le> callsTo k s + sum_list (map c [0..<length ids])" by auto
qed


lemma costs_exec:
  assumes "maxIters I \<le> cap" "snd k \<noteq> []"
  shows "costs k (nodeCount k cap n) (exec T I S n path loop)"
    "costs k (branchCount k cap fb) (execForkBranch T I S fb path loop)"
    "costs k (graphNodeCount k cap gn) (execGraphNode T I S gn path loop)"
proof (induction n and fb and gn arbitrary: path loop and path loop and path loop
    rule: node.induct fork_branch.induct graph_node.induct)
  case (InvokeTool b uses args)
  show ?case using costs_invoke [of "LeafTool uses" "''tool''" uses k] assms(2) by simp
next
  case (InvokeAgent b agent args whole)
  show ?case using costs_invoke [of "LeafAgent agent" "''agent''" agent k] assms(2) by simp
next
  case (InvokeWorkflow b wfl args whole project)
  have "costs k 0 (projectStep b wfl project)"
    by (rule costs_quiet) (auto simp: projectStep_def split: if_splits sum.splits)
  from costs_bind [OF costs_invoke [of "LeafWorkflow wfl" "''workflow''" wfl k] this]
  show ?case using assms(2) by (simp add: invokeWorkflow_bind)
next
  case (Approval b desc redact args)
  show ?case using costs_invoke [of "LeafApproval desc redact" _ _ k] assms(2) by simp
next
  case (LetBind b v)
  show ?case by (simp, rule costs_quiet) (auto simp: execLet_def split: sum.splits)
next
  case (Return v)
  show ?case by (simp, rule costs_quiet) (auto simp: execReturn_def split: sum.splits)
next
  case (Branch cond thn els)
  show ?case unfolding exec.simps execBranch_bind nodeCount.simps
    by (intro costs_cond costs_mono [OF costs_runAll max.cobounded1] costs_mono [OF costs_runAll max.cobounded2])
      (use Branch in auto)
next
  case (Fork branches)
  have "costs k (sum_list (map (\<lambda>i. branchCount k cap (branches ! i)) [0..<length (map fb_Bind branches)]))
      (exec T I S (Fork branches) path loop)"
    unfolding exec.simps by (rule costs_fork) (use Fork in auto)
  then show ?case by (simp add: sum_list_nth)
next
  case (Graph nodes)
  have "costs k (sum_list (map (\<lambda>i. graphNodeCount k cap (nodes ! i)) [0..<length (map gn_ID nodes)]))
      (exec T I S (Graph nodes) path loop)"
    unfolding exec.simps by (rule costs_graph) (use Graph in auto)
  then show ?case by (simp add: sum_list_nth)
next
  case (Loop var coll body par)
  show ?case unfolding exec.simps nodeCount.simps
    by (rule costs_loop [OF costs_runAll assms(1)]) (use Loop in auto)
next
  case (While cond limit body)
  show ?case unfolding exec.simps nodeCount.simps execWhile_def
    by (rule costs_mono [OF costs_whileIter [OF costs_runAll]])
      (use While effectiveMax_le [OF assms(1)] in \<open>auto intro: mult_right_mono\<close>)
next
  case (Retry cond limit body)
  show ?case unfolding exec.simps nodeCount.simps execRetry_def
    by (rule costs_mono [OF costs_retryIter [OF costs_runAll]])
      (use Retry effectiveMax_le [OF assms(1)] in \<open>auto intro: mult_right_mono\<close>)
next
  case NilNode
  show ?case by (simp add: costs_def)
next
  case (ForkBranch b nodes)
  show ?case unfolding execForkBranch.simps branchCount.simps by (rule costs_runAll) (use ForkBranch in auto)
qed simp

lemma execRun_costs:
  assumes "execRun T I S prog inp seed = Inr (st, e)" "maxIters I \<le> cap" "snd k \<noteq> []"
  shows "callsTo k st \<le> bodyCount k cap (pg_Body prog)"
proof -
  obtain memo scope control where
    x: "execAll T I S (pg_Body prog) [] [] (startState memo control scope) = (st, e)"
    using assms(1) by (auto simp: execRun_def split: sum.splits)
  have "costs k (bodyCount k cap (pg_Body prog)) (execAll T I S (pg_Body prog) [] [])"
    unfolding execAll_def bodyCount_def by (rule costs_runAll) (rule costs_exec [OF assms(2,3)])
  from costsD [OF this x] show ?thesis by (simp add: callsTo_def startState_def)
qed

subsection \<open>The sorted result\<close>

lemma set_sinkBound: "set (sinkBound x ys) = insert x (set ys)"
  by (induction x ys rule: sinkBound.induct) auto

lemma set_sortInvocationBounds: "set (sortInvocationBounds bs) = set bs"
proof -
  have "set (fold sinkBound bs acc) = set bs \<union> set acc" for acc
    by (induction bs arbitrary: acc) (auto simp: set_sinkBound)
  then show ?thesis by (simp add: sortInvocationBounds_def)
qed

lemma lessInvocation_trans: "lessInvocation a b \<Longrightarrow> lessInvocation b c \<Longrightarrow> lessInvocation a c"
  by (auto simp: lessInvocation_def split: if_splits)

lemma lessInvocation_total:
  "lessInvocation a b \<or> lessInvocation b a \<or> (ib_Kind a, ib_Callee a) = (ib_Kind b, ib_Callee b)"
  by (auto simp: lessInvocation_def)

lemma sinkBound_sorted:
  assumes "sorted_wrt (\<lambda>a b. lessInvocation b a) ys"
    "\<forall>y \<in> set ys. (ib_Kind x, ib_Callee x) \<noteq> (ib_Kind y, ib_Callee y)"
  shows "sorted_wrt (\<lambda>a b. lessInvocation b a) (sinkBound x ys)"
  using assms
proof (induction x ys rule: sinkBound.induct)
  case (2 x y ys)
  show ?case
  proof (cases "lessInvocation x y")
    case True
    then show ?thesis using 2 by (auto simp: set_sinkBound)
  next
    case False
    then have "lessInvocation y x" using lessInvocation_total [of x y] 2(3) by auto
    then show ?thesis using False 2(2) lessInvocation_trans by auto
  qed
qed simp

lemma sortInvocationBounds_sorted:
  assumes "distinct (map (\<lambda>b. (ib_Kind b, ib_Callee b)) bs)"
  shows "sorted_wrt lessInvocation (sortInvocationBounds bs)"
proof -
  have "sorted_wrt (\<lambda>a b. lessInvocation b a) (fold sinkBound bs acc)"
    if "sorted_wrt (\<lambda>a b. lessInvocation b a) acc" "distinct (map (\<lambda>b. (ib_Kind b, ib_Callee b)) (bs @ acc))" for acc
    using that
  proof (induction bs arbitrary: acc)
    case (Cons b bs)
    have "sorted_wrt (\<lambda>a b. lessInvocation b a) (sinkBound b acc)"
      by (rule sinkBound_sorted) (use Cons.prems in auto)
    moreover have "distinct (map (\<lambda>b. (ib_Kind b, ib_Callee b)) (sinkBound b acc))"
      if "distinct (map (\<lambda>b. (ib_Kind b, ib_Callee b)) (b # acc))"
      using that by (induction b acc rule: sinkBound.induct) (auto simp: set_sinkBound)
    ultimately show ?case using Cons by (auto simp: set_sinkBound)
  qed simp
  from this [of "[]"] assms show ?thesis by (simp add: sortInvocationBounds_def sorted_wrt_rev)
qed


lemma InvocationBounds_entry:
  assumes "0 < cap" "0 < bodyCount k cap (pg_Body prog)"
  shows "\<exists>b \<in> set (InvocationBounds (Some prog) cap). (ib_Kind b, ib_Callee b) = k \<and>
    ib_Max b = min MaxInt (int (bodyCount k cap (pg_Body prog)))"
proof -
  let ?acc = "boundsOf (pg_Body prog) 1 False cap"
  have m: "accMax ?acc k = min MaxInt (int (bodyCount k cap (pg_Body prog)))"
    using boundsOf_exact(2) [OF assms(1)] by (simp add: sat_def)
  then have "accMax ?acc k \<noteq> 0" using assms(2) by (simp add: MaxInt_def)
  then obtain v where v: "map_of ?acc k = Some v" "ac_max v = accMax ?acc k"
    by (auto simp: accMax_def accGet_def split: option.splits)
  have "boundEntry (k, v) \<in> set (InvocationBounds (Some prog) cap)"
    using map_of_SomeD [OF v(1)] assms(1)
    by (simp add: InvocationBounds_def set_sortInvocationBounds)
  then show ?thesis using v(2) m by (intro bexI [of _ "boundEntry (k, v)"]) (simp_all add: boundEntry_def)
qed

lemma InvocationBounds_sorted: "sorted_wrt lessInvocation (InvocationBounds (Some prog) cap)"
proof -
  let ?cap = "if cap \<le> 0 then 1 else cap" 
  let ?acc = "boundsOf (pg_Body prog) 1 False ?cap"
  have "map (\<lambda>b. (ib_Kind b, ib_Callee b)) (map boundEntry ?acc) = map fst ?acc"
    by (simp add: boundEntry_def)
  moreover have "distinct (map fst ?acc)" using boundsOf_exact(1) [of ?cap] by (simp add: goodBounds_def)
  ultimately show ?thesis
    using sortInvocationBounds_sorted [of "map boundEntry ?acc"]
    by (simp only: InvocationBounds_def option.case)
qed

subsection \<open>Properties\<close>

text \<open>
  C5. The invocation bounds are sound: when the analysis is given at least the loop cap the
  interpreter enforces, every callee a run invokes has an entry in the (strictly sorted)
  result, the entry is the exact sum, product and maximum over the program text cut off at
  \<open>MaxInt\<close>, and no run invokes the callee more often: first or resumed, completed, suspended or
  failed, under any schedule and any answers of the environment.
\<close>

theorem invocation_bounds_sound:
  assumes "execRun T I S prog inp seed = Inr (st, e)" "maxIters I \<le> cap"
    and "iv \<in> set (x_calls st)" "calleeOf (iv_Leaf iv) = Some (kind, callee)" "callee \<noteq> []"
  shows "sorted_wrt lessInvocation (InvocationBounds (Some prog) cap) \<and>
    callsTo (kind, callee) st \<le> bodyCount (kind, callee) cap (pg_Body prog) \<and>
    (\<exists>b \<in> set (InvocationBounds (Some prog) cap). ib_Kind b = kind \<and> ib_Callee b = callee \<and>
       ib_Max b = min MaxInt (int (bodyCount (kind, callee) cap (pg_Body prog))))"
proof -
  have c: "callsTo (kind, callee) st \<le> bodyCount (kind, callee) cap (pg_Body prog)"
    by (rule execRun_costs [OF assms(1,2)]) (simp add: assms(5))
  have "0 < callsTo (kind, callee) st"
    using assms(3,4) by (auto simp: callsTo_def filter_empty_conv)
  moreover have "0 < cap" using assms(2) by (auto simp: maxIters_def DefaultMaxLoopIterations_def split: if_splits)
  ultimately show ?thesis
    using InvocationBounds_sorted c InvocationBounds_entry [of cap "(kind, callee)" prog] by force
qed

definition demo_loops :: program where
  "demo_loops = \<lparr>pg_Workflow = ''w'', pg_Params = [],
     pg_Body = [While (Leaf (Lit (ABool True))) 3
                  [InvokeTool ''a'' ''t.op'' [],
                   Branch (Leaf (Ref [''a''])) [InvokeAgent ''b'' ''m'' [] False] []]]\<rparr>"

text \<open>An environment in which the agent of the third iteration is down.\<close>

definition demo_flaky :: "call_site \<Rightarrow> leaf \<Rightarrow> any gomap \<Rightarrow> outcome" where
  "demo_flaky site lf args =
     (if lf = LeafAgent ''m'' \<and> cs_Loop site = [2] then InvError ''down'' else InvOk (AInt 1))"

theorem invocation_bounds_sound_witness:
  "\<exists>st. execRun demo_text (demo_interp demo_flaky) demo_schedule demo_loops (AObj []) None =
       Inr (st, Some (ErrInvoke ''down'')) \<and> callsTo (''tool'', ''t.op'') st = 3 \<and>
     (\<exists>b \<in> set (InvocationBounds (Some demo_loops) 1000).
        ib_Kind b = ''tool'' \<and> ib_Callee b = ''t.op'' \<and> ib_Max b = 3)"
proof -
  let ?run = "execRun demo_text (demo_interp demo_flaky) demo_schedule demo_loops (AObj []) None"
  have "case ?run of Inl e \<Rightarrow> False
     | Inr (st, e) \<Rightarrow> e = Some (ErrInvoke ''down'') \<and> callsTo (''tool'', ''t.op'') st = 3 \<and> x_calls st \<noteq> [] \<and>
         calleeOf (iv_Leaf (hd (x_calls st))) = Some (''tool'', ''t.op'')" by code_simp
  then obtain st where st: "?run = Inr (st, Some (ErrInvoke ''down''))" "callsTo (''tool'', ''t.op'') st = 3"
    "hd (x_calls st) \<in> set (x_calls st)" "calleeOf (iv_Leaf (hd (x_calls st))) = Some (''tool'', ''t.op'')"
    by (auto split: sum.splits prod.splits)
  have "maxIters (demo_interp demo_flaky) \<le> 1000" by code_simp
  from invocation_bounds_sound [OF st(1) this st(3,4)]
  have "\<exists>b \<in> set (InvocationBounds (Some demo_loops) 1000). ib_Kind b = ''tool'' \<and> ib_Callee b = ''t.op'' \<and>
      ib_Max b = min MaxInt (int (bodyCount (''tool'', ''t.op'') 1000 (pg_Body demo_loops)))" by simp
  moreover have "min MaxInt (int (bodyCount (''tool'', ''t.op'') 1000 (pg_Body demo_loops))) = 3" by code_simp
  ultimately show ?thesis using st by auto
qed

end
