(* ===== verification/Plan_Apply.thy ===== *)
theory Plan_Apply
  imports Plan_Diff Deploy_Store Exec_Digest Exec_Bounds
begin

text \<open>
  Computing a plan and applying it (\<open>internal/plan/planner.go\<close>, \<open>fingerprint.go\<close>,
  \<open>workflow_hash.go\<close>, \<open>digest.go\<close>, \<open>project_meta.go\<close>, \<open>internal/apply\<close>). A desired resource is its
  name and the JSON \<open>json.Marshal\<close> gives its envelope (\<open>None\<close> when it fails). The risk summary,
  the effect sections and the runtime targets of a plan do not influence what is applied and
  are left out.
\<close>

subsection \<open>Desired rows\<close>

record desired_resource =
  dr_Name :: string
  dr_JSON :: "string option"

record desired_graph =
  dg_Project :: desired_resource
  dg_Agents :: "desired_resource option gomap"
  dg_Tools :: "desired_resource option gomap"
  dg_Workflows :: "desired_resource option gomap"
  dg_Policies :: "desired_resource option gomap"
  dg_Environments :: "desired_resource option gomap"

record desired_row =
  dw_id :: resource_id
  dw_json :: string
  dw_hash :: string
  dw_execDigest :: string

definition SpecHashHex :: "string \<Rightarrow> string" where
  "SpecHashHex canonicalJSON = hashHex canonicalJSON"

definition WorkflowSpecHashWithExec :: "string \<Rightarrow> string \<Rightarrow> string" where
  "WorkflowSpecHashWithExec raw execDigest =
     (if execDigest = [] then SpecHashHex raw
      else SpecHashHex (raw @ [CHR 0x0A] @ ''execir:'' @ execDigest))"

definition mkID :: "string \<Rightarrow> string \<Rightarrow> resource_id" where
  "mkID kind name = \<lparr>ri_Kind = kind, ri_Name = name\<rparr>"

definition appendDesired ::
  "string \<Rightarrow> (string \<Rightarrow> string) \<Rightarrow> desired_resource \<Rightarrow> desired_row list \<Rightarrow> (plan_error, desired_row list) result" where
  "appendDesired kind digest r rows =
     (case dr_JSON r of
        None \<Rightarrow> Inl (ErrCanonicalJSON (resourceString (mkID kind (dr_Name r))))
      | Some raw \<Rightarrow>
          Inr (rows @ [\<lparr>dw_id = mkID kind (dr_Name r), dw_json = raw,
                        dw_hash = WorkflowSpecHashWithExec raw (digest (dr_Name r)),
                        dw_execDigest = digest (dr_Name r)\<rparr>]))"

text \<open>One of the loops over a map of the graph; nil entries are skipped.\<close>

fun appendAll ::
  "string \<Rightarrow> (string \<Rightarrow> string) \<Rightarrow> desired_resource option gomap \<Rightarrow> desired_row list \<Rightarrow>
     (plan_error, desired_row list) result" where
  "appendAll kind digest [] rows = Inr rows"
| "appendAll kind digest ((k, None) # m) rows = appendAll kind digest m rows"
| "appendAll kind digest ((k, Some r) # m) rows =
     (case appendDesired kind digest r rows of
        Inl e \<Rightarrow> Inl e
      | Inr rows' \<Rightarrow> appendAll kind digest m rows')"

definition digestOf :: "go_text \<Rightarrow> (string \<Rightarrow> string) \<Rightarrow> program option \<Rightarrow> string" where
  "digestOf T quote p = (case p of None \<Rightarrow> [] | Some prog \<Rightarrow> Digest T quote (Some prog))"

definition noDigest :: "string \<Rightarrow> string" where
  "noDigest name = []"

definition andThen :: "('e, 'a) result \<Rightarrow> ('a \<Rightarrow> ('e, 'b) result) \<Rightarrow> ('e, 'b) result" where
  "andThen r f = (case r of Inl e \<Rightarrow> Inl e | Inr x \<Rightarrow> f x)"

definition desiredRows ::
  "go_text \<Rightarrow> (string \<Rightarrow> string) \<Rightarrow> desired_graph \<Rightarrow> program option gomap \<Rightarrow> (plan_error, desired_row list) result" where
  "desiredRows T quote g execs =
     andThen (appendDesired ''Project'' noDigest (dg_Project g) [])
       (\<lambda>rows. andThen (appendAll ''Agent'' noDigest (dg_Agents g) rows)
       (\<lambda>rows. andThen (appendAll ''Tool'' noDigest (dg_Tools g) rows)
       (\<lambda>rows. andThen (appendAll ''Workflow'' (\<lambda>n. digestOf T quote (deref execs n)) (dg_Workflows g) rows)
       (\<lambda>rows. andThen (appendAll ''Policy'' noDigest (dg_Policies g) rows)
       (\<lambda>rows. andThen (appendAll ''Environment'' noDigest (dg_Environments g) rows)
       (\<lambda>rows. Inr (sort_key (\<lambda>r. (ri_Kind (dw_id r), ri_Name (dw_id r))) rows)))))))"

definition ListDesiredResourceIDs ::
  "go_text \<Rightarrow> (string \<Rightarrow> string) \<Rightarrow> desired_graph option \<Rightarrow> (plan_error, resource_id list) result" where
  "ListDesiredResourceIDs T quote g =
     (case g of
        None \<Rightarrow> Inl ErrNilGraph
      | Some gr \<Rightarrow> andThen (desiredRows T quote gr []) (\<lambda>rows. Inr (map dw_id rows)))"

definition ResolvedGraphDigest ::
  "go_text \<Rightarrow> (string \<Rightarrow> string) \<Rightarrow> desired_graph option \<Rightarrow> (plan_error, string) result" where
  "ResolvedGraphDigest T quote g =
     (case g of
        None \<Rightarrow> Inl ErrNilGraph
      | Some gr \<Rightarrow> andThen (desiredRows T quote gr [])
          (\<lambda>rows. Inr (hashHex (concat (map (\<lambda>r. ri_Kind (dw_id r) @ [CHR 0x00] @ ri_Name (dw_id r) @ [CHR 0x00]
             @ dw_json r @ [CHR 0x0A]) rows)))))"

definition projectRow :: "desired_row list \<Rightarrow> desired_row option" where
  "projectRow rows = find (\<lambda>r. ri_Kind (dw_id r) = ''Project'') rows"

definition ProjectDeploymentMeta ::
  "go_text \<Rightarrow> (string \<Rightarrow> string) \<Rightarrow> desired_graph option \<Rightarrow> (plan_error, string \<times> string) result" where
  "ProjectDeploymentMeta T quote g =
     (case g of
        None \<Rightarrow> Inl ErrNilGraph
      | Some gr \<Rightarrow> andThen (desiredRows T quote gr [])
          (\<lambda>rows. case projectRow rows of
             None \<Rightarrow> Inl ErrNoProject
           | Some r \<Rightarrow> Inr (ri_Name (dw_id r), dw_hash r)))"

subsection \<open>The fingerprint of the deployed state\<close>

definition rowLine :: "applied_resource \<Rightarrow> string" where
  "rowLine r = apr_Kind r @ [CHR 0x00] @ apr_Name r @ [CHR 0x00] @ apr_SpecHash r @ [CHR 0x00]
     @ apr_NormalizedSpecJSON r @ [CHR 0x0A]"

definition projectLine :: "applied_project option \<Rightarrow> string" where
  "projectLine p =
     (case p of
        None \<Rightarrow> ''applied_projects'' @ [CHR 0x00] @ ''MISSING'' @ [CHR 0x0A]
      | Some a \<Rightarrow> ''applied_projects'' @ [CHR 0x00] @ apj_ProjectName a @ [CHR 0x00] @ apj_Env a @ [CHR 0x00]
          @ apj_Version a @ [CHR 0x0A])"

definition fingerprintText :: "string \<Rightarrow> string \<Rightarrow> deploy_db \<Rightarrow> string" where
  "fingerprintText env projectName db =
     concat (map rowLine (sort_key (\<lambda>r. (apr_Kind r, apr_Name r)) (listAppliedResourcesByEnv env db)))
       @ projectLine (getAppliedProject env projectName db)"

definition DeploymentStateFingerprint :: "string \<Rightarrow> string \<Rightarrow> deploy_db \<Rightarrow> (plan_error, string) result" where
  "DeploymentStateFingerprint env0 projectName0 db =
     (let env = TrimSpace env0; projectName = TrimSpace projectName0
      in if env = [] \<or> projectName = [] then Inl ErrEmptyEnvOrProject
         else Inr (hashHex (fingerprintText env projectName db)))"

subsection \<open>The plan\<close>

definition ActionCreate :: string where
  "ActionCreate = ''create''"

definition ActionUpdate :: string where
  "ActionUpdate = ''update''"

definition ActionDelete :: string where
  "ActionDelete = ''delete''"

record plan_operation =
  po_Action :: string
  po_Target :: resource_id
  po_Diff :: "field_change list"
  po_SpecHash :: string
  po_NormalizedSpecJSON :: string

record deployment_plan =
  pl_Operations :: "plan_operation list"
  pl_DeploymentBaseline :: string
  pl_InvocationBounds :: "(string \<times> invocation_bound list) list"

definition resourceMapKey :: "string \<Rightarrow> string \<Rightarrow> string" where
  "resourceMapKey kind name = kind @ [CHR 0x00] @ name"

definition appliedByID :: "applied_resource list \<Rightarrow> applied_resource gomap" where
  "appliedByID rows = fold (\<lambda>r. put (resourceMapKey (apr_Kind r) (apr_Name r)) r) rows []"

definition desiredByID :: "desired_row list \<Rightarrow> desired_row gomap" where
  "desiredByID rows = fold (\<lambda>d. put (resourceMapKey (ri_Kind (dw_id d)) (ri_Name (dw_id d))) d) rows []"

definition writeOp :: "string \<Rightarrow> desired_row \<Rightarrow> field_change list \<Rightarrow> plan_operation" where
  "writeOp action d diff =
     \<lparr>po_Action = action, po_Target = dw_id d, po_Diff = diff, po_SpecHash = dw_hash d,
      po_NormalizedSpecJSON = dw_json d\<rparr>"

definition deleteOp :: "applied_resource \<Rightarrow> plan_operation" where
  "deleteOp r =
     \<lparr>po_Action = ActionDelete, po_Target = mkID (apr_Kind r) (apr_Name r), po_Diff = [], po_SpecHash = [],
      po_NormalizedSpecJSON = []\<rparr>"

text \<open>The loop over the desired rows.\<close>

fun writeOps ::
  "go_text \<Rightarrow> (string \<Rightarrow> any option) \<Rightarrow> applied_resource gomap \<Rightarrow> desired_row list \<Rightarrow>
     (plan_error, plan_operation list) result" where
  "writeOps T unmarshal applied [] = Inr []"
| "writeOps T unmarshal applied (d # ds) =
     (case map_of applied (resourceMapKey (ri_Kind (dw_id d)) (ri_Name (dw_id d))) of
        None \<Rightarrow> andThen (writeOps T unmarshal applied ds) (\<lambda>ops. Inr (writeOp ActionCreate d [] # ops))
      | Some prev \<Rightarrow>
          if apr_SpecHash prev = dw_hash d then writeOps T unmarshal applied ds
          else if apr_NormalizedSpecJSON prev = dw_json d \<and> dw_execDigest d = [] then writeOps T unmarshal applied ds
          else andThen (jsonDiff T unmarshal (apr_NormalizedSpecJSON prev) (dw_json d))
                 (\<lambda>diff. andThen (writeOps T unmarshal applied ds) (\<lambda>ops. Inr (writeOp ActionUpdate d diff # ops))))"

definition deleteOps :: "desired_row gomap \<Rightarrow> applied_resource list \<Rightarrow> plan_operation list" where
  "deleteOps desired applied =
     map deleteOp (filter (\<lambda>r. map_of desired (resourceMapKey (apr_Kind r) (apr_Name r)) = None) applied)"

definition actionOrder :: "string \<Rightarrow> nat" where
  "actionOrder a = (if a = ActionUpdate then 1 else if a = ActionDelete then 2 else 0)"

definition sortOperations :: "plan_operation list \<Rightarrow> plan_operation list" where
  "sortOperations ops = sort_key (\<lambda>op. (actionOrder (po_Action op), resourceString (po_Target op))) ops"

definition invocationBounds :: "program option gomap \<Rightarrow> (string \<times> invocation_bound list) list" where
  "invocationBounds execs =
     filter (\<lambda>(name, bs). list_ex (\<lambda>b. ib_Max b > 1 \<or> ib_DataBounded b) bs)
       (map (\<lambda>name. (name, InvocationBounds (deref execs name) DefaultMaxLoopIterations)) (sortedKeys execs))"

definition ComputePlan ::
  "go_text \<Rightarrow> (string \<Rightarrow> string) \<Rightarrow> (string \<Rightarrow> any option) \<Rightarrow> string \<Rightarrow> desired_graph option \<Rightarrow>
     program option gomap \<Rightarrow> deploy_db \<Rightarrow> (plan_error, deployment_plan) result" where
  "ComputePlan T quote unmarshal env g execs db =
     (case g of
        None \<Rightarrow> Inl ErrNilGraph
      | Some gr \<Rightarrow>
          if env = [] then Inl ErrEmptyEnv
          else andThen (desiredRows T quote gr execs) (\<lambda>desired.
            let projectName = (case projectRow desired of None \<Rightarrow> [] | Some r \<Rightarrow> ri_Name (dw_id r));
                applied = listAppliedResourcesByEnv env db
            in if projectName = [] then Inl ErrNoProject
               else andThen (writeOps T unmarshal (appliedByID applied) desired) (\<lambda>writes.
                 andThen (DeploymentStateFingerprint env projectName db) (\<lambda>fp.
                   Inr \<lparr>pl_Operations = sortOperations (writes @ deleteOps (desiredByID desired) applied),
                        pl_DeploymentBaseline = fp,
                        pl_InvocationBounds = invocationBounds execs\<rparr>))))"

subsection \<open>Applying a plan\<close>

datatype apply_error =
    ApplyPlanError plan_error
  | ErrDeploymentStateChanged
  | ErrMissingMaterial string
  | ErrUnknownAction string
  | ErrApplyNilGraph
  | ErrApplyNilPlan
  | ErrApplyEmptyEnv
  | ErrFinalize string

definition liftPlan :: "(plan_error, 'a) result \<Rightarrow> (apply_error, 'a) result" where
  "liftPlan r = (case r of Inl e \<Rightarrow> Inl (ApplyPlanError e) | Inr x \<Rightarrow> Inr x)"

definition assertDeploymentBaseline ::
  "string \<Rightarrow> string \<Rightarrow> deployment_plan \<Rightarrow> deploy_db \<Rightarrow> (apply_error, unit) result" where
  "assertDeploymentBaseline env projectName p db =
     (let want = TrimSpace (pl_DeploymentBaseline p)
      in if want = [] then Inr ()
         else andThen (liftPlan (DeploymentStateFingerprint env projectName db))
                (\<lambda>got. if got \<noteq> want then Inl ErrDeploymentStateChanged else Inr ()))"

definition appliedRow :: "string \<Rightarrow> utc_time \<Rightarrow> plan_operation \<Rightarrow> applied_resource" where
  "appliedRow env now op =
     \<lparr>apr_Kind = ri_Kind (po_Target op), apr_Name = ri_Name (po_Target op), apr_Env = env,
      apr_SpecHash = po_SpecHash op, apr_NormalizedSpecJSON = po_NormalizedSpecJSON op, apr_AppliedAt = now\<rparr>"

definition executeOp :: "string \<Rightarrow> utc_time \<Rightarrow> plan_operation \<Rightarrow> deploy_db \<Rightarrow> (apply_error, deploy_db) result" where
  "executeOp env now op db =
     (if po_Action op = ActionCreate \<or> po_Action op = ActionUpdate then
        if TrimSpace (po_SpecHash op) = [] \<or> TrimSpace (po_NormalizedSpecJSON op) = []
        then Inl (ErrMissingMaterial (resourceString (po_Target op)))
        else Inr (upsertAppliedResource (appliedRow env now op) db)
      else if po_Action op = ActionDelete then Inr (deleteAppliedResource env (po_Target op) db)
      else Inl (ErrUnknownAction (po_Action op)))"

fun executeOps :: "string \<Rightarrow> utc_time \<Rightarrow> plan_operation list \<Rightarrow> deploy_db \<Rightarrow> (apply_error, deploy_db) result" where
  "executeOps env now [] db = Inr db"
| "executeOps env now (op # ops) db = andThen (executeOp env now op db) (executeOps env now ops)"

definition executePlan ::
  "string \<Rightarrow> deployment_plan \<Rightarrow> utc_time \<Rightarrow> string \<Rightarrow> string \<Rightarrow> deploy_db \<Rightarrow> (apply_error, deploy_db) result" where
  "executePlan env p now projectName projectVersion db =
     andThen (executeOps env now (pl_Operations p) db)
       (\<lambda>db'. Inr (upsertAppliedProject
          \<lparr>apj_ProjectName = projectName, apj_Env = env, apj_Version = projectVersion, apj_AppliedAt = now\<rparr> db'))"

type_synonym finalizer = "deploy_db \<Rightarrow> (apply_error, deploy_db) result"

definition ApplyPlanAndFinalize ::
  "go_text \<Rightarrow> (string \<Rightarrow> string) \<Rightarrow> string \<Rightarrow> desired_graph option \<Rightarrow> deployment_plan option \<Rightarrow> utc_time \<Rightarrow>
     finalizer option \<Rightarrow> deploy_db \<Rightarrow> apply_error option \<times> deploy_db" where
  "ApplyPlanAndFinalize T quote env g p now finalize db =
     (if g = None then (Some ErrApplyNilGraph, db)
      else case p of
        None \<Rightarrow> (Some ErrApplyNilPlan, db)
      | Some pl \<Rightarrow>
          if env = [] then (Some ErrApplyEmptyEnv, db)
          else (case ProjectDeploymentMeta T quote g of
             Inl e \<Rightarrow> (Some (ApplyPlanError e), db)
           | Inr (projectName, projectVersion) \<Rightarrow>
               RunDeploymentTx
                 (\<lambda>tx. andThen (assertDeploymentBaseline env projectName pl tx)
                    (\<lambda>_. andThen (executePlan env pl now projectName projectVersion tx)
                      (\<lambda>tx'. case finalize of None \<Rightarrow> Inr tx' | Some f \<Rightarrow> f tx')))
                 db))"

definition ApplyPlan ::
  "go_text \<Rightarrow> (string \<Rightarrow> string) \<Rightarrow> string \<Rightarrow> desired_graph option \<Rightarrow> deployment_plan option \<Rightarrow> utc_time \<Rightarrow>
     deploy_db \<Rightarrow> apply_error option \<times> deploy_db" where
  "ApplyPlan T quote env g p now db = ApplyPlanAndFinalize T quote env g p now None db"

end
