(* ===== verification/Plan_Converge.thy ===== *)
theory Plan_Converge
  imports Plan_Apply
begin

text \<open>
  What a plan and its application guarantee: applying a fresh plan succeeds and brings the
  environment to the desired state, and a plan is rejected when the deployed state has
  changed since it was computed.
\<close>

subsection \<open>A store of keyed rows\<close>

text \<open>
  The contract of a table with an upsert and a delete: lookups see exactly the last change of
  a key. A list of changes with distinct keys then acts like one map update.
\<close>

locale keyed_store =
  fixes look :: "'s \<Rightarrow> 'k \<Rightarrow> 'v option"
    and save :: "'k \<Rightarrow> 'v \<Rightarrow> 's \<Rightarrow> 's"
    and remove :: "'k \<Rightarrow> 's \<Rightarrow> 's"
  assumes look_save: "look (save k v s) = (look s)(k \<mapsto> v)"
    and look_remove: "look (remove k s) = (look s)(k := None)"
begin

definition commit :: "'k \<times> 'v option \<Rightarrow> 's \<Rightarrow> 's" where
  "commit c = (case snd c of None \<Rightarrow> remove (fst c) | Some v \<Rightarrow> save (fst c) v)"

lemma look_commit: "look (commit c s) = (look s)(fst c := snd c)"
  by (cases c; cases "snd c") (simp_all add: commit_def look_save look_remove)

lemma look_commits:
  "distinct (map fst cs) \<Longrightarrow> look (fold commit cs s) k = (case map_of cs k of None \<Rightarrow> look s k | Some c \<Rightarrow> c)"
proof (induction cs arbitrary: s)
  case (Cons c cs)
  have "map_of cs (fst c) = None" using Cons.prems by (simp add: map_of_eq_None_iff)
  then show ?case using Cons by (auto simp: look_commit split: option.split)
qed simp

end

type_synonym row_key = "string \<times> string \<times> string"

type_synonym row_value = "string \<times> string \<times> utc_time"

definition valueOf :: "applied_resource \<Rightarrow> row_value" where
  "valueOf r = (apr_SpecHash r, apr_NormalizedSpecJSON r, apr_AppliedAt r)"

definition lookRow :: "deploy_db \<Rightarrow> row_key \<Rightarrow> row_value option" where
  "lookRow db k = map_option valueOf (rowAt rowKey (dd_resources db) k)"

definition writeRow :: "row_key \<Rightarrow> row_value \<Rightarrow> deploy_db \<Rightarrow> deploy_db" where
  "writeRow k v =
     upsertAppliedResource \<lparr>apr_Kind = fst k, apr_Name = fst (snd k), apr_Env = snd (snd k), apr_SpecHash = fst v,
       apr_NormalizedSpecJSON = fst (snd v), apr_AppliedAt = snd (snd v)\<rparr>"

definition removeRow :: "row_key \<Rightarrow> deploy_db \<Rightarrow> deploy_db" where
  "removeRow k = deleteAppliedResource (snd (snd k)) (mkID (fst k) (fst (snd k)))"

lemma lookRow_removeRow: "lookRow (removeRow k db) = (lookRow db)(k := None)"
proof
  fix j
  have "rowAt rowKey (filter (\<lambda>r. rowKey r \<noteq> k) (dd_resources db)) j =
      (if j \<noteq> k then rowAt rowKey (dd_resources db) j else None)"
    by (rule rowAt_filter [of rowKey "\<lambda>x. x \<noteq> k"])
  moreover have "dd_resources (removeRow k db) = filter (\<lambda>r. rowKey r \<noteq> k) (dd_resources db)"
    by (cases k) (auto simp: removeRow_def deleteAppliedResource_def mkID_def intro: filter_cong)
  ultimately show "lookRow (removeRow k db) j = ((lookRow db)(k := None)) j"
    by (simp add: lookRow_def)
qed

interpretation rows: keyed_store lookRow writeRow removeRow
proof
  show "lookRow (writeRow k v s) = (lookRow s)(k \<mapsto> v)" for k v s
    by (auto simp: lookRow_def valueOf_def writeRow_def upsertAppliedResource_def rowAt_upsert fun_eq_iff)
qed (rule lookRow_removeRow)

subsection \<open>Executing operations\<close>

definition isWrite :: "plan_operation \<Rightarrow> bool" where
  "isWrite op \<longleftrightarrow> po_Action op = ActionCreate \<or> po_Action op = ActionUpdate"

definition opKey :: "string \<Rightarrow> plan_operation \<Rightarrow> row_key" where
  "opKey env op = (ri_Kind (po_Target op), ri_Name (po_Target op), env)"

definition changeOf :: "string \<Rightarrow> utc_time \<Rightarrow> plan_operation \<Rightarrow> row_key \<times> row_value option" where
  "changeOf env now op =
     (opKey env op, if isWrite op then Some (po_SpecHash op, po_NormalizedSpecJSON op, now) else None)"

definition runnable :: "plan_operation \<Rightarrow> bool" where
  "runnable op \<longleftrightarrow>
     (isWrite op \<and> TrimSpace (po_SpecHash op) \<noteq> [] \<and> TrimSpace (po_NormalizedSpecJSON op) \<noteq> []) \<or>
     (\<not> isWrite op \<and> po_Action op = ActionDelete)"

lemma mkID_eta [simp]: "mkID (ri_Kind i) (ri_Name i) = i" "ri_Kind (mkID k n) = k" "ri_Name (mkID k n) = n"
  by (simp_all add: mkID_def)

lemma executeOp_commit: "runnable op \<Longrightarrow> executeOp env now op db = Inr (rows.commit (changeOf env now op) db)"
  by (auto simp: executeOp_def runnable_def isWrite_def rows.commit_def changeOf_def opKey_def writeRow_def
      removeRow_def appliedRow_def)

lemma executeOps_commit:
  "list_all runnable ops \<Longrightarrow> executeOps env now ops db = Inr (fold rows.commit (map (changeOf env now) ops) db)"
  by (induction ops arbitrary: db) (simp_all add: executeOp_commit andThen_def)

lemma commit_wf: "wf_db db \<Longrightarrow> wf_db (rows.commit c db)"
  by (auto simp: rows.commit_def writeRow_def removeRow_def wf_db_ops split: option.split)

lemma commits_wf: "wf_db db \<Longrightarrow> wf_db (fold rows.commit cs db)"
  by (induction cs arbitrary: db) (simp_all add: commit_wf)

lemma commit_projects: "dd_projects (rows.commit c db) = dd_projects db"
  by (auto simp: rows.commit_def writeRow_def removeRow_def upsertAppliedResource_def deleteAppliedResource_def
      split: option.split)

lemma distinct_keys_commits: "distinct (map fst (map (changeOf env now) ops)) \<longleftrightarrow> distinct (map (opKey env) ops)"
  by (simp add: changeOf_def o_def)

subsection \<open>Lookups by map key\<close>

text \<open>No kind contains the separator of the planner's map keys.\<close>

definition plainKinds :: "deploy_db \<Rightarrow> bool" where
  "plainKinds db \<longleftrightarrow> (\<forall>r \<in> set (dd_resources db). CHR 0x00 \<notin> set (apr_Kind r))"

lemma resourceMapKey_inject:
  assumes "CHR 0x00 \<notin> set k" "CHR 0x00 \<notin> set k'"
  shows "resourceMapKey k n = resourceMapKey k' n' \<longleftrightarrow> k = k' \<and> n = n'"
proof
  assume "resourceMapKey k n = resourceMapKey k' n'"
  then have "k @ CHR 0x00 # n = k' @ CHR 0x00 # n'" by (simp add: resourceMapKey_def)
  from separated_inject [OF this assms] show "k = k' \<and> n = n'" .
qed simp

lemma fold_put_find:
  "map_of (fold (\<lambda>x. put (f x) x) xs m) j =
     (case find (\<lambda>x. f x = j) (rev xs) of None \<Rightarrow> map_of m j | Some x \<Rightarrow> Some x)"
proof (induction xs arbitrary: m)
  case (Cons x xs)
  have app: "find P (ys @ zs) = (case find P ys of None \<Rightarrow> find P zs | Some y \<Rightarrow> Some y)" for P and ys zs :: "'a list"
    by (induction ys) auto
  show ?case using Cons by (auto simp: app split: option.split)
qed simp

lemma find_unique:
  fixes xs ys :: "'a list"
  assumes "distinct (map f xs)" "set xs = set ys" "distinct (map f ys)"
  shows "find (\<lambda>x. f x = j) xs = find (\<lambda>x. f x = j) ys"
proof -
  have "find (\<lambda>x. f x = j) zs = Some x \<longleftrightarrow> x \<in> set zs \<and> f x = j" if "distinct (map f zs)" for zs :: "'a list" and x
    using that by (induction zs) (auto simp: image_iff)
  then show ?thesis using assms by (metis not_None_eq)
qed


lemma listApplied_set: "set (listAppliedResourcesByEnv env db) = {r \<in> set (dd_resources db). apr_Env r = env}"
  by (auto simp: listAppliedResourcesByEnv_def)

definition idKey :: "applied_resource \<Rightarrow> string \<times> string" where
  "idKey r = (apr_Kind r, apr_Name r)"

lemma distinct_listApplied:
  assumes "wf_db db"
  shows "distinct (map idKey (listAppliedResourcesByEnv env db))"
proof -
  have "distinct (map rowKey (filter (\<lambda>r. apr_Env r = env) (dd_resources db)))"
    using assms by (simp add: wf_db_def distinct_map_filter)
  then have "distinct (map idKey (filter (\<lambda>r. apr_Env r = env) (dd_resources db)))"
    by (auto simp: distinct_map inj_on_def idKey_def)
  then show ?thesis by (simp add: listAppliedResourcesByEnv_def distinct_map inj_on_def)
qed

lemma applied_lookup:
  assumes "wf_db db" "plainKinds db" "CHR 0x00 \<notin> set k"
  shows "map_of (appliedByID (listAppliedResourcesByEnv env db)) (resourceMapKey k n) =
    rowAt rowKey (dd_resources db) (k, n, env)"
proof -
  let ?rows = "listAppliedResourcesByEnv env db"
  have find: "find (\<lambda>r. resourceMapKey (apr_Kind r) (apr_Name r) = resourceMapKey k n) xs = find (\<lambda>r. idKey r = (k, n)) xs"
    if "set xs \<subseteq> set (dd_resources db)" for xs
    using that assms(2,3)
    by (induction xs) (auto simp: idKey_def resourceMapKey_inject plainKinds_def)
  have "map_of (appliedByID ?rows) (resourceMapKey k n) = find (\<lambda>r. idKey r = (k, n)) (rev ?rows)"
    unfolding appliedByID_def fold_put_find by (subst find) (auto simp: listApplied_set split: option.split)
  also have "\<dots> = find (\<lambda>r. idKey r = (k, n)) (filter (\<lambda>r. apr_Env r = env) (dd_resources db))"
  proof (rule find_unique)
    show "distinct (map idKey (rev ?rows))" using distinct_listApplied [OF assms(1)] by (simp add: rev_map [symmetric])
    show "distinct (map idKey (filter (\<lambda>r. apr_Env r = env) (dd_resources db)))"
      using distinct_listApplied [OF assms(1), of env]
      by (simp add: listAppliedResourcesByEnv_def distinct_map inj_on_def)
  qed (auto simp: listApplied_set)
  also have "\<dots> = rowAt rowKey (dd_resources db) (k, n, env)"
  proof -
    have "find (\<lambda>r. idKey r = (k, n)) (filter (\<lambda>r. apr_Env r = env) xs) = find (\<lambda>r. rowKey r = (k, n, env)) xs" for xs
      by (induction xs) (auto simp: idKey_def)
    then show ?thesis unfolding rowAt_def .
  qed
  finally show ?thesis .
qed

text \<open>The kinds of desired resources.\<close>

definition desiredKinds :: "string list" where
  "desiredKinds = [''Project'', ''Agent'', ''Tool'', ''Workflow'', ''Policy'', ''Environment'']"

lemma desiredKinds_plain: "k \<in> set desiredKinds \<Longrightarrow> CHR 0x00 \<notin> set k"
  by (auto simp: desiredKinds_def)

definition rowsPlain :: "desired_row list \<Rightarrow> bool" where
  "rowsPlain rows \<longleftrightarrow> (\<forall>d \<in> set rows. ri_Kind (dw_id d) \<in> set desiredKinds) \<and> distinct (map dw_id rows)"

lemma desired_lookup:
  assumes "rowsPlain rows" "CHR 0x00 \<notin> set k"
  shows "map_of (desiredByID rows) (resourceMapKey k n) = None \<longleftrightarrow> mkID k n \<notin> dw_id ` set rows"
proof -
  have "resourceMapKey (ri_Kind (dw_id d)) (ri_Name (dw_id d)) = resourceMapKey k n \<longleftrightarrow> dw_id d = mkID k n"
    if "d \<in> set rows" for d
    using that assms resourceMapKey_inject [of "ri_Kind (dw_id d)" k] desiredKinds_plain
    by (cases "dw_id d") (auto simp: rowsPlain_def mkID_def)
  then have "find (\<lambda>d. resourceMapKey (ri_Kind (dw_id d)) (ri_Name (dw_id d)) = resourceMapKey k n) (rev rows) =
      find (\<lambda>d. dw_id d = mkID k n) (rev rows)"
    by (intro find_cong) auto
  moreover have "find (\<lambda>d. dw_id d = mkID k n) (rev rows) = None \<longleftrightarrow> mkID k n \<notin> dw_id ` set rows"
    by (simp add: find_None_iff image_iff) metis
  ultimately show ?thesis
    unfolding desiredByID_def fold_put_find
    by (cases "find (\<lambda>d. dw_id d = mkID k n) (rev rows)") simp_all
qed

subsection \<open>The operations of a plan\<close>

definition outdated :: "deploy_db \<Rightarrow> string \<Rightarrow> desired_row \<Rightarrow> bool" where
  "outdated db env d =
     (case lookRow db (ri_Kind (dw_id d), ri_Name (dw_id d), env) of
        None \<Rightarrow> True
      | Some (hash, json, time) \<Rightarrow> hash \<noteq> dw_hash d \<and> \<not> (json = dw_json d \<and> dw_execDigest d = []))"

lemma writeOps_spec:
  assumes "wf_db db" "plainKinds db" "\<forall>d \<in> set ds. ri_Kind (dw_id d) \<in> set desiredKinds"
    "writeOps T unmarshal (appliedByID (listAppliedResourcesByEnv env db)) ds = Inr ops"
  shows "list_all isWrite ops \<and>
    map (\<lambda>op. (po_Target op, po_SpecHash op, po_NormalizedSpecJSON op)) ops =
    map (\<lambda>d. (dw_id d, dw_hash d, dw_json d)) (filter (outdated db env) ds)"
  using assms(3,4)
proof (induction ds arbitrary: ops)
  case (Cons d ds)
  have look: "map_of (appliedByID (listAppliedResourcesByEnv env db)) (resourceMapKey (ri_Kind (dw_id d)) (ri_Name (dw_id d))) =
      rowAt rowKey (dd_resources db) (ri_Kind (dw_id d), ri_Name (dw_id d), env)"
    by (rule applied_lookup [OF assms(1,2)]) (use Cons.prems(1) desiredKinds_plain in auto)
  show ?case using Cons
    by (auto simp: look outdated_def lookRow_def valueOf_def andThen_def writeOp_def isWrite_def split: option.splits if_splits sum.splits)
qed simp

lemma writeOps_none:
  assumes "wf_db db" "plainKinds db" "\<forall>d \<in> set ds. ri_Kind (dw_id d) \<in> set desiredKinds" "\<forall>d \<in> set ds. \<not> outdated db env d"
  shows "writeOps T unmarshal (appliedByID (listAppliedResourcesByEnv env db)) ds = Inr []"
  using assms(3,4)
proof (induction ds)
  case (Cons d ds)
  have look: "map_of (appliedByID (listAppliedResourcesByEnv env db)) (resourceMapKey (ri_Kind (dw_id d)) (ri_Name (dw_id d))) =
      rowAt rowKey (dd_resources db) (ri_Kind (dw_id d), ri_Name (dw_id d), env)"
    by (rule applied_lookup [OF assms(1,2)]) (use Cons.prems(1) desiredKinds_plain in auto)
  show ?case using Cons
    by (auto simp: look outdated_def lookRow_def valueOf_def split: option.splits if_splits)
qed simp

lemma deleteOps_spec:
  assumes "plainKinds db" "rowsPlain ds"
  shows "deleteOps (desiredByID ds) (listAppliedResourcesByEnv env db) =
    map deleteOp (filter (\<lambda>r. mkID (apr_Kind r) (apr_Name r) \<notin> dw_id ` set ds) (listAppliedResourcesByEnv env db))"
  unfolding deleteOps_def
  by (rule arg_cong, rule filter_cong)
    (use assms desired_lookup in \<open>auto simp: listApplied_set plainKinds_def\<close>)


subsection \<open>The desired rows of a graph\<close>

definition live :: "desired_resource option gomap \<Rightarrow> desired_resource list" where
  "live m = List.map_filter snd m"

definition rowOf :: "string \<Rightarrow> (string \<Rightarrow> string) \<Rightarrow> desired_resource \<Rightarrow> desired_row" where
  "rowOf kind digest r =
     \<lparr>dw_id = mkID kind (dr_Name r), dw_json = the (dr_JSON r),
      dw_hash = WorkflowSpecHashWithExec (the (dr_JSON r)) (digest (dr_Name r)), dw_execDigest = digest (dr_Name r)\<rparr>"

definition resourcesOf :: "desired_graph \<Rightarrow> (string \<times> desired_resource list) list" where
  "resourcesOf g =
     [(''Project'', [dg_Project g]), (''Agent'', live (dg_Agents g)), (''Tool'', live (dg_Tools g)),
      (''Workflow'', live (dg_Workflows g)), (''Policy'', live (dg_Policies g)),
      (''Environment'', live (dg_Environments g))]"

definition digestFor :: "(string \<Rightarrow> string) \<Rightarrow> string \<Rightarrow> string \<Rightarrow> string" where
  "digestFor digest kind = (if kind = ''Workflow'' then digest else noDigest)"

definition allRows :: "(string \<Rightarrow> string) \<Rightarrow> desired_graph \<Rightarrow> desired_row list" where
  "allRows digest g = concat (map (\<lambda>(kind, rs). map (rowOf kind (digestFor digest kind)) rs) (resourcesOf g))"

text \<open>Every resource can be encoded, not to a blank text, and the names of a kind are unique.\<close>

definition wf_graph :: "desired_graph \<Rightarrow> bool" where
  "wf_graph g \<longleftrightarrow>
     (\<forall>(kind, rs) \<in> set (resourcesOf g). distinct (map dr_Name rs) \<and>
        (\<forall>r \<in> set rs. \<forall>raw. dr_JSON r = Some raw \<longrightarrow> TrimSpace raw \<noteq> []))"

definition encodable :: "desired_graph \<Rightarrow> bool" where
  "encodable g \<longleftrightarrow> (\<forall>(kind, rs) \<in> set (resourcesOf g). \<forall>r \<in> set rs. dr_JSON r \<noteq> None)"

lemma appendAll_spec:
  "appendAll kind digest m rows = Inr rows' \<longleftrightarrow>
     (\<forall>r \<in> set (live m). dr_JSON r \<noteq> None) \<and> rows' = rows @ map (rowOf kind digest) (live m)"
proof (induction kind digest m rows rule: appendAll.induct)
  case (3 kind digest k r m rows)
  then show ?case
    by (cases "dr_JSON r") (auto simp: appendDesired_def live_def List.map_filter_simps rowOf_def)
qed (auto simp: live_def List.map_filter_simps)

lemma andThen_Inr: "andThen r f = Inr y \<longleftrightarrow> (\<exists>x. r = Inr x \<and> f x = Inr y)"
  by (cases r) (simp_all add: andThen_def)

lemma appendDesired_spec:
  "appendDesired kind digest r rows = Inr rows' \<longleftrightarrow> dr_JSON r \<noteq> None \<and> rows' = rows @ [rowOf kind digest r]"
  by (auto simp: appendDesired_def rowOf_def split: option.split)

lemma desiredRows_spec:
  "desiredRows T quote g execs = Inr rows \<longleftrightarrow>
     encodable g \<and>
     rows = sort_key (\<lambda>r. (ri_Kind (dw_id r), ri_Name (dw_id r))) (allRows (\<lambda>n. digestOf T quote (deref execs n)) g)"
  unfolding desiredRows_def andThen_Inr appendAll_spec appendDesired_spec
  by (auto simp: encodable_def resourcesOf_def allRows_def digestFor_def)

lemma allRows_plain:
  assumes "wf_graph g"
  shows "rowsPlain (allRows digest g)"
proof -
  have "dw_id (rowOf kind dg r) = mkID kind (dr_Name r)" for kind dg r by (simp add: rowOf_def)
  then have ids: "map dw_id (map (rowOf kind dg) rs) = map (mkID kind) (map dr_Name rs)" for kind dg rs by simp
  have inj: "distinct ns \<Longrightarrow> distinct (map (mkID kind) ns)" for kind ns
    by (simp add: distinct_map inj_on_def mkID_def)
  have disj: "kind \<noteq> kind' \<Longrightarrow> mkID kind a \<noteq> mkID kind' b" for kind kind' a b
    by (simp add: mkID_def)
  have "distinct (map dw_id (allRows digest g))"
    using assms unfolding wf_graph_def resourcesOf_def allRows_def
    by (simp add: ids inj o_def rowOf_def distinct_map inj_on_def) (auto simp: mkID_def)
  moreover have "\<forall>d \<in> set (allRows digest g). ri_Kind (dw_id d) \<in> set desiredKinds"
    by (auto simp: allRows_def resourcesOf_def rowOf_def desiredKinds_def)
  ultimately show ?thesis by (simp add: rowsPlain_def)
qed

subsection \<open>Digests are not blank\<close>

lemma hexDigit_hex: "n < 16 \<Longrightarrow> hexDigit n \<in> set ''0123456789abcdef''"
  unfolding hexDigit_def by (rule nth_mem) simp

lemma hashHex_hex: "set (hashHex m) \<subseteq> set ''0123456789abcdef''"
proof -
  have "set (hexWord w) \<subseteq> set ''0123456789abcdef''" for w
    using hexDigit_hex by (auto simp: hexWord_def simp del: list.set)
  then show ?thesis by (auto simp: hashHex_def Let_def simp del: list.set)
qed

lemma trimmed_plain:
  assumes "\<forall>w \<in> set space_encodings. \<not> set w \<subseteq> set s"
  shows "trimmed s"
  using assms set_mono_prefix set_mono_suffix unfolding trimmed_def by blast

lemma trimmed_hashHex: "TrimSpace (hashHex m) = hashHex m"
proof (rule TrimSpace_trimmed, rule trimmed_plain)
  have "\<forall>w \<in> set space_encodings. \<not> set w \<subseteq> set ''0123456789abcdef''"
    by (simp add: space_encodings_def)
  then show "\<forall>w \<in> set space_encodings. \<not> set w \<subseteq> set (hashHex m)" using hashHex_hex by blast
qed

lemma trimmed_fingerprint: "DeploymentStateFingerprint env n db = Inr fp \<Longrightarrow> TrimSpace fp = fp \<and> fp \<noteq> []"
  by (auto simp: DeploymentStateFingerprint_def Let_def trimmed_hashHex split: if_splits)

lemma trimmed_WorkflowSpecHash: "TrimSpace (WorkflowSpecHashWithExec raw d) \<noteq> []"
  by (simp add: WorkflowSpecHashWithExec_def SpecHashHex_def trimmed_hashHex)

subsection \<open>The state a plan leads to\<close>

definition idKeyIn :: "string \<Rightarrow> resource_id \<Rightarrow> row_key" where
  "idKeyIn env i = (ri_Kind i, ri_Name i, env)"

lemma idKeyIn_inject [simp]: "idKeyIn env i = idKeyIn env j \<longleftrightarrow> i = j"
  by (cases i; cases j) (simp add: idKeyIn_def)

definition planOps :: "deploy_db \<Rightarrow> string \<Rightarrow> desired_row list \<Rightarrow> plan_operation list \<Rightarrow> plan_operation list" where
  "planOps db env ds writes =
     sortOperations (writes @ deleteOps (desiredByID ds) (listAppliedResourcesByEnv env db))"

text \<open>What holds of the operations planned for a well-formed store and well-formed desired rows.\<close>

definition planned :: "go_text \<Rightarrow> (string \<Rightarrow> any option) \<Rightarrow> deploy_db \<Rightarrow> string \<Rightarrow> desired_row list \<Rightarrow> plan_operation list \<Rightarrow> bool" where
  "planned T unmarshal db env ds writes \<longleftrightarrow>
     wf_db db \<and> plainKinds db \<and> rowsPlain ds \<and>
     (\<forall>d \<in> set ds. TrimSpace (dw_hash d) \<noteq> [] \<and> TrimSpace (dw_json d) \<noteq> []) \<and>
     writeOps T unmarshal (appliedByID (listAppliedResourcesByEnv env db)) ds = Inr writes"

lemma planned_writes:
  assumes "planned T unmarshal db env ds writes"
  shows "list_all isWrite writes"
    "map (\<lambda>op. (po_Target op, po_SpecHash op, po_NormalizedSpecJSON op)) writes =
       map (\<lambda>d. (dw_id d, dw_hash d, dw_json d)) (filter (outdated db env) ds)"
  using writeOps_spec [of db ds T unmarshal env writes] assms by (auto simp: planned_def rowsPlain_def)

lemma planned_deletes:
  assumes "planned T unmarshal db env ds writes"
  shows "deleteOps (desiredByID ds) (listAppliedResourcesByEnv env db) =
    map deleteOp (filter (\<lambda>r. mkID (apr_Kind r) (apr_Name r) \<notin> dw_id ` set ds) (listAppliedResourcesByEnv env db))"
  by (rule deleteOps_spec) (use assms in \<open>simp_all add: planned_def\<close>)

lemma deleteOp_not_write [simp]: "\<not> isWrite (deleteOp r)" "runnable (deleteOp r)"
  by (simp_all add: isWrite_def runnable_def deleteOp_def ActionCreate_def ActionUpdate_def ActionDelete_def)

lemma planned_runnable:
  assumes "planned T unmarshal db env ds writes"
  shows "list_all runnable (planOps db env ds writes)"
proof -
  have "(po_Target op, po_SpecHash op, po_NormalizedSpecJSON op) \<in> (\<lambda>d. (dw_id d, dw_hash d, dw_json d)) ` set ds"
    if "op \<in> set writes" for op
  proof -
    have "(po_Target op, po_SpecHash op, po_NormalizedSpecJSON op) \<in>
        set (map (\<lambda>op. (po_Target op, po_SpecHash op, po_NormalizedSpecJSON op)) writes)"
      using that by (auto intro: image_eqI [of _ _ op])
    then show ?thesis unfolding planned_writes(2) [OF assms] by auto
  qed
  then have "list_all runnable writes"
    using planned_writes(1) [OF assms] assms
    by (fastforce simp: list_all_iff runnable_def planned_def)
  then show ?thesis
    by (auto simp: planOps_def sortOperations_def planned_deletes [OF assms] list_all_iff)
qed

lemma planned_changes:
  assumes "planned T unmarshal db env ds writes"
  shows "set (map (changeOf env now) (planOps db env ds writes)) =
    (\<lambda>d. (idKeyIn env (dw_id d), Some (dw_hash d, dw_json d, now))) ` {d \<in> set ds. outdated db env d} \<union>
    (\<lambda>r. (rowKey r, None)) ` {r \<in> set (dd_resources db). apr_Env r = env \<and> mkID (apr_Kind r) (apr_Name r) \<notin> dw_id ` set ds}"
proof -
  let ?h = "\<lambda>(i, hash, json). (idKeyIn env i, Some (hash, json, now))"
  have "map (changeOf env now) writes =
      map ?h (map (\<lambda>op. (po_Target op, po_SpecHash op, po_NormalizedSpecJSON op)) writes)"
    using planned_writes(1) [OF assms] by (auto simp: changeOf_def opKey_def idKeyIn_def list_all_iff)
  then have "map (changeOf env now) writes =
      map (\<lambda>d. (idKeyIn env (dw_id d), Some (dw_hash d, dw_json d, now))) (filter (outdated db env) ds)"
    unfolding planned_writes(2) [OF assms] by simp
  then have w: "set (map (changeOf env now) writes) =
      (\<lambda>d. (idKeyIn env (dw_id d), Some (dw_hash d, dw_json d, now))) ` {d \<in> set ds. outdated db env d}"
    by (simp only: list.set_map set_filter)
  have del: "changeOf env now (deleteOp r) = (rowKey r, None)" if "apr_Env r = env" for r
    using that by (simp add: changeOf_def opKey_def) (simp add: deleteOp_def)
  have dels: "set (map f (filter P (listAppliedResourcesByEnv env db))) = g ` {r \<in> set (dd_resources db). apr_Env r = env \<and> P r}"
    if "\<And>r. apr_Env r = env \<Longrightarrow> f r = g r" for f g :: "applied_resource \<Rightarrow> row_key \<times> row_value option" and P
    using that by (auto simp: listApplied_set intro!: image_eqI)
  have d: "set (map (changeOf env now) (deleteOps (desiredByID ds) (listAppliedResourcesByEnv env db))) =
      (\<lambda>r. (rowKey r, None)) ` {r \<in> set (dd_resources db). apr_Env r = env \<and> mkID (apr_Kind r) (apr_Name r) \<notin> dw_id ` set ds}"
    unfolding planned_deletes [OF assms] map_map using del by (intro dels) simp
  show ?thesis using w d by (simp add: planOps_def sortOperations_def image_Un)
qed

lemma planned_distinct:
  assumes "planned T unmarshal db env ds writes"
  shows "distinct (map (opKey env) (planOps db env ds writes))"
proof -
  let ?dels = "deleteOps (desiredByID ds) (listAppliedResourcesByEnv env db)"
  have "map (opKey env) writes = map (idKeyIn env \<circ> fst) (map (\<lambda>op. (po_Target op, po_SpecHash op, po_NormalizedSpecJSON op)) writes)"
    by (simp add: opKey_def idKeyIn_def)
  then have w: "map (opKey env) writes = map (idKeyIn env) (map dw_id (filter (outdated db env) ds))"
    unfolding planned_writes(2) [OF assms] by simp
  have "distinct (map dw_id (filter (outdated db env) ds))"
    using assms by (simp add: planned_def rowsPlain_def distinct_map_filter)
  then have dw: "distinct (map (opKey env) writes)"
    unfolding w distinct_map [of "idKeyIn env"] by (simp add: inj_on_def)
  have "map (opKey env) ?dels = map (\<lambda>(k, n). (k, n, env)) (map idKey
      (filter (\<lambda>r. mkID (apr_Kind r) (apr_Name r) \<notin> dw_id ` set ds) (listAppliedResourcesByEnv env db)))"
    unfolding planned_deletes [OF assms] by (simp add: opKey_def idKey_def deleteOp_def)
  moreover have "distinct (map idKey
      (filter (\<lambda>r. mkID (apr_Kind r) (apr_Name r) \<notin> dw_id ` set ds) (listAppliedResourcesByEnv env db)))"
    using distinct_listApplied assms by (simp add: planned_def distinct_map_filter)
  ultimately have dd: "distinct (map (opKey env) ?dels)"
    by (simp only: distinct_map [of "\<lambda>(k, n). (k, n, env)"]) (simp add: inj_on_def split: prod.split)
  have "po_Target op \<notin> dw_id ` set ds" if "op \<in> set ?dels" for op
    using that unfolding planned_deletes [OF assms] by (auto simp: deleteOp_def)
  moreover have "opKey env op = idKeyIn env (po_Target op)" for op by (simp add: opKey_def idKeyIn_def)
  ultimately have "set (map (opKey env) writes) \<inter> set (map (opKey env) ?dels) = {}"
    unfolding w by fastforce
  then have "distinct (map (opKey env) (writes @ ?dels))" using dw dd by simp
  then show ?thesis by (simp add: planOps_def sortOperations_def distinct_map del: map_append)
qed

text \<open>The store after the operations, key by key.\<close>

lemma planned_result:
  fixes now :: utc_time
  assumes "planned T unmarshal db env ds writes"
  defines "db' \<equiv> fold rows.commit (map (changeOf env now) (planOps db env ds writes)) db"
  shows "e \<noteq> env \<Longrightarrow> lookRow db' (k, n, e) = lookRow db (k, n, e)"
    "mkID k n \<notin> dw_id ` set ds \<Longrightarrow> lookRow db' (k, n, env) = None"
    "d \<in> set ds \<Longrightarrow> lookRow db' (idKeyIn env (dw_id d)) =
       (if outdated db env d then Some (dw_hash d, dw_json d, now) else lookRow db (idKeyIn env (dw_id d)))"
proof -
  let ?cs = "map (changeOf env now) (planOps db env ds writes)"
  have dist: "distinct (map fst ?cs)" using planned_distinct [OF assms(1)] by (simp add: changeOf_def o_def)
  have look: "lookRow db' key = (case map_of ?cs key of None \<Rightarrow> lookRow db key | Some c \<Rightarrow> c)" for key
    unfolding db'_def by (rule rows.look_commits [OF dist])
  have mem: "map_of ?cs key = Some c \<longleftrightarrow>
      (key, c) \<in> (\<lambda>d. (idKeyIn env (dw_id d), Some (dw_hash d, dw_json d, now))) ` {d \<in> set ds. outdated db env d} \<union>
      (\<lambda>r. (rowKey r, None)) ` {r \<in> set (dd_resources db). apr_Env r = env \<and> mkID (apr_Kind r) (apr_Name r) \<notin> dw_id ` set ds}"
    for key c
    unfolding map_of_eq_Some_iff [OF dist] planned_changes [OF assms(1)] ..
  show "lookRow db' (k, n, e) = lookRow db (k, n, e)" if "e \<noteq> env"
    using that mem [of "(k, n, e)"] unfolding look by (auto simp: idKeyIn_def split: option.split)
  show "lookRow db' (k, n, env) = None" if "mkID k n \<notin> dw_id ` set ds"
  proof (cases "lookRow db (k, n, env)")
    case None
    then show ?thesis using that mem [of "(k, n, env)"] unfolding look
      by (auto simp: idKeyIn_def image_iff split: option.split)
  next
    case (Some v)
    then obtain r where "r \<in> set (dd_resources db)" "rowKey r = (k, n, env)"
      by (auto simp: lookRow_def dest: rowAt_key)
    then have "map_of ?cs (k, n, env) = Some None"
      using that unfolding mem by (intro UnI2 image_eqI [of _ _ r]) auto
    then show ?thesis by (simp add: look)
  qed
  show "lookRow db' (idKeyIn env (dw_id d)) =
       (if outdated db env d then Some (dw_hash d, dw_json d, now) else lookRow db (idKeyIn env (dw_id d)))"
    if d: "d \<in> set ds"
  proof -
    have uniq: "x \<in> set ds \<Longrightarrow> dw_id x = dw_id d \<Longrightarrow> x = d" for x
      using assms(1) d by (auto simp: planned_def rowsPlain_def distinct_map inj_on_def)
    have notDel: "rowKey r \<noteq> idKeyIn env (dw_id d)" if "mkID (apr_Kind r) (apr_Name r) \<notin> dw_id ` set ds" for r
      using that d by (force simp: idKeyIn_def)
    show ?thesis
    proof (cases "outdated db env d")
      case True
      then have "map_of ?cs (idKeyIn env (dw_id d)) = Some (Some (dw_hash d, dw_json d, now))"
        unfolding mem using d by (intro UnI1 image_eqI [of _ _ d]) auto
      then show ?thesis using True by (simp add: look)
    next
      case False
      then have "map_of ?cs (idKeyIn env (dw_id d)) \<noteq> Some c" for c
        unfolding mem using uniq notDel by (auto simp: image_iff) blast
      then have "map_of ?cs (idKeyIn env (dw_id d)) = None" by (metis not_None_eq)
      then show ?thesis using False by (simp add: look)
    qed
  qed
qed

subsection \<open>Planning and applying\<close>

lemma getApplied_rowAt: "getAppliedResource env i db = rowAt rowKey (dd_resources db) (idKeyIn env i)"
  by (auto simp: getAppliedResource_def rowAt_def idKeyIn_def intro: arg_cong2 [where f = find])

lemma lookRow_rowAt:
  "lookRow db k = lookRow db' k \<longleftrightarrow> rowAt rowKey (dd_resources db) k = rowAt rowKey (dd_resources db') k"
proof
  assume eq: "lookRow db k = lookRow db' k"
  have "r = s" if "rowAt rowKey (dd_resources db) k = Some r" "rowAt rowKey (dd_resources db') k = Some s"
      "valueOf r = valueOf s" for r s
    using rowAt_key [OF that(1)] rowAt_key [OF that(2)] that(3)
    by (cases r; cases s) (auto simp: valueOf_def)
  then show "rowAt rowKey (dd_resources db) k = rowAt rowKey (dd_resources db') k"
    using eq by (cases "rowAt rowKey (dd_resources db) k"; cases "rowAt rowKey (dd_resources db') k")
      (auto simp: lookRow_def)
qed (simp add: lookRow_def)

lemma lookRow_None: "lookRow db (idKeyIn env i) = None \<longleftrightarrow> getAppliedResource env i db = None"
  by (simp add: lookRow_def getApplied_rowAt)

lemma lookRow_project [simp]: "lookRow (upsertAppliedProject p db) = lookRow db" "plainKinds (upsertAppliedProject p db) = plainKinds db"
  by (simp_all add: fun_eq_iff lookRow_def plainKinds_def upsertAppliedProject_def)

lemma plainKinds_lookRow: "plainKinds db \<longleftrightarrow> (\<forall>k n e. lookRow db (k, n, e) \<noteq> None \<longrightarrow> CHR 0x00 \<notin> set k)"
proof -
  have "(\<exists>n e. lookRow db (k, n, e) \<noteq> None) \<longleftrightarrow> (\<exists>r \<in> set (dd_resources db). apr_Kind r = k)" for k
    by (auto simp: lookRow_def rowAt_None image_iff)
  then show ?thesis unfolding plainKinds_def by metis
qed

definition desiredOf :: "go_text \<Rightarrow> (string \<Rightarrow> string) \<Rightarrow> desired_graph \<Rightarrow> program option gomap \<Rightarrow> desired_row list" where
  "desiredOf T quote g execs =
     sort_key (\<lambda>r. (ri_Kind (dw_id r), ri_Name (dw_id r))) (allRows (\<lambda>n. digestOf T quote (deref execs n)) g)"

lemma desiredOf_ids: "map dw_id (desiredOf T quote g execs) = map dw_id (desiredOf T quote g [])"
proof -
  have "map dw_id (allRows a g) = map dw_id (allRows b g)" for a b
    by (simp add: allRows_def map_concat o_def rowOf_def split_def)
  then have "sort_key (\<lambda>i. (ri_Kind i, ri_Name i)) (map dw_id (allRows a g)) =
      sort_key (\<lambda>i. (ri_Kind i, ri_Name i)) (map dw_id (allRows b g))" for a b by metis
  then show ?thesis unfolding desiredOf_def
    unfolding sort_key_map [of "\<lambda>i. (ri_Kind i, ri_Name i)" dw_id, symmetric] by metis
qed

lemma find_only:
  assumes "x \<in> set xs" "P x" "\<And>y. y \<in> set xs \<Longrightarrow> P y \<Longrightarrow> y = x"
  shows "find P xs = Some x"
proof (cases "find P xs")
  case None
  then show ?thesis using assms(1,2) by (auto simp: find_None_iff)
next
  case (Some y)
  then have "P y" "y \<in> set xs" by (auto simp: find_Some_iff)
  then show ?thesis using Some assms(3) by simp
qed

lemma set_desiredOf: "set (desiredOf T quote g execs) = set (allRows (\<lambda>n. digestOf T quote (deref execs n)) g)"
  by (simp add: desiredOf_def)

lemma projectRow_desired: "projectRow (desiredOf T quote g execs) = Some (rowOf ''Project'' noDigest (dg_Project g))"
  unfolding projectRow_def
  by (rule find_only) (auto simp: set_desiredOf allRows_def resourcesOf_def digestFor_def rowOf_def)

lemma desiredOf_planned:
  assumes "wf_db db" "plainKinds db" "wf_graph g" "encodable g"
    "writeOps T unmarshal (appliedByID (listAppliedResourcesByEnv env db)) (desiredOf T quote g execs) = Inr writes"
  shows "planned T unmarshal db env (desiredOf T quote g execs) writes"
proof -
  have "rowsPlain (desiredOf T quote g execs)"
    using allRows_plain [OF assms(3)] by (simp add: desiredOf_def rowsPlain_def distinct_map)
  moreover have "TrimSpace (dw_hash d) \<noteq> [] \<and> TrimSpace (dw_json d) \<noteq> []" if "d \<in> set (desiredOf T quote g execs)" for d
  proof -
    from that obtain kind rs dg r where kr: "(kind, rs) \<in> set (resourcesOf g)" "r \<in> set rs" and d: "d = rowOf kind dg r"
      by (auto simp: desiredOf_def allRows_def)
    have some: "dr_JSON r \<noteq> None" using assms(4) kr unfolding encodable_def by fast
    have "\<forall>raw. dr_JSON r = Some raw \<longrightarrow> TrimSpace raw \<noteq> []" using assms(3) kr unfolding wf_graph_def by fast
    then show ?thesis using some by (auto simp: d rowOf_def trimmed_WorkflowSpecHash)
  qed
  ultimately show ?thesis using assms by (simp add: planned_def)
qed

lemma ComputePlan_spec:
  "ComputePlan T quote unmarshal env (Some g) execs db = Inr p \<longleftrightarrow>
     env \<noteq> [] \<and> encodable g \<and> dr_Name (dg_Project g) \<noteq> [] \<and>
     (\<exists>writes fp.
        writeOps T unmarshal (appliedByID (listAppliedResourcesByEnv env db)) (desiredOf T quote g execs) = Inr writes \<and>
        DeploymentStateFingerprint env (dr_Name (dg_Project g)) db = Inr fp \<and>
        p = \<lparr>pl_Operations = planOps db env (desiredOf T quote g execs) writes, pl_DeploymentBaseline = fp,
             pl_InvocationBounds = invocationBounds execs\<rparr>)"
proof -
  have name: "ri_Name (dw_id (rowOf ''Project'' noDigest (dg_Project g))) = dr_Name (dg_Project g)" by (simp add: rowOf_def)
  have ds: "desiredRows T quote g execs = Inr rows \<longleftrightarrow> encodable g \<and> rows = desiredOf T quote g execs" for rows
    unfolding desiredRows_spec desiredOf_def ..
  show ?thesis
    unfolding ComputePlan_def option.case
    by (auto simp: andThen_Inr ds projectRow_desired Let_def name planOps_def)
qed

lemma desiredRows_desiredOf: "encodable g \<Longrightarrow> desiredRows T quote g execs = Inr (desiredOf T quote g execs)"
  by (simp add: desiredRows_spec desiredOf_def)

lemma ProjectDeploymentMeta_spec:
  "encodable g \<Longrightarrow> \<exists>v. ProjectDeploymentMeta T quote (Some g) = Inr (dr_Name (dg_Project g), v)"
  by (simp add: ProjectDeploymentMeta_def desiredRows_desiredOf andThen_def projectRow_desired rowOf_def)

lemma ApplyPlan_fresh:
  assumes "wf_db db" "plainKinds db" "wf_graph g" "ComputePlan T quote unmarshal env (Some g) execs db = Inr p"
  obtains writes v where "planned T unmarshal db env (desiredOf T quote g execs) writes"
    "ApplyPlan T quote env (Some g) (Some p) now db = (None, upsertAppliedProject
      \<lparr>apj_ProjectName = dr_Name (dg_Project g), apj_Env = env, apj_Version = v, apj_AppliedAt = now\<rparr>
      (fold rows.commit (map (changeOf env now) (planOps db env (desiredOf T quote g execs) writes)) db))"
proof -
  from assms(4) obtain writes fp where env: "env \<noteq> []" and enc: "encodable g"
    and w: "writeOps T unmarshal (appliedByID (listAppliedResourcesByEnv env db)) (desiredOf T quote g execs) = Inr writes"
    and fp: "DeploymentStateFingerprint env (dr_Name (dg_Project g)) db = Inr fp"
    and p: "pl_Operations p = planOps db env (desiredOf T quote g execs) writes" "pl_DeploymentBaseline p = fp"
    unfolding ComputePlan_spec by auto
  have pl: "planned T unmarshal db env (desiredOf T quote g execs) writes"
    using assms(1-3) enc w by (rule desiredOf_planned)
  obtain v where "ProjectDeploymentMeta T quote (Some g) = Inr (dr_Name (dg_Project g), v)"
    using ProjectDeploymentMeta_spec [OF enc] by blast
  then show ?thesis
    using that [OF pl, of v] env fp trimmed_fingerprint [OF fp] executeOps_commit [OF planned_runnable [OF pl], of env now db]
    by (simp add: ApplyPlan_def ApplyPlanAndFinalize_def RunDeploymentTx_def assertDeploymentBaseline_def liftPlan_def
        andThen_def executePlan_def p)
qed

lemma planned_converged:
  assumes "planned T unmarshal db env ds writes"
    and "\<And>k. lookRow db' k = lookRow (fold rows.commit (map (changeOf env now) (planOps db env ds writes)) db) k"
    and "wf_db db'" "plainKinds db'"
  shows "planned T unmarshal db' env ds []" "planOps db' env ds [] = []"
proof -
  have kinds: "\<forall>d \<in> set ds. ri_Kind (dw_id d) \<in> set desiredKinds" using assms(1) by (simp add: planned_def rowsPlain_def)
  have "\<not> outdated db' env d" if "d \<in> set ds" for d
    using planned_result(3) [OF assms(1) that, of now] unfolding outdated_def idKeyIn_def [symmetric] assms(2)
    by (auto split: option.splits if_splits)
  then have "writeOps T unmarshal (appliedByID (listAppliedResourcesByEnv env db')) ds = Inr []"
    by (intro writeOps_none assms(3,4) kinds) auto
  then show p: "planned T unmarshal db' env ds []" using assms by (simp add: planned_def)
  have "mkID (apr_Kind r) (apr_Name r) \<in> dw_id ` set ds" if "r \<in> set (listAppliedResourcesByEnv env db')" for r
  proof (rule ccontr)
    assume "mkID (apr_Kind r) (apr_Name r) \<notin> dw_id ` set ds"
    then have "lookRow db' (apr_Kind r, apr_Name r, env) = None"
      unfolding assms(2) by (rule planned_result(2) [OF assms(1)])
    then show False using that by (auto simp: lookRow_def rowAt_None listApplied_set)
  qed
  then have "filter (\<lambda>r. mkID (apr_Kind r) (apr_Name r) \<notin> dw_id ` set ds) (listAppliedResourcesByEnv env db') = []"
    by (simp add: filter_empty_conv)
  then show "planOps db' env ds [] = []"
    unfolding planOps_def planned_deletes [OF p] by (simp add: sortOperations_def)
qed

text \<open>What a successful application leaves in the store, whatever project row it records.\<close>

lemma planned_store:
  fixes now :: utc_time
  assumes pl: "planned T unmarshal db env ds writes"
  defines "db1 \<equiv> fold rows.commit (map (changeOf env now) (planOps db env ds writes)) db"
  shows "wf_db db1" "plainKinds db1"
    "\<And>d. d \<in> set ds \<Longrightarrow> lookRow db1 (idKeyIn env (dw_id d)) \<noteq> None"
proof -
  show "wf_db db1" using pl by (simp add: db1_def commits_wf planned_def)
  show "lookRow db1 (idKeyIn env (dw_id d)) \<noteq> None" if "d \<in> set ds" for d
    unfolding db1_def planned_result(3) [OF pl that]
    by (cases "lookRow db (idKeyIn env (dw_id d))") (auto simp: outdated_def idKeyIn_def)
  have kinds: "CHR 0x00 \<notin> set (ri_Kind i)" if "i \<in> dw_id ` set ds" for i
    using pl that desiredKinds_plain by (auto simp: planned_def rowsPlain_def)
  show "plainKinds db1"
    unfolding plainKinds_lookRow
  proof (intro allI impI)
    fix k n e
    assume some: "lookRow db1 (k, n, e) \<noteq> None"
    show "CHR 0x00 \<notin> set k"
    proof (cases "e = env")
      case True
      then have "mkID k n \<in> dw_id ` set ds" using some planned_result(2) [OF pl] unfolding db1_def by metis
      from kinds [OF this] show ?thesis by simp
    next
      case False
      then have "lookRow db (k, n, e) \<noteq> None" using some planned_result(1) [OF pl] unfolding db1_def by metis
      then show ?thesis using pl plainKinds_lookRow unfolding planned_def by metis
    qed
  qed
qed

text \<open>
  C11. Applying a plan to the state it was computed from succeeds and converges: the deployed resources of
  the environment are then exactly the desired ones, planning again gives no operation, and the rows of
  other environments are untouched.
\<close>

theorem apply_converges:
  assumes "wf_db db" "plainKinds db" "wf_graph g" "ComputePlan T quote unmarshal env (Some g) execs db = Inr p"
  shows "\<exists>db' p' ids.
    ApplyPlan T quote env (Some g) (Some p) now db = (None, db') \<and> wf_db db' \<and>
    ComputePlan T quote unmarshal env (Some g) execs db' = Inr p' \<and> pl_Operations p' = [] \<and>
    ListDesiredResourceIDs T quote (Some g) = Inr ids \<and>
    (\<forall>i. getAppliedResource env i db' \<noteq> None \<longleftrightarrow> i \<in> set ids) \<and>
    (\<forall>env' i. env' \<noteq> env \<longrightarrow> getAppliedResource env' i db' = getAppliedResource env' i db)"
proof -
  let ?ds = "desiredOf T quote g execs"
  obtain writes v where pl: "planned T unmarshal db env ?ds writes"
    and ap: "ApplyPlan T quote env (Some g) (Some p) now db = (None, upsertAppliedProject
      \<lparr>apj_ProjectName = dr_Name (dg_Project g), apj_Env = env, apj_Version = v, apj_AppliedAt = now\<rparr>
      (fold rows.commit (map (changeOf env now) (planOps db env ?ds writes)) db))"
    using ApplyPlan_fresh [OF assms] by metis
  define db1 where "db1 = fold rows.commit (map (changeOf env now) (planOps db env ?ds writes)) db"
  define db' where "db' = upsertAppliedProject
      \<lparr>apj_ProjectName = dr_Name (dg_Project g), apj_Env = env, apj_Version = v, apj_AppliedAt = now\<rparr> db1"
  have look: "lookRow db' k = lookRow db1 k" for k by (simp add: db'_def)
  note store = planned_store [OF pl, where now = now, folded db1_def]
  have wf: "wf_db db'" and plain: "plainKinds db'" using store by (simp_all add: db'_def wf_db_ops)
  have res: "e \<noteq> env \<Longrightarrow> lookRow db' (k, n, e) = lookRow db (k, n, e)"
    "mkID k n \<notin> dw_id ` set ?ds \<Longrightarrow> lookRow db' (k, n, env) = None" for k n e
    unfolding look db1_def using planned_result(1,2) [OF pl] by blast+
  have des: "lookRow db' (idKeyIn env (dw_id d)) \<noteq> None" if "d \<in> set ?ds" for d
    unfolding look using store(3) [OF that] .
  note conv = planned_converged [OF pl look [unfolded db1_def] wf plain]
  from assms(4) have enc: "encodable g" "env \<noteq> []" "dr_Name (dg_Project g) \<noteq> []"
    and fp: "\<exists>fp. DeploymentStateFingerprint env (dr_Name (dg_Project g)) db = Inr fp"
    unfolding ComputePlan_spec by auto
  from fp obtain fp' where "DeploymentStateFingerprint env (dr_Name (dg_Project g)) db' = Inr fp'"
    by (auto simp: DeploymentStateFingerprint_def Let_def split: if_splits)
  then have "\<exists>p'. ComputePlan T quote unmarshal env (Some g) execs db' = Inr p' \<and> pl_Operations p' = []"
    using enc conv by (auto simp: ComputePlan_spec planned_def)
  moreover have "ListDesiredResourceIDs T quote (Some g) = Inr (map dw_id (desiredOf T quote g []))"
    using enc(1) by (simp add: ListDesiredResourceIDs_def desiredRows_desiredOf andThen_def)
  moreover have "getAppliedResource env i db' \<noteq> None \<longleftrightarrow> i \<in> set (map dw_id (desiredOf T quote g []))" for i
    unfolding desiredOf_ids [of T quote g execs, symmetric] lookRow_None [symmetric]
    using des res(2) [of "ri_Kind i" "ri_Name i"] by (auto simp: idKeyIn_def) blast
  moreover have "getAppliedResource env' i db' = getAppliedResource env' i db" if "env' \<noteq> env" for env' i
    using res(1) [OF that] by (simp add: getApplied_rowAt idKeyIn_def lookRow_rowAt)
  moreover have "ApplyPlan T quote env (Some g) (Some p) now db = (None, db')" by (simp add: ap db'_def db1_def)
  ultimately show ?thesis using wf by blast
qed

definition demo_now :: utc_time where
  "demo_now = \<lparr>ut_Year = 2026, ut_Month = 1, ut_Day = 2, ut_Hour = 3, ut_Minute = 4, ut_Second = 5,
     ut_Nanosecond = 0\<rparr>"

definition demo_row :: applied_resource where
  "demo_row = \<lparr>apr_Kind = ''Tool'', apr_Name = ''old'', apr_Env = ''dev'', apr_SpecHash = ''00'',
     apr_NormalizedSpecJSON = ''{}'', apr_AppliedAt = demo_now\<rparr>"

definition demo_db :: deploy_db where
  "demo_db = \<lparr>dd_resources = [demo_row], dd_projects = [], dd_artifacts = [], dd_snapshots = [], dd_current = [], dd_runRefs = []\<rparr>"

definition demo_desired :: desired_graph where
  "demo_desired = \<lparr>dg_Project = \<lparr>dr_Name = ''p'', dr_JSON = Some ''{}''\<rparr>,
     dg_Agents = [(''a'', Some \<lparr>dr_Name = ''a'', dr_JSON = Some ''{}''\<rparr>), (''b'', None)],
     dg_Tools = [], dg_Workflows = [], dg_Policies = [], dg_Environments = []\<rparr>"

lemma demo_desired_ok: "wf_db demo_db" "plainKinds demo_db" "wf_graph demo_desired" "encodable demo_desired"
proof -
  have "TrimSpace ''{}'' \<noteq> []" by code_simp
  then show "wf_graph demo_desired"
    by (simp add: wf_graph_def resourcesOf_def demo_desired_def live_def List.map_filter_simps)
qed (simp_all add: wf_db_def plainKinds_def demo_db_def demo_row_def encodable_def resourcesOf_def demo_desired_def live_def
    List.map_filter_simps)

lemma demo_plan: "\<exists>p. ComputePlan T quote unmarshal ''dev'' (Some demo_desired) [] demo_db = Inr p"
proof -
  have "TrimSpace ''dev'' \<noteq> []" "TrimSpace ''p'' \<noteq> []" by code_simp+
  then have "\<exists>fp. DeploymentStateFingerprint ''dev'' ''p'' demo_db = Inr fp"
    by (simp add: DeploymentStateFingerprint_def)
  moreover have "map_of (appliedByID (listAppliedResourcesByEnv ''dev'' demo_db)) (resourceMapKey k n) = None"
    if "mkID k n \<in> dw_id ` set (desiredOf T quote demo_desired [])" for k n
    using that
    by (auto simp: set_desiredOf allRows_def resourcesOf_def demo_desired_def demo_db_def demo_row_def live_def rowOf_def
        mkID_def appliedByID_def listAppliedResourcesByEnv_def resourceMapKey_def List.map_filter_simps)
  then have "\<exists>w. writeOps T unmarshal (appliedByID (listAppliedResourcesByEnv ''dev'' demo_db)) ds = Inr w"
    if "set ds \<subseteq> set (desiredOf T quote demo_desired [])" for ds
    using that
  proof (induction ds)
    case (Cons d ds)
    then have "map_of (appliedByID (listAppliedResourcesByEnv ''dev'' demo_db))
        (resourceMapKey (ri_Kind (dw_id d)) (ri_Name (dw_id d))) = None"
      by auto
    with Cons show ?case by (auto simp: andThen_def)
  qed simp
  moreover have "dr_Name (dg_Project demo_desired) = ''p''" by (simp add: demo_desired_def)
  ultimately show ?thesis
    using demo_desired_ok(4) unfolding ComputePlan_spec by auto
qed

theorem apply_converges_witness:
  "\<exists>p db' p' ids.
    ComputePlan demo_digest_text demo_quote (\<lambda>_. None) ''dev'' (Some demo_desired) [] demo_db = Inr p \<and>
    ApplyPlan demo_digest_text demo_quote ''dev'' (Some demo_desired) (Some p) demo_now demo_db = (None, db') \<and> wf_db db' \<and>
    ComputePlan demo_digest_text demo_quote (\<lambda>_. None) ''dev'' (Some demo_desired) [] db' = Inr p' \<and> pl_Operations p' = [] \<and>
    ListDesiredResourceIDs demo_digest_text demo_quote (Some demo_desired) = Inr ids \<and>
    (\<forall>i. getAppliedResource ''dev'' i db' \<noteq> None \<longleftrightarrow> i \<in> set ids) \<and>
    (\<forall>env' i. env' \<noteq> ''dev'' \<longrightarrow> getAppliedResource env' i db' = getAppliedResource env' i demo_db)"
  using apply_converges [OF demo_desired_ok(1-3)] demo_plan by metis

subsection \<open>Stale plans\<close>

text \<open>The deployed state a plan is computed from, and the assumption on it: no separator in a field.\<close>

definition rowContent :: "applied_resource \<Rightarrow> string \<times> string \<times> string \<times> string" where
  "rowContent r = (apr_Kind r, apr_Name r, apr_SpecHash r, apr_NormalizedSpecJSON r)"

definition deployedState :: "string \<Rightarrow> string \<Rightarrow> deploy_db \<Rightarrow> (string \<times> string \<times> string \<times> string) list \<times> string option" where
  "deployedState env projectName db =
     (map rowContent (listAppliedResourcesByEnv env db), map_option apj_Version (getAppliedProject env projectName db))"

definition noSeps :: "string \<Rightarrow> bool" where
  "noSeps s \<longleftrightarrow> CHR 0x00 \<notin> set s \<and> CHR 0x0A \<notin> set s"

definition plainRow :: "applied_resource \<Rightarrow> bool" where
  "plainRow r \<longleftrightarrow> noSeps (apr_Kind r) \<and> noSeps (apr_Name r) \<and> noSeps (apr_SpecHash r) \<and>
     CHR 0x0A \<notin> set (apr_NormalizedSpecJSON r)"

definition plainState :: "deploy_db \<Rightarrow> bool" where
  "plainState db \<longleftrightarrow> list_all plainRow (dd_resources db) \<and>
     list_all (\<lambda>p. noSeps (apj_ProjectName p) \<and> noSeps (apj_Env p) \<and> noSeps (apj_Version p)) (dd_projects db)"

definition rowText :: "applied_resource \<Rightarrow> string" where
  "rowText r = apr_Kind r @ CHR 0x00 # apr_Name r @ CHR 0x00 # apr_SpecHash r @ CHR 0x00 # apr_NormalizedSpecJSON r"

definition projectText :: "applied_project option \<Rightarrow> string" where
  "projectText p =
     (case p of
        None \<Rightarrow> ''applied_projects'' @ CHR 0x00 # ''MISSING''
      | Some a \<Rightarrow> ''applied_projects'' @ CHR 0x00 # apj_ProjectName a @ CHR 0x00 # apj_Env a @ CHR 0x00 # apj_Version a)"

lemma lines_inject:
  "concat (map (\<lambda>l. l @ [c]) ls) = concat (map (\<lambda>l. l @ [c]) ls') \<Longrightarrow>
   \<forall>l \<in> set ls. c \<notin> set l \<Longrightarrow> \<forall>l \<in> set ls'. c \<notin> set l \<Longrightarrow> ls = ls'"
proof (induction ls arbitrary: ls')
  case Nil
  then show ?case by (cases ls') auto
next
  case (Cons l ls)
  then obtain m ms where ls': "ls' = m # ms" by (cases ls') auto
  have "l = m \<and> concat (map (\<lambda>l. l @ [c]) ls) = concat (map (\<lambda>l. l @ [c]) ms)"
    by (rule separated_inject [where c = c]) (use Cons.prems ls' in auto)
  then show ?case using Cons ls' by simp
qed

lemma rowText_inject:
  assumes "rowText r = rowText s" "plainRow r" "plainRow s"
  shows "rowContent r = rowContent s"
proof -
  have k: "apr_Kind r = apr_Kind s \<and> apr_Name r @ CHR 0x00 # apr_SpecHash r @ CHR 0x00 # apr_NormalizedSpecJSON r =
      apr_Name s @ CHR 0x00 # apr_SpecHash s @ CHR 0x00 # apr_NormalizedSpecJSON s"
    using separated_inject [OF assms(1) [unfolded rowText_def]] assms(2,3) by (simp add: plainRow_def noSeps_def)
  have n: "apr_Name r = apr_Name s \<and> apr_SpecHash r @ CHR 0x00 # apr_NormalizedSpecJSON r =
      apr_SpecHash s @ CHR 0x00 # apr_NormalizedSpecJSON s"
    using separated_inject [OF k [THEN conjunct2]] assms(2,3) by (simp add: plainRow_def noSeps_def)
  have "apr_SpecHash r = apr_SpecHash s \<and> apr_NormalizedSpecJSON r = apr_NormalizedSpecJSON s"
    using separated_inject [OF n [THEN conjunct2]] assms(2,3) by (simp add: plainRow_def noSeps_def)
  with k n show ?thesis by (simp add: rowContent_def)
qed

lemma rowTexts_inject:
  "map rowText rs = map rowText ss \<Longrightarrow> list_all plainRow rs \<Longrightarrow> list_all plainRow ss \<Longrightarrow> map rowContent rs = map rowContent ss"
proof (induction rs arbitrary: ss)
  case (Cons r rs)
  then obtain s ss' where ss: "ss = s # ss'" by (cases ss) auto
  then have "rowContent r = rowContent s" using Cons.prems by (intro rowText_inject) simp_all
  moreover have "map rowContent rs = map rowContent ss'" using Cons.prems ss by (intro Cons.IH) simp_all
  ultimately show ?case using ss by simp
qed simp

lemma projectText_inject:
  assumes "projectText p = projectText q"
    and "\<forall>a. p = Some a \<or> q = Some a \<longrightarrow> noSeps (apj_ProjectName a) \<and> noSeps (apj_Env a) \<and> noSeps (apj_Version a)"
  shows "map_option apj_Version p = map_option apj_Version q"
proof -
  let ?rest = "\<lambda>a. apj_ProjectName a @ CHR 0x00 # apj_Env a @ CHR 0x00 # apj_Version a"
  have no: "''MISSING'' \<noteq> ?rest a" for a
  proof
    assume "''MISSING'' = ?rest a"
    from this [symmetric] have "CHR 0x00 \<in> set ''MISSING''" by (metis in_set_conv_decomp)
    then show False by simp
  qed
  have "apj_Version a = apj_Version b"
    if "?rest a = ?rest b" "noSeps (apj_ProjectName a)" "noSeps (apj_ProjectName b)" "noSeps (apj_Env a)" "noSeps (apj_Env b)" for a b
  proof -
    have "apj_Env a @ CHR 0x00 # apj_Version a = apj_Env b @ CHR 0x00 # apj_Version b"
      using separated_inject [OF that(1)] that by (simp add: noSeps_def)
    from separated_inject [OF this] that show ?thesis by (simp add: noSeps_def)
  qed
  note versions = this
  show ?thesis
  proof (cases p)
    case None
    then have "q = None" using assms(1) no by (cases q) (auto simp: projectText_def)
    then show ?thesis using None by simp
  next
    case (Some a)
    then obtain b where q: "q = Some b"
      using assms(1) not_sym [OF no, of a] by (cases q) (simp_all add: projectText_def)
    show ?thesis using versions [of a b] assms Some q by (simp add: projectText_def)
  qed
qed

lemma fingerprintText_inject:
  assumes "fingerprintText env n db = fingerprintText env n db2" "plainState db" "plainState db2"
  shows "deployedState env n db = deployedState env n db2"
proof -
  let ?lines = "\<lambda>db. map rowText (listAppliedResourcesByEnv env db) @ [projectText (getAppliedProject env n db)]"
  have lines: "fingerprintText env n db = concat (map (\<lambda>l. l @ [CHR 0x0A]) (?lines db))" for db
  proof -
    have "rowLine = (\<lambda>r. rowText r @ [CHR 0x0A])" by (simp add: fun_eq_iff rowLine_def rowText_def)
    moreover have "projectLine p = projectText p @ [CHR 0x0A]" for p
      by (simp add: projectLine_def projectText_def split: option.split)
    ultimately show ?thesis
      by (simp add: fingerprintText_def listAppliedResourcesByEnv_def sort_key_idem o_def)
  qed
  have rows: "list_all plainRow (listAppliedResourcesByEnv env db)" if "plainState db" for db
    using that by (auto simp: plainState_def list_all_iff listApplied_set)
  have proj: "noSeps (apj_ProjectName a) \<and> noSeps (apj_Env a) \<and> noSeps (apj_Version a)"
    if "plainState db" "getAppliedProject env n db = Some a" for db a
    using that by (auto simp: plainState_def list_all_iff getAppliedProject_def find_Some_iff)
  have nl: "\<forall>l \<in> set (?lines db). CHR 0x0A \<notin> set l" if p: "plainState db" for db
  proof -
    have "CHR 0x0A \<notin> set (rowText r)" if "plainRow r" for r
      using that by (simp add: rowText_def plainRow_def noSeps_def)
    moreover have "CHR 0x0A \<notin> set (projectText (getAppliedProject env n db))"
      using proj [OF p] by (cases "getAppliedProject env n db") (simp_all add: projectText_def noSeps_def)
    ultimately show ?thesis using rows [OF p] by (simp add: list_all_iff)
  qed
  have "?lines db = ?lines db2"
    by (rule lines_inject [OF assms(1) [unfolded lines]]) (rule nl assms)+
  then have "map rowText (listAppliedResourcesByEnv env db) = map rowText (listAppliedResourcesByEnv env db2)"
    "projectText (getAppliedProject env n db) = projectText (getAppliedProject env n db2)" by simp_all
  then have "map rowContent (listAppliedResourcesByEnv env db) = map rowContent (listAppliedResourcesByEnv env db2)"
    "map_option apj_Version (getAppliedProject env n db) = map_option apj_Version (getAppliedProject env n db2)"
    using rows assms(2,3) proj by (blast intro: rowTexts_inject projectText_inject)+
  then show ?thesis by (simp add: deployedState_def)
qed

text \<open>
  C12. A plan is not applied to a state it was not computed from: when the rows of the environment or the
  deployed project version differ from what the plan was computed from, the application reports that the
  state has changed and leaves the store as it is, or the two states are a SHA-256 collision.
\<close>

theorem stale_plan_rejected:
  assumes "ComputePlan T quote unmarshal env (Some g) execs db = Inr p" "TrimSpace env = env"
    and "plainState db" "plainState db2"
    and "deployedState env (TrimSpace (dr_Name (dg_Project g))) db \<noteq> deployedState env (TrimSpace (dr_Name (dg_Project g))) db2"
  shows "ApplyPlanAndFinalize T quote env (Some g) (Some p) now finalize db2 = (Some ErrDeploymentStateChanged, db2) \<or>
    (let a = fingerprintText env (TrimSpace (dr_Name (dg_Project g))) db;
         b = fingerprintText env (TrimSpace (dr_Name (dg_Project g))) db2
     in a \<noteq> b \<and> hashHex a = hashHex b)"
proof -
  let ?n = "TrimSpace (dr_Name (dg_Project g))"
  from assms(1,2) have env: "env \<noteq> []" and enc: "encodable g" and n: "?n \<noteq> []"
    and p: "pl_DeploymentBaseline p = hashHex (fingerprintText env ?n db)"
    unfolding ComputePlan_spec by (auto simp: DeploymentStateFingerprint_def Let_def split: if_splits)
  obtain v where meta: "ProjectDeploymentMeta T quote (Some g) = Inr (dr_Name (dg_Project g), v)"
    using ProjectDeploymentMeta_spec [OF enc] by blast
  have "fingerprintText env ?n db \<noteq> fingerprintText env ?n db2"
    using fingerprintText_inject assms(3-5) by blast
  moreover have "ApplyPlanAndFinalize T quote env (Some g) (Some p) now finalize db2 = (Some ErrDeploymentStateChanged, db2)"
    if "hashHex (fingerprintText env ?n db) \<noteq> hashHex (fingerprintText env ?n db2)"
    using that env n meta assms(2)
    by (simp add: ApplyPlanAndFinalize_def RunDeploymentTx_def assertDeploymentBaseline_def p trimmed_hashHex andThen_def
        DeploymentStateFingerprint_def Let_def liftPlan_def)
  ultimately show ?thesis by (auto simp: Let_def)
qed

definition demo_changed_db :: deploy_db where
  "demo_changed_db = upsertAppliedResource (demo_row\<lparr>apr_SpecHash := ''11''\<rparr>) demo_db"

theorem stale_plan_rejected_witness:
  "\<exists>p. ComputePlan demo_digest_text demo_quote (\<lambda>_. None) ''dev'' (Some demo_desired) [] demo_db = Inr p \<and>
     (ApplyPlanAndFinalize demo_digest_text demo_quote ''dev'' (Some demo_desired) (Some p) demo_now None demo_changed_db =
        (Some ErrDeploymentStateChanged, demo_changed_db) \<or>
      (let a = fingerprintText ''dev'' (TrimSpace (dr_Name (dg_Project demo_desired))) demo_db;
           b = fingerprintText ''dev'' (TrimSpace (dr_Name (dg_Project demo_desired))) demo_changed_db
       in a \<noteq> b \<and> hashHex a = hashHex b))"
proof -
  have env: "TrimSpace ''dev'' = ''dev''" by code_simp
  have plain: "plainState demo_db" "plainState demo_changed_db" by code_simp+
  have differ: "deployedState ''dev'' (TrimSpace (dr_Name (dg_Project demo_desired))) demo_db \<noteq>
      deployedState ''dev'' (TrimSpace (dr_Name (dg_Project demo_desired))) demo_changed_db" by code_simp
  obtain p where "ComputePlan demo_digest_text demo_quote (\<lambda>_. None) ''dev'' (Some demo_desired) [] demo_db = Inr p"
    using demo_plan by blast
  with stale_plan_rejected [OF this env plain differ, of demo_now None] show ?thesis by blast
qed

end
