(* ===== verification/Lang_Lexer.thy ===== *)
theory Lang_Lexer
  imports Json_Num
begin

text \<open>
  The lexer of the agent language (\<open>internal/lang/token.go\<close>, \<open>lexer.go\<close>). The byte offset of the
  Go lexer is the split of the source into what has been consumed, newest byte first, and the
  rest; a rune is its UTF-8 encoding. Every token carries its line and column; the file name,
  which is the same for all of them, is left out.
\<close>

subsection \<open>Tokens\<close>

datatype kind =
    KindError | KindEOF | KindIdent
  | KindAgent | KindWorkflow | KindParallel | KindReturn | KindIf | KindElse | KindFor | KindWhile
  | KindLBrace | KindRBrace | KindLParen | KindRParen | KindDot | KindSlash | KindComma | KindColon
  | KindEquals | KindArrow
  | KindEqEq | KindBangEq | KindLt | KindLte | KindGt | KindGte | KindAndAnd | KindOrOr | KindBang
  | KindString | KindNumber

record pos =
  ps_Line :: nat
  ps_Column :: nat

record token =
  tk_Kind :: kind
  tk_Lit :: string
  tk_Pos :: pos

definition keywordKinds :: "(string \<times> kind) list" where
  "keywordKinds =
     [(''agent'', KindAgent), (''workflow'', KindWorkflow), (''parallel'', KindParallel), (''return'', KindReturn),
      (''if'', KindIf), (''else'', KindElse), (''for'', KindFor), (''while'', KindWhile)]"

datatype lex_error =
    UnexpectedRune string
  | UnterminatedString
  | UnterminatedMultiline
  | UnknownEscape string

record comment =
  cm_Pos :: pos
  cm_Text :: string
  cm_Standalone :: bool

record lexer =
  lx_before :: string
  lx_rest :: string
  lx_line :: nat
  lx_col :: nat
  lx_diags :: "(pos \<times> lex_error) list"
  lx_comments :: "comment list"

definition NewLexer :: "string \<Rightarrow> lexer" where
  "NewLexer src = \<lparr>lx_before = [], lx_rest = src, lx_line = 1, lx_col = 1, lx_diags = [], lx_comments = []\<rparr>"

definition lexPos :: "lexer \<Rightarrow> pos" where
  "lexPos l = \<lparr>ps_Line = lx_line l, ps_Column = lx_col l\<rparr>"

definition lexErrorf :: "pos \<Rightarrow> lex_error \<Rightarrow> lexer \<Rightarrow> lexer" where
  "lexErrorf p e l = l\<lparr>lx_diags := lx_diags l @ [(p, e)]\<rparr>"

subsection \<open>Runes\<close>

definition peek :: "lexer \<Rightarrow> string \<times> nat" where
  "peek l =
     (if lx_rest l = [] then (runeError, 0)
      else case runeSize (lx_rest l) of
        None \<Rightarrow> (runeError, 1)
      | Some n \<Rightarrow> (take n (lx_rest l), n))"

definition lexAdvance :: "lexer \<Rightarrow> lexer" where
  "lexAdvance l =
     (case peek l of (r, w) \<Rightarrow>
        if w = 0 then l
        else l\<lparr>lx_before := rev (take w (lx_rest l)) @ lx_before l, lx_rest := drop w (lx_rest l),
               lx_line := (if r = [CHR 0x0A] then lx_line l + 1 else lx_line l),
               lx_col := (if r = [CHR 0x0A] then 1 else lx_col l + 1)\<rparr>)"

definition isIdentStart :: "string \<Rightarrow> bool" where
  "isIdentStart r = (case r of [c] \<Rightarrow> c = CHR ''_'' \<or> between 0x61 0x7A c \<or> between 0x41 0x5A c | _ \<Rightarrow> False)"

definition isRuneDigit :: "string \<Rightarrow> bool" where
  "isRuneDigit r = (case r of [c] \<Rightarrow> between 0x30 0x39 c | _ \<Rightarrow> False)"

definition isIdentPart :: "string \<Rightarrow> bool" where
  "isIdentPart r \<longleftrightarrow> isIdentStart r \<or> isRuneDigit r \<or> r = ''-''"

lemma peek_width: "peek l = (r, w) \<Longrightarrow> w \<le> length (lx_rest l) \<and> (w = 0 \<longleftrightarrow> lx_rest l = [])"
  by (auto simp: peek_def split: if_splits option.splits dest: runeSize_pos) (metis Suc_leI length_greater_0_conv)

lemma advance_length: "lx_rest l \<noteq> [] \<Longrightarrow> length (lx_rest (lexAdvance l)) < length (lx_rest l)"
  using peek_width [of l] by (auto simp: lexAdvance_def split: prod.split)

lemma advance_le: "length (lx_rest (lexAdvance l)) \<le> length (lx_rest l)"
  by (auto simp: lexAdvance_def split: prod.split)

text \<open>The loops that advance while the next rune satisfies a condition.\<close>

function advanceWhile :: "(string \<Rightarrow> bool) \<Rightarrow> lexer \<Rightarrow> lexer" where
  "advanceWhile P l = (if lx_rest l = [] \<or> \<not> P (fst (peek l)) then l else advanceWhile P (lexAdvance l))"
  by pat_completeness auto
termination
  by (relation "measure (\<lambda>(P, l). length (lx_rest l))") (auto intro: advance_length)

declare advanceWhile.simps [simp del]

text \<open>\<open>l.src[begin:l.offset]\<close> for the offset of an earlier state.\<close>

definition textBetween :: "lexer \<Rightarrow> lexer \<Rightarrow> string" where
  "textBetween l l' = take (length (lx_rest l) - length (lx_rest l')) (lx_rest l)"

subsection \<open>Identifiers and numbers\<close>

definition mkToken :: "kind \<Rightarrow> string \<Rightarrow> pos \<Rightarrow> token" where
  "mkToken k s p = \<lparr>tk_Kind = k, tk_Lit = s, tk_Pos = p\<rparr>"

definition scanIdent :: "pos \<Rightarrow> lexer \<Rightarrow> token \<times> lexer" where
  "scanIdent start l =
     (let l' = advanceWhile isIdentPart (lexAdvance l);
          lit = textBetween l l'
      in (mkToken (case map_of keywordKinds lit of Some k \<Rightarrow> k | None \<Rightarrow> KindIdent) lit start, l'))"

definition digitAfterDot :: "lexer \<Rightarrow> bool" where
  "digitAfterDot l \<longleftrightarrow> (case lx_rest l of a # b # s \<Rightarrow> a = CHR ''.'' \<and> between 0x30 0x39 b | _ \<Rightarrow> False)"

definition scanNumber :: "pos \<Rightarrow> lexer \<Rightarrow> token \<times> lexer" where
  "scanNumber start l =
     (let l1 = advanceWhile isRuneDigit l;
          l2 = (if digitAfterDot l1 then advanceWhile isRuneDigit (lexAdvance l1) else l1)
      in (mkToken KindNumber (textBetween l l2) start, l2))"

subsection \<open>String literals\<close>

definition unescape :: "string \<Rightarrow> string option" where
  "unescape r =
     (if r = [CHR 0x22] then Some [CHR 0x22]
      else if r = [CHR 0x5C] then Some [CHR 0x5C]
      else if r = ''n'' then Some [CHR 0x0A]
      else if r = ''t'' then Some [CHR 0x09]
      else if r = ''r'' then Some [CHR 0x0D]
      else None)"

lemma lexErrorf_rest [simp]: "lx_rest (lexErrorf p e l) = lx_rest l" "peek (lexErrorf p e l) = peek l"
  by (simp_all add: lexErrorf_def peek_def split: option.split)

lemma lexErrorf_advance [simp]: "lexAdvance (lexErrorf p e l) = lexErrorf p e (lexAdvance l)"
proof -
  have "peek (lexErrorf p e l) = peek l" by simp
  then show ?thesis by (cases "peek l") (simp add: lexAdvance_def, simp add: lexErrorf_def)
qed

lemma advance_twice: "lx_rest l \<noteq> [] \<Longrightarrow> length (lx_rest (lexAdvance (lexAdvance l))) < length (lx_rest l)"
  using advance_length [of l] advance_le [of "lexAdvance l"] by linarith

function scanStringBody :: "pos \<Rightarrow> string \<Rightarrow> lexer \<Rightarrow> token \<times> lexer" where
  "scanStringBody start b l =
     (let r = fst (peek l) in
      if lx_rest l = [] then (mkToken KindString b start, lexErrorf start UnterminatedString l)
      else if r = [CHR 0x22] then (mkToken KindString b start, lexAdvance l)
      else if r = [CHR 0x0A] then (mkToken KindString b start, lexErrorf start UnterminatedString l)
      else if r = [CHR 0x5C] then
        (let l1 = lexAdvance l; esc = fst (peek l1) in
         if lx_rest l1 = [] then scanStringBody start b l1
         else case unescape esc of
             Some s \<Rightarrow> scanStringBody start (b @ s) (lexAdvance l1)
           | None \<Rightarrow> scanStringBody start (b @ esc) (lexAdvance (lexErrorf (lexPos l1) (UnknownEscape esc) l1)))
      else scanStringBody start (b @ r) (lexAdvance l))"
  by pat_completeness auto
termination
  by (relation "measure (\<lambda>(p, b, l). length (lx_rest l))") (auto intro: advance_length advance_twice)

declare scanStringBody.simps [simp del]

definition scanString :: "pos \<Rightarrow> lexer \<Rightarrow> token \<times> lexer" where
  "scanString start l = scanStringBody start [] (lexAdvance l)"

definition tripleQuote :: string where
  "tripleQuote = [CHR 0x22, CHR 0x22, CHR 0x22]"

text \<open>\<open>strings.ReplaceAll(raw, "\r\n", "\n")\<close> and \<open>strings.Split(raw, "\n")\<close>.\<close>

fun replaceCRLF :: "string \<Rightarrow> string" where
  "replaceCRLF (a # b # s) =
     (if a = CHR 0x0D \<and> b = CHR 0x0A then CHR 0x0A # replaceCRLF s else a # replaceCRLF (b # s))"
| "replaceCRLF s = s"

fun splitLines :: "string \<Rightarrow> string list" where
  "splitLines [] = [[]]"
| "splitLines (c # s) =
     (if c = CHR 0x0A then [] # splitLines s
      else case splitLines s of [] \<Rightarrow> [[c]] | l # ls \<Rightarrow> (c # l) # ls)"

definition isBlankByte :: "char \<Rightarrow> bool" where
  "isBlankByte c \<longleftrightarrow> c = CHR 0x20 \<or> c = CHR 0x09"

definition indentOf :: "string \<Rightarrow> nat" where
  "indentOf row = length (takeWhile isBlankByte row)"

fun minIndent :: "string list \<Rightarrow> nat option" where
  "minIndent [] = None"
| "minIndent (row # rows) =
     (if TrimSpace row = [] then minIndent rows
      else case minIndent rows of None \<Rightarrow> Some (indentOf row) | Some n \<Rightarrow> Some (min (indentOf row) n))"

definition dedentLine :: "nat option \<Rightarrow> string \<Rightarrow> string" where
  "dedentLine m row =
     (if TrimSpace row = [] then []
      else case m of None \<Rightarrow> row | Some n \<Rightarrow> if 0 < n \<and> n \<le> length row then drop n row else row)"

definition normalizeMultiline :: "string \<Rightarrow> string" where
  "normalizeMultiline raw0 =
     (let raw1 = replaceCRLF raw0;
          raw = (case IndexByte raw1 (CHR 0x0A) of
                   None \<Rightarrow> raw1
                 | Some i \<Rightarrow> if TrimSpace (take i raw1) = [] then drop (i + 1) raw1 else raw1);
          lines0 = splitLines raw;
          lines = (if list_all isBlankByte (last lines0) then butlast lines0 else lines0)
      in Join (map (dedentLine (minIndent lines)) lines) [CHR 0x0A])"

function scanMultilineBody :: "lexer \<Rightarrow> bool \<times> lexer" where
  "scanMultilineBody l =
     (if lx_rest l = [] then (False, l)
      else if prefix tripleQuote (lx_rest l) then (True, l)
      else scanMultilineBody (lexAdvance l))"
  by pat_completeness auto
termination
  by (relation "measure (\<lambda>l. length (lx_rest l))") (auto intro: advance_length)

declare scanMultilineBody.simps [simp del]

definition advance3 :: "lexer \<Rightarrow> lexer" where
  "advance3 l = lexAdvance (lexAdvance (lexAdvance l))"

definition scanMultilineString :: "pos \<Rightarrow> lexer \<Rightarrow> token \<times> lexer" where
  "scanMultilineString start l =
     (let l1 = advance3 l in
      case scanMultilineBody l1 of (ended, l2) \<Rightarrow>
        (mkToken KindString (normalizeMultiline (textBetween l1 l2)) start,
         if ended then advance3 l2 else lexErrorf start UnterminatedMultiline l2))"

subsection \<open>Trivia\<close>

definition onlyBlankBeforeLineStart :: "lexer \<Rightarrow> bool" where
  "onlyBlankBeforeLineStart l =
     list_all (\<lambda>c. c = CHR 0x20 \<or> c = CHR 0x09 \<or> c = CHR 0x0D) (takeWhile (\<lambda>c. c \<noteq> CHR 0x0A) (lx_before l))"

definition collectLineComment :: "lexer \<Rightarrow> lexer" where
  "collectLineComment l =
     (let l1 = lexAdvance (lexAdvance l);
          l2 = advanceWhile (\<lambda>r. r \<noteq> [CHR 0x0A]) l1
      in l2\<lparr>lx_comments := lx_comments l2 @
           [\<lparr>cm_Pos = lexPos l, cm_Text = TrimSpace (textBetween l1 l2), cm_Standalone = onlyBlankBeforeLineStart l\<rparr>]\<rparr>)"

definition isSpaceRune :: "string \<Rightarrow> bool" where
  "isSpaceRune r \<longleftrightarrow> r = '' '' \<or> r = [CHR 0x09] \<or> r = [CHR 0x0D] \<or> r = [CHR 0x0A]"

lemma advanceWhile_le: "length (lx_rest (advanceWhile P l)) \<le> length (lx_rest l)"
proof (induction P l rule: advanceWhile.induct)
  case (1 P l)
  then show ?case using advance_le [of l] by (subst advanceWhile.simps) (auto intro: order_trans)
qed

lemma collectLineComment_less: "lx_rest l \<noteq> [] \<Longrightarrow> length (lx_rest (collectLineComment l)) < length (lx_rest l)"
  using advance_twice [of l] advanceWhile_le [of _ "lexAdvance (lexAdvance l)"]
  by (auto simp: collectLineComment_def Let_def intro: le_less_trans)

function skipTrivia :: "lexer \<Rightarrow> lexer" where
  "skipTrivia l =
     (if lx_rest l = [] then l
      else if isSpaceRune (fst (peek l)) then skipTrivia (lexAdvance l)
      else if prefix ''//'' (lx_rest l) then skipTrivia (collectLineComment l)
      else l)"
  by pat_completeness auto
termination
  by (relation "measure (\<lambda>l. length (lx_rest l))") (auto intro: advance_length collectLineComment_less)

declare skipTrivia.simps [simp del]

subsection \<open>The next token\<close>

definition punctuation :: "(string \<times> kind) list" where
  "punctuation =
     [([CHR 0x7B], KindLBrace), ([CHR 0x7D], KindRBrace), (''('', KindLParen), ('')'', KindRParen), (''.'', KindDot),
      (''/'', KindSlash), ('','', KindComma), ('':'', KindColon)]"

text \<open>
  The operators whose second rune decides the token: the second rune, the kind with it, and the kind
  without it or \<open>None\<close> when the first rune alone is an error.
\<close>

definition operators :: "(string \<times> (string \<times> kind \<times> kind option)) list" where
  "operators =
     [(''='', (''='', KindEqEq, Some KindEquals)), (''!'', (''='', KindBangEq, Some KindBang)),
      (''<'', (''='', KindLte, Some KindLt)), (''>'', (''='', KindGte, Some KindGt)),
      (''&'', (''&'', KindAndAnd, None)), (''|'', (''|'', KindOrOr, None)), (''-'', (''>'', KindArrow, None))]"

definition scanOperator :: "pos \<Rightarrow> string \<Rightarrow> string \<times> kind \<times> kind option \<Rightarrow> lexer \<Rightarrow> token \<times> lexer" where
  "scanOperator start r op l =
     (case op of (second, k2, k1) \<Rightarrow>
        let l1 = lexAdvance l in
        if lx_rest l1 \<noteq> [] \<and> fst (peek l1) = second then (mkToken k2 (r @ second) start, lexAdvance l1)
        else case k1 of
            Some k \<Rightarrow> (mkToken k r start, l1)
          | None \<Rightarrow> (mkToken KindError r start, lexErrorf start (UnexpectedRune r) l1))"

definition Next :: "lexer \<Rightarrow> token \<times> lexer" where
  "Next l0 =
     (let l = skipTrivia l0; start = lexPos l; r = fst (peek l) in
      if lx_rest l = [] then (mkToken KindEOF [] start, l)
      else if isIdentStart r then scanIdent start l
      else if isRuneDigit r then scanNumber start l
      else if r = [CHR 0x22] then
        (if prefix tripleQuote (lx_rest l) then scanMultilineString start l else scanString start l)
      else case map_of punctuation r of
          Some k \<Rightarrow> (mkToken k r start, lexAdvance l)
        | None \<Rightarrow>
            (case map_of operators r of
               Some op \<Rightarrow> scanOperator start r op l
             | None \<Rightarrow> (mkToken KindError r start, lexErrorf start (UnexpectedRune r) (lexAdvance l))))"

subsection \<open>Progress\<close>

text \<open>
  \<open>moves x l l'\<close>: between the two states the lexer has consumed exactly the text \<open>x\<close>, and its
  position has advanced unless that text is empty.
\<close>

definition posLess :: "pos \<Rightarrow> pos \<Rightarrow> bool" where
  "posLess p q \<longleftrightarrow> ps_Line p < ps_Line q \<or> ps_Line p = ps_Line q \<and> ps_Column p < ps_Column q"

lemma posLess_trans: "posLess p q \<Longrightarrow> posLess q r \<Longrightarrow> posLess p r"
  by (auto simp: posLess_def)

definition moves :: "string \<Rightarrow> lexer \<Rightarrow> lexer \<Rightarrow> bool" where
  "moves x l l' \<longleftrightarrow>
     lx_rest l = x @ lx_rest l' \<and> lx_before l' = rev x @ lx_before l \<and>
     (if x = [] then lexPos l' = lexPos l else posLess (lexPos l) (lexPos l'))"

lemma moves_refl: "moves [] l l"
  by (simp add: moves_def)

lemma moves_trans: "moves x l l' \<Longrightarrow> moves y l' l'' \<Longrightarrow> moves (x @ y) l l''"
  by (auto simp: moves_def split: if_splits intro: posLess_trans)

lemma moves_rest: "moves x l l' \<Longrightarrow> lx_rest l = x @ lx_rest l'"
  by (simp add: moves_def)

lemma moves_lexErrorf [simp]: "moves x l (lexErrorf p e l') = moves x l l'" "moves x (lexErrorf p e l) l' = moves x l l'"
  by (simp_all add: moves_def lexErrorf_def lexPos_def)

lemma textBetween_moves: "moves x l l' \<Longrightarrow> textBetween l l' = x"
  by (simp add: moves_def textBetween_def)

text \<open>The rune \<open>peek\<close> reports is the consumed text, unless that is a byte that starts no rune.\<close>

lemma toValid_rune:
  assumes "runeSize s = Some n"
  shows "toValid (take n s) = take n s"
proof -
  have "runeSize (take n s) = Some n" using runeSize_take [OF assms, of "[]"] by simp
  then show ?thesis by (simp add: toValid.simps [of "take n s"])
qed

lemma advance_moves:
  assumes "lx_rest l \<noteq> []"
  obtains x where "x \<noteq> []" "moves x l (lexAdvance l)" "fst (peek l) = toValid x" "fst (peek l) \<noteq> runeError \<Longrightarrow> fst (peek l) = x"
proof -
  obtain r w where pk: "peek l = (r, w)" by (cases "peek l")
  have w: "0 < w" "w \<le> length (lx_rest l)" using peek_width [OF pk] assms by auto
  have "r = toValid (take w (lx_rest l))"
  proof (cases "runeSize (lx_rest l)")
    case None
    then obtain c cs where s: "lx_rest l = c # cs" using assms by (cases "lx_rest l") auto
    have "runeSize [c] = None" using None s by (auto split: if_splits)
    then have "toValid [c] = runeError" by (simp add: toValid.simps [of "[c]"])
    moreover have "r = runeError" "w = Suc 0" using pk None s unfolding peek_def by auto
    ultimately show ?thesis using s by simp
  next
    case (Some n)
    then show ?thesis using pk assms toValid_rune [OF Some] by (auto simp: peek_def)
  qed
  moreover have "moves (take w (lx_rest l)) l (lexAdvance l)"
    using pk w by (auto simp: moves_def lexAdvance_def lexPos_def posLess_def)
  moreover have "r = take w (lx_rest l)" if "r \<noteq> runeError"
    using that pk assms by (auto simp: peek_def split: option.splits)
  ultimately show ?thesis using that [of "take w (lx_rest l)"] pk w by force
qed

lemma advance_some: "\<exists>x. moves x l (lexAdvance l)"
proof (cases "lx_rest l = []")
  case True
  then have "lexAdvance l = l" by (simp add: lexAdvance_def peek_def)
  then show ?thesis using moves_refl by metis
qed (use advance_moves in blast)

lemma advanceWhile_moves:
  "\<exists>x. moves x l (advanceWhile P l) \<and> (lx_rest l \<noteq> [] \<longrightarrow> P (fst (peek l)) \<longrightarrow> x \<noteq> []) \<and>
     (lx_rest (advanceWhile P l) = [] \<or> \<not> P (fst (peek (advanceWhile P l))))"
proof (induction P l rule: advanceWhile.induct)
  case (1 P l)
  show ?case
  proof (cases "lx_rest l = [] \<or> \<not> P (fst (peek l))")
    case True
    then have "advanceWhile P l = l" by (simp add: advanceWhile.simps [of P l])
    then show ?thesis using True moves_refl by auto
  next
    case False
    then have eq: "advanceWhile P l = advanceWhile P (lexAdvance l)" by (simp add: advanceWhile.simps [of P l])
    obtain x where x: "x \<noteq> []" "moves x l (lexAdvance l)" using False advance_moves by blast
    from 1 [OF False] obtain y where "moves y (lexAdvance l) (advanceWhile P l)"
      "lx_rest (advanceWhile P l) = [] \<or> \<not> P (fst (peek (advanceWhile P l)))" unfolding eq by blast
    then show ?thesis using moves_trans [OF x(2)] x(1) by (metis append_is_Nil_conv)
  qed
qed

lemma scanStringBody_moves:
  "\<exists>x. moves x l (snd (scanStringBody start b l)) \<and> tk_Kind (fst (scanStringBody start b l)) = KindString \<and>
     tk_Pos (fst (scanStringBody start b l)) = start"
proof (induction start b l rule: scanStringBody.induct)
  case (1 start b l)
  let ?r = "fst (peek l)"
  have step: ?case if "lx_rest l \<noteq> []" "moves y l l'" "\<exists>x. moves x l' (snd (scanStringBody start b' l')) \<and>
      tk_Kind (fst (scanStringBody start b' l')) = KindString \<and> tk_Pos (fst (scanStringBody start b' l')) = start"
      "scanStringBody start b l = scanStringBody start b' l'" for y l' b'
    using that moves_trans by metis
  show ?case
  proof (cases "lx_rest l = [] \<or> ?r = [CHR 0x22] \<or> ?r = [CHR 0x0A]")
    case True
    then have "scanStringBody start b l \<in> {(mkToken KindString b start, lexErrorf start UnterminatedString l),
        (mkToken KindString b start, lexAdvance l)}"
      unfolding scanStringBody.simps [of start b l] Let_def by auto
    moreover have "\<exists>x. moves x l (lexAdvance l)" by (rule advance_some)
    ultimately show ?thesis using moves_refl [of l] by (auto simp: mkToken_def)
  next
    case False
    then have ne: "lx_rest l \<noteq> []" and r: "?r \<noteq> [CHR 0x22]" "?r \<noteq> [CHR 0x0A]" by auto
    obtain x where x: "moves x l (lexAdvance l)" using advance_moves [OF ne] by blast
    show ?thesis
    proof (cases "?r = [CHR 0x5C]")
      case esc: True
      let ?l1 = "lexAdvance l"
      show ?thesis
      proof (cases "lx_rest ?l1 = []")
        case True
        then show ?thesis using "1.IH"(1) [OF refl ne r esc refl refl True] x ne r esc
          by (intro step [OF ne x]) (simp_all add: scanStringBody.simps [of start b l] Let_def)
      next
        case ne1: False
        obtain y where y: "moves y ?l1 (lexAdvance ?l1)" using advance_moves [OF ne1] by blast
        have y': "moves y ?l1 (lexAdvance (lexErrorf p e ?l1))" for p e using y by simp
        show ?thesis
        proof (cases "unescape (fst (peek ?l1))")
          case (Some s)
          then show ?thesis using "1.IH"(3) [OF refl ne r esc refl refl ne1 Some] ne r esc ne1
            by (intro step [OF ne moves_trans [OF x y]]) (simp_all add: scanStringBody.simps [of start b l] Let_def)
        next
          case None
          then show ?thesis using "1.IH"(2) [OF refl ne r esc refl refl ne1 None] ne r esc ne1
            by (intro step [OF ne moves_trans [OF x y']]) (simp_all add: scanStringBody.simps [of start b l] Let_def)
        qed
      qed
    next
      case plain: False
      then show ?thesis using "1.IH"(4) [OF refl ne r plain] ne r
        by (intro step [OF ne x]) (simp_all add: scanStringBody.simps [of start b l] Let_def)
    qed
  qed
qed

lemma scanMultilineBody_moves: "\<exists>x. moves x l (snd (scanMultilineBody l))"
proof (induction l rule: scanMultilineBody.induct)
  case (1 l)
  show ?case
  proof (cases "lx_rest l = [] \<or> prefix tripleQuote (lx_rest l)")
    case True
    then show ?thesis using moves_refl by (auto simp: scanMultilineBody.simps [of l])
  next
    case False
    then have eq: "scanMultilineBody l = scanMultilineBody (lexAdvance l)" by (simp add: scanMultilineBody.simps [of l])
    from advance_some obtain x where "moves x l (lexAdvance l)" by blast
    moreover obtain y where "moves y (lexAdvance l) (snd (scanMultilineBody (lexAdvance l)))" using 1 False by blast
    ultimately show ?thesis unfolding eq using moves_trans by blast
  qed
qed

lemma advance3_moves: "\<exists>x. moves x l (advance3 l)"
  unfolding advance3_def using advance_some moves_trans by metis

subsection \<open>Trivia and the text of a token\<close>

inductive isTrivia :: "string \<Rightarrow> bool" where
  trivia_Nil: "isTrivia []"
| trivia_space: "c \<in> {CHR 0x20, CHR 0x09, CHR 0x0D, CHR 0x0A} \<Longrightarrow> isTrivia s \<Longrightarrow> isTrivia (c # s)"
| trivia_comment: "CHR 0x0A \<notin> set t \<Longrightarrow> isTrivia s \<Longrightarrow> isTrivia (''//'' @ t @ s)"

text \<open>
  The text after the opening quote of a string literal, and its value: up to the closing quote, or to
  where the line or the source ends (both reported as errors). A piece of text is one byte, or the
  bytes of a rune beyond ASCII; bytes that are no rune count as U+FFFD.
\<close>

definition isPiece :: "string \<Rightarrow> bool" where
  "isPiece x \<longleftrightarrow> x \<noteq> [] \<and> ((\<exists>c. x = [c]) \<or> (\<forall>c \<in> set x. 0x80 \<le> (of_char c :: nat)))"

inductive quotedText :: "string \<Rightarrow> string \<Rightarrow> bool" where
  quoted_closed: "quotedText [CHR 0x22] []"
| quoted_cut: "quotedText [] []"
| quoted_cut_escape: "quotedText [CHR 0x5C] []"
| quoted_escape: "isPiece x \<Longrightarrow> unescape x = Some s \<Longrightarrow> quotedText y b \<Longrightarrow> quotedText (CHR 0x5C # x @ y) (s @ b)"
| quoted_unknown: "isPiece x \<Longrightarrow> unescape x = None \<Longrightarrow> quotedText y b \<Longrightarrow> quotedText (CHR 0x5C # x @ y) (toValid x @ b)"
| quoted_plain: "isPiece x \<Longrightarrow> x \<notin> {[CHR 0x22], [CHR 0x0A], [CHR 0x5C]} \<Longrightarrow> quotedText y b \<Longrightarrow>
    quotedText (x @ y) (toValid x @ b)"

text \<open>
  The source text of a token. The text of a string is a quoted literal that denotes its value, or a
  block between triple quotes (the closing ones may be missing, an error) whose contents are
  normalized.
\<close>

definition tokenText :: "token \<Rightarrow> string \<Rightarrow> bool" where
  "tokenText t x \<longleftrightarrow>
     x \<noteq> [] \<and> (if tk_Kind t = KindString then
                 (\<exists>y. x = CHR 0x22 # y \<and> quotedText y (tk_Lit t)) \<or>
                 (\<exists>raw close. x = tripleQuote @ raw @ close \<and> close \<in> {[], tripleQuote} \<and>
                    tk_Lit t = normalizeMultiline raw)
               else if tk_Kind t = KindError then tk_Lit t = toValid x
               else tk_Lit t = x)"

lemma runeSize_ascii [simp]: "of_char c < (0x80 :: nat) \<Longrightarrow> runeSize (c # s) = Some 1"
  by (simp add: between_def)

lemma peek_ascii: "lx_rest l = c # s \<Longrightarrow> of_char c < (0x80 :: nat) \<Longrightarrow> peek l = ([c], 1)"
  by (simp add: peek_def del: runeSize.simps)

lemma advance_text: "lx_rest l \<noteq> [] \<Longrightarrow> moves x l (lexAdvance l) \<Longrightarrow> x = take (snd (peek l)) (lx_rest l)"
  using peek_width [of l] by (cases "peek l") (auto simp: moves_def lexAdvance_def)

lemma advance_avoids:
  assumes "lx_rest l \<noteq> []" "moves x l (lexAdvance l)" "fst (peek l) \<noteq> [c]" "of_char c < (0x80 :: nat)"
  shows "c \<notin> set x"
proof (cases "runeSize (lx_rest l)")
  case None
  then obtain b bs where s: "lx_rest l = b # bs" using assms(1) by (cases "lx_rest l") auto
  then have "b \<noteq> c" using None assms(4) runeSize_ascii by fastforce
  then show ?thesis using advance_text [OF assms(1,2)] None s by (simp add: peek_def del: runeSize.simps)
next
  case (Some n)
  then have x: "x = take n (lx_rest l)" and p: "fst (peek l) = take n (lx_rest l)"
    using advance_text [OF assms(1,2)] assms(1) by (simp_all add: peek_def)
  from Some show ?thesis
  proof (cases rule: runeSize_cases)
    case (ascii b bs)
    then show ?thesis using x p assms(3) by simp
  next
    case multi
    then show ?thesis using x assms(4) by force
  qed
qed

lemma advanceWhile_avoids:
  "of_char c < (0x80 :: nat) \<Longrightarrow> \<not> P [c] \<Longrightarrow> moves x l (advanceWhile P l) \<Longrightarrow> c \<notin> set x"
proof (induction P l arbitrary: x rule: advanceWhile.induct)
  case (1 P l)
  show ?case
  proof (cases "lx_rest l = [] \<or> \<not> P (fst (peek l))")
    case True
    then have "advanceWhile P l = l" by (simp add: advanceWhile.simps [of P l])
    then show ?thesis using "1.prems" by (simp add: moves_def)
  next
    case False
    then have eq: "advanceWhile P l = advanceWhile P (lexAdvance l)" by (simp add: advanceWhile.simps [of P l])
    obtain y where y: "moves y l (lexAdvance l)" using advance_some by blast
    obtain z where z: "moves z (lexAdvance l) (advanceWhile P l)" unfolding eq using advanceWhile_moves by blast
    have "x = y @ z" using moves_rest [OF moves_trans [OF y z]] moves_rest [OF "1.prems"(3)] by simp
    moreover have "c \<notin> set y" using advance_avoids [OF _ y] False "1.prems" by metis
    moreover have "c \<notin> set z" using "1.IH" [OF False "1.prems"(1,2)] z eq by simp
    ultimately show ?thesis by simp
  qed
qed

lemma collectLineComment_moves:
  assumes "prefix ''//'' (lx_rest l)"
  shows "\<exists>t. moves (''//'' @ t) l (collectLineComment l) \<and> CHR 0x0A \<notin> set t"
proof -
  from assms obtain s where s: "lx_rest l = CHR ''/'' # CHR ''/'' # s" by (auto simp: prefix_def)
  have p1: "peek l = (''/'', 1)" by (rule peek_ascii [OF s]) simp
  then have r1: "lx_rest (lexAdvance l) = CHR ''/'' # s" by (simp add: lexAdvance_def s)
  have p2: "peek (lexAdvance l) = (''/'', 1)" by (rule peek_ascii [OF r1]) simp
  obtain a b where ab: "moves a l (lexAdvance l)" "moves b (lexAdvance l) (lexAdvance (lexAdvance l))"
    using advance_some by blast
  have "a = ''/''" "b = ''/''"
    using advance_text [OF _ ab(1)] advance_text [OF _ ab(2)] s r1 p1 p2 by auto
  then have two: "moves ''//'' l (lexAdvance (lexAdvance l))" using moves_trans [OF ab] by simp
  let ?l2 = "advanceWhile (\<lambda>r. r \<noteq> [CHR 0x0A]) (lexAdvance (lexAdvance l))"
  obtain t where t: "moves t (lexAdvance (lexAdvance l)) ?l2" using advanceWhile_moves by blast
  have "CHR 0x0A \<notin> set t" by (rule advanceWhile_avoids [OF _ _ t]) simp_all
  moreover have "moves x k (?l2\<lparr>lx_comments := cs\<rparr>) = moves x k ?l2" for x k cs by (simp add: moves_def lexPos_def)
  ultimately show ?thesis using moves_trans [OF two t] by (auto simp: collectLineComment_def Let_def)
qed

lemma skipTrivia_moves: "\<exists>g. moves g l (skipTrivia l) \<and> isTrivia g"
proof (induction l rule: skipTrivia.induct)
  case (1 l)
  have eq: "skipTrivia l =
      (if lx_rest l = [] then l
       else if isSpaceRune (fst (peek l)) then skipTrivia (lexAdvance l)
       else if prefix ''//'' (lx_rest l) then skipTrivia (collectLineComment l) else l)"
    by (rule skipTrivia.simps)
  consider (stop) "skipTrivia l = l"
    | (space) "lx_rest l \<noteq> []" "isSpaceRune (fst (peek l))" "skipTrivia l = skipTrivia (lexAdvance l)"
    | (comment) "lx_rest l \<noteq> []" "\<not> isSpaceRune (fst (peek l))" "prefix ''//'' (lx_rest l)"
        "skipTrivia l = skipTrivia (collectLineComment l)"
    using eq by metis
  then show ?case
  proof cases
    case stop
    then show ?thesis using moves_refl trivia_Nil by metis
  next
    case space
    then obtain x where x: "moves x l (lexAdvance l)" "fst (peek l) \<noteq> runeError \<Longrightarrow> fst (peek l) = x"
      using advance_moves by metis
    have "fst (peek l) = x" using x(2) space(2) by (auto simp: isSpaceRune_def runeError_def)
    then have "\<exists>c \<in> {CHR 0x20, CHR 0x09, CHR 0x0D, CHR 0x0A}. x = [c]" using space(2) by (auto simp: isSpaceRune_def)
    moreover obtain g where "moves g (lexAdvance l) (skipTrivia (lexAdvance l))" "isTrivia g"
      using "1.IH"(1) [OF space(1,2)] by blast
    ultimately show ?thesis using moves_trans [OF x(1)] space(3) by (force intro: trivia_space)
  next
    case comment
    obtain t where t: "moves (''//'' @ t) l (collectLineComment l)" "CHR 0x0A \<notin> set t"
      using collectLineComment_moves [OF comment(3)] by blast
    obtain g where g: "moves g (collectLineComment l) (skipTrivia (collectLineComment l))" "isTrivia g"
      using "1.IH"(2) [OF comment(1-3)] by blast
    have "moves (''//'' @ t @ g) l (skipTrivia l)" using moves_trans [OF t(1) g(1)] comment(4) by simp
    then show ?thesis using trivia_comment [OF t(2) g(2)] by blast
  qed
qed

lemma skipTrivia_stops: "lx_rest (skipTrivia l) = [] \<or> \<not> isSpaceRune (fst (peek (skipTrivia l)))"
proof (induction l rule: skipTrivia.induct)
  case (1 l)
  then show ?case by (subst (1 2) skipTrivia.simps) (simp split: if_split)
qed

subsection \<open>Token by token\<close>

text \<open>What \<open>Next\<close> does once trivia has been skipped.\<close>

definition scanned :: "pos \<Rightarrow> lexer \<Rightarrow> token \<times> lexer \<Rightarrow> bool" where
  "scanned start l p \<longleftrightarrow>
     (\<exists>x. moves x l (snd p) \<and> tokenText (fst p) x) \<and> tk_Kind (fst p) \<noteq> KindEOF \<and> tk_Pos (fst p) = start"

lemma scanOperator_text:
  assumes "lx_rest l \<noteq> []" "fst (peek l) = r" "map_of operators r = Some op"
  shows "scanned start l (scanOperator start r op l)"
proof -
  obtain second k2 k1 where op: "op = (second, k2, k1)" by (cases op)
  have mem: "(r, second, k2, k1) \<in> set operators" using map_of_SomeD [OF assms(3)] op by simp
  have k: "k2 \<notin> {KindEOF, KindString, KindError}" "k1 \<noteq> Some KindEOF" "k1 \<noteq> Some KindString" "k1 \<noteq> Some KindError"
    "r \<noteq> runeError" "second \<noteq> runeError" "r \<noteq> []" "toValid r = r"
    using mem by (auto simp: operators_def runeError_def between_def toValid.simps [of "[_]"])
  obtain x where x: "moves x l (lexAdvance l)" "fst (peek l) \<noteq> runeError \<Longrightarrow> fst (peek l) = x"
    using advance_moves [OF assms(1)] by metis
  have r: "r = x" using x(2) assms(2) k by simp
  show ?thesis
  proof (cases "lx_rest (lexAdvance l) \<noteq> [] \<and> fst (peek (lexAdvance l)) = second")
    case True
    then obtain y where y: "moves y (lexAdvance l) (lexAdvance (lexAdvance l))"
      "fst (peek (lexAdvance l)) \<noteq> runeError \<Longrightarrow> fst (peek (lexAdvance l)) = y"
      using advance_moves by metis
    have "second = y" using y(2) True k by simp
    then show ?thesis using True moves_trans [OF x(1) y(1)] k r
      by (auto simp: scanned_def scanOperator_def op Let_def mkToken_def tokenText_def)
  next
    case False
    then show ?thesis using x(1) k r
      by (auto simp: scanned_def scanOperator_def op Let_def mkToken_def tokenText_def split: option.split)
  qed
qed

lemma scanIdent_text:
  assumes "lx_rest l \<noteq> []"
  shows "scanned start l (scanIdent start l)"
proof -
  obtain x where x: "x \<noteq> []" "moves x l (lexAdvance l)" using advance_moves [OF assms] by metis
  obtain y where y: "moves y (lexAdvance l) (advanceWhile isIdentPart (lexAdvance l))" using advanceWhile_moves by blast
  have xy: "moves (x @ y) l (advanceWhile isIdentPart (lexAdvance l))" by (rule moves_trans [OF x(2) y])
  have "map_of keywordKinds lit \<notin> {Some KindEOF, Some KindString, Some KindError}" for lit
    by (simp add: keywordKinds_def)
  then show ?thesis using xy x(1)
    unfolding scanned_def
    by (auto intro!: exI [of _ "x @ y"] simp: scanIdent_def Let_def mkToken_def tokenText_def textBetween_moves [OF xy] split: option.split)
qed

lemma scanNumber_text:
  assumes "lx_rest l \<noteq> []" "isRuneDigit (fst (peek l))"
  shows "scanned start l (scanNumber start l)"
proof -
  let ?l1 = "advanceWhile isRuneDigit l"
  let ?l2 = "if digitAfterDot ?l1 then advanceWhile isRuneDigit (lexAdvance ?l1) else ?l1"
  obtain x where x: "moves x l ?l1" "x \<noteq> []" using advanceWhile_moves [of l isRuneDigit] assms by blast
  obtain y where y: "moves y ?l1 ?l2"
    using advance_some [of ?l1] advanceWhile_moves [of "lexAdvance ?l1" isRuneDigit] moves_refl moves_trans
    by (cases "digitAfterDot ?l1") (simp, blast, force)
  have xy: "moves (x @ y) l ?l2" by (rule moves_trans [OF x(1) y])
  then show ?thesis using x(2)
    unfolding scanned_def
    by (auto intro!: exI [of _ "x @ y"] simp: scanNumber_def Let_def mkToken_def tokenText_def textBetween_moves [OF xy])
qed

lemma advance_piece:
  assumes "lx_rest l \<noteq> []"
  obtains x where "isPiece x" "moves x l (lexAdvance l)" "fst (peek l) = toValid x"
    "\<And>c. of_char c < (0x80 :: nat) \<Longrightarrow> fst (peek l) = [c] \<longleftrightarrow> x = [c]"
proof -
  obtain x where x: "x \<noteq> []" "moves x l (lexAdvance l)" "fst (peek l) = toValid x" "fst (peek l) \<noteq> runeError \<Longrightarrow> fst (peek l) = x"
    using advance_moves [OF assms] by metis
  have ascii: "fst (peek l) = [c] \<longleftrightarrow> x = [c]" if "of_char c < (0x80 :: nat)" for c
    using x(3,4) that by (auto simp: runeError_def toValid.simps [of "[_]"] between_def)
  have "isPiece x"
  proof (cases "\<exists>c. of_char c < (0x80 :: nat) \<and> fst (peek l) = [c]")
    case True
    then show ?thesis using ascii by (auto simp: isPiece_def)
  next
    case False
    then have "c \<notin> set x" if "of_char c < (0x80 :: nat)" for c
      using advance_avoids [OF assms x(2) _ that] that by blast
    then have "\<forall>c \<in> set x. 0x80 \<le> (of_char c :: nat)" by (meson not_le)
    then show ?thesis using x(1) by (simp add: isPiece_def)
  qed
  then show ?thesis using that x(2,3) ascii by blast
qed

lemma unescape_rune:
  assumes "fst (peek l) = toValid x" "\<And>c. of_char c < (0x80 :: nat) \<Longrightarrow> fst (peek l) = [c] \<longleftrightarrow> x = [c]"
  shows "unescape (fst (peek l)) = unescape x"
  using assms(2) [of "CHR ''n''"] assms(2) [of "CHR ''t''"] assms(2) [of "CHR ''r''"] assms(2) [of "CHR 0x22"] assms(2) [of "CHR 0x5C"]
  by (auto simp: unescape_def)

text \<open>What the body of a quoted literal consumes denotes the value it collects.\<close>

lemma scanStringBody_denotes:
  "\<exists>x v. moves x l (snd (scanStringBody start b l)) \<and> tk_Lit (fst (scanStringBody start b l)) = b @ v \<and> quotedText x v"
proof (induction start b l rule: scanStringBody.induct)
  case (1 start b l)
  let ?r = "fst (peek l)"
  show ?case
  proof (cases "lx_rest l = [] \<or> ?r = [CHR 0x0A]")
    case True
    then have "scanStringBody start b l = (mkToken KindString b start, lexErrorf start UnterminatedString l)"
      unfolding scanStringBody.simps [of start b l] Let_def by auto
    then show ?thesis using moves_refl [of l] quoted_cut by (intro exI [of _ "[]"]) (simp add: mkToken_def)
  next
    case False
    then have ne: "lx_rest l \<noteq> []" and nl: "?r \<noteq> [CHR 0x0A]" by auto
    obtain x where x: "isPiece x" "moves x l (lexAdvance l)" "?r = toValid x"
      "\<And>c. of_char c < (0x80 :: nat) \<Longrightarrow> ?r = [c] \<longleftrightarrow> x = [c]" using advance_piece [OF ne] by metis
    show ?thesis
    proof (cases "?r = [CHR 0x22]")
      case True
      then have "scanStringBody start b l = (mkToken KindString b start, lexAdvance l)" "x = [CHR 0x22]"
        using ne x(4) [of "CHR 0x22"] unfolding scanStringBody.simps [of start b l] Let_def by auto
      then have "moves x l (snd (scanStringBody start b l)) \<and> tk_Lit (fst (scanStringBody start b l)) = b @ [] \<and> quotedText x []"
        using x(2) quoted_closed by (simp add: mkToken_def)
      then show ?thesis by blast
    next
      case q: False
      show ?thesis
      proof (cases "?r = [CHR 0x5C]")
        case esc: True
        then have bs: "x = [CHR 0x5C]" using x(4) [of "CHR 0x5C"] by simp
        let ?l1 = "lexAdvance l"
        show ?thesis
        proof (cases "lx_rest ?l1 = []")
          case True
          have "scanStringBody start b l = (mkToken KindString b start, lexErrorf start UnterminatedString ?l1)"
            using ne nl q esc True by (simp add: scanStringBody.simps [of start b l] scanStringBody.simps [of start b ?l1] Let_def)
          then have "moves x l (snd (scanStringBody start b l)) \<and> tk_Lit (fst (scanStringBody start b l)) = b @ [] \<and> quotedText x []"
            using x(2) bs quoted_cut_escape by (simp add: mkToken_def)
          then show ?thesis by blast
        next
          case ne1: False
          obtain y where y: "isPiece y" "moves y ?l1 (lexAdvance ?l1)" "fst (peek ?l1) = toValid y"
            "\<And>c. of_char c < (0x80 :: nat) \<Longrightarrow> fst (peek ?l1) = [c] \<longleftrightarrow> y = [c]" using advance_piece [OF ne1] by metis
          note u = unescape_rune [OF y(3,4)]
          have xy: "moves (CHR 0x5C # y) l (lexAdvance (lexErrorf p e ?l1))" "moves (CHR 0x5C # y) l (lexAdvance ?l1)" for p e
            using moves_trans [OF x(2) y(2)] bs by simp_all
          show ?thesis
          proof (cases "unescape (fst (peek ?l1))")
            case (Some s)
            then obtain z v where z: "moves z (lexAdvance ?l1) (snd (scanStringBody start (b @ s) (lexAdvance ?l1)))"
              "tk_Lit (fst (scanStringBody start (b @ s) (lexAdvance ?l1))) = (b @ s) @ v" "quotedText z v"
              using "1.IH"(3) [OF refl ne q nl esc refl refl ne1 Some] by blast
            have "scanStringBody start b l = scanStringBody start (b @ s) (lexAdvance ?l1)"
              using ne nl q esc ne1 Some by (simp add: scanStringBody.simps [of start b l] Let_def)
            moreover have "quotedText (CHR 0x5C # y @ z) (s @ v)" using Some u by (intro quoted_escape y(1) z(3)) simp
            ultimately show ?thesis using moves_trans [OF xy(2) z(1)] z(2) by (metis append_Cons append_assoc)
          next
            case None
            let ?l2 = "lexAdvance (lexErrorf (lexPos ?l1) (UnknownEscape (fst (peek ?l1))) ?l1)"
            obtain z v where z: "moves z ?l2 (snd (scanStringBody start (b @ fst (peek ?l1)) ?l2))"
              "tk_Lit (fst (scanStringBody start (b @ fst (peek ?l1)) ?l2)) = (b @ fst (peek ?l1)) @ v" "quotedText z v"
              using "1.IH"(2) [OF refl ne q nl esc refl refl ne1 None] by blast
            have "scanStringBody start b l = scanStringBody start (b @ fst (peek ?l1)) ?l2"
              using ne nl q esc ne1 None by (simp add: scanStringBody.simps [of start b l] Let_def)
            moreover have "quotedText (CHR 0x5C # y @ z) (fst (peek ?l1) @ v)"
              unfolding y(3) using None u by (intro quoted_unknown y(1) z(3)) simp
            ultimately show ?thesis using moves_trans [OF xy(1) z(1)] z(2) by (metis append_Cons append_assoc)
          qed
        qed
      next
        case plain: False
        obtain z v where z: "moves z (lexAdvance l) (snd (scanStringBody start (b @ ?r) (lexAdvance l)))"
          "tk_Lit (fst (scanStringBody start (b @ ?r) (lexAdvance l))) = (b @ ?r) @ v" "quotedText z v"
          using "1.IH"(4) [OF refl ne q nl plain] by blast
        have "scanStringBody start b l = scanStringBody start (b @ ?r) (lexAdvance l)"
          using ne nl q plain by (simp add: scanStringBody.simps [of start b l] Let_def)
        moreover have "x \<notin> {[CHR 0x22], [CHR 0x0A], [CHR 0x5C]}"
          using x(4) [of "CHR 0x22"] x(4) [of "CHR 0x0A"] x(4) [of "CHR 0x5C"] q nl plain by auto
        then have "quotedText (x @ z) (?r @ v)" unfolding x(3) by (intro quoted_plain x(1) z(3))
        ultimately show ?thesis using moves_trans [OF x(2) z(1)] z(2) by (metis append_assoc)
      qed
    qed
  qed
qed

lemma quote_advance:
  assumes "lx_rest l \<noteq> []" "fst (peek l) = [CHR 0x22]"
  shows "moves [CHR 0x22] l (lexAdvance l)"
proof -
  obtain x where x: "moves x l (lexAdvance l)" "\<And>c. of_char c < (0x80 :: nat) \<Longrightarrow> fst (peek l) = [c] \<longleftrightarrow> x = [c]"
    using advance_piece [OF assms(1)] by metis
  then have "x = [CHR 0x22]" using x(2) [of "CHR 0x22"] assms(2) by simp
  then show ?thesis using x(1) by simp
qed

lemma scanString_text:
  assumes "lx_rest l \<noteq> []" "fst (peek l) = [CHR 0x22]"
  shows "scanned start l (scanString start l)"
proof -
  obtain y v where y: "moves y (lexAdvance l) (snd (scanString start l))" "tk_Lit (fst (scanString start l)) = v" "quotedText y v"
    unfolding scanString_def using scanStringBody_denotes [of "lexAdvance l" start "[]"] by auto
  have "tk_Kind (fst (scanString start l)) = KindString" "tk_Pos (fst (scanString start l)) = start"
    unfolding scanString_def using scanStringBody_moves [of "lexAdvance l" start "[]"] by auto
  moreover from this have "tokenText (fst (scanString start l)) (CHR 0x22 # y)"
    unfolding tokenText_def using y(2,3) by simp
  ultimately show ?thesis using moves_trans [OF quote_advance [OF assms] y(1)]
    unfolding scanned_def by auto
qed

lemma advance_ascii_moves:
  assumes "lx_rest l = c # s" "of_char c < (0x80 :: nat)"
  shows "moves [c] l (lexAdvance l)" "lx_rest (lexAdvance l) = s"
proof -
  obtain x where x: "moves x l (lexAdvance l)" "\<And>c. of_char c < (0x80 :: nat) \<Longrightarrow> fst (peek l) = [c] \<longleftrightarrow> x = [c]"
    using advance_piece [of l] assms(1) by (metis list.distinct(1))
  have "fst (peek l) = [c]" using peek_ascii [OF assms] by simp
  then have "x = [c]" using x(2) [OF assms(2)] by simp
  with x(1) show m: "moves [c] l (lexAdvance l)" by simp
  show "lx_rest (lexAdvance l) = s" using moves_rest [OF m] assms(1) by simp
qed

lemma triple_advance:
  assumes "lx_rest l = tripleQuote @ s"
  shows "moves tripleQuote l (advance3 l)"
proof -
  have 1: "moves [CHR 0x22] l (lexAdvance l)" "lx_rest (lexAdvance l) = CHR 0x22 # CHR 0x22 # s"
    using advance_ascii_moves [of l "CHR 0x22" "CHR 0x22 # CHR 0x22 # s"] assms by (simp_all add: tripleQuote_def)
  have 2: "moves [CHR 0x22] (lexAdvance l) (lexAdvance (lexAdvance l))" "lx_rest (lexAdvance (lexAdvance l)) = CHR 0x22 # s"
    using advance_ascii_moves [OF 1(2)] by simp_all
  have 3: "moves [CHR 0x22] (lexAdvance (lexAdvance l)) (advance3 l)"
    using advance_ascii_moves [OF 2(2)] by (simp add: advance3_def)
  show ?thesis using moves_trans [OF 1(1) moves_trans [OF 2(1) 3]] by (simp add: tripleQuote_def)
qed

lemma scanMultilineBody_end: "scanMultilineBody l = (True, l') \<Longrightarrow> prefix tripleQuote (lx_rest l')"
proof (induction l rule: scanMultilineBody.induct)
  case (1 l)
  then show ?case unfolding scanMultilineBody.simps [of l] by (auto split: if_splits)
qed

lemma scanMultilineString_text:
  assumes "prefix tripleQuote (lx_rest l)"
  shows "scanned start l (scanMultilineString start l)"
proof -
  obtain s where "lx_rest l = tripleQuote @ s" using assms by (auto simp: prefix_def)
  note x = triple_advance [OF this]
  obtain ended l2 where b: "scanMultilineBody (advance3 l) = (ended, l2)" by (cases "scanMultilineBody (advance3 l)")
  obtain z where z: "moves z (advance3 l) l2" using scanMultilineBody_moves [of "advance3 l"] b by auto
  obtain w where w: "moves w l2 (if ended then advance3 l2 else l2)" "w \<in> {[], tripleQuote}"
  proof (cases ended)
    case True
    then obtain s where "lx_rest l2 = tripleQuote @ s" using scanMultilineBody_end b by (auto simp: prefix_def)
    then show ?thesis using that triple_advance True by (metis insertCI)
  qed (use that moves_refl in auto)
  let ?t = "fst (scanMultilineString start l)"
  have t: "?t = mkToken KindString (normalizeMultiline z) start"
    "moves x l (snd (scanMultilineString start l)) = moves x l (if ended then advance3 l2 else l2)" for x
    by (simp_all add: scanMultilineString_def Let_def b textBetween_moves [OF z])
  have "moves (tripleQuote @ z @ w) l (snd (scanMultilineString start l))"
    unfolding t by (rule moves_trans [OF x moves_trans [OF z w(1)]])
  moreover have "tokenText ?t (tripleQuote @ z @ w)"
    unfolding tokenText_def t mkToken_def using w(2) by (auto simp: tripleQuote_def)
  ultimately show ?thesis unfolding scanned_def t(1) by (auto simp: mkToken_def)
qed

lemma Next_scanned:
  assumes "lx_rest (skipTrivia l) \<noteq> []"
  shows "scanned (lexPos (skipTrivia l)) (skipTrivia l) (Next l)"
proof -
  define k where "k = skipTrivia l"
  let ?r = "fst (peek k)"
  have ne: "lx_rest k \<noteq> []" using assms by (simp add: k_def)
  obtain x where x: "x \<noteq> []" "moves x k (lexAdvance k)" "?r = toValid x" "?r \<noteq> runeError \<Longrightarrow> ?r = x"
    using advance_moves [OF ne] by metis
  have punct: "scanned p k (mkToken kd ?r p, lexAdvance k)" if "map_of punctuation ?r = Some kd" for p kd
  proof -
    have "kd \<notin> {KindEOF, KindString, KindError} \<and> ?r \<noteq> runeError"
      using map_of_SomeD [OF that] by (auto simp: punctuation_def runeError_def)
    moreover from this have "?r = x" using x(4) by blast
    ultimately show ?thesis using x(1,2) by (auto simp: scanned_def mkToken_def tokenText_def)
  qed
  have err: "scanned p k (mkToken KindError ?r p, lexErrorf p e (lexAdvance k))" for p e
    using x(1-3) by (auto simp: scanned_def mkToken_def tokenText_def)
  show ?thesis
  proof (cases "isIdentStart ?r \<or> isRuneDigit ?r \<or> ?r = [CHR 0x22]")
    case True
    then show ?thesis
      unfolding Next_def Let_def k_def [symmetric] if_not_P [OF ne]
      by (auto simp: scanIdent_text [OF ne] scanNumber_text [OF ne] scanString_text [OF ne] scanMultilineString_text)
  next
    case False
    then have N: "Next l = (case map_of punctuation ?r of Some kd \<Rightarrow> (mkToken kd ?r (lexPos k), lexAdvance k)
        | None \<Rightarrow> (case map_of operators ?r of Some op \<Rightarrow> scanOperator (lexPos k) ?r op k
            | None \<Rightarrow> (mkToken KindError ?r (lexPos k), lexErrorf (lexPos k) (UnexpectedRune ?r) (lexAdvance k))))"
      unfolding Next_def Let_def k_def [symmetric] if_not_P [OF ne] by simp
    show ?thesis
      unfolding N k_def [symmetric] using punct err scanOperator_text [OF ne refl]
      by (cases "map_of punctuation ?r"; cases "map_of operators ?r") simp_all
  qed
qed

lemma Next_EOF: "lx_rest (skipTrivia l) = [] \<Longrightarrow> Next l = (mkToken KindEOF [] (lexPos (skipTrivia l)), skipTrivia l)"
  by (simp add: Next_def Let_def)

lemma Next_length: "tk_Kind (fst (Next l)) \<noteq> KindEOF \<Longrightarrow> length (lx_rest (snd (Next l))) < length (lx_rest l)"
proof -
  assume "tk_Kind (fst (Next l)) \<noteq> KindEOF"
  then have "lx_rest (skipTrivia l) \<noteq> []" using Next_EOF [of l] by (auto simp: mkToken_def)
  from Next_scanned [OF this] obtain x where x: "moves x (skipTrivia l) (snd (Next l))" "x \<noteq> []"
    by (auto simp: scanned_def tokenText_def)
  obtain g where "moves g l (skipTrivia l)" using skipTrivia_moves by blast
  from moves_rest [OF moves_trans [OF this x(1)]] show ?thesis using x(2) by simp
qed

text \<open>The token stream the parser pulls from the lexer, up to and including the end-of-file token.\<close>

function lexFrom :: "lexer \<Rightarrow> token list \<times> lexer" where
  "lexFrom l =
     (case Next l of (t, l') \<Rightarrow>
        if tk_Kind t = KindEOF then ([t], l')
        else case lexFrom l' of (ts, l'') \<Rightarrow> (t # ts, l''))"
  by pat_completeness auto
termination
proof (relation "measure (\<lambda>l. length (lx_rest l))")
  fix l t l'
  assume "(t, l') = Next l" "tk_Kind t \<noteq> KindEOF"
  then show "(l', l) \<in> measure (\<lambda>l. length (lx_rest l))" using Next_length [of l] by (metis fst_conv in_measure snd_conv)
qed simp

declare lexFrom.simps [simp del]

definition lexAll :: "string \<Rightarrow> token list \<times> lexer" where
  "lexAll src = lexFrom (NewLexer src)"

inductive covered :: "token list \<Rightarrow> string \<Rightarrow> bool" where
  covered_end: "isTrivia g \<Longrightarrow> tk_Kind t = KindEOF \<Longrightarrow> covered [t] g"
| covered_token: "isTrivia g \<Longrightarrow> tk_Kind t \<noteq> KindEOF \<Longrightarrow> tokenText t x \<Longrightarrow> covered ts r \<Longrightarrow> covered (t # ts) (g @ x @ r)"

definition posLe :: "pos \<Rightarrow> pos \<Rightarrow> bool" where
  "posLe p q \<longleftrightarrow> p = q \<or> posLess p q"

lemma moves_posLe: "moves x l l' \<Longrightarrow> posLe (lexPos l) (lexPos l')"
  by (auto simp: moves_def posLe_def split: if_splits)

lemma lexFrom_covered:
  "covered (fst (lexFrom l)) (lx_rest l) \<and> lx_rest (snd (lexFrom l)) = [] \<and>
   sorted_wrt posLess (map tk_Pos (fst (lexFrom l))) \<and> list_all (\<lambda>t. posLe (lexPos l) (tk_Pos t)) (fst (lexFrom l))"
proof (induction l rule: lexFrom.induct)
  case (1 l)
  obtain g where g: "moves g l (skipTrivia l)" "isTrivia g" using skipTrivia_moves by blast
  obtain t l' where N: "Next l = (t, l')" by (cases "Next l")
  show ?case
  proof (cases "lx_rest (skipTrivia l) = []")
    case True
    then have "lexFrom l = ([mkToken KindEOF [] (lexPos (skipTrivia l))], skipTrivia l)"
      using Next_EOF [OF True] by (subst lexFrom.simps) (simp add: mkToken_def)
    then show ?thesis using g True moves_rest [OF g(1)] moves_posLe [OF g(1)]
      by (auto simp: mkToken_def intro: covered_end)
  next
    case False
    from Next_scanned [OF this] N obtain x where x: "moves x (skipTrivia l) l'" "tokenText t x" "tk_Kind t \<noteq> KindEOF"
      "tk_Pos t = lexPos (skipTrivia l)" by (auto simp: scanned_def)
    obtain ts l'' where rec: "lexFrom l' = (ts, l'')" by (cases "lexFrom l'")
    have eq: "lexFrom l = (t # ts, l'')" using N x(3) rec by (subst lexFrom.simps) simp
    from 1 [OF N [symmetric] x(3)] rec have IH: "covered ts (lx_rest l')" "lx_rest l'' = []"
      "sorted_wrt posLess (map tk_Pos ts)" "list_all (\<lambda>t. posLe (lexPos l') (tk_Pos t)) ts" by simp_all
    have "posLess (tk_Pos t) (lexPos l')" using x by (simp add: moves_def tokenText_def)
    then have "list_all (\<lambda>u. posLess (tk_Pos t) (tk_Pos u)) ts"
      using IH(4) by (auto simp: list_all_iff posLe_def intro: posLess_trans)
    moreover have "posLe (lexPos l) (tk_Pos t)" using moves_posLe [OF g(1)] x(4) by simp
    ultimately show ?thesis
      using covered_token [OF g(2) x(3,2) IH(1)] IH moves_rest [OF g(1)] moves_rest [OF x(1)] eq
      by (auto simp: list_all_iff posLe_def intro: posLess_trans)
  qed
qed

text \<open>
  C9. Lexing always ends and loses nothing: the source is exactly the texts of its tokens in order, with
  only whitespace and line comments between and around them (the text of a string being a literal that
  denotes the token's value, or a block), the stream ends with its one end-of-file
  token, the whole source has been consumed, and token positions increase strictly.
\<close>

theorem lexing_covers_source:
  "covered (fst (lexAll src)) src \<and> lx_rest (snd (lexAll src)) = [] \<and>
   sorted_wrt posLess (map tk_Pos (fst (lexAll src)))"
  using lexFrom_covered [of "NewLexer src"] by (simp add: lexAll_def NewLexer_def)

end
