(* ===== verification/Lang_Parser.thy ===== *)
theory Lang_Parser
  imports Lang_Lexer "HOL-Library.Monad_Syntax"
begin

text \<open>
  The syntax trees of the agent language (\<open>internal/lang/ast.go\<close>) and the recursive-descent parser
  of workflow declarations, statements and expressions (\<open>parser.go\<close>). Trees are taken without
  positions. The parser state is the token stream that is left, the position of its end, and the
  diagnostics so far. A parser that recurses takes fuel and yields \<open>None\<close> when it runs out;
  \<open>parse_total\<close> shows that the fuel given by the length of the stream is always enough.
\<close>

subsection \<open>Syntax trees\<close>

text \<open>\<open>NilExpr\<close> is the nil expression a syntax error leaves behind.\<close>

datatype expr =
    NilExpr
  | RefExpr "string list"
  | LitExpr any
  | UnaryExpr expr
  | BinaryExpr kind expr expr
  | CallExpr "string list" "(string option \<times> expr) list"
  | ObjectExpr "(string \<times> expr) list"

type_synonym call_arg = "string option \<times> expr"

datatype stmt =
    AssignStmt string expr
  | ExprStmt expr
  | ParallelStmt "(string \<times> expr) list"
  | ReturnStmt expr
  | ApprovalStmt "string option" "string option" "string list" "call_arg list"
  | IfStmt expr "stmt list" "stmt list"
  | ForStmt bool "string option" expr "stmt list"
  | WhileStmt expr int "stmt list"
  | RetryStmt expr int "stmt list"

record workflow_decl =
  wd_Name :: "string option"
  wd_Params :: "(string \<times> string option) list"
  wd_Result :: "string option"
  wd_Description :: "string option"
  wd_Policy :: "string option"
  wd_Effects :: "string list"
  wd_Body :: "stmt list"

subsection \<open>The parser state\<close>

datatype parse_error =
    ExpectedKind kind
  | ExpectedIdent
  | ExpectedType
  | ExpectedString
  | ExpectedExpression
  | ExpectedStatement
  | ExpectedField
  | ExpectedIn
  | ExpectedLimit
  | ExpectedEffect
  | ExpectedBranch
  | UnknownField string
  | DuplicateField string
  | ChainedComparison
  | InvalidNumber string
  | LimitNotPositive
  | EffectLooksLikeGrant string

record pstate =
  pp_toks :: "token list"
  pp_eof :: pos
  pp_diags :: "(pos \<times> parse_error) list"

definition cur :: "pstate \<Rightarrow> token" where
  "cur st = (case pp_toks st of [] \<Rightarrow> mkToken KindEOF [] (pp_eof st) | t # ts \<Rightarrow> t)"

definition peekt :: "pstate \<Rightarrow> token" where
  "peekt st = (case pp_toks st of t # u # ts \<Rightarrow> u | _ \<Rightarrow> mkToken KindEOF [] (pp_eof st))"

abbreviation curKind :: "pstate \<Rightarrow> kind" where
  "curKind st \<equiv> tk_Kind (cur st)"

abbreviation curLit :: "pstate \<Rightarrow> string" where
  "curLit st \<equiv> tk_Lit (cur st)"

definition advance :: "pstate \<Rightarrow> pstate" where
  "advance st = st\<lparr>pp_toks := tl (pp_toks st)\<rparr>"

definition errorf :: "pos \<Rightarrow> parse_error \<Rightarrow> pstate \<Rightarrow> pstate" where
  "errorf p e st = st\<lparr>pp_diags := pp_diags st @ [(p, e)]\<rparr>"

definition errorHere :: "parse_error \<Rightarrow> pstate \<Rightarrow> pstate" where
  "errorHere e st = errorf (tk_Pos (cur st)) e st"

definition expect :: "kind \<Rightarrow> pstate \<Rightarrow> bool \<times> pstate" where
  "expect k st = (if curKind st = k then (True, advance st) else (False, errorHere (ExpectedKind k) st))"

definition ident :: "pstate \<Rightarrow> string option \<times> pstate" where
  "ident st = (if curKind st = KindIdent then (Some (curLit st), advance st) else (None, errorHere ExpectedIdent st))"

definition isWord :: "string \<Rightarrow> token \<Rightarrow> bool" where
  "isWord s t \<longleftrightarrow> tk_Kind t = KindIdent \<and> tk_Lit t = s"

text \<open>The loops of the recovery helpers only advance.\<close>

definition skipWhile :: "(token \<Rightarrow> bool) \<Rightarrow> pstate \<Rightarrow> pstate" where
  "skipWhile P st = st\<lparr>pp_toks := dropWhile (\<lambda>t. tk_Kind t \<noteq> KindEOF \<and> P t) (pp_toks st)\<rparr>"

definition syncLine :: "pstate \<Rightarrow> pstate" where
  "syncLine st =
     skipWhile (\<lambda>t. tk_Kind t \<noteq> KindRBrace \<and> ps_Line (tk_Pos t) = ps_Line (tk_Pos (cur st))) (advance st)"

definition syncList :: "pstate \<Rightarrow> pstate" where
  "syncList st =
     (let st1 = skipWhile (\<lambda>t. tk_Kind t \<noteq> KindRParen \<and> tk_Kind t \<noteq> KindComma) st
      in if curKind st1 = KindComma then advance st1 else st1)"

lemma cur_EOF [simp]: "pp_toks st = [] \<Longrightarrow> curKind st = KindEOF"
  by (simp add: cur_def mkToken_def)

lemma advance_less: "curKind st \<noteq> KindEOF \<Longrightarrow> length (pp_toks (advance st)) < length (pp_toks st)"
  by (cases "pp_toks st") (simp_all add: advance_def)

function pathTail :: "pstate \<Rightarrow> string list \<times> pstate" where
  "pathTail st =
     (if curKind st = KindDot then
        (case ident (advance st) of
           (None, st1) \<Rightarrow> ([], st1)
         | (Some s, st1) \<Rightarrow> (case pathTail st1 of (ss, st2) \<Rightarrow> (s # ss, st2)))
      else ([], st))"
  by pat_completeness auto
termination
  by (relation "measure (\<lambda>st. length (pp_toks st))")
    (auto simp: ident_def advance_def cur_def mkToken_def split: if_splits list.splits)

declare pathTail.simps [simp del]

definition parseDottedPath :: "pstate \<Rightarrow> string list \<times> pstate" where
  "parseDottedPath st =
     (case ident st of
        (None, st1) \<Rightarrow> ([], st1)
      | (Some s, st1) \<Rightarrow> (case pathTail st1 of (ss, st2) \<Rightarrow> (s # ss, st2)))"

definition dottedName :: "string list \<Rightarrow> string" where
  "dottedName parts = Join parts ''.''"

subsection \<open>Expressions\<close>

type_synonym 'a parser = "pstate \<Rightarrow> ('a \<times> pstate) option"

definition parseNumber :: "go_text \<Rightarrow> pstate \<Rightarrow> expr \<times> pstate" where
  "parseNumber T st =
     (let tok = cur st; st1 = advance st; lit = tk_Lit tok in
      case (if CHR ''.'' \<in> set lit then IntSyntax else ParseInt lit) of
        ParsedInt i \<Rightarrow> (LitExpr (AInt i), st1)
      | _ \<Rightarrow> (case gt_parse T lit of
                Some f \<Rightarrow> (LitExpr (AFloat f), st1)
              | None \<Rightarrow> (LitExpr (AFloat (Fin 0)), errorf (tk_Pos tok) (InvalidNumber lit) st1)))"

fun objectFields :: "nat \<Rightarrow> expr parser \<Rightarrow> (string \<times> expr) list \<Rightarrow> (string \<times> expr) list parser" where
  "objectFields 0 pe acc st = None"
| "objectFields (Suc n) pe acc st =
     (if curKind st = KindRBrace \<or> curKind st = KindEOF then Some (acc, st)
      else if curKind st = KindComma then objectFields n pe acc (advance st)
      else if curKind st \<noteq> KindIdent then objectFields n pe acc (syncLine (errorHere ExpectedField st))
      else case expect KindColon (advance st) of
          (False, st1) \<Rightarrow> objectFields n pe acc (syncLine st1)
        | (True, st1) \<Rightarrow> do { (v, st2) \<leftarrow> pe st1; objectFields n pe (acc @ [(curLit st, v)]) st2 })"

definition parseObjectLiteral :: "nat \<Rightarrow> expr parser \<Rightarrow> expr parser" where
  "parseObjectLiteral n pe st =
     (case expect KindLBrace st of
        (False, st1) \<Rightarrow> Some (ObjectExpr [], st1)
      | (True, st1) \<Rightarrow> do { (fs, st2) \<leftarrow> objectFields n pe [] st1; Some (ObjectExpr fs, snd (expect KindRBrace st2)) })"

text \<open>\<open>None\<close> is the nil argument.\<close>

definition parseArg :: "expr parser \<Rightarrow> call_arg option parser" where
  "parseArg pe st =
     (if curKind st = KindIdent \<and> tk_Kind (peekt st) = KindColon then
        do { (v, st1) \<leftarrow> pe (advance (advance st)); Some (Some (Some (curLit st), v), st1) }
      else do { (v, st1) \<leftarrow> pe st; Some (if v = NilExpr then None else Some (None, v), st1) })"

fun argList :: "nat \<Rightarrow> expr parser \<Rightarrow> call_arg list \<Rightarrow> call_arg list parser" where
  "argList 0 pe acc st = None"
| "argList (Suc n) pe acc st =
     (if curKind st = KindRParen \<or> curKind st = KindEOF then Some (acc, st)
      else do { (a, st1) \<leftarrow> parseArg pe st;
        case a of
          None \<Rightarrow> argList n pe acc (syncList st1)
        | Some x \<Rightarrow>
            if curKind st1 = KindComma then argList n pe (acc @ [x]) (advance st1) else Some (acc @ [x], st1) })"

definition parseArgs :: "nat \<Rightarrow> expr parser \<Rightarrow> call_arg list parser" where
  "parseArgs n pe st =
     (case expect KindLParen st of
        (False, st1) \<Rightarrow> Some ([], st1)
      | (True, st1) \<Rightarrow> do { (args, st2) \<leftarrow> argList n pe [] st1; Some (args, snd (expect KindRParen st2)) })"

definition isTruthWord :: "string \<Rightarrow> bool" where
  "isTruthWord s \<longleftrightarrow> s = ''true'' \<or> s = ''false''"

definition parseIdentExpr :: "nat \<Rightarrow> expr parser \<Rightarrow> expr parser" where
  "parseIdentExpr n pe st =
     (if isTruthWord (curLit st) \<and> tk_Kind (peekt st) \<noteq> KindDot \<and> tk_Kind (peekt st) \<noteq> KindLParen
      then Some (LitExpr (ABool (curLit st = ''true'')), advance st)
      else case parseDottedPath st of (parts, st1) \<Rightarrow>
        if parts = [] then Some (NilExpr, st1)
        else if curKind st1 = KindLParen then
          do { (args, st2) \<leftarrow> parseArgs n pe st1; Some (CallExpr parts args, st2) }
        else Some (RefExpr parts, st1))"

definition parsePrimary :: "go_text \<Rightarrow> nat \<Rightarrow> expr parser \<Rightarrow> expr parser" where
  "parsePrimary T n pe st =
     (case curKind st of
        KindNumber \<Rightarrow> Some (parseNumber T st)
      | KindString \<Rightarrow> Some (LitExpr (AStr (curLit st)), advance st)
      | KindLParen \<Rightarrow> do { (e, st1) \<leftarrow> pe (advance st); Some (e, snd (expect KindRParen st1)) }
      | KindLBrace \<Rightarrow> parseObjectLiteral n pe st
      | KindIdent \<Rightarrow> parseIdentExpr n pe st
      | _ \<Rightarrow> Some (NilExpr, errorHere ExpectedExpression st))"

fun parseUnary :: "nat \<Rightarrow> expr parser \<Rightarrow> expr parser" where
  "parseUnary 0 pp st = None"
| "parseUnary (Suc n) pp st =
     (if curKind st = KindBang then do { (e, st1) \<leftarrow> parseUnary n pp (advance st); Some (UnaryExpr e, st1) }
      else pp st)"

definition isComparisonOp :: "kind \<Rightarrow> bool" where
  "isComparisonOp k \<longleftrightarrow> k \<in> {KindEqEq, KindBangEq, KindLt, KindLte, KindGt, KindGte}"

definition parseComparison :: "expr parser \<Rightarrow> expr parser" where
  "parseComparison pu st =
     do { (left, st1) \<leftarrow> pu st;
       if left = NilExpr \<or> \<not> isComparisonOp (curKind st1) then Some (left, st1)
       else do { (right, st2) \<leftarrow> pu (advance st1);
         Some (BinaryExpr (curKind st1) left right,
               if isComparisonOp (curKind st2) then errorHere ChainedComparison st2 else st2) } }"

text \<open>The loops of \<open>parseAnd\<close> and \<open>parseOr\<close>: operands joined by one operator, to the left.\<close>

fun joined :: "nat \<Rightarrow> kind \<Rightarrow> expr parser \<Rightarrow> expr \<Rightarrow> expr parser" where
  "joined 0 op operand left st = None"
| "joined (Suc n) op operand left st =
     (if left \<noteq> NilExpr \<and> curKind st = op then
        do { (right, st1) \<leftarrow> operand (advance st); joined n op operand (BinaryExpr op left right) st1 }
      else Some (left, st))"

definition parseAnd :: "nat \<Rightarrow> expr parser \<Rightarrow> expr parser" where
  "parseAnd n pc st = do { (left, st1) \<leftarrow> pc st; joined n KindAndAnd pc left st1 }"

definition parseOr :: "nat \<Rightarrow> expr parser \<Rightarrow> expr parser" where
  "parseOr n pa st = do { (left, st1) \<leftarrow> pa st; joined n KindOrOr pa left st1 }"

primrec parseExpr :: "go_text \<Rightarrow> nat \<Rightarrow> expr parser" where
  "parseExpr T 0 = (\<lambda>st. None)"
| "parseExpr T (Suc n) = parseOr n (parseAnd n (parseComparison (parseUnary n (parsePrimary T n (parseExpr T n)))))"

subsection \<open>Statements\<close>

definition parseStringLit :: "pstate \<Rightarrow> string option \<times> pstate" where
  "parseStringLit st =
     (if curKind st = KindString then (Some (curLit st), advance st) else (None, errorHere ExpectedString st))"

fun stringList :: "nat \<Rightarrow> string list \<Rightarrow> string list parser" where
  "stringList 0 acc st = None"
| "stringList (Suc n) acc st =
     (if curKind st = KindRBrace \<or> curKind st = KindEOF then Some (acc, st)
      else if curKind st \<noteq> KindString then stringList n acc (syncLine (errorHere ExpectedString st))
      else stringList n (acc @ [curLit st]) (advance st))"

definition parseStringListBlock :: "nat \<Rightarrow> string list parser" where
  "parseStringListBlock n st =
     (case expect KindLBrace st of
        (False, st1) \<Rightarrow> Some ([], st1)
      | (True, st1) \<Rightarrow> do { (ss, st2) \<leftarrow> stringList n [] st1; Some (ss, snd (expect KindRBrace st2)) })"

fun withArgs :: "nat \<Rightarrow> expr parser \<Rightarrow> call_arg list \<Rightarrow> call_arg list parser" where
  "withArgs 0 pe acc st = None"
| "withArgs (Suc n) pe acc st =
     (if curKind st = KindRBrace \<or> curKind st = KindEOF then Some (acc, st)
      else do { (a, st1) \<leftarrow> parseArg pe st;
        case a of
          None \<Rightarrow> withArgs n pe acc (syncLine st1)
        | Some x \<Rightarrow> withArgs n pe (acc @ [x]) (if curKind st1 = KindComma then advance st1 else st1) })"

definition parseApprovalWith :: "nat \<Rightarrow> expr parser \<Rightarrow> call_arg list parser" where
  "parseApprovalWith n pe st =
     (case expect KindLBrace st of
        (False, st1) \<Rightarrow> Some ([], st1)
      | (True, st1) \<Rightarrow> do { (args, st2) \<leftarrow> withArgs n pe [] st1; Some (args, snd (expect KindRBrace st2)) })"

record approval_fields =
  af_Description :: "string option"
  af_RedactKeys :: "string list"
  af_With :: "call_arg list"

definition noFields :: approval_fields where
  "noFields = \<lparr>af_Description = None, af_RedactKeys = [], af_With = []\<rparr>"

text \<open>One field of an approval body, after its name.\<close>

definition approvalField :: "nat \<Rightarrow> expr parser \<Rightarrow> string \<Rightarrow> pos \<Rightarrow> approval_fields \<Rightarrow> approval_fields parser" where
  "approvalField n pe field fpos a st =
     (if field = ''description'' then
        (case parseStringLit st of (d, st1) \<Rightarrow> Some (a\<lparr>af_Description := d\<rparr>, st1))
      else if field = ''redactKeys'' then
        do { (ks, st1) \<leftarrow> parseStringListBlock n st; Some (a\<lparr>af_RedactKeys := ks\<rparr>, st1) }
      else if field = ''with'' then
        do { (ws, st1) \<leftarrow> parseApprovalWith n pe st; Some (a\<lparr>af_With := ws\<rparr>, st1) }
      else Some (a, syncLine (errorf fpos (UnknownField field) st)))"

fun approvalFields :: "nat \<Rightarrow> expr parser \<Rightarrow> string list \<Rightarrow> approval_fields \<Rightarrow> approval_fields parser" where
  "approvalFields 0 pe seen a st = None"
| "approvalFields (Suc n) pe seen a st =
     (if curKind st = KindRBrace \<or> curKind st = KindEOF then Some (a, st)
      else if curKind st \<noteq> KindIdent then approvalFields n pe seen a (syncLine (errorHere ExpectedField st))
      else let field = curLit st; fpos = tk_Pos (cur st); st1 = advance st;
               st2 = (if field \<in> set seen then errorf fpos (DuplicateField field) st1 else st1)
           in do { (a', st3) \<leftarrow> approvalField n pe field fpos a st2; approvalFields n pe (field # seen) a' st3 })"

definition parseApproval :: "nat \<Rightarrow> expr parser \<Rightarrow> stmt parser" where
  "parseApproval n pe st =
     (case ident (advance st) of (b, st1) \<Rightarrow>
        case expect KindLBrace st1 of
          (False, st2) \<Rightarrow> Some (ApprovalStmt b None [] [], st2)
        | (True, st2) \<Rightarrow>
            do { (a, st3) \<leftarrow> approvalFields n pe [] noFields st2;
              Some (ApprovalStmt b (af_Description a) (af_RedactKeys a) (af_With a), snd (expect KindRBrace st3)) })"

fun branchList :: "nat \<Rightarrow> expr parser \<Rightarrow> (string \<times> expr) list \<Rightarrow> (string \<times> expr) list parser" where
  "branchList 0 pe acc st = None"
| "branchList (Suc n) pe acc st =
     (if curKind st = KindRBrace \<or> curKind st = KindEOF then Some (acc, st)
      else if curKind st = KindIdent \<and> tk_Kind (peekt st) = KindEquals then
        do { (v, st1) \<leftarrow> pe (advance (advance st)); branchList n pe (acc @ [(curLit st, v)]) st1 }
      else branchList n pe acc (syncLine (errorHere ExpectedBranch st)))"

definition parseParallel :: "nat \<Rightarrow> expr parser \<Rightarrow> stmt parser" where
  "parseParallel n pe st =
     (case expect KindLBrace (advance st) of
        (False, st1) \<Rightarrow> Some (ParallelStmt [], st1)
      | (True, st1) \<Rightarrow> do { (bs, st2) \<leftarrow> branchList n pe [] st1; Some (ParallelStmt bs, snd (expect KindRBrace st2)) })"

text \<open>\<open>ps\<close> parses a statement; \<open>None\<close> is the nil statement.\<close>

fun stmtList :: "nat \<Rightarrow> stmt option parser \<Rightarrow> stmt list \<Rightarrow> stmt list parser" where
  "stmtList 0 ps acc st = None"
| "stmtList (Suc n) ps acc st =
     (if curKind st = KindRBrace \<or> curKind st = KindEOF then Some (acc, st)
      else do { (s, st1) \<leftarrow> ps st;
        case s of
          None \<Rightarrow> stmtList n ps acc (syncLine st1)
        | Some x \<Rightarrow> stmtList n ps (acc @ [x]) st1 })"

definition parseBlock :: "nat \<Rightarrow> stmt option parser \<Rightarrow> stmt list parser" where
  "parseBlock n ps st =
     (case expect KindLBrace st of
        (False, st1) \<Rightarrow> Some ([], st1)
      | (True, st1) \<Rightarrow> do { (ss, st2) \<leftarrow> stmtList n ps [] st1; Some (ss, snd (expect KindRBrace st2)) })"

fun parseIf :: "nat \<Rightarrow> expr parser \<Rightarrow> stmt list parser \<Rightarrow> stmt parser" where
  "parseIf 0 pe pb st = None"
| "parseIf (Suc n) pe pb st =
     do { (c, st1) \<leftarrow> pe (advance st);
       (th, st2) \<leftarrow> pb st1;
       if curKind st2 = KindElse then
         (let st3 = advance st2 in
          if curKind st3 = KindIf then do { (s, st4) \<leftarrow> parseIf n pe pb st3; Some (IfStmt c th [s], st4) }
          else do { (el, st4) \<leftarrow> pb st3; Some (IfStmt c th el, st4) })
       else Some (IfStmt c th [], st2) }"

definition parseFor :: "expr parser \<Rightarrow> stmt list parser \<Rightarrow> bool \<Rightarrow> stmt parser" where
  "parseFor pe pb isParallel st =
     (case ident (advance st) of (v, st1) \<Rightarrow>
        let st2 = (if isWord ''in'' (cur st1) then advance st1 else errorHere ExpectedIn st1) in
        do { (c, st3) \<leftarrow> pe st2; (b, st4) \<leftarrow> pb st3; Some (ForStmt isParallel v c b, st4) })"

definition parseLimit :: "pstate \<Rightarrow> int \<times> pstate" where
  "parseLimit st =
     (let tok = cur st; lit = tk_Lit tok in
      if tk_Kind tok \<noteq> KindNumber then (0, errorHere LimitNotPositive st)
      else if CHR ''.'' \<in> set lit then (0, errorf (tk_Pos tok) LimitNotPositive (advance st))
      else case ParseInt lit of
          ParsedInt i \<Rightarrow> if i \<le> 0 then (0, errorf (tk_Pos tok) LimitNotPositive (advance st)) else (i, advance st)
        | _ \<Rightarrow> (0, errorf (tk_Pos tok) LimitNotPositive (advance st)))"

definition boundClause :: "pstate \<Rightarrow> int \<times> pstate" where
  "boundClause st = (if isWord ''limit'' (cur st) then parseLimit (advance st) else (0, errorHere ExpectedLimit st))"

definition parseWhile :: "expr parser \<Rightarrow> stmt list parser \<Rightarrow> stmt parser" where
  "parseWhile pe pb st =
     do { (c, st1) \<leftarrow> pe (advance st);
       let (lim, st2) = boundClause st1 in do { (b, st3) \<leftarrow> pb st2; Some (WhileStmt c lim b, st3) } }"

definition parseRetry :: "expr parser \<Rightarrow> stmt list parser \<Rightarrow> stmt parser" where
  "parseRetry pe pb st =
     do { (c, st1) \<leftarrow> pe (advance (advance st));
       let (lim, st2) = boundClause st1 in do { (b, st3) \<leftarrow> pb st2; Some (RetryStmt c lim b, st3) } }"

definition someStmt :: "stmt parser \<Rightarrow> stmt option parser" where
  "someStmt p st = do { (s, st1) \<leftarrow> p st; Some (Some s, st1) }"

definition parseIdentStmt :: "nat \<Rightarrow> expr parser \<Rightarrow> stmt list parser \<Rightarrow> stmt option parser" where
  "parseIdentStmt n pe pb st =
     (if curLit st = ''retry'' \<and> isWord ''until'' (peekt st) then someStmt (parseRetry pe pb) st
      else if curLit st = ''approval'' \<and> tk_Kind (peekt st) = KindIdent then someStmt (parseApproval n pe) st
      else if tk_Kind (peekt st) = KindEquals then
        do { (v, st1) \<leftarrow> pe (advance (advance st)); Some (Some (AssignStmt (curLit st) v), st1) }
      else do { (x, st1) \<leftarrow> pe st; Some (if x = NilExpr then None else Some (ExprStmt x), st1) })"

definition stmtBody :: "nat \<Rightarrow> expr parser \<Rightarrow> stmt list parser \<Rightarrow> stmt option parser" where
  "stmtBody n pe pb st =
     (case curKind st of
        KindReturn \<Rightarrow> do { (v, st1) \<leftarrow> pe (advance st); Some (Some (ReturnStmt v), st1) }
      | KindIf \<Rightarrow> someStmt (parseIf n pe pb) st
      | KindFor \<Rightarrow> someStmt (parseFor pe pb False) st
      | KindWhile \<Rightarrow> someStmt (parseWhile pe pb) st
      | KindParallel \<Rightarrow>
          if tk_Kind (peekt st) = KindFor then someStmt (parseFor pe pb True) (advance st)
          else someStmt (parseParallel n pe) st
      | KindIdent \<Rightarrow> parseIdentStmt n pe pb st
      | _ \<Rightarrow> Some (None, errorHere ExpectedStatement st))"

primrec parseStmt :: "go_text \<Rightarrow> nat \<Rightarrow> stmt option parser" where
  "parseStmt T 0 = (\<lambda>st. None)"
| "parseStmt T (Suc n) = stmtBody n (parseExpr T n) (parseBlock n (parseStmt T n))"

subsection \<open>Workflow declarations\<close>

definition parseTypeRef :: "pstate \<Rightarrow> string option \<times> pstate" where
  "parseTypeRef st = (if curKind st = KindIdent then (Some (curLit st), advance st) else (None, errorHere ExpectedType st))"

fun paramList :: "nat \<Rightarrow> (string \<times> string option) list \<Rightarrow> (string \<times> string option) list parser" where
  "paramList 0 acc st = None"
| "paramList (Suc n) acc st =
     (if curKind st = KindRParen \<or> curKind st = KindEOF then Some (acc, st)
      else case ident st of
          (None, st1) \<Rightarrow> paramList n acc (syncList st1)
        | (Some name, st1) \<Rightarrow>
            (case parseTypeRef (snd (expect KindColon st1)) of (ty, st2) \<Rightarrow>
               if curKind st2 = KindComma then paramList n (acc @ [(name, ty)]) (advance st2)
               else Some (acc @ [(name, ty)], st2)))"

definition parseParams :: "nat \<Rightarrow> (string \<times> string option) list parser" where
  "parseParams n st =
     (case expect KindLParen st of
        (False, st1) \<Rightarrow> Some ([], st1)
      | (True, st1) \<Rightarrow> do { (ps, st2) \<leftarrow> paramList n [] st1; Some (ps, snd (expect KindRParen st2)) })"

definition parseEffectRef :: "pstate \<Rightarrow> string \<times> pstate" where
  "parseEffectRef st =
     (case parseDottedPath st of (parts, st1) \<Rightarrow>
        (dottedName parts,
         if parts \<noteq> [] \<and> hd parts = ''tool'' then errorf (tk_Pos (cur st)) (EffectLooksLikeGrant (dottedName parts)) st1
         else st1))"

fun effectList :: "nat \<Rightarrow> string list \<Rightarrow> string list parser" where
  "effectList 0 acc st = None"
| "effectList (Suc n) acc st =
     (if curKind st = KindRBrace \<or> curKind st = KindEOF then Some (acc, st)
      else if curKind st \<noteq> KindIdent then effectList n acc (syncLine (errorHere ExpectedEffect st))
      else case parseEffectRef st of (e, st1) \<Rightarrow>
        effectList n (acc @ [e]) (if curKind st1 = KindComma then advance st1 else st1))"

definition parseEffects :: "nat \<Rightarrow> string list parser" where
  "parseEffects n st =
     (case expect KindLBrace st of
        (False, st1) \<Rightarrow> Some ([], st1)
      | (True, st1) \<Rightarrow> do { (es, st2) \<leftarrow> effectList n [] st1; Some (es, snd (expect KindRBrace st2)) })"

fun headerClauses :: "nat \<Rightarrow> workflow_decl \<Rightarrow> workflow_decl parser" where
  "headerClauses 0 d st = None"
| "headerClauses (Suc n) d st =
     (if isWord ''description'' (cur st) \<and> wd_Description d = None then
        (case parseStringLit (advance st) of (s, st1) \<Rightarrow> headerClauses n (d\<lparr>wd_Description := s\<rparr>) st1)
      else if isWord ''policy'' (cur st) \<and> wd_Policy d = None then
        (case ident (advance st) of (s, st1) \<Rightarrow> headerClauses n (d\<lparr>wd_Policy := s\<rparr>) st1)
      else if isWord ''effects'' (cur st) \<and> wd_Effects d = [] then
        do { (es, st1) \<leftarrow> parseEffects n (advance st); headerClauses n (d\<lparr>wd_Effects := es\<rparr>) st1 }
      else Some (d, st))"

definition parseResult :: "pstate \<Rightarrow> string option \<times> pstate" where
  "parseResult st = (if curKind st = KindArrow then parseTypeRef (advance st) else (None, st))"

definition parseWorkflow :: "go_text \<Rightarrow> nat \<Rightarrow> workflow_decl parser" where
  "parseWorkflow T n st =
     (case ident (advance st) of (name, st1) \<Rightarrow>
        do { (ps, st2) \<leftarrow> parseParams n st1;
          let (res, st3) = parseResult st2 in
          do { (d, st4) \<leftarrow> headerClauses n
                 \<lparr>wd_Name = name, wd_Params = ps, wd_Result = res, wd_Description = None, wd_Policy = None,
                  wd_Effects = [], wd_Body = []\<rparr> st3;
            (b, st5) \<leftarrow> parseBlock n (parseStmt T n) st4;
            Some (d\<lparr>wd_Body := b\<rparr>, st5) } })"

text \<open>The parser primed on a source text; the end-of-file token closes the stream.\<close>

definition newParser :: "string \<Rightarrow> pstate" where
  "newParser src =
     (case lexAll src of (ts, l) \<Rightarrow> \<lparr>pp_toks = butlast ts, pp_eof = tk_Pos (last ts), pp_diags = []\<rparr>)"

definition enoughFuel :: "pstate \<Rightarrow> nat" where
  "enoughFuel st = length (pp_toks st) + 3"

end
