(* ===== verification/Lang_Total.thy ===== *)
theory Lang_Total
  imports Lang_Parser
begin

text \<open>
  The parser ends on every input: each loop consumes a token, so the fuel given by the length of the
  token stream is enough, whatever the source and however many syntax errors it has.
\<close>

subsection \<open>What is left of the token stream\<close>

definition remaining :: "pstate \<Rightarrow> nat" where
  "remaining st = length (pp_toks st)"

lemma remaining_errors [simp]: "remaining (errorf p e st) = remaining st" "remaining (errorHere e st) = remaining st"
  by (simp_all add: remaining_def errorf_def errorHere_def)

lemma cur_errors [simp]: "cur (errorf p e st) = cur st" "cur (errorHere e st) = cur st"
  "peekt (errorf p e st) = peekt st" "peekt (errorHere e st) = peekt st"
  by (simp_all add: cur_def peekt_def errorf_def errorHere_def split: list.split)

lemma remaining_advance [simp]: "remaining (advance st) = remaining st - 1"
  by (simp add: remaining_def advance_def)

lemma remaining_pos: "curKind st \<noteq> KindEOF \<Longrightarrow> 0 < remaining st"
  by (cases "pp_toks st") (simp_all add: remaining_def)

lemma remaining_skipWhile: "remaining (skipWhile P st) \<le> remaining st"
  by (simp add: remaining_def skipWhile_def length_dropWhile_le)

lemma remaining_syncLine: "remaining (syncLine st) \<le> remaining st - 1"
  using remaining_skipWhile [of _ "advance st"] by (simp add: syncLine_def)

lemma remaining_syncList_le: "remaining (syncList st) \<le> remaining st"
  using remaining_skipWhile [of _ st] by (auto simp: syncList_def Let_def intro: le_trans [OF diff_le_self])

lemma remaining_syncList:
  assumes "curKind st \<noteq> KindEOF" "curKind st \<noteq> KindRParen"
  shows "remaining (syncList st) < remaining st"
proof -
  let ?P = "\<lambda>t. tk_Kind t \<noteq> KindRParen \<and> tk_Kind t \<noteq> KindComma"
  obtain t ts where ts: "pp_toks st = t # ts" using assms(1) by (cases "pp_toks st") auto
  show ?thesis
  proof (cases "tk_Kind t = KindComma")
    case True
    then have "skipWhile ?P st = st" using ts by (simp add: skipWhile_def)
    then show ?thesis using True ts by (simp add: syncList_def Let_def cur_def) (simp add: remaining_def)
  next
    case False
    then have "remaining (skipWhile ?P st) \<le> length ts"
      using ts assms by (simp add: skipWhile_def remaining_def cur_def length_dropWhile_le)
    then have "remaining (syncList st) \<le> length ts" by (auto simp: syncList_def Let_def)
    then show ?thesis using ts by (simp add: remaining_def)
  qed
qed

lemma syncList_stays: "curKind st = KindEOF \<or> curKind st = KindRParen \<Longrightarrow> syncList st = st"
  by (cases "pp_toks st") (auto simp: syncList_def skipWhile_def Let_def cur_def mkToken_def)

lemma expect_remaining: "expect k st = (b, st') \<Longrightarrow> remaining st' \<le> remaining st"
  by (auto simp: expect_def split: if_splits)

lemma expect_consumes: "expect k st = (True, st') \<Longrightarrow> k \<noteq> KindEOF \<Longrightarrow> remaining st' < remaining st"
  using remaining_pos [of st] by (auto simp: expect_def split: if_splits)

lemma snd_expect_remaining: "remaining (snd (expect k st)) \<le> remaining st"
  using expect_remaining [of k st] by (cases "expect k st") auto

lemma ident_remaining: "ident st = (r, st') \<Longrightarrow> remaining st' \<le> remaining st \<and> (r \<noteq> None \<longrightarrow> remaining st' < remaining st)"
  using remaining_pos [of st] by (auto simp: ident_def split: if_splits)

lemma pathTail_remaining: "remaining (snd (pathTail st)) \<le> remaining st"
proof (induction st rule: pathTail.induct)
  case (1 st)
  show ?case
  proof (cases "curKind st = KindDot")
    case True
    obtain r st1 where i: "ident (advance st) = (r, st1)" by (cases "ident (advance st)")
    have le: "remaining st1 \<le> remaining st" using ident_remaining [OF i] diff_le_self [of "remaining st" 1] by auto
    show ?thesis
    proof (cases r)
      case None
      then show ?thesis using True i le by (subst pathTail.simps) simp
    next
      case (Some s)
      then have "remaining (snd (pathTail st1)) \<le> remaining st1" using 1 True i by metis
      then show ?thesis using True i Some le by (subst pathTail.simps) (cases "pathTail st1"; simp)
    qed
  qed (simp add: pathTail.simps [of st])
qed

lemma parseDottedPath_remaining:
  "parseDottedPath st = (parts, st') \<Longrightarrow> remaining st' \<le> remaining st \<and> (parts \<noteq> [] \<longrightarrow> remaining st' < remaining st)"
  using pathTail_remaining ident_remaining
  by (auto simp: parseDottedPath_def split: prod.splits option.splits)
     (metis ident_remaining le_trans snd_conv, metis ident_remaining le_less_trans option.simps(3) snd_conv)

subsection \<open>Parsers that end\<close>

text \<open>
  \<open>ends m P p\<close>: on fewer than \<open>m\<close> tokens the parser \<open>p\<close> returns, never gives tokens back, and consumes at
  least one when its result satisfies \<open>P\<close>.
\<close>

definition ends :: "nat \<Rightarrow> ('a \<Rightarrow> bool) \<Rightarrow> 'a parser \<Rightarrow> bool" where
  "ends m P p \<longleftrightarrow>
     (\<forall>st. remaining st < m \<longrightarrow>
        (\<exists>x st'. p st = Some (x, st') \<and> remaining st' \<le> remaining st \<and> (P x \<longrightarrow> remaining st' < remaining st)))"

abbreviation always :: "'a \<Rightarrow> bool" where
  "always \<equiv> \<lambda>x. True"

abbreviation never :: "'a \<Rightarrow> bool" where
  "never \<equiv> \<lambda>x. False"

lemma endsI:
  "(\<And>st. remaining st < m \<Longrightarrow>
     \<exists>x st'. p st = Some (x, st') \<and> remaining st' \<le> remaining st \<and> (P x \<longrightarrow> remaining st' < remaining st)) \<Longrightarrow> ends m P p"
  by (simp add: ends_def)

lemma endsE:
  assumes "ends m P p" "remaining st < m"
  obtains x st' where "p st = Some (x, st')" "remaining st' \<le> remaining st" "P x \<Longrightarrow> remaining st' < remaining st"
  using assms unfolding ends_def by blast

lemma ends_weaken: "ends m P p \<Longrightarrow> k \<le> m \<Longrightarrow> (\<And>x. Q x \<Longrightarrow> P x) \<Longrightarrow> ends k Q p"
  unfolding ends_def by (meson less_le_trans)

lemma ends_step:
  "ends n never p \<Longrightarrow> remaining st1 < remaining st \<Longrightarrow> remaining st < Suc n \<Longrightarrow>
   \<exists>x st'. p st1 = Some (x, st') \<and> remaining st' \<le> remaining st"
  by (erule endsE [where st = st1]) auto

lemma ends_never: "ends m never p \<longleftrightarrow> (\<forall>st. remaining st < m \<longrightarrow> (\<exists>x st'. p st = Some (x, st') \<and> remaining st' \<le> remaining st))"
  by (simp add: ends_def)

text \<open>The same for one run: it returns, with at most \<open>r\<close> tokens left.\<close>

definition returns :: "nat \<Rightarrow> ('a \<times> pstate) option \<Rightarrow> bool" where
  "returns r v \<longleftrightarrow> (\<exists>x st'. v = Some (x, st') \<and> remaining st' \<le> r)"

lemma returns_Some [simp]: "returns r (Some (x, st')) \<longleftrightarrow> remaining st' \<le> r"
  by (simp add: returns_def)

lemma returns_bind:
  assumes "returns r' v" "\<And>x st'. remaining st' \<le> r' \<Longrightarrow> returns r (f (x, st'))"
  shows "returns r (v \<bind> f)"
  using assms by (auto simp: returns_def)

lemma returns_mono: "returns r v \<Longrightarrow> r \<le> r' \<Longrightarrow> returns r' v"
  by (auto simp: returns_def)

lemma ends_returns: "ends m P p \<Longrightarrow> remaining st < m \<Longrightarrow> remaining st \<le> r \<Longrightarrow> returns r (p st)"
  unfolding ends_def returns_def by (meson le_trans)

lemma ends_never_returns: "ends m never p \<longleftrightarrow> (\<forall>st. remaining st < m \<longrightarrow> returns (remaining st) (p st))"
  by (simp add: ends_def returns_def)

lemma loop_returns: "ends (k - 1) P p \<Longrightarrow> remaining st1 < remaining st \<Longrightarrow> remaining st < k \<Longrightarrow> returns (remaining st) (p st1)"
  by (erule ends_returns) auto

abbreviation notNil :: "expr \<Rightarrow> bool" where
  "notNil e \<equiv> e \<noteq> NilExpr"

subsection \<open>Expressions\<close>

lemma objectFields_ends:
  assumes pe: "ends m notNil pe"
  shows "n \<le> Suc m \<Longrightarrow> ends n never (objectFields n pe acc)"
proof (induction n arbitrary: acc)
  case (Suc n)
  have IH: "ends n never (objectFields n pe acc)" for acc using Suc by simp
  show ?case unfolding ends_never
  proof (intro allI impI)
    fix st assume st: "remaining st < Suc n"
    show "\<exists>x st'. objectFields (Suc n) pe acc st = Some (x, st') \<and> remaining st' \<le> remaining st"
    proof (cases "curKind st = KindRBrace \<or> curKind st = KindEOF")
      case False
      then have pos: "0 < remaining st" by (simp add: remaining_pos)
      have sync: "remaining (syncLine (errorHere e st)) < remaining st" for e
        using remaining_syncLine [of "errorHere e st"] pos by simp
      obtain b st1 where e: "expect KindColon (advance st) = (b, st1)" by (cases "expect KindColon (advance st)")
      have st1: "remaining st1 < remaining st" using expect_remaining [OF e] pos by simp
      have sync1: "remaining (syncLine st1) < remaining st" using remaining_syncLine [of st1] st1 by simp
      have "remaining st1 < m" using st1 st Suc.prems by simp
      with pe obtain v st2 where v: "pe st1 = Some (v, st2)" "remaining st2 \<le> remaining st1" by (blast elim: endsE)
      show ?thesis
        using False e v st1 pos ends_step [OF IH _ st, of "advance st"] ends_step [OF IH sync st]
          ends_step [OF IH sync1 st] ends_step [OF IH le_less_trans [OF v(2) st1] st]
        by (cases b) auto
    qed simp
  qed
qed (simp add: ends_def)

text \<open>A bracketed construct: an opening token, a loop, a closing token.\<close>

lemma bracketed_ends:
  assumes p: "ends n never p" and st: "remaining st \<le> n" and k: "k \<noteq> KindEOF"
  shows "\<exists>x st'. (case expect k st of (False, st1) \<Rightarrow> Some (z, st1)
      | (True, st1) \<Rightarrow> do { (x, st2) \<leftarrow> p st1; Some (f x, snd (expect k' st2)) }) = Some (x, st') \<and>
    remaining st' \<le> remaining st \<and> (curKind st = k \<longrightarrow> remaining st' < remaining st)"
proof -
  obtain b st1 where e: "expect k st = (b, st1)" by (cases "expect k st")
  show ?thesis
  proof (cases b)
    case True
    then have less: "remaining st1 < remaining st" using expect_consumes [of k st st1] e k by simp
    then obtain x st2 where "p st1 = Some (x, st2)" "remaining st2 \<le> remaining st1"
      using p st unfolding ends_never by (metis less_le_trans)
    then show ?thesis using e True less snd_expect_remaining [of k' st2] by auto
  next
    case False
    then have "curKind st \<noteq> k" using e by (auto simp: expect_def)
    then show ?thesis using e False expect_remaining [OF e] by simp
  qed
qed

lemma parseObjectLiteral_ends:
  assumes "ends m notNil pe" "n \<le> Suc m" "remaining st \<le> n"
  shows "\<exists>e st'. parseObjectLiteral n pe st = Some (e, st') \<and> remaining st' \<le> remaining st \<and>
    (curKind st = KindLBrace \<longrightarrow> remaining st' < remaining st)"
  unfolding parseObjectLiteral_def by (rule bracketed_ends [OF objectFields_ends]) (use assms in simp_all)

lemma parseArg_ends: "ends m notNil pe \<Longrightarrow> ends m (\<lambda>a. a \<noteq> None) (parseArg pe)"
proof (rule endsI)
  fix st assume pe: "ends m notNil pe" and st: "remaining st < m"
  show "\<exists>x st'. parseArg pe st = Some (x, st') \<and> remaining st' \<le> remaining st \<and> (x \<noteq> None \<longrightarrow> remaining st' < remaining st)"
  proof (cases "curKind st = KindIdent \<and> tk_Kind (peekt st) = KindColon")
    case True
    then have pos: "0 < remaining st" by (simp add: remaining_pos)
    have "remaining (advance (advance st)) < m" using st by simp
    with pe obtain v st1 where "pe (advance (advance st)) = Some (v, st1)" "remaining st1 \<le> remaining (advance (advance st))"
      by (blast elim: endsE)
    then show ?thesis using True pos by (auto simp: parseArg_def)
  next
    case False
    from pe st obtain v st1 where "pe st = Some (v, st1)" "remaining st1 \<le> remaining st" "notNil v \<Longrightarrow> remaining st1 < remaining st"
      by (blast elim: endsE)
    then show ?thesis using False by (auto simp: parseArg_def)
  qed
qed

lemma argList_ends:
  assumes pe: "ends m notNil pe"
  shows "k \<le> n \<Longrightarrow> k \<le> m \<Longrightarrow> ends k never (argList n pe acc)"
proof (induction n arbitrary: acc k)
  case (Suc n)
  have IH: "ends (k - 1) never (argList n pe acc)" for acc using Suc by simp
  show ?case unfolding ends_never_returns
  proof (intro allI impI)
    fix st assume st: "remaining st < k"
    show "returns (remaining st) (argList (Suc n) pe acc st)"
    proof (cases "curKind st = KindRParen \<or> curKind st = KindEOF")
      case False
      have "remaining st < m" using st Suc.prems by simp
      with parseArg_ends [OF pe] obtain a st1 where a: "parseArg pe st = Some (a, st1)" "remaining st1 \<le> remaining st"
        "a \<noteq> None \<longrightarrow> remaining st1 < remaining st" unfolding ends_def by blast
      show ?thesis
      proof (cases a)
        case None
        show ?thesis
        proof (cases "remaining (syncList st1) < remaining st")
          case True
          then show ?thesis using False a None loop_returns [OF IH True st] by simp
        next
          case stuck: False
          then have k: "curKind st1 = KindEOF \<or> curKind st1 = KindRParen"
            using a(2) remaining_syncList [of st1] by linarith
          then have "syncList st1 = st1" "0 < n"
            using syncList_stays st False remaining_pos [of st] Suc.prems by (auto simp: less_Suc_eq_le)
          then show ?thesis using k False a None by (cases n) auto
        qed
      next
        case (Some x)
        then have "remaining st1 < remaining st" using a(3) by simp
        moreover from this have "remaining (advance st1) < remaining st" by simp
        ultimately show ?thesis using False a Some loop_returns [OF IH _ st, of "advance st1"] by auto
      qed
    qed simp
  qed
qed (simp add: ends_def)

lemma parseArgs_ends:
  assumes "ends m notNil pe" "m \<le> n" "remaining st \<le> m"
  shows "\<exists>e st'. parseArgs n pe st = Some (e, st') \<and> remaining st' \<le> remaining st \<and>
    (curKind st = KindLParen \<longrightarrow> remaining st' < remaining st)"
  unfolding parseArgs_def by (rule bracketed_ends [OF argList_ends [OF assms(1), of m]]) (use assms in simp_all)

lemma parseIdentExpr_returns:
  assumes pe: "ends m notNil pe" "m \<le> n" and st: "remaining st < Suc m" "curKind st = KindIdent"
  shows "returns (remaining st - 1) (parseIdentExpr n pe st)"
proof (cases "isTruthWord (curLit st) \<and> tk_Kind (peekt st) \<noteq> KindDot \<and> tk_Kind (peekt st) \<noteq> KindLParen")
  case True
  then show ?thesis by (auto simp: parseIdentExpr_def)
next
  case False
  obtain parts st1 where p: "parseDottedPath st = (parts, st1)" by (cases "parseDottedPath st")
  have "parts \<noteq> []" using p st(2) by (auto simp: parseDottedPath_def ident_def split: prod.splits)
  then have le: "remaining st1 < remaining st" using parseDottedPath_remaining [OF p] by simp
  then have "remaining st1 \<le> m" using st by simp
  from parseArgs_ends [OF pe this] le
  have args: "returns (remaining st - 1) (parseArgs n pe st1)" by (auto simp: returns_def)
  show ?thesis
    using False p \<open>parts \<noteq> []\<close> le
    by (auto simp: parseIdentExpr_def intro!: returns_bind [OF args])
qed

lemma parsePrimary_ends:
  assumes pe: "ends m notNil pe" "m \<le> n" "n \<le> Suc m"
  shows "ends (Suc m) notNil (parsePrimary T n pe)"
proof (rule endsI)
  fix st assume st: "remaining st < Suc m"
  have strict: "returns (remaining st - 1) v \<Longrightarrow> 0 < remaining st \<Longrightarrow>
      \<exists>x st'. v = Some (x, st') \<and> remaining st' \<le> remaining st \<and> (notNil x \<longrightarrow> remaining st' < remaining st)" for v
    by (auto simp: returns_def)
  have num: "returns (remaining st - 1) (Some (parseNumber T st))"
    by (auto simp: parseNumber_def Let_def split: parse_int.split option.split)
  show "\<exists>x st'. parsePrimary T n pe st = Some (x, st') \<and> remaining st' \<le> remaining st \<and>
      (notNil x \<longrightarrow> remaining st' < remaining st)"
  proof (cases "curKind st \<in> {KindNumber, KindString, KindLParen, KindLBrace, KindIdent}")
    case True
    then have pos: "0 < remaining st" using remaining_pos [of st] by auto
    have par: "returns (remaining st - 1) (do { (e, st1) \<leftarrow> pe (advance st); Some (e, snd (expect KindRParen st1)) })"
      using pos st by (auto intro!: returns_bind [OF ends_returns [OF pe(1)]] intro: order_trans [OF snd_expect_remaining])
    have "remaining st \<le> n" using st pe by simp
    from parseObjectLiteral_ends [OF pe(1) pe(3) this]
    have obj: "curKind st = KindLBrace \<Longrightarrow> returns (remaining st - 1) (parseObjectLiteral n pe st)"
      by (auto simp: returns_def)
    have idt: "curKind st = KindIdent \<Longrightarrow> returns (remaining st - 1) (parseIdentExpr n pe st)"
      using parseIdentExpr_returns [OF pe(1,2) st] .
    show ?thesis
      by (rule strict [OF _ pos]) (use True num par obj idt in \<open>auto simp: parsePrimary_def\<close>)
  next
    case False
    then show ?thesis by (auto simp: parsePrimary_def split: kind.splits)
  qed
qed

lemma parseUnary_ends:
  assumes pp: "ends m notNil pp"
  shows "k \<le> n \<Longrightarrow> k \<le> m \<Longrightarrow> ends k notNil (parseUnary n pp)"
proof (induction n arbitrary: k)
  case (Suc n)
  have IH: "ends (k - 1) notNil (parseUnary n pp)" using Suc by simp
  show ?case
  proof (rule endsI)
    fix st assume st: "remaining st < k"
    show "\<exists>x st'. parseUnary (Suc n) pp st = Some (x, st') \<and> remaining st' \<le> remaining st \<and> (notNil x \<longrightarrow> remaining st' < remaining st)"
    proof (cases "curKind st = KindBang")
      case True
      then have pos: "0 < remaining st" by (simp add: remaining_pos)
      then have "remaining (advance st) < k - 1" using st by simp
      from ends_returns [OF IH this order_refl] show ?thesis using True pos by (auto simp: returns_def)
    next
      case False
      then show ?thesis using ends_weaken [OF pp Suc.prems(2)] st unfolding ends_def by simp
    qed
  qed
qed (simp add: ends_def)

lemma parseComparison_ends:
  assumes pu: "ends m notNil pu"
  shows "ends m notNil (parseComparison pu)"
proof (rule endsI)
  fix st assume st: "remaining st < m"
  with pu obtain l st1 where l: "pu st = Some (l, st1)" "remaining st1 \<le> remaining st" "notNil l \<longrightarrow> remaining st1 < remaining st"
    unfolding ends_def by blast
  have "remaining (advance st1) < m" using l st by simp
  with pu obtain r st2 where r: "pu (advance st1) = Some (r, st2)" "remaining st2 \<le> remaining (advance st1)"
    unfolding ends_def by blast
  show "\<exists>x st'. parseComparison pu st = Some (x, st') \<and> remaining st' \<le> remaining st \<and> (notNil x \<longrightarrow> remaining st' < remaining st)"
    using l r by (auto simp: parseComparison_def)
qed

lemma joined_returns:
  assumes operand: "ends m notNil operand" and op: "op \<noteq> KindEOF"
  shows "remaining st < n \<Longrightarrow> n \<le> m \<Longrightarrow> \<exists>e st'. joined n op operand left st = Some (e, st') \<and>
    remaining st' \<le> remaining st \<and> (left = NilExpr \<longrightarrow> e = NilExpr)"
proof (induction n arbitrary: left st)
  case (Suc n)
  show ?case
  proof (cases "left \<noteq> NilExpr \<and> curKind st = op")
    case True
    then have pos: "0 < remaining st" using op by (simp add: remaining_pos)
    then have "remaining (advance st) < m" using Suc.prems by simp
    with operand obtain r st1 where r: "operand (advance st) = Some (r, st1)" "remaining st1 \<le> remaining (advance st)"
      unfolding ends_def by blast
    then have "remaining st1 < n" "n \<le> m" using Suc.prems pos by auto
    from Suc.IH [OF this, of "BinaryExpr op left r"] show ?thesis using True r by auto
  qed auto
qed simp

lemma joining_ends:
  assumes operand: "ends n notNil operand" and op: "op \<noteq> KindEOF"
  shows "ends n notNil (\<lambda>st. do { (left, st1) \<leftarrow> operand st; joined n op operand left st1 })"
proof (rule endsI)
  fix st assume st: "remaining st < n"
  with operand obtain l st1 where l: "operand st = Some (l, st1)" "remaining st1 \<le> remaining st" "notNil l \<longrightarrow> remaining st1 < remaining st"
    unfolding ends_def by blast
  then have "remaining st1 < n" using st by simp
  from joined_returns [OF operand op this, of l] l
  show "\<exists>x st'. do { (left, st1) \<leftarrow> operand st; joined n op operand left st1 } = Some (x, st') \<and>
      remaining st' \<le> remaining st \<and> (notNil x \<longrightarrow> remaining st' < remaining st)"
    by (cases "l = NilExpr") auto
qed

lemma parseExpr_ends: "ends (n - 1) notNil (parseExpr T n)"
proof (induction n)
  case (Suc n)
  show ?case
  proof (cases n)
    case (Suc m)
    have "ends n notNil (parsePrimary T n (parseExpr T n))"
      using parsePrimary_ends [OF Suc.IH [unfolded Suc]] Suc by simp
    from parseUnary_ends [OF this, of n]
    have "ends n notNil (parseComparison (parseUnary n (parsePrimary T n (parseExpr T n))))"
      by (simp add: parseComparison_ends)
    then have "ends n notNil (parseAnd n (parseComparison (parseUnary n (parsePrimary T n (parseExpr T n)))))"
      unfolding parseAnd_def [abs_def] by (rule joining_ends) simp
    then show ?thesis unfolding parseExpr.simps diff_Suc_1
      unfolding parseOr_def [abs_def] by (rule joining_ends) simp
  qed (simp add: ends_def)
qed (simp add: ends_def)

subsection \<open>Statements\<close>

lemma syncLine_less: "0 < remaining st \<Longrightarrow> remaining (syncLine (errorHere e st)) < remaining st"
  using remaining_syncLine [of "errorHere e st"] by simp

lemma stringList_ends: "k \<le> n \<Longrightarrow> ends k never (stringList n acc)"
proof (induction n arbitrary: acc k)
  case (Suc n)
  have IH: "ends (k - 1) never (stringList n acc)" for acc using Suc by simp
  show ?case unfolding ends_never_returns
    by (intro allI impI) (auto simp: remaining_pos syncLine_less intro!: loop_returns [OF IH])
qed (simp add: ends_def)

lemma bracketed_returns:
  assumes "ends n never p" "remaining st \<le> n" "k \<noteq> KindEOF" "remaining st \<le> r"
  shows "returns r (case expect k st of (False, st1) \<Rightarrow> Some (z, st1)
      | (True, st1) \<Rightarrow> do { (x, st2) \<leftarrow> p st1; Some (f x, snd (expect k' st2)) })"
  using bracketed_ends [OF assms(1-3), where z = z and f = f and k' = k'] assms(4) by (auto simp: returns_def)

lemma parseStringListBlock_returns: "remaining st \<le> n \<Longrightarrow> remaining st \<le> r \<Longrightarrow> returns r (parseStringListBlock n st)"
  unfolding parseStringListBlock_def by (rule bracketed_returns [OF stringList_ends]) simp_all

lemma withArgs_ends:
  assumes pe: "ends m notNil pe"
  shows "k \<le> n \<Longrightarrow> k \<le> m \<Longrightarrow> ends k never (withArgs n pe acc)"
proof (induction n arbitrary: acc k)
  case (Suc n)
  have IH: "ends (k - 1) never (withArgs n pe acc)" for acc using Suc by simp
  show ?case unfolding ends_never_returns
  proof (intro allI impI)
    fix st assume st: "remaining st < k"
    show "returns (remaining st) (withArgs (Suc n) pe acc st)"
    proof (cases "curKind st = KindRBrace \<or> curKind st = KindEOF")
      case False
      then have pos: "0 < remaining st" by (simp add: remaining_pos)
      have "remaining st < m" using st Suc.prems by simp
      with parseArg_ends [OF pe] obtain a st1 where a: "parseArg pe st = Some (a, st1)" "remaining st1 \<le> remaining st"
        "a \<noteq> None \<longrightarrow> remaining st1 < remaining st" unfolding ends_def by blast
      have "remaining (syncLine st1) < remaining st" using remaining_syncLine [of st1] a(2) pos by simp
      from loop_returns [OF IH this st] show ?thesis
        using False a by (cases a) (auto intro!: loop_returns [OF IH _ st])
    qed simp
  qed
qed (simp add: ends_def)

lemma parseApprovalWith_returns:
  assumes "ends m notNil pe" "remaining st \<le> m" "remaining st \<le> n" "remaining st \<le> r"
  shows "returns r (parseApprovalWith n pe st)"
  unfolding parseApprovalWith_def
  by (rule bracketed_returns [OF withArgs_ends [OF assms(1), of "min m n"]]) (use assms in simp_all)

lemma parseStringLit_remaining: "parseStringLit st = (r, st') \<Longrightarrow> remaining st' \<le> remaining st"
  by (auto simp: parseStringLit_def split: if_splits)

lemma approvalField_returns:
  assumes pe: "ends m notNil pe" and st: "remaining st \<le> m" "remaining st \<le> n" "remaining st \<le> r"
  shows "returns r (approvalField n pe field fpos a st)"
proof -
  have str: "remaining (snd (parseStringLit st)) \<le> r"
    using parseStringLit_remaining [of st] st by (cases "parseStringLit st") fastforce
  have sync: "remaining (syncLine (errorf fpos e st)) \<le> r" for e
    using remaining_syncLine [of "errorf fpos e st"] st by simp
  have keys: "returns r (parseStringListBlock n st)" using parseStringListBlock_returns st by simp
  show ?thesis
    using str sync
    by (auto simp: approvalField_def split: prod.splits
        intro!: returns_bind [OF keys] returns_bind [OF parseApprovalWith_returns [OF pe st]])
qed

lemma approvalFields_ends:
  assumes pe: "ends m notNil pe"
  shows "k \<le> n \<Longrightarrow> k \<le> Suc m \<Longrightarrow> ends k never (approvalFields n pe seen a)"
proof (induction n arbitrary: seen a k)
  case (Suc n)
  have IH: "ends (k - 1) never (approvalFields n pe seen a)" for seen a using Suc by simp
  show ?case unfolding ends_never_returns
  proof (intro allI impI)
    fix st assume st: "remaining st < k"
    show "returns (remaining st) (approvalFields (Suc n) pe seen a st)"
    proof (cases "curKind st = KindIdent")
      case True
      then have pos: "0 < remaining st" by (simp add: remaining_pos)
      have field: "returns (remaining st - 1) (approvalField n pe field fpos a st1)"
        if "remaining st1 = remaining st - 1" for field fpos st1
        using approvalField_returns [OF pe, of st1 n] that st Suc.prems pos by simp
      show ?thesis using True pos
        by (auto simp: Let_def intro!: returns_bind [OF field] loop_returns [OF IH _ st])
    next
      case False
      then show ?thesis by (auto simp: remaining_pos syncLine_less intro!: loop_returns [OF IH _ st])
    qed
  qed
qed (simp add: ends_def)

lemma snd_ident_remaining: "remaining (snd (ident st)) \<le> remaining st"
  using ident_remaining [of st] by (cases "ident st") auto

lemma parseApproval_returns:
  assumes pe: "ends m notNil pe" "m \<le> n" and st: "remaining st \<le> m" "0 < remaining st"
  shows "returns (remaining st - 1) (parseApproval n pe st)"
proof -
  obtain b st1 where i: "ident (advance st) = (b, st1)" by (cases "ident (advance st)")
  then have "remaining st1 \<le> remaining st - 1" using ident_remaining [OF i] by simp
  moreover from this have "remaining st1 \<le> m" using st by simp
  ultimately show ?thesis unfolding parseApproval_def i prod.case
    by (intro bracketed_returns [OF approvalFields_ends [OF pe(1), of m]]) (use pe in simp_all)
qed

lemma branchList_ends:
  assumes pe: "ends m notNil pe"
  shows "k \<le> n \<Longrightarrow> k \<le> Suc m \<Longrightarrow> ends k never (branchList n pe acc)"
proof (induction n arbitrary: acc k)
  case (Suc n)
  have IH: "ends (k - 1) never (branchList n pe acc)" for acc using Suc by simp
  show ?case unfolding ends_never_returns
  proof (intro allI impI)
    fix st assume st: "remaining st < k"
    show "returns (remaining st) (branchList (Suc n) pe acc st)"
    proof (cases "curKind st = KindIdent \<and> tk_Kind (peekt st) = KindEquals")
      case True
      then have pos: "0 < remaining st" by (simp add: remaining_pos)
      have "returns (remaining st - 1) (pe (advance (advance st)))"
        by (rule ends_returns [OF pe]) (use st Suc.prems pos in simp_all)
      then show ?thesis using True pos by (auto intro!: returns_bind loop_returns [OF IH _ st])
    next
      case False
      then show ?thesis by (auto simp: remaining_pos syncLine_less intro!: loop_returns [OF IH _ st])
    qed
  qed
qed (simp add: ends_def)

lemma parseParallel_returns:
  assumes pe: "ends m notNil pe" "m \<le> n" and st: "remaining st \<le> m"
  shows "returns (remaining st - 1) (parseParallel n pe st)"
  unfolding parseParallel_def
  by (rule bracketed_returns [OF branchList_ends [OF pe(1), of m]]) (use pe st in simp_all)

lemma stmtList_ends:
  assumes ps: "ends m (\<lambda>s. s \<noteq> None) ps"
  shows "k \<le> n \<Longrightarrow> k \<le> m \<Longrightarrow> ends k never (stmtList n ps acc)"
proof (induction n arbitrary: acc k)
  case (Suc n)
  have IH: "ends (k - 1) never (stmtList n ps acc)" for acc using Suc by simp
  show ?case unfolding ends_never_returns
  proof (intro allI impI)
    fix st assume st: "remaining st < k"
    show "returns (remaining st) (stmtList (Suc n) ps acc st)"
    proof (cases "curKind st = KindRBrace \<or> curKind st = KindEOF")
      case False
      then have pos: "0 < remaining st" by (simp add: remaining_pos)
      have "remaining st < m" using st Suc.prems by simp
      with ps obtain s st1 where s: "ps st = Some (s, st1)" "remaining st1 \<le> remaining st"
        "s \<noteq> None \<longrightarrow> remaining st1 < remaining st" unfolding ends_def by blast
      have "remaining (syncLine st1) < remaining st" using remaining_syncLine [of st1] s(2) pos by simp
      from loop_returns [OF IH this st] show ?thesis
        using False s by (cases s) (auto intro!: loop_returns [OF IH _ st])
    qed simp
  qed
qed (simp add: ends_def)

lemma parseBlock_ends:
  assumes "ends m (\<lambda>s. s \<noteq> None) ps" "m \<le> n"
  shows "ends (Suc m) never (parseBlock n ps)"
  unfolding ends_never_returns parseBlock_def
  by (intro allI impI bracketed_returns [OF stmtList_ends [OF assms(1), of m]]) (use assms in simp_all)

lemma parseIf_returns:
  assumes pe: "ends m notNil pe" and pb: "ends m never pb"
  shows "remaining st \<le> n \<Longrightarrow> 0 < remaining st \<Longrightarrow> remaining st \<le> m \<Longrightarrow> returns (remaining st - 1) (parseIf n pe pb st)"
proof (induction n arbitrary: st)
  case (Suc n)
  have pe': "returns (remaining st - 1) (pe (advance st))"
    by (rule ends_returns [OF pe]) (use Suc.prems in simp_all)
  have pb': "returns (remaining st - 1) (pb st1)" if "remaining st1 \<le> remaining st - 1" for st1
    by (rule ends_returns [OF pb]) (use Suc.prems that in simp_all)
  have nest: "returns (remaining st - 1) (parseIf n pe pb (advance st2))"
    if "remaining st2 \<le> remaining st - 1" "curKind (advance st2) = KindIf" for st2
  proof -
    have "0 < remaining (advance st2)" using that by (intro remaining_pos) simp
    then show ?thesis by (intro returns_mono [OF Suc.IH]) (use that Suc.prems in auto)
  qed
  show ?case
    by (auto simp: Let_def intro!: returns_bind [OF pe'] returns_bind [OF pb'] returns_bind [OF nest])
qed simp

lemma parseFor_returns:
  assumes pe: "ends m notNil pe" and pb: "ends m never pb" and st: "0 < remaining st" "remaining st \<le> m"
  shows "returns (remaining st - 1) (parseFor pe pb p st)"
proof -
  obtain v st1 where i: "ident (advance st) = (v, st1)" by (cases "ident (advance st)")
  then have st1: "remaining st1 \<le> remaining st - 1" using ident_remaining [OF i] by simp
  have sub: "returns (remaining st - 1) (q st2)" if "ends m Q q" "remaining st2 \<le> remaining st - 1" for q st2 Q
    by (rule ends_returns [OF that(1)]) (use st that in simp_all)
  show ?thesis unfolding parseFor_def i prod.case Let_def
    by (intro returns_bind [OF sub [OF pe]]) (use st1 in \<open>auto intro!: returns_bind [OF sub [OF pb]]\<close>)
qed

lemma boundClause_remaining: "boundClause st = (l, st') \<Longrightarrow> remaining st' \<le> remaining st"
  by (auto simp: boundClause_def parseLimit_def Let_def split: if_splits parse_int.splits)

lemma limited_returns:
  assumes pe: "ends m notNil pe" and pb: "ends m never pb" and st: "remaining st \<le> r" "r < m"
  shows "returns r (do { (c, st1) \<leftarrow> pe st; let (lim, st2) = boundClause st1 in do { (b, st3) \<leftarrow> pb st2; Some (f c lim b, st3) } })"
proof (rule returns_bind [OF ends_returns [OF pe, of st r]])
  fix c st1 assume st1: "remaining st1 \<le> r"
  obtain lim st2 where b: "boundClause st1 = (lim, st2)" by (cases "boundClause st1")
  then have "returns r (pb st2)" using boundClause_remaining [OF b] st1 st by (intro ends_returns [OF pb]) simp_all
  then show "returns r (case (c, st1) of (c, st1) \<Rightarrow>
      let (lim, st2) = boundClause st1 in do { (b, st3) \<leftarrow> pb st2; Some (f c lim b, st3) })"
    using b by (auto intro!: returns_bind)
qed (use st in simp_all)

lemma someStmt_returns: "returns r (p st) \<Longrightarrow> returns r (someStmt p st)"
  by (auto simp: someStmt_def returns_def)

lemma parseIdentStmt_ends:
  assumes pe: "ends m notNil pe" and pb: "ends m never pb" and n: "m \<le> n" and st: "remaining st < m" "curKind st = KindIdent"
  shows "\<exists>x st'. parseIdentStmt n pe pb st = Some (x, st') \<and> remaining st' \<le> remaining st \<and> (x \<noteq> None \<longrightarrow> remaining st' < remaining st)"
proof -
  have pos: "0 < remaining st" using st(2) by (simp add: remaining_pos)
  have strict: "returns (remaining st - 1) v \<Longrightarrow>
      \<exists>x st'. v = Some (x, st') \<and> remaining st' \<le> remaining st \<and> (x \<noteq> None \<longrightarrow> remaining st' < remaining st)"
    for v :: "(stmt option \<times> pstate) option" using pos by (auto simp: returns_def)
  have retry: "returns (remaining st - 1) (parseRetry pe pb st)"
    unfolding parseRetry_def by (rule limited_returns [OF pe pb]) (use st pos in simp_all)
  have approval: "returns (remaining st - 1) (parseApproval n pe st)"
    by (rule parseApproval_returns [OF pe n]) (use st pos in simp_all)
  have assign: "returns (remaining st - 1) (pe (advance (advance st)))"
    by (rule ends_returns [OF pe]) (use st in simp_all)
  from pe st(1) obtain e st1 where e: "pe st = Some (e, st1)" "remaining st1 \<le> remaining st"
    "notNil e \<longrightarrow> remaining st1 < remaining st" unfolding ends_def by blast
  consider "curLit st = ''retry'' \<and> isWord ''until'' (peekt st)"
    | "\<not> (curLit st = ''retry'' \<and> isWord ''until'' (peekt st))" "curLit st = ''approval'' \<and> tk_Kind (peekt st) = KindIdent"
    | "\<not> (curLit st = ''retry'' \<and> isWord ''until'' (peekt st))" "\<not> (curLit st = ''approval'' \<and> tk_Kind (peekt st) = KindIdent)"
      "tk_Kind (peekt st) = KindEquals"
    | "\<not> (curLit st = ''retry'' \<and> isWord ''until'' (peekt st))" "\<not> (curLit st = ''approval'' \<and> tk_Kind (peekt st) = KindIdent)"
      "tk_Kind (peekt st) \<noteq> KindEquals" by blast
  then show ?thesis
  proof cases
    case 1
    then show ?thesis using strict [OF someStmt_returns [where p = "parseRetry pe pb", OF retry]] by (simp add: parseIdentStmt_def)
  next
    case 2
    then show ?thesis using strict [OF someStmt_returns [where p = "parseApproval n pe", OF approval]] by (simp add: parseIdentStmt_def)
  next
    case 3
    then show ?thesis using assign pos by (auto simp: parseIdentStmt_def returns_def)
  next
    case 4
    then show ?thesis using e by (auto simp: parseIdentStmt_def)
  qed
qed

lemma stmtBody_ends:
  assumes pe: "ends m notNil pe" and pb: "ends m never pb" and n: "m \<le> n"
  shows "ends m (\<lambda>s. s \<noteq> None) (stmtBody n pe pb)"
proof (rule endsI)
  fix st assume st: "remaining st < m"
  show "\<exists>x st'. stmtBody n pe pb st = Some (x, st') \<and> remaining st' \<le> remaining st \<and> (x \<noteq> None \<longrightarrow> remaining st' < remaining st)"
  proof (cases "curKind st \<in> {KindReturn, KindIf, KindFor, KindWhile, KindParallel, KindIdent}")
    case True
    then have pos: "0 < remaining st" using remaining_pos [of st] by auto
    have strict: "returns (remaining st - 1) v \<Longrightarrow>
        \<exists>x st'. v = Some (x, st') \<and> remaining st' \<le> remaining st \<and> (x \<noteq> None \<longrightarrow> remaining st' < remaining st)"
      for v :: "(stmt option \<times> pstate) option" using pos by (auto simp: returns_def)
    have ret: "returns (remaining st - 1) (do { (v, st1) \<leftarrow> pe (advance st); Some (Some (ReturnStmt v), st1) })"
      by (rule returns_bind [OF ends_returns [OF pe]]) (use st in auto)
    have iff: "returns (remaining st - 1) (parseIf n pe pb st)"
      by (rule parseIf_returns [OF pe pb]) (use st n pos in simp_all)
    have for1: "returns (remaining st - 1) (parseFor pe pb False st)"
      by (rule parseFor_returns [OF pe pb pos]) (use st in simp)
    have for2: "returns (remaining st - 1) (parseFor pe pb True (advance st))" if "tk_Kind (peekt st) = KindFor"
    proof -
      have "peekt st = cur (advance st)" by (simp add: peekt_def cur_def advance_def split: list.split)
      then have "0 < remaining (advance st)" using that by (intro remaining_pos) simp
      then show ?thesis by (intro returns_mono [OF parseFor_returns [OF pe pb]]) (use st in simp_all)
    qed
    have while: "returns (remaining st - 1) (parseWhile pe pb st)"
      unfolding parseWhile_def by (rule limited_returns [OF pe pb]) (use st pos in simp_all)
    have par: "returns (remaining st - 1) (parseParallel n pe st)"
      by (rule parseParallel_returns [OF pe n]) (use st in simp)
    show ?thesis
    proof (cases "curKind st = KindIdent")
      case True
      then show ?thesis using parseIdentStmt_ends [OF pe pb n st] by (simp add: stmtBody_def)
    next
      case False
      then show ?thesis using True ret iff for1 for2 while par
        by (intro strict) (auto simp: stmtBody_def intro!: someStmt_returns)
    qed
  next
    case False
    then show ?thesis by (auto simp: stmtBody_def split: kind.splits)
  qed
qed

lemma parseStmt_ends: "ends (n - 2) (\<lambda>s. s \<noteq> None) (parseStmt T n)"
proof (induction n)
  case (Suc n)
  show ?case
  proof (cases "2 \<le> n")
    case True
    then have "Suc (n - 2) = n - 1" by simp
    then have "ends (n - 1) never (parseBlock n (parseStmt T n))" using parseBlock_ends [OF Suc.IH] by simp
    then have "ends (n - 1) (\<lambda>s. s \<noteq> None) (stmtBody n (parseExpr T n) (parseBlock n (parseStmt T n)))"
      by (intro stmtBody_ends parseExpr_ends) simp_all
    then show ?thesis by (simp add: numeral_2_eq_2)
  next
    case False
    then show ?thesis
    proof (cases n)
      case (Suc k)
      then have "k = 0" using False by simp
      then show ?thesis using Suc by (simp add: ends_def)
    qed (simp add: ends_def)
  qed
qed (simp add: ends_def)

subsection \<open>Workflow declarations\<close>

lemma paramList_ends: "k \<le> n \<Longrightarrow> ends k never (paramList n acc)"
proof (induction n arbitrary: acc k)
  case (Suc n)
  have IH: "ends (k - 1) never (paramList n acc)" for acc using Suc by simp
  show ?case unfolding ends_never_returns
  proof (intro allI impI)
    fix st assume st: "remaining st < k"
    show "returns (remaining st) (paramList (Suc n) acc st)"
    proof (cases "curKind st = KindRParen \<or> curKind st = KindEOF")
      case False
      then have pos: "0 < remaining st" by (simp add: remaining_pos)
      show ?thesis
      proof (cases "curKind st = KindIdent")
        case True
        have "remaining (snd (parseTypeRef (snd (expect KindColon (advance st))))) < remaining st"
          using snd_expect_remaining [of KindColon "advance st"] pos by (auto simp: parseTypeRef_def)
        then show ?thesis using True False
          by (auto simp: ident_def split: prod.split intro!: loop_returns [OF IH _ st])
      next
        case noident: False
        have "remaining (syncList (errorHere ExpectedIdent st)) < remaining st"
          using remaining_syncList [of "errorHere ExpectedIdent st"] False by simp
        then show ?thesis using False noident by (auto simp: ident_def intro!: loop_returns [OF IH _ st])
      qed
    qed simp
  qed
qed (simp add: ends_def)

lemma parseParams_returns: "remaining st \<le> n \<Longrightarrow> returns (remaining st) (parseParams n st)"
  unfolding parseParams_def by (rule bracketed_returns [OF paramList_ends]) simp_all

lemma parseEffectRef_less: "curKind st = KindIdent \<Longrightarrow> parseEffectRef st = (e, st1) \<Longrightarrow> remaining st1 < remaining st"
proof -
  assume k: "curKind st = KindIdent" and e: "parseEffectRef st = (e, st1)"
  obtain parts st2 where p: "parseDottedPath st = (parts, st2)" by (cases "parseDottedPath st")
  then have "parts \<noteq> []" using k by (auto simp: parseDottedPath_def ident_def split: prod.splits)
  then show ?thesis using parseDottedPath_remaining [OF p] e p by (auto simp: parseEffectRef_def)
qed

lemma effectList_ends: "k \<le> n \<Longrightarrow> ends k never (effectList n acc)"
proof (induction n arbitrary: acc k)
  case (Suc n)
  have IH: "ends (k - 1) never (effectList n acc)" for acc using Suc by simp
  show ?case unfolding ends_never_returns
  proof (intro allI impI)
    fix st assume st: "remaining st < k"
    obtain e st1 where e: "parseEffectRef st = (e, st1)" by (cases "parseEffectRef st")
    show "returns (remaining st) (effectList (Suc n) acc st)"
      using e parseEffectRef_less [OF _ e]
      by (auto simp: remaining_pos syncLine_less intro!: loop_returns [OF IH _ st])
  qed
qed (simp add: ends_def)

lemma parseEffects_returns: "remaining st \<le> n \<Longrightarrow> remaining st \<le> r \<Longrightarrow> returns r (parseEffects n st)"
  unfolding parseEffects_def by (rule bracketed_returns [OF effectList_ends]) simp_all

lemma isWord_pos: "isWord w (cur st) \<Longrightarrow> 0 < remaining st"
  by (simp add: isWord_def remaining_pos)

lemma headerClauses_ends: "k \<le> n \<Longrightarrow> ends k never (headerClauses n d)"
proof (induction n arbitrary: d k)
  case (Suc n)
  have IH: "ends (k - 1) never (headerClauses n d)" for d using Suc by simp
  show ?case unfolding ends_never_returns
  proof (intro allI impI)
    fix st assume st: "remaining st < k"
    obtain s st1 where s: "parseStringLit (advance st) = (s, st1)" by (cases "parseStringLit (advance st)")
    obtain i st2 where i: "ident (advance st) = (i, st2)" by (cases "ident (advance st)")
    have less: "remaining st1 < remaining st" "remaining st2 < remaining st" if "0 < remaining st"
      using that parseStringLit_remaining [OF s] ident_remaining [OF i] by auto
    have effs: "returns (remaining st - 1) (parseEffects n (advance st))"
      by (rule parseEffects_returns) (use st Suc.prems in simp_all)
    show "returns (remaining st) (headerClauses (Suc n) d st)"
      using s i less isWord_pos [of _ st] by (auto intro!: loop_returns [OF IH _ st] returns_bind [OF effs])
  qed
qed (simp add: ends_def)

lemma parseResult_remaining: "remaining (snd (parseResult st)) \<le> remaining st"
  by (auto simp: parseResult_def parseTypeRef_def)

lemma parse_total: "remaining st + 2 < n \<Longrightarrow> returns (remaining st) (parseWorkflow T n st)"
proof -
  assume n: "remaining st + 2 < n"
  let ?r = "remaining st"
  have header: "returns ?r (headerClauses n d st1)" if "remaining st1 \<le> ?r" for d st1
    by (rule ends_returns [OF headerClauses_ends [OF order_refl]]) (use n that in simp_all)
  have body: "returns ?r (parseBlock n (parseStmt T n) st1)" if "remaining st1 \<le> ?r" for st1
    by (rule ends_returns [OF parseBlock_ends [OF parseStmt_ends]]) (use n that in simp_all)
  have params: "returns ?r (parseParams n st1)" if "remaining st1 \<le> ?r" for st1
    by (rule returns_mono [OF parseParams_returns]) (use n that in simp_all)
  have res: "remaining (snd (parseResult st1)) \<le> ?r" if "remaining st1 \<le> ?r" for st1
    using parseResult_remaining [of st1] that by simp
  obtain name st1 where i: "ident (advance st) = (name, st1)" by (cases "ident (advance st)")
  then have st1: "remaining st1 \<le> ?r" using ident_remaining [OF i] by auto
  show ?thesis unfolding parseWorkflow_def i prod.case
  proof (rule returns_bind [OF params [OF st1]], unfold prod.case)
    fix ps st2 assume st2: "remaining st2 \<le> ?r"
    obtain rs st3 where r: "parseResult st2 = (rs, st3)" by (cases "parseResult st2")
    then have "remaining st3 \<le> ?r" using res [OF st2] by simp
    then show "returns ?r (let (res, st3) = parseResult st2 in
          do { (d, st4) \<leftarrow> headerClauses n
                 \<lparr>wd_Name = name, wd_Params = ps, wd_Result = res, wd_Description = None, wd_Policy = None,
                  wd_Effects = [], wd_Body = []\<rparr> st3;
            (b, st5) \<leftarrow> parseBlock n (parseStmt T n) st4;
            Some (d\<lparr>wd_Body := b\<rparr>, st5) })"
      by (auto simp: r intro!: returns_bind [OF header] returns_bind [OF body])
  qed
qed

text \<open>
  C8. The parser ends on every source text: whatever the input and however many syntax errors it has,
  parsing a workflow declaration returns a tree and a state that holds no more tokens than the lexer
  produced; every loop and every recursive call consumes a token, and the fuel the model gives, the
  number of tokens plus three, is enough.
\<close>

theorem parser_terminates:
  "\<exists>d st'. parseWorkflow T (enoughFuel (newParser src)) (newParser src) = Some (d, st') \<and>
     length (pp_toks st') \<le> length (pp_toks (newParser src))"
  using parse_total [of "newParser src" "enoughFuel (newParser src)" T]
  by (simp add: returns_def enoughFuel_def remaining_def)

end
