(* ===== verification/Lang_Printer.thy ===== *)
theory Lang_Printer
  imports Lang_Parser
begin

text \<open>
  The printer behind \<open>terfyn fmt\<close> (\<open>internal/lang/printer.go\<close>) for workflow declarations,
  statements and expressions, of trees that carry no comments.
\<close>

subsection \<open>Quoted strings\<close>

text \<open>
  \<open>strconv.Quote\<close>. Which code points above U+007F are printable is a table of the standard library;
  it is the argument \<open>isp\<close>, on the encoding of the rune.
\<close>

definition quoteGoAscii :: "char \<Rightarrow> string" where
  "quoteGoAscii c =
     (if c = CHR 0x22 \<or> c = CHR 0x5C then [CHR 0x5C, c]
      else if between 0x20 0x7E c then [c]
      else if c = CHR 0x07 then CHR 0x5C # ''a''
      else if c = CHR 0x08 then CHR 0x5C # ''b''
      else if c = CHR 0x0C then CHR 0x5C # ''f''
      else if c = CHR 0x0A then CHR 0x5C # ''n''
      else if c = CHR 0x0D then CHR 0x5C # ''r''
      else if c = CHR 0x09 then CHR 0x5C # ''t''
      else if c = CHR 0x0B then CHR 0x5C # ''v''
      else [CHR 0x5C, CHR ''x'', hexDigit (of_char c div 16), hexDigit (of_char c mod 16)])"

definition runeCode :: "string \<Rightarrow> nat" where
  "runeCode r =
     (case r of
        [b, c] \<Rightarrow> (of_char b - 0xC0) * 64 + (of_char c - 0x80)
      | [b, c, d] \<Rightarrow> (of_char b - 0xE0) * 4096 + (of_char c - 0x80) * 64 + (of_char d - 0x80)
      | [b, c, d, e] \<Rightarrow>
          (of_char b - 0xF0) * 262144 + (of_char c - 0x80) * 4096 + (of_char d - 0x80) * 64 + (of_char e - 0x80)
      | [b] \<Rightarrow> of_char b
      | _ \<Rightarrow> 0)"

definition hexDigits :: "nat \<Rightarrow> nat \<Rightarrow> string" where
  "hexDigits k n = map (\<lambda>i. hexDigit (n div 16 ^ i mod 16)) (rev [0..<k])"

definition quoteGoRune :: "(string \<Rightarrow> bool) \<Rightarrow> string \<Rightarrow> string" where
  "quoteGoRune isp r =
     (case r of
        [c] \<Rightarrow> quoteGoAscii c
      | _ \<Rightarrow> if isp r then r
             else if runeCode r < 0x10000 then [CHR 0x5C, CHR ''u''] @ hexDigits 4 (runeCode r)
             else [CHR 0x5C, CHR ''U''] @ hexDigits 8 (runeCode r))"

function quoteGoBody :: "(string \<Rightarrow> bool) \<Rightarrow> string \<Rightarrow> string" where
  "quoteGoBody isp [] = []"
| "quoteGoBody isp (c # s) =
     (case runeSize (c # s) of
        None \<Rightarrow> [CHR 0x5C, CHR ''x'', hexDigit (of_char c div 16), hexDigit (of_char c mod 16)] @ quoteGoBody isp s
      | Some n \<Rightarrow> quoteGoRune isp (take n (c # s)) @ quoteGoBody isp (drop n (c # s)))"
  by pat_completeness auto
termination
  by (relation "measure (\<lambda>(isp, s). length s)") (auto dest: runeSize_pos simp del: runeSize.simps)

definition quoteGo :: "(string \<Rightarrow> bool) \<Rightarrow> string \<Rightarrow> string" where
  "quoteGo isp s = [CHR 0x22] @ quoteGoBody isp s @ [CHR 0x22]"

subsection \<open>Expressions\<close>

definition printLit :: "go_text \<Rightarrow> (string \<Rightarrow> bool) \<Rightarrow> any \<Rightarrow> string" where
  "printLit T isp v =
     (case v of
        AStr s \<Rightarrow> quoteGo isp s
      | ABool b \<Rightarrow> (if b then ''true'' else ''false'')
      | AInt i \<Rightarrow> showInt i
      | AFloat f \<Rightarrow> gt_g T f
      | _ \<Rightarrow> gt_v T v)"

definition opSymbol :: "kind \<Rightarrow> string" where
  "opSymbol k =
     (case k of KindEqEq \<Rightarrow> ''=='' | KindBangEq \<Rightarrow> ''!='' | KindLt \<Rightarrow> ''<'' | KindLte \<Rightarrow> ''<='' | KindGt \<Rightarrow> ''>''
      | KindGte \<Rightarrow> ''>='' | KindAndAnd \<Rightarrow> ''&&'' | KindOrOr \<Rightarrow> ''||'' | _ \<Rightarrow> ''?'')"

definition binPrec :: "kind \<Rightarrow> nat" where
  "binPrec k = (case k of KindOrOr \<Rightarrow> 1 | KindAndAnd \<Rightarrow> 2 | _ \<Rightarrow> 3)"

definition parens :: "bool \<Rightarrow> string \<Rightarrow> string" where
  "parens b s = (if b then ''('' @ s @ '')'' else s)"

text \<open>When \<open>printBinOperand\<close> and \<open>parenIfBinary\<close> add parentheses.\<close>

definition operandParens :: "expr \<Rightarrow> kind \<Rightarrow> bool \<Rightarrow> bool" where
  "operandParens e parentOp isRight =
     (case e of
        BinaryExpr op x y \<Rightarrow> binPrec op < binPrec parentOp \<or> binPrec op = binPrec parentOp \<and> isRight
      | _ \<Rightarrow> False)"

definition isBinary :: "expr \<Rightarrow> bool" where
  "isBinary e = (case e of BinaryExpr op x y \<Rightarrow> True | _ \<Rightarrow> False)"

fun printExpr :: "go_text \<Rightarrow> (string \<Rightarrow> bool) \<Rightarrow> expr \<Rightarrow> string" where
  "printExpr T isp NilExpr = ''/*nil*/''"
| "printExpr T isp (RefExpr parts) = dottedName parts"
| "printExpr T isp (LitExpr v) = printLit T isp v"
| "printExpr T isp (UnaryExpr x) = ''!'' @ parens (isBinary x) (printExpr T isp x)"
| "printExpr T isp (BinaryExpr op x y) =
     parens (operandParens x op False) (printExpr T isp x) @ '' '' @ opSymbol op @ '' '' @
     parens (operandParens y op True) (printExpr T isp y)"
| "printExpr T isp (CallExpr parts args) =
     dottedName parts @ ''('' @
     Join (map (\<lambda>(n, a). (case n of Some s \<Rightarrow> s @ '': '' | None \<Rightarrow> []) @ printExpr T isp a) args) '', '' @ '')''"
| "printExpr T isp (ObjectExpr fs) =
     (if fs = [] then ''{}''
      else ''{ '' @ Join (map (\<lambda>(k, v). k @ '': '' @ printExpr T isp v) fs) '', '' @ '' }'')"

subsection \<open>Statements\<close>

definition identName :: "string option \<Rightarrow> string" where
  "identName i = (case i of None \<Rightarrow> ''_'' | Some s \<Rightarrow> s)"

definition nl :: string where
  "nl = [CHR 0x0A]"

definition indentAt :: "nat \<Rightarrow> string" where
  "indentAt depth = concat (replicate depth ''    '')"

definition printStringField :: "(string \<Rightarrow> bool) \<Rightarrow> string \<Rightarrow> string \<Rightarrow> string \<Rightarrow> string" where
  "printStringField isp ind name v =
     (if CHR 0x0A \<notin> set v \<or> sublist tripleQuote v then ind @ name @ '' '' @ quoteGo isp v @ nl
      else ind @ name @ '' '' @ tripleQuote @ nl @
           concat (map (\<lambda>row. if row = [] then nl else ind @ row @ nl) (splitLines v)) @ ind @ tripleQuote @ nl)"

definition printArg :: "go_text \<Rightarrow> (string \<Rightarrow> bool) \<Rightarrow> call_arg \<Rightarrow> string" where
  "printArg T isp a = (case a of (Some s, v) \<Rightarrow> s @ '': '' @ printExpr T isp v | (None, v) \<Rightarrow> printExpr T isp v)"

definition printApproval ::
  "go_text \<Rightarrow> (string \<Rightarrow> bool) \<Rightarrow> string \<Rightarrow> string option \<Rightarrow> string option \<Rightarrow> string list \<Rightarrow> call_arg list \<Rightarrow> string" where
  "printApproval T isp ind b d redact ws =
     (let inner = ind @ ''    ''; arg = inner @ ''    '' in
      ind @ ''approval '' @ identName b @ '' {'' @ nl @
      (case d of None \<Rightarrow> [] | Some v \<Rightarrow> printStringField isp inner ''description'' v) @
      (if redact = [] then [] else inner @ ''redactKeys {'' @ concat (map (\<lambda>k. '' '' @ quoteGo isp k) redact) @ '' }'' @ nl) @
      (if ws = [] then [] else inner @ ''with {'' @ nl @ concat (map (\<lambda>a. arg @ printArg T isp a @ nl) ws) @ inner @ ''}'' @ nl) @
      ind @ ''}'' @ nl)"

text \<open>\<open>strings.TrimLeft(s, " ")\<close>, which puts a nested \<open>if\<close> behind its \<open>else\<close>.\<close>

definition trimLeftSpaces :: "string \<Rightarrow> string" where
  "trimLeftSpaces s = dropWhile (\<lambda>c. c = CHR '' '') s"

fun printStmt :: "go_text \<Rightarrow> (string \<Rightarrow> bool) \<Rightarrow> nat \<Rightarrow> stmt \<Rightarrow> string"
  and printBody :: "go_text \<Rightarrow> (string \<Rightarrow> bool) \<Rightarrow> nat \<Rightarrow> stmt list \<Rightarrow> string" where
  "printStmt T isp d (AssignStmt x e) = indentAt d @ x @ '' = '' @ printExpr T isp e @ nl"
| "printStmt T isp d (ExprStmt e) = indentAt d @ printExpr T isp e @ nl"
| "printStmt T isp d (ReturnStmt e) = indentAt d @ ''return '' @ printExpr T isp e @ nl"
| "printStmt T isp d (ParallelStmt bs) =
     indentAt d @ ''parallel {'' @ nl @
     concat (map (\<lambda>(x, e). indentAt (d + 1) @ x @ '' = '' @ printExpr T isp e @ nl) bs) @ indentAt d @ ''}'' @ nl"
| "printStmt T isp d (IfStmt c th el) =
     indentAt d @ ''if '' @ printExpr T isp c @ '' {'' @ nl @ printBody T isp (d + 1) th @
     (case el of
        [IfStmt c' th' el'] \<Rightarrow>
          indentAt d @ ''} else '' @ trimLeftSpaces (printStmt T isp d (IfStmt c' th' el'))
      | _ \<Rightarrow>
          (if el = [] then [] else indentAt d @ ''} else {'' @ nl @ printBody T isp (d + 1) el) @
          indentAt d @ ''}'' @ nl)"
| "printStmt T isp d (ForStmt par v e body) =
     indentAt d @ (if par then ''parallel for'' else ''for'') @ '' '' @ identName v @ '' in '' @ printExpr T isp e @ '' {'' @ nl @
     printBody T isp (d + 1) body @ indentAt d @ ''}'' @ nl"
| "printStmt T isp d (WhileStmt c bnd body) =
     indentAt d @ ''while '' @ printExpr T isp c @ '' limit '' @ showInt bnd @ '' {'' @ nl @
     printBody T isp (d + 1) body @ indentAt d @ ''}'' @ nl"
| "printStmt T isp d (RetryStmt c bnd body) =
     indentAt d @ ''retry until '' @ printExpr T isp c @ '' limit '' @ showInt bnd @ '' {'' @ nl @
     printBody T isp (d + 1) body @ indentAt d @ ''}'' @ nl"
| "printStmt T isp d (ApprovalStmt b desc redact ws) = printApproval T isp (indentAt d) b desc redact ws"
| "printBody T isp d [] = []"
| "printBody T isp d (s # ss) = printStmt T isp d s @ printBody T isp d ss"

definition headerTexts :: "workflow_decl \<Rightarrow> string list" where
  "headerTexts w =
     (case wd_Policy w of None \<Rightarrow> [] | Some p \<Rightarrow> [''policy '' @ p]) @
     (if wd_Effects w = [] then [] else [''effects { '' @ Join (wd_Effects w) '', '' @ '' }''])"

definition printWorkflow :: "go_text \<Rightarrow> (string \<Rightarrow> bool) \<Rightarrow> workflow_decl \<Rightarrow> string" where
  "printWorkflow T isp w =
     ''workflow '' @ identName (wd_Name w) @ ''('' @
     Join (map (\<lambda>(x, t). x @ '': '' @ identName t) (wd_Params w)) '', '' @ '')'' @
     (case wd_Result w of None \<Rightarrow> [] | Some t \<Rightarrow> '' -> '' @ t) @
     (case wd_Description w of
        Some v \<Rightarrow>
          nl @ printStringField isp ''    '' ''description'' v @
          concat (map (\<lambda>c. ''    '' @ c @ nl) (headerTexts w)) @ ''{'' @ nl
      | None \<Rightarrow> concat (map (\<lambda>c. '' '' @ c) (headerTexts w)) @ '' {'' @ nl) @
     printBody T isp 1 (wd_Body w) @ ''}'' @ nl"

end
