(* ===== verification/Lang_Reads.thy ===== *)
theory Lang_Reads
  imports Lang_Printer
begin

text \<open>
  Lexing a text piece by piece: \<open>reads x ks r\<close> says that the lexer, standing before \<open>x\<close> with \<open>r\<close>
  behind it, yields the tokens \<open>ks\<close> without a diagnostic and then stands before \<open>r\<close>.
\<close>

subsection \<open>Reading in pieces\<close>

type_synonym key = "kind \<times> string"

definition key :: "token \<Rightarrow> key" where
  "key t = (tk_Kind t, tk_Lit t)"

lemma key_mkToken [simp]: "key (mkToken k s p) = (k, s)"
  by (simp add: key_def mkToken_def)

definition reads :: "string \<Rightarrow> key list \<Rightarrow> string \<Rightarrow> bool" where
  "reads x ks r \<longleftrightarrow>
     (\<forall>l. lx_rest l = x @ r \<longrightarrow>
        (\<exists>ts l'. lexFrom l = (ts @ fst (lexFrom l'), snd (lexFrom l')) \<and> lx_rest l' = r \<and> map key ts = ks \<and>
                 lx_diags l' = lx_diags l))"

lemma reads_Nil: "reads [] [] r"
  unfolding reads_def by (intro allI impI exI [of _ "[]"]) auto

lemma reads_append: "reads x ks (y @ r) \<Longrightarrow> reads y ks' r \<Longrightarrow> reads (x @ y) (ks @ ks') r"
  unfolding reads_def
proof (intro allI impI)
  fix l :: lexer assume x: "\<forall>l. lx_rest l = x @ y @ r \<longrightarrow> (\<exists>ts l'. lexFrom l = (ts @ fst (lexFrom l'), snd (lexFrom l')) \<and>
      lx_rest l' = y @ r \<and> map key ts = ks \<and> lx_diags l' = lx_diags l)"
    and y: "\<forall>l. lx_rest l = y @ r \<longrightarrow> (\<exists>ts l'. lexFrom l = (ts @ fst (lexFrom l'), snd (lexFrom l')) \<and>
      lx_rest l' = r \<and> map key ts = ks' \<and> lx_diags l' = lx_diags l)"
    and l: "lx_rest l = (x @ y) @ r"
  obtain ts l1 where 1: "lexFrom l = (ts @ fst (lexFrom l1), snd (lexFrom l1))" "lx_rest l1 = y @ r" "map key ts = ks"
    "lx_diags l1 = lx_diags l" using x l by auto
  obtain us l2 where 2: "lexFrom l1 = (us @ fst (lexFrom l2), snd (lexFrom l2))" "lx_rest l2 = r" "map key us = ks'"
    "lx_diags l2 = lx_diags l1" using y 1(2) by blast
  show "\<exists>ts l'. lexFrom l = (ts @ fst (lexFrom l'), snd (lexFrom l')) \<and> lx_rest l' = r \<and> map key ts = ks @ ks' \<and>
      lx_diags l' = lx_diags l"
    by (intro exI [of _ "ts @ us"] exI [of _ l2]) (use 1 2 in simp)
qed

lemma reads_Cons: "reads [c] [k] (y @ r) \<Longrightarrow> reads y ks' r \<Longrightarrow> reads (c # y) (k # ks') r"
  using reads_append [of "[c]" "[k]"] by simp

lemma reads_token:
  assumes ks: "k \<noteq> KindEOF" and x: "x \<noteq> []" "hd x \<notin> {CHR 0x20, CHR 0x09, CHR 0x0D, CHR 0x0A, CHR ''/''}" "of_char (hd x) < (0x80 :: nat)"
    and scan: "\<And>l. lx_rest l = x @ r \<Longrightarrow> \<exists>p l'. Next' l = (mkToken k s p, l') \<and> lx_rest l' = r \<and> lx_diags l' = lx_diags l"
    and Next': "\<And>l. lx_rest l = x @ r \<Longrightarrow> skipTrivia l = l \<Longrightarrow> Next l = Next' l"
  shows "reads x [(k, s)] r"
  unfolding reads_def
proof (intro allI impI)
  fix l :: lexer assume l: "lx_rest l = x @ r"
  obtain c y where c: "x = c # y" using x by (cases x) auto
  have "peek l = ([c], 1)" using peek_ascii l c x by simp
  then have "skipTrivia l = l" using l c x by (subst skipTrivia.simps) (auto simp: isSpaceRune_def)
  then obtain p l' where n: "Next l = (mkToken k s p, l')" "lx_rest l' = r" "lx_diags l' = lx_diags l"
    using scan [OF l] Next' [OF l] by auto
  then have "lexFrom l = ([mkToken k s p] @ fst (lexFrom l'), snd (lexFrom l'))"
    using ks by (subst lexFrom.simps) (simp add: mkToken_def split: prod.split)
  then show "\<exists>ts l'. lexFrom l = (ts @ fst (lexFrom l'), snd (lexFrom l')) \<and> lx_rest l' = r \<and> map key ts = [(k, s)] \<and>
      lx_diags l' = lx_diags l"
    by (intro exI [of _ "[mkToken k s p]"] exI [of _ l']) (use n in simp)
qed

lemma advance_ascii:
  "lx_rest l = c # s \<Longrightarrow> of_char c < (0x80 :: nat) \<Longrightarrow> lx_rest (lexAdvance l) = s \<and> lx_diags (lexAdvance l) = lx_diags l"
  by (simp add: lexAdvance_def peek_ascii)

subsection \<open>Whitespace\<close>

definition blank :: "string \<Rightarrow> bool" where
  "blank s \<longleftrightarrow> list_all (\<lambda>c. c = CHR '' '' \<or> c = CHR 0x0A) s"

lemma reads_blank: "blank s \<Longrightarrow> reads s [] r"
proof (induction s)
  case (Cons c s)
  then have c: "c = CHR '' '' \<or> c = CHR 0x0A" "blank s" by (simp_all add: blank_def)
  have "reads [c] [] (s @ r)" unfolding reads_def
  proof (intro allI impI)
    fix l :: lexer assume l: "lx_rest l = [c] @ s @ r"
    have "of_char c < (0x80 :: nat)" using c by auto
    then have p: "peek l = ([c], 1)" and a: "lx_rest (lexAdvance l) = s @ r" "lx_diags (lexAdvance l) = lx_diags l"
      using l peek_ascii advance_ascii by simp_all
    have "skipTrivia l = skipTrivia (lexAdvance l)" using p l c by (subst skipTrivia.simps) (auto simp: isSpaceRune_def)
    then have "Next l = Next (lexAdvance l)" by (simp add: Next_def)
    then have "lexFrom l = lexFrom (lexAdvance l)" by (simp add: lexFrom.simps [of l] lexFrom.simps [of "lexAdvance l"])
    then show "\<exists>ts l'. lexFrom l = (ts @ fst (lexFrom l'), snd (lexFrom l')) \<and> lx_rest l' = s @ r \<and> map key ts = [] \<and>
        lx_diags l' = lx_diags l"
      by (intro exI [of _ "[]"] exI [of _ "lexAdvance l"]) (use a in simp)
  qed
  from reads_append [OF this Cons.IH [OF c(2)]] show ?case by simp
qed (simp add: reads_Nil)

subsection \<open>Words and numbers\<close>

text \<open>What may stand behind a word, a number or a string in printed text.\<close>

definition brk :: "string \<Rightarrow> bool" where
  "brk r \<longleftrightarrow> r = [] \<or> hd r \<in> {CHR '' '', CHR 0x0A, CHR ''('', CHR '')'', CHR '','', CHR '':''}"

definition brkDot :: "string \<Rightarrow> bool" where
  "brkDot r \<longleftrightarrow> brk r \<or> hd r = CHR ''.''"

definition wordText :: "string \<Rightarrow> bool" where
  "wordText s \<longleftrightarrow> s \<noteq> [] \<and> isIdentStart [hd s] \<and> list_all (\<lambda>c. isIdentPart [c]) s"

definition wordKind :: "string \<Rightarrow> kind" where
  "wordKind s = (case map_of keywordKinds s of Some k \<Rightarrow> k | None \<Rightarrow> KindIdent)"

lemma identPart_ascii: "isIdentPart [c] \<Longrightarrow> of_char c < (0x80 :: nat)"
  by (auto simp: isIdentPart_def isIdentStart_def isRuneDigit_def between_def)

lemma digit_ascii: "isRuneDigit [c] \<Longrightarrow> of_char c < (0x80 :: nat)"
  by (auto simp: isRuneDigit_def between_def)

lemma advanceWhile_ascii:
  assumes "lx_rest l = x @ r" "list_all (\<lambda>c. of_char c < (0x80 :: nat) \<and> P [c]) x"
    "r = [] \<or> of_char (hd r) < (0x80 :: nat) \<and> \<not> P [hd r]"
  shows "lx_rest (advanceWhile P l) = r \<and> lx_diags (advanceWhile P l) = lx_diags l"
  using assms
proof (induction x arbitrary: l)
  case Nil
  then have "r = [] \<or> \<not> P (fst (peek l))" using peek_ascii [of l "hd r" "tl r"] by (cases r) auto
  then have "advanceWhile P l = l" using Nil by (subst advanceWhile.simps) auto
  then show ?case using Nil by simp
next
  case (Cons c x)
  then have p: "peek l = ([c], 1)" and a: "lx_rest (lexAdvance l) = x @ r" "lx_diags (lexAdvance l) = lx_diags l"
    using peek_ascii [of l c] advance_ascii [of l c] by simp_all
  have "advanceWhile P l = advanceWhile P (lexAdvance l)" using p Cons.prems by (subst advanceWhile.simps) simp
  then show ?case using Cons.IH [OF a(1)] Cons.prems a by simp
qed

lemma brkDot_stops:
  assumes "brkDot r"
  shows "r = [] \<or> of_char (hd r) < (0x80 :: nat) \<and> \<not> isIdentPart [hd r]"
    "r = [] \<or> of_char (hd r) < (0x80 :: nat) \<and> \<not> isRuneDigit [hd r]"
  using assms by (auto simp: brkDot_def brk_def isIdentPart_def isIdentStart_def isRuneDigit_def between_def)

lemma wordKind_not_EOF: "wordKind s \<noteq> KindEOF"
  by (auto simp: wordKind_def keywordKinds_def split: if_splits option.splits)

lemma reads_word:
  assumes s: "wordText s" and r: "brkDot r"
  shows "reads s [(wordKind s, s)] r"
proof (rule reads_token [OF wordKind_not_EOF])
  obtain c x where c: "s = c # x" using s by (cases s) (auto simp: wordText_def)
  have part: "isIdentStart [c]" "list_all (\<lambda>c. isIdentPart [c]) x" using s c by (simp_all add: wordText_def)
  then have asc: "of_char c < (0x80 :: nat)" by (intro identPart_ascii) (simp add: isIdentPart_def)
  show "s \<noteq> []" "of_char (hd s) < (0x80 :: nat)" using c asc by simp_all
  show "hd s \<notin> {CHR 0x20, CHR 0x09, CHR 0x0D, CHR 0x0A, CHR ''/''}"
    using part(1) c by (auto simp: isIdentStart_def between_def)
  fix l :: lexer assume l: "lx_rest l = s @ r"
  have p: "peek l = ([c], 1)" using peek_ascii l c asc by simp
  show "Next l = scanIdent (lexPos l) l" if "skipTrivia l = l"
    using that p part l c by (simp add: Next_def Let_def)
  have a: "lx_rest (lexAdvance l) = x @ r" "lx_diags (lexAdvance l) = lx_diags l" using advance_ascii [of l c] l c asc by simp_all
  have "list_all (\<lambda>c. of_char c < (0x80 :: nat) \<and> isIdentPart [c]) x" using part(2) identPart_ascii by (auto simp: list_all_iff)
  from advanceWhile_ascii [OF a(1) this brkDot_stops(1) [OF r]]
  show "\<exists>p l'. scanIdent (lexPos l) l = (mkToken (wordKind s) s p, l') \<and> lx_rest l' = r \<and> lx_diags l' = lx_diags l"
    using a l by (auto simp: scanIdent_def Let_def textBetween_def wordKind_def)
qed

lemma isDigit_rune: "isDigit c = isRuneDigit [c]"
  by (simp add: isDigit_def isRuneDigit_def)

lemma digit_not_word: "isRuneDigit [c] \<Longrightarrow> \<not> isIdentStart [c]" "isRuneDigit [c] \<Longrightarrow> c \<notin> {CHR 0x20, CHR 0x09, CHR 0x0D, CHR 0x0A, CHR ''/''}"
  by (auto simp: isRuneDigit_def isIdentStart_def between_def)

lemma reads_number:
  assumes n: "list_all isDigit s" "s \<noteq> []" and r: "brk r"
  shows "reads s [(KindNumber, s)] r"
proof (rule reads_token)
  obtain c x where c: "s = c # x" using n by (cases s) auto
  have d: "isRuneDigit [c]" "list_all (\<lambda>c. of_char c < (0x80 :: nat) \<and> isRuneDigit [c]) s"
    using n c digit_ascii by (auto simp: list_all_iff isDigit_rune)
  show "s \<noteq> []" "of_char (hd s) < (0x80 :: nat)" "hd s \<notin> {CHR 0x20, CHR 0x09, CHR 0x0D, CHR 0x0A, CHR ''/''}"
    using c d digit_ascii [of c] digit_not_word by simp_all
  fix l :: lexer assume l: "lx_rest l = s @ r"
  have p: "peek l = ([c], 1)" using peek_ascii l c d digit_ascii by simp
  show "Next l = scanNumber (lexPos l) l" if "skipTrivia l = l"
    using that p d digit_not_word [of c] l c by (simp add: Next_def Let_def)
  have "brkDot r" using r by (simp add: brkDot_def)
  from advanceWhile_ascii [OF l d(2) brkDot_stops(2) [OF this]]
  have w: "lx_rest (advanceWhile isRuneDigit l) = r" "lx_diags (advanceWhile isRuneDigit l) = lx_diags l" by simp_all
  moreover have "\<not> digitAfterDot (advanceWhile isRuneDigit l)"
    using r w by (auto simp: digitAfterDot_def brk_def split: list.split)
  ultimately show "\<exists>p l'. scanNumber (lexPos l) l = (mkToken KindNumber s p, l') \<and> lx_rest l' = r \<and> lx_diags l' = lx_diags l"
    using l by (auto simp: scanNumber_def Let_def textBetween_def)
qed simp

definition decimalText :: "string \<Rightarrow> bool" where
  "decimalText s \<longleftrightarrow>
     (case dropWhile isDigit s of
        c # y \<Rightarrow> s \<noteq> c # y \<and> c = CHR ''.'' \<and> y \<noteq> [] \<and> list_all isDigit y
      | [] \<Rightarrow> False)"

lemma decimalText_parts:
  assumes "decimalText s"
  obtains x y where "s = x @ CHR ''.'' # y" "x \<noteq> []" "y \<noteq> []" "list_all isDigit x" "list_all isDigit y"
proof -
  obtain y where y: "dropWhile isDigit s = CHR ''.'' # y" "s \<noteq> CHR ''.'' # y" "y \<noteq> []" "list_all isDigit y"
    using assms by (auto simp: decimalText_def split: list.splits)
  then have "s = takeWhile isDigit s @ CHR ''.'' # y" using takeWhile_dropWhile_id [of isDigit s] by simp
  moreover have "list_all isDigit (takeWhile isDigit s)" by (auto simp: list_all_iff dest: set_takeWhileD)
  ultimately show ?thesis using that [of "takeWhile isDigit s" y] y by fastforce
qed

lemma reads_decimal:
  assumes s: "decimalText s" and r: "brk r"
  shows "reads s [(KindNumber, s)] r"
proof -
  obtain x y where xy: "s = x @ CHR ''.'' # y" "x \<noteq> []" "y \<noteq> []" "list_all isDigit x" "list_all isDigit y"
    using decimalText_parts [OF s] .
  obtain c x' where c: "x = c # x'" using xy by (cases x) auto
  have d: "isRuneDigit [c]" "list_all (\<lambda>c. of_char c < (0x80 :: nat) \<and> isRuneDigit [c]) x"
    "list_all (\<lambda>c. of_char c < (0x80 :: nat) \<and> isRuneDigit [c]) y"
    using xy c digit_ascii by (auto simp: list_all_iff isDigit_rune)
  show ?thesis
  proof (rule reads_token)
    show "s \<noteq> []" "of_char (hd s) < (0x80 :: nat)" "hd s \<notin> {CHR 0x20, CHR 0x09, CHR 0x0D, CHR 0x0A, CHR ''/''}"
      using c d xy digit_ascii [of c] digit_not_word by simp_all
    fix l :: lexer assume l: "lx_rest l = s @ r"
    have p: "peek l = ([c], 1)" using peek_ascii l c xy d digit_ascii by simp
    show "Next l = scanNumber (lexPos l) l" if "skipTrivia l = l"
      using that p d digit_not_word [of c] l c xy by (simp add: Next_def Let_def)
    let ?l1 = "advanceWhile isRuneDigit l" and ?l2 = "advanceWhile isRuneDigit (lexAdvance (advanceWhile isRuneDigit l))"
    have 1: "lx_rest ?l1 = CHR ''.'' # y @ r" "lx_diags ?l1 = lx_diags l"
      using advanceWhile_ascii [of l x "CHR ''.'' # y @ r" isRuneDigit] l xy d by (simp_all add: isRuneDigit_def between_def)
    have a: "lx_rest (lexAdvance ?l1) = y @ r" "lx_diags (lexAdvance ?l1) = lx_diags l"
      using advance_ascii [OF 1(1)] 1 by simp_all
    have "brkDot r" using r by (simp add: brkDot_def)
    from advanceWhile_ascii [OF a(1) d(3) brkDot_stops(2) [OF this]]
    have 2: "lx_rest ?l2 = r" "lx_diags ?l2 = lx_diags l" using a by simp_all
    have "digitAfterDot ?l1" using 1 xy by (cases y) (auto simp: digitAfterDot_def isDigit_def)
    then show "\<exists>p l'. scanNumber (lexPos l) l = (mkToken KindNumber s p, l') \<and> lx_rest l' = r \<and> lx_diags l' = lx_diags l"
      using 2 l by (auto simp: scanNumber_def Let_def textBetween_def)
  qed simp
qed

subsection \<open>Punctuation and operators\<close>

lemma reads_punct:
  assumes "(s, k) \<in> set punctuation" "s \<noteq> ''/''"
  shows "reads s [(k, s)] r"
proof -
  obtain c where c: "s = [c]" "c \<in> {CHR 0x7B, CHR 0x7D, CHR ''('', CHR '')'', CHR ''.'', CHR '','', CHR '':''}"
    using assms by (auto simp: punctuation_def)
  have m: "map_of punctuation [c] = Some k" using assms c by (auto simp: punctuation_def)
  show ?thesis
  proof (rule reads_token)
    show "k \<noteq> KindEOF" using assms by (auto simp: punctuation_def)
    show "s \<noteq> []" "of_char (hd s) < (0x80 :: nat)" "hd s \<notin> {CHR 0x20, CHR 0x09, CHR 0x0D, CHR 0x0A, CHR ''/''}" using c by auto
    fix l :: lexer assume l: "lx_rest l = s @ r"
    have p: "peek l = ([c], 1)" using peek_ascii l c by auto
    show "Next l = (mkToken k s (lexPos l), lexAdvance l)" if "skipTrivia l = l"
      using that p c m l by (auto simp: Next_def Let_def isIdentStart_def isRuneDigit_def between_def)
    show "\<exists>p l'. (mkToken k s (lexPos l), lexAdvance l) = (mkToken k s p, l') \<and> lx_rest l' = r \<and> lx_diags l' = lx_diags l"
      using advance_ascii [of l c r] l c by auto
  qed
qed

lemma operators_seconds:
  assumes "(r, second, k2, k1) \<in> set operators"
  shows "\<exists>d. second = [d] \<and> of_char d < (0x80 :: nat) \<and> k2 \<noteq> KindEOF \<and> k1 \<noteq> Some KindEOF"
proof -
  have "list_all (\<lambda>(r, second, k2, k1). length second = 1 \<and> of_char (hd second) < (0x80 :: nat) \<and> k2 \<noteq> KindEOF \<and> k1 \<noteq> Some KindEOF) operators"
    by (simp add: operators_def)
  with assms have *: "length second = 1" "of_char (hd second) < (0x80 :: nat)" "k2 \<noteq> KindEOF" "k1 \<noteq> Some KindEOF"
    by (auto simp: list_all_iff)
  then show ?thesis by (cases second) auto
qed

lemma reads_operator:
  assumes op: "map_of operators [c] = Some (second, k2, k1)" and c: "c \<in> {CHR ''='', CHR ''!'', CHR ''<'', CHR ''>'', CHR ''&'', CHR ''|'', CHR ''-''}"
  shows "reads ([c] @ second) [(k2, [c] @ second)] r"
    and "k1 = Some k \<Longrightarrow> r = [] \<or> of_char (hd r) < (0x80 :: nat) \<and> [hd r] \<noteq> second \<Longrightarrow> reads [c] [(k, [c])] r"
proof -
  have asc: "of_char c < (0x80 :: nat)" "c \<notin> {CHR 0x20, CHR 0x09, CHR 0x0D, CHR 0x0A, CHR ''/''}" using c by auto
  have m: "map_of punctuation [c] = None" "\<not> isIdentStart [c]" "\<not> isRuneDigit [c]" "c \<noteq> CHR 0x22"
    using c by (auto simp: punctuation_def isIdentStart_def isRuneDigit_def between_def)
  have n: "Next l = scanOperator (lexPos l) [c] (second, k2, k1) l" if "skipTrivia l = l" "lx_rest l = c # y" for l y
    using that m op peek_ascii [OF that(2) asc(1)] by (simp add: Next_def Let_def)
  obtain d where d: "second = [d]" "of_char d < (0x80 :: nat)" "k2 \<noteq> KindEOF" "k1 \<noteq> Some KindEOF"
    using operators_seconds [OF map_of_SomeD [OF op]] by blast
  show "reads ([c] @ second) [(k2, [c] @ second)] r"
  proof (rule reads_token [OF d(3)])
    fix l :: lexer assume l: "lx_rest l = ([c] @ second) @ r"
    then show "Next l = scanOperator (lexPos l) [c] (second, k2, k1) l" if "skipTrivia l = l" using n that by simp
    have a: "lx_rest (lexAdvance l) = d # r" "lx_diags (lexAdvance l) = lx_diags l" using advance_ascii [of l c] l asc d by simp_all
    then show "\<exists>p l'. scanOperator (lexPos l) [c] (second, k2, k1) l = (mkToken k2 ([c] @ second) p, l') \<and> lx_rest l' = r \<and> lx_diags l' = lx_diags l"
      using advance_ascii [OF a(1) d(2)] peek_ascii [OF a(1) d(2)] d by (auto simp: scanOperator_def)
  qed (use asc in simp_all)
  show "reads [c] [(k, [c])] r" if k: "k1 = Some k" and r: "r = [] \<or> of_char (hd r) < (0x80 :: nat) \<and> [hd r] \<noteq> second"
  proof (rule reads_token)
    show "k \<noteq> KindEOF" using k d by simp
    fix l :: lexer assume l: "lx_rest l = [c] @ r"
    then show "Next l = scanOperator (lexPos l) [c] (second, k2, k1) l" if "skipTrivia l = l" using n that by simp
    have a: "lx_rest (lexAdvance l) = r" "lx_diags (lexAdvance l) = lx_diags l" using advance_ascii [of l c] l asc by simp_all
    then have "\<not> (lx_rest (lexAdvance l) \<noteq> [] \<and> fst (peek (lexAdvance l)) = second)"
      using r peek_ascii [of "lexAdvance l" "hd r" "tl r"] by (cases r) auto
    then show "\<exists>p l'. scanOperator (lexPos l) [c] (second, k2, k1) l = (mkToken k [c] p, l') \<and> lx_rest l' = r \<and> lx_diags l' = lx_diags l"
      using a k by (auto simp: scanOperator_def)
  qed (use asc in simp_all)
qed

subsection \<open>Strings\<close>

text \<open>
  The strings whose quoted form the lexer reads back: \<open>strconv.Quote\<close> leaves their runes as they are,
  or writes one of the escapes the lexer knows.
\<close>

definition plainRune :: "(string \<Rightarrow> bool) \<Rightarrow> string \<Rightarrow> bool" where
  "plainRune isp r =
     (case r of
        [c] \<Rightarrow> between 0x20 0x7E c \<or> c = CHR 0x0A \<or> c = CHR 0x09 \<or> c = CHR 0x0D
      | _ \<Rightarrow> isp r)"

function plainText :: "(string \<Rightarrow> bool) \<Rightarrow> string \<Rightarrow> bool" where
  "plainText isp [] = True"
| "plainText isp (c # s) =
     (case runeSize (c # s) of
        None \<Rightarrow> False
      | Some n \<Rightarrow> plainRune isp (take n (c # s)) \<and> plainText isp (drop n (c # s)))"
  by pat_completeness auto
termination
  by (relation "measure (\<lambda>(isp, s). length s)") (auto dest: runeSize_pos simp del: runeSize.simps)

text \<open>The quoted form of one rune, read by one round of the loop of \<open>scanString\<close>.\<close>

lemma scanStringBody_ascii:
  assumes c: "plainRune isp [c]" and l: "lx_rest l = quoteGoAscii c @ y"
  shows "\<exists>l'. scanStringBody start b l = scanStringBody start (b @ [c]) l' \<and> lx_rest l' = y \<and> lx_diags l' = lx_diags l"
proof (cases "quoteGoAscii c = [c]")
  case True
  then have asc: "of_char c < (0x80 :: nat)" "c \<notin> {CHR 0x22, CHR 0x5C, CHR 0x0A}"
    using c by (auto simp: quoteGoAscii_def plainRune_def between_def split: if_splits)
  have "peek l = ([c], 1)" "lx_rest l \<noteq> []" using peek_ascii l asc True by simp_all
  then have "scanStringBody start b l = scanStringBody start (b @ [c]) (lexAdvance l)"
    using asc by (subst scanStringBody.simps) (simp add: Let_def)
  then show ?thesis using advance_ascii [of l c y] l True asc by auto
next
  case False
  then obtain d where d: "quoteGoAscii c = [CHR 0x5C, d]" "unescape [d] = Some [c]" "of_char d < (0x80 :: nat)"
    using c by (auto simp: quoteGoAscii_def plainRune_def unescape_def split: if_splits)
  have l1: "lx_rest l = CHR 0x5C # d # y" using l d by simp
  have a: "lx_rest (lexAdvance l) = d # y" "lx_diags (lexAdvance l) = lx_diags l" using advance_ascii [OF l1] by simp_all
  have "scanStringBody start b l = scanStringBody start (b @ [c]) (lexAdvance (lexAdvance l))"
    using peek_ascii [OF l1] peek_ascii [OF a(1) d(3)] a l1 d(2) by (subst scanStringBody.simps) (simp add: Let_def)
  then show ?thesis using advance_ascii [OF a(1) d(3)] a by auto
qed

lemma scanStringBody_raw:
  assumes n: "runeSize r = Some n" "1 < n" and l: "lx_rest l = take n r @ y"
  shows "\<exists>l'. scanStringBody start b l = scanStringBody start (b @ take n r) l' \<and> lx_rest l' = y \<and> lx_diags l' = lx_diags l"
proof -
  have size: "runeSize (lx_rest l) = Some n" and len: "length (take n r) = n"
    using runeSize_take [OF n(1), of y] l runeSize_pos [OF n(1)] by simp_all
  then have "lx_rest l \<noteq> []" using l n(2) by auto
  moreover have "take n (lx_rest l) = take n r" using l len by simp
  ultimately have p: "peek l = (take n r, n)" unfolding peek_def using size by simp
  have ne: "take n r \<noteq> [x]" for x using len n(2) by (cases "take n r") auto
  have "scanStringBody start b l = scanStringBody start (b @ take n r) (lexAdvance l)"
    using p ne \<open>lx_rest l \<noteq> []\<close> by (subst scanStringBody.simps) (simp add: Let_def)
  moreover have "lx_rest (lexAdvance l) = y" "lx_diags (lexAdvance l) = lx_diags l"
    using p l len n(2) by (auto simp: lexAdvance_def)
  ultimately show ?thesis by blast
qed

lemma scanStringBody_quoted:
  assumes "plainText isp s" "lx_rest l = quoteGoBody isp s @ CHR 0x22 # r"
  shows "\<exists>l'. scanStringBody start b l = (mkToken KindString (b @ s) start, l') \<and> lx_rest l' = r \<and> lx_diags l' = lx_diags l"
  using assms
proof (induction isp s arbitrary: b l rule: plainText.induct)
  case (1 isp)
  then have l: "lx_rest l = CHR 0x22 # r" by simp
  then have "scanStringBody start b l = (mkToken KindString b start, lexAdvance l)"
    using peek_ascii [OF l] by (subst scanStringBody.simps) simp
  then show ?case using advance_ascii [OF l] by simp
next
  case (2 isp c s)
  obtain n where n: "runeSize (c # s) = Some n" "plainRune isp (take n (c # s))" "plainText isp (drop n (c # s))"
    using "2.prems"(1) by (auto split: option.splits simp del: runeSize.simps)
  let ?r = "take n (c # s)" and ?y = "quoteGoBody isp (drop n (c # s)) @ CHR 0x22 # r"
  have l: "lx_rest l = quoteGoRune isp ?r @ ?y" using "2.prems"(2) n(1) by (simp del: runeSize.simps)
  have "\<exists>l'. scanStringBody start b l = scanStringBody start (b @ ?r) l' \<and> lx_rest l' = ?y \<and> lx_diags l' = lx_diags l"
    using n(1)
  proof (cases rule: runeSize_cases)
    case (ascii d bs)
    then show ?thesis using scanStringBody_ascii [of isp c l ?y start b] l n(2) by (simp add: quoteGoRune_def)
  next
    case multi
    have "length ?r = n" using runeSize_pos [OF n(1)] by simp
    then have "?r \<noteq> [x]" for x using multi(1) by (metis length_Cons less_numeral_extra(4) list.size(3) One_nat_def)
    then have "isp ?r" "quoteGoRune isp ?r = ?r"
      using n(2) by (auto simp: plainRune_def quoteGoRune_def split: list.splits)
    then show ?thesis using scanStringBody_raw [OF n(1) multi(1)] l by simp
  qed
  then obtain l' where l': "scanStringBody start b l = scanStringBody start (b @ ?r) l'" "lx_rest l' = ?y" "lx_diags l' = lx_diags l"
    by blast
  from "2.IH" [OF n(1,3) l'(2), of "b @ ?r"] show ?case
    unfolding l'(1) l'(3) append_assoc append_take_drop_id .
qed

lemma quoteGoBody_first: "quoteGoBody isp s \<noteq> CHR 0x22 # y"
proof (cases s)
  case (Cons c t)
  show ?thesis
  proof (cases "runeSize (c # t)")
    case (Some n)
    have "quoteGoRune isp (take n (c # t)) @ u \<noteq> CHR 0x22 # y" for u
      using Some
    proof (cases rule: runeSize_cases)
      case multi
      obtain m where m: "n = Suc m" using multi by (cases n) auto
      have "c \<noteq> CHR 0x22" using multi m by auto
      then show ?thesis using multi m by (auto simp: quoteGoRune_def quoteGoAscii_def split: list.splits)
    qed (auto simp: quoteGoRune_def quoteGoAscii_def)
    then show ?thesis using Some Cons by (simp del: runeSize.simps)
  qed (use Cons in \<open>simp del: runeSize.simps\<close>)
qed simp

lemma reads_string:
  assumes s: "plainText isp s" and r: "brk r"
  shows "reads (quoteGo isp s) [(KindString, s)] r"
proof (rule reads_token)
  show "quoteGo isp s \<noteq> []" "of_char (hd (quoteGo isp s)) < (0x80 :: nat)"
    "hd (quoteGo isp s) \<notin> {CHR 0x20, CHR 0x09, CHR 0x0D, CHR 0x0A, CHR ''/''}" by (simp_all add: quoteGo_def)
  fix l :: lexer assume l: "lx_rest l = quoteGo isp s @ r"
  then have l0: "lx_rest l = CHR 0x22 # quoteGoBody isp s @ CHR 0x22 # r" by (simp add: quoteGo_def)
  have "\<not> prefix tripleQuote (lx_rest l)"
  proof
    assume "prefix tripleQuote (lx_rest l)"
    then obtain y where "quoteGoBody isp s @ CHR 0x22 # r = CHR 0x22 # CHR 0x22 # y"
      using l0 by (auto simp: tripleQuote_def prefix_def)
    then show False using quoteGoBody_first [of isp s] r by (cases "quoteGoBody isp s") (auto simp: brk_def)
  qed
  then show "Next l = scanString (lexPos l) l" if "skipTrivia l = l"
    using that peek_ascii [OF l0] l0 by (simp add: Next_def Let_def isIdentStart_def isRuneDigit_def between_def)
  have a: "lx_rest (lexAdvance l) = quoteGoBody isp s @ CHR 0x22 # r" "lx_diags (lexAdvance l) = lx_diags l"
    using advance_ascii [OF l0] by simp_all
  show "\<exists>p l'. scanString (lexPos l) l = (mkToken KindString s p, l') \<and> lx_rest l' = r \<and> lx_diags l' = lx_diags l"
    using scanStringBody_quoted [OF s a(1), of "lexPos l" "[]"] a(2) by (auto simp: scanString_def)
qed simp

subsection \<open>Expressions\<close>

text \<open>The trees the parser builds from text without a syntax error, and the tokens of their printed form.\<close>

definition wfIdent :: "string \<Rightarrow> bool" where
  "wfIdent s \<longleftrightarrow> wordText s \<and> map_of keywordKinds s = None"

fun wfLit :: "go_text \<Rightarrow> (string \<Rightarrow> bool) \<Rightarrow> any \<Rightarrow> bool" where
  "wfLit T isp (AStr s) \<longleftrightarrow> plainText isp s"
| "wfLit T isp (ABool b) \<longleftrightarrow> True"
| "wfLit T isp (AInt i) \<longleftrightarrow> 0 \<le> i \<and> int64 i"
| "wfLit T isp (AFloat f) \<longleftrightarrow> decimalText (gt_g T f) \<and> gt_parse T (gt_g T f) = Some f"
| "wfLit T isp v \<longleftrightarrow> False"

definition wfPath :: "string list \<Rightarrow> bool" where
  "wfPath parts \<longleftrightarrow> parts \<noteq> [] \<and> list_all wfIdent parts"

definition comparison :: "expr \<Rightarrow> bool" where
  "comparison e = (case e of BinaryExpr op x y \<Rightarrow> isComparisonOp op | _ \<Rightarrow> False)"

fun wfExpr :: "go_text \<Rightarrow> (string \<Rightarrow> bool) \<Rightarrow> expr \<Rightarrow> bool" where
  "wfExpr T isp NilExpr \<longleftrightarrow> False"
| "wfExpr T isp (RefExpr parts) \<longleftrightarrow> wfPath parts \<and> \<not> (length parts = 1 \<and> isTruthWord (hd parts))"
| "wfExpr T isp (LitExpr v) \<longleftrightarrow> wfLit T isp v"
| "wfExpr T isp (UnaryExpr x) \<longleftrightarrow> wfExpr T isp x"
| "wfExpr T isp (BinaryExpr op x y) \<longleftrightarrow>
     (isComparisonOp op \<or> op = KindAndAnd \<or> op = KindOrOr) \<and> \<not> (isComparisonOp op \<and> comparison x) \<and>
     wfExpr T isp x \<and> wfExpr T isp y"
| "wfExpr T isp (CallExpr parts args) \<longleftrightarrow>
     wfPath parts \<and> list_all (\<lambda>(n, a). (case n of Some s \<Rightarrow> wfIdent s | None \<Rightarrow> True) \<and> wfExpr T isp a) args"
| "wfExpr T isp (ObjectExpr fs) \<longleftrightarrow> list_all (\<lambda>(k, v). wfIdent k \<and> wfExpr T isp v) fs"

fun pathToks :: "string list \<Rightarrow> key list" where
  "pathToks [] = []"
| "pathToks [p] = [(KindIdent, p)]"
| "pathToks (p # q # ps) = (KindIdent, p) # (KindDot, ''.'') # pathToks (q # ps)"

fun commas :: "key list list \<Rightarrow> key list" where
  "commas [] = []"
| "commas [ks] = ks"
| "commas (ks # ks' # kss) = ks @ (KindComma, '','') # commas (ks' # kss)"

definition litToks :: "go_text \<Rightarrow> any \<Rightarrow> key list" where
  "litToks T v =
     (case v of
        AStr s \<Rightarrow> [(KindString, s)]
      | ABool b \<Rightarrow> [(KindIdent, if b then ''true'' else ''false'')]
      | AInt i \<Rightarrow> [(KindNumber, showInt i)]
      | AFloat f \<Rightarrow> [(KindNumber, gt_g T f)]
      | _ \<Rightarrow> [])"

definition parenToks :: "bool \<Rightarrow> key list \<Rightarrow> key list" where
  "parenToks b ks = (if b then (KindLParen, ''('') # ks @ [(KindRParen, '')'')] else ks)"

definition labelToks :: "string option \<Rightarrow> key list" where
  "labelToks n = (case n of Some s \<Rightarrow> [(KindIdent, s), (KindColon, '':'')] | None \<Rightarrow> [])"

fun exprToks :: "go_text \<Rightarrow> expr \<Rightarrow> key list" where
  "exprToks T NilExpr = []"
| "exprToks T (RefExpr parts) = pathToks parts"
| "exprToks T (LitExpr v) = litToks T v"
| "exprToks T (UnaryExpr x) = (KindBang, ''!'') # parenToks (isBinary x) (exprToks T x)"
| "exprToks T (BinaryExpr op x y) =
     parenToks (operandParens x op False) (exprToks T x) @ (op, opSymbol op) # parenToks (operandParens y op True) (exprToks T y)"
| "exprToks T (CallExpr parts args) =
     pathToks parts @ (KindLParen, ''('') # commas (map (\<lambda>(n, a). labelToks n @ exprToks T a) args) @ [(KindRParen, '')'')]"
| "exprToks T (ObjectExpr fs) =
     (KindLBrace, ''{'') # commas (map (\<lambda>(k, v). (KindIdent, k) # (KindColon, '':'') # exprToks T v) fs) @ [(KindRBrace, ''}'')]"

text \<open>Reading printed text chunk by chunk.\<close>

lemma reads_skip: "blank x \<Longrightarrow> reads y ks r \<Longrightarrow> reads (x @ y) ks r"
  using reads_append [OF reads_blank] by fastforce

lemma reads_next: "reads x [k] (y @ r) \<Longrightarrow> reads y ks r \<Longrightarrow> reads (x @ y) (k # ks) r"
  using reads_append [of x "[k]"] by fastforce

lemma brk_simps [simp]: "brk []" "brk (CHR '' '' # r)" "brk (CHR 0x0A # r)" "brk (CHR ''('' # r)" "brk (CHR '')'' # r)"
  "brk (CHR '','' # r)" "brk (CHR '':'' # r)" "brkDot (CHR ''.'' # r)" "brk r \<Longrightarrow> brkDot r"
  by (simp_all add: brk_def brkDot_def)

lemma blank_simps [simp]: "blank []" "blank (CHR '' '' # s) = blank s" "blank (CHR 0x0A # s) = blank s" "blank nl"
  "blank (indentAt d)"
  by (simp_all add: blank_def nl_def indentAt_def list_all_iff)

lemma wfIdent_word: "wfIdent s \<Longrightarrow> wordText s" "wfIdent s \<Longrightarrow> wordKind s = KindIdent"
  by (simp_all add: wfIdent_def wordKind_def)

lemma reads_ident: "wfIdent s \<Longrightarrow> brkDot r \<Longrightarrow> reads s [(KindIdent, s)] r"
  using reads_word [of s r] by (simp add: wfIdent_word)

lemma punct_mem:
  "(''('', KindLParen) \<in> set punctuation" "('')'', KindRParen) \<in> set punctuation" "(''{'', KindLBrace) \<in> set punctuation"
  "(''}'', KindRBrace) \<in> set punctuation" "(''.'', KindDot) \<in> set punctuation" "('','', KindComma) \<in> set punctuation"
  "('':'', KindColon) \<in> set punctuation"
  by (simp_all add: punctuation_def)

lemmas reads_puncts = punct_mem [THEN reads_punct, simplified]

lemma reads_path: "wfPath parts \<Longrightarrow> brk r \<Longrightarrow> reads (dottedName parts) (pathToks parts) r"
  unfolding dottedName_def
proof (induction parts rule: pathToks.induct)
  case (2 p)
  then show ?case by (simp add: wfPath_def reads_ident)
next
  case (3 p q ps)
  then have "reads (Join (q # ps) ''.'') (pathToks (q # ps)) r" by (simp add: wfPath_def)
  moreover have "wfIdent p" using 3 by (simp add: wfPath_def)
  ultimately show ?case
    using reads_next [OF reads_ident reads_Cons [OF reads_puncts(5)]] by simp
qed (simp add: wfPath_def)

lemma reads_Join:
  assumes "list_all2 (\<lambda>x ks. \<forall>r. brk r \<longrightarrow> reads x ks r) xs kss" "brk r"
  shows "reads (Join xs '', '') (commas kss) r"
  using assms
proof (induction kss arbitrary: xs rule: commas.induct)
  case (3 ks ks' kss)
  then obtain x x' xs' where x: "xs = x # x' # xs'" by (auto simp: list_all2_Cons2)
  then have "reads (Join (x' # xs') '', '') (commas (ks' # kss)) r" using 3 by simp
  then have "reads ('','' @ '' '' @ Join (x' # xs') '', '') ((KindComma, '','') # commas (ks' # kss)) r"
    by (intro reads_next reads_skip reads_puncts) simp_all
  moreover have "reads x ks ('', '' @ Join (x' # xs') '', '' @ r)" using 3 x by simp
  ultimately show ?case using x reads_append by fastforce
qed (auto simp: reads_Nil list_all2_Cons2)

lemma reads_parens: "reads x ks (if b then CHR '')'' # r else r) \<Longrightarrow> reads (parens b x) (parenToks b ks) r"
  using reads_next [OF reads_puncts(1) reads_append [OF _ reads_puncts(2)], of x ks r]
  by (auto simp: parens_def parenToks_def)

lemma reads_op:
  assumes "isComparisonOp op \<or> op = KindAndAnd \<or> op = KindOrOr"
  shows "reads (opSymbol op) [(op, opSymbol op)] (CHR '' '' # r)"
proof -
  note two = reads_operator(1) [where r = "CHR '' '' # r"] and one = reads_operator(2) [where r = "CHR '' '' # r"]
  have "reads ''=='' [(KindEqEq, ''=='')] (CHR '' '' # r)" "reads ''!='' [(KindBangEq, ''!='')] (CHR '' '' # r)"
    "reads ''<='' [(KindLte, ''<='')] (CHR '' '' # r)" "reads ''>='' [(KindGte, ''>='')] (CHR '' '' # r)"
    "reads ''&&'' [(KindAndAnd, ''&&'')] (CHR '' '' # r)" "reads ''||'' [(KindOrOr, ''||'')] (CHR '' '' # r)"
    using two [of "CHR ''=''"] two [of "CHR ''!''"] two [of "CHR ''<''"] two [of "CHR ''>''"] two [of "CHR ''&''"] two [of "CHR ''|''"]
    by (simp_all add: operators_def)
  moreover have "reads ''<'' [(KindLt, ''<'')] (CHR '' '' # r)" "reads ''>'' [(KindGt, ''>'')] (CHR '' '' # r)"
    using one [of "CHR ''<''"] one [of "CHR ''>''"] by (simp_all add: operators_def)
  ultimately show ?thesis using assms by (auto simp: isComparisonOp_def opSymbol_def)
qed

lemma showInt_nonneg: "0 \<le> i \<Longrightarrow> list_all isDigit (showInt i) \<and> showInt i \<noteq> []"
  using showNat_digits [of "nat i"] showNat_nonempty by (simp add: showInt_def)

lemma reads_lit: "wfLit T isp v \<Longrightarrow> brk r \<Longrightarrow> reads (printLit T isp v) (litToks T v) r"
proof (cases v)
  case (ABool b)
  have "wfIdent ''true''" "wfIdent ''false''"
    by (simp_all add: wfIdent_def wordText_def isIdentPart_def isIdentStart_def between_def keywordKinds_def)
  then show "brk r \<Longrightarrow> ?thesis" using ABool reads_ident by (simp add: printLit_def litToks_def)
qed (auto simp: printLit_def litToks_def reads_string reads_decimal intro: reads_number dest: showInt_nonneg)

text \<open>The first character of a printed expression, which decides how a preceding \<open>!\<close> is read.\<close>

definition opens :: "string \<Rightarrow> bool" where
  "opens s \<longleftrightarrow> s \<noteq> [] \<and> of_char (hd s) < (0x80 :: nat) \<and> hd s \<noteq> CHR ''=''"

lemma opens_append: "opens s \<Longrightarrow> opens (s @ t)"
  by (auto simp: opens_def)

lemma opens_word: "wordText s \<Longrightarrow> opens s"
  by (auto simp: opens_def wordText_def isIdentStart_def between_def)

lemma opens_digits: "list_all isDigit s \<Longrightarrow> s \<noteq> [] \<Longrightarrow> opens s"
  by (cases s) (auto simp: opens_def isDigit_def between_def)

lemma opens_path: "wfPath parts \<Longrightarrow> opens (dottedName parts)"
  by (cases parts rule: pathToks.cases) (auto simp: wfPath_def dottedName_def wfIdent_word opens_word intro: opens_append)

lemma opens_lit: "wfLit T isp v \<Longrightarrow> opens (printLit T isp v)"
proof (cases v)
  case (AFloat f)
  then show "wfLit T isp v \<Longrightarrow> ?thesis"
    by (auto simp: printLit_def opens_append opens_digits elim!: decimalText_parts)
qed (auto simp: printLit_def quoteGo_def opens_digits dest: showInt_nonneg, auto simp: opens_def)

lemma opens_expr: "wfExpr T isp e \<Longrightarrow> opens (printExpr T isp e)"
  by (induction T isp e rule: printExpr.induct)
     (auto simp: opens_path opens_lit parens_def intro: opens_append, auto simp: opens_def)

lemma reads_bang: "opens s \<Longrightarrow> reads ''!'' [(KindBang, ''!'')] s"
  using reads_operator(2) [of "CHR ''!''" "''=''" KindBangEq "Some KindBang"] by (simp add: operators_def opens_def)

lemma parens_opens: "opens s \<Longrightarrow> opens (parens b s @ t)"
  by (auto simp: parens_def opens_append) (simp add: opens_def)

lemma reads_label: "(case n of Some s \<Rightarrow> wfIdent s | None \<Rightarrow> True) \<Longrightarrow> reads x ks r \<Longrightarrow>
  reads ((case n of Some s \<Rightarrow> s @ '': '' | None \<Rightarrow> []) @ x) (labelToks n @ ks) r"
proof (cases n)
  case (Some s)
  assume "case n of Some s \<Rightarrow> wfIdent s | None \<Rightarrow> True" "reads x ks r"
  then have "reads (s @ '':'' @ '' '' @ x) ((KindIdent, s) # (KindColon, '':'') # ks) r"
    using Some by (intro reads_next reads_ident reads_skip reads_puncts) simp_all
  then show ?thesis using Some by (simp add: labelToks_def)
qed (simp add: labelToks_def)

lemma reads_expr: "wfExpr T isp e \<Longrightarrow> brk r \<Longrightarrow> reads (printExpr T isp e) (exprToks T e) r"
proof (induction T isp e arbitrary: r rule: printExpr.induct)
  case (4 T isp x)
  have "reads (parens (isBinary x) (printExpr T isp x)) (parenToks (isBinary x) (exprToks T x)) r"
    by (intro reads_parens 4) (use 4 in auto)
  moreover have "opens (parens (isBinary x) (printExpr T isp x) @ r)" using 4 by (intro parens_opens opens_expr) simp
  ultimately show ?case using reads_next [OF reads_bang] by fastforce
next
  case (5 T isp op x y)
  then have wf: "wfExpr T isp x" "wfExpr T isp y" "isComparisonOp op \<or> op = KindAndAnd \<or> op = KindOrOr" by auto
  have y: "reads (parens (operandParens y op True) (printExpr T isp y)) (parenToks (operandParens y op True) (exprToks T y)) r"
    by (intro reads_parens 5) (use 5 wf in auto)
  have "reads ('' '' @ opSymbol op @ '' '' @ parens (operandParens y op True) (printExpr T isp y))
      ((op, opSymbol op) # parenToks (operandParens y op True) (exprToks T y)) r"
    by (intro reads_skip reads_next y) (use reads_op [OF wf(3)] in simp_all)
  moreover have "reads (parens (operandParens x op False) (printExpr T isp x)) (parenToks (operandParens x op False) (exprToks T x)) (CHR '' '' # r')" for r'
    by (intro reads_parens 5) (use wf in auto)
  ultimately show ?case using reads_append by fastforce
next
  case (6 T isp parts args)
  have args: "reads (Join (map (\<lambda>(n, a). (case n of Some s \<Rightarrow> s @ '': '' | None \<Rightarrow> []) @ printExpr T isp a) args) '', '')
      (commas (map (\<lambda>(n, a). labelToks n @ exprToks T a) args)) (CHR '')'' # r)"
    by (rule reads_Join) (use 6 in \<open>auto simp: list_all2_map1 list_all2_map2 list_all2_same list_all_iff intro!: reads_label\<close>)
  have "reads (''('' @ Join (map (\<lambda>(n, a). (case n of Some s \<Rightarrow> s @ '': '' | None \<Rightarrow> []) @ printExpr T isp a) args) '', '' @ '')'')
      ((KindLParen, ''('') # commas (map (\<lambda>(n, a). labelToks n @ exprToks T a) args) @ [(KindRParen, '')'')]) r"
    by (intro reads_next reads_append [OF _ reads_puncts(2)] reads_puncts(1)) (use args in simp_all)
  moreover have "reads (dottedName parts) (pathToks parts) (CHR ''('' # r')" for r' using 6 by (simp add: reads_path)
  ultimately show ?case using reads_append by fastforce
next
  case (7 T isp fs)
  show ?case
  proof (cases "fs = []")
    case True
    then show ?thesis using reads_next [OF reads_puncts(3) reads_puncts(4), of r] by simp
  next
    case False
    have fields: "reads (Join (map (\<lambda>(k, v). k @ '': '' @ printExpr T isp v) fs) '', '')
        (commas (map (\<lambda>(k, v). (KindIdent, k) # (KindColon, '':'') # exprToks T v) fs)) ('' }'' @ r)"
    proof (rule reads_Join)
      have "reads (k @ '': '' @ printExpr T isp v) ((KindIdent, k) # (KindColon, '':'') # exprToks T v) r'"
        if "(k, v) \<in> set fs" "brk r'" for k v r'
        using reads_label [of "Some k" "printExpr T isp v" "exprToks T v" r'] 7 False that
        by (force simp: list_all_iff labelToks_def)
      then show "list_all2 (\<lambda>x ks. \<forall>r. brk r \<longrightarrow> reads x ks r) (map (\<lambda>(k, v). k @ '': '' @ printExpr T isp v) fs)
          (map (\<lambda>(k, v). (KindIdent, k) # (KindColon, '':'') # exprToks T v) fs)"
        by (auto simp: list_all2_map1 list_all2_map2 list_all2_same)
    qed simp
    have "reads (''{'' @ '' '' @ Join (map (\<lambda>(k, v). k @ '': '' @ printExpr T isp v) fs) '', '' @ '' '' @ ''}'') (exprToks T (ObjectExpr fs)) r"
      unfolding exprToks.simps
      by (intro reads_next reads_skip reads_append [OF _ reads_skip [OF _ reads_puncts(4)]] reads_puncts(3)) (use fields in simp_all)
    then show ?thesis using False by simp
  qed
qed (simp_all add: reads_path reads_lit)

end
