(* ===== verification/Lang_Round.thy ===== *)
theory Lang_Round
  imports Lang_Reads
begin

text \<open>
  Parsing what the printer printed: the tokens of a tree's printed form are parsed back to the tree.
  \<open>parses p ks x S\<close> says that the parser \<open>p\<close> reads the tokens \<open>ks\<close> as \<open>x\<close> and stops there without a
  diagnostic, whenever the token that follows is not of a kind in \<open>S\<close>.
\<close>

subsection \<open>Parsing a run of tokens\<close>

definition headKind :: "token list \<Rightarrow> kind" where
  "headKind us = (case us of [] \<Rightarrow> KindEOF | t # ts \<Rightarrow> tk_Kind t)"

definition parses :: "'a parser \<Rightarrow> key list \<Rightarrow> 'a \<Rightarrow> kind set \<Rightarrow> bool" where
  "parses p ks x S \<longleftrightarrow>
     (\<forall>st ts us. pp_toks st = ts @ us \<longrightarrow> map key ts = ks \<longrightarrow> headKind us \<notin> S \<longrightarrow>
        p st = Some (x, st\<lparr>pp_toks := us\<rparr>))"

lemma parsesI:
  "(\<And>st ts us. pp_toks st = ts @ us \<Longrightarrow> map key ts = ks \<Longrightarrow> headKind us \<notin> S \<Longrightarrow> p st = Some (x, st\<lparr>pp_toks := us\<rparr>)) \<Longrightarrow>
   parses p ks x S"
  by (simp add: parses_def)

lemma parsesD:
  "parses p ks x S \<Longrightarrow> pp_toks st = ts @ us \<Longrightarrow> map key ts = ks \<Longrightarrow> headKind us \<notin> S \<Longrightarrow> p st = Some (x, st\<lparr>pp_toks := us\<rparr>)"
  by (simp add: parses_def)

lemma parses_mono: "parses p ks x S \<Longrightarrow> S \<subseteq> S' \<Longrightarrow> parses p ks x S'"
  unfolding parses_def by blast

lemma headKind_simps [simp]: "headKind [] = KindEOF" "headKind (t # ts) = tk_Kind t"
  by (simp_all add: headKind_def)

lemma headKind_run: "map key ts = ks \<Longrightarrow> ks \<noteq> [] \<Longrightarrow> headKind (ts @ us) = fst (hd ks)"
  by (cases ts) (auto simp: key_def)

lemma cur_kind: "curKind st = headKind (pp_toks st)"
  by (simp add: cur_def headKind_def mkToken_def split: list.split)

lemma cur_Cons [simp]: "pp_toks st = t # ts \<Longrightarrow> cur st = t"
  by (simp add: cur_def)

lemma peek_kind: "pp_toks st = t # ts \<Longrightarrow> tk_Kind (peekt st) = headKind ts"
  by (simp add: peekt_def headKind_def mkToken_def split: list.split)

lemma advance_Cons [simp]: "pp_toks st = t # ts \<Longrightarrow> advance st = st\<lparr>pp_toks := ts\<rparr>"
  by (simp add: advance_def)

lemma key_eq: "key t = (k, s) \<longleftrightarrow> tk_Kind t = k \<and> tk_Lit t = s"
  by (auto simp: key_def)

lemma expect_Cons: "pp_toks st = t # ts \<Longrightarrow> tk_Kind t = k \<Longrightarrow> expect k st = (True, st\<lparr>pp_toks := ts\<rparr>)"
  by (simp add: expect_def)

lemma ident_Cons: "pp_toks st = t # ts \<Longrightarrow> tk_Kind t = KindIdent \<Longrightarrow> ident st = (Some (tk_Lit t), st\<lparr>pp_toks := ts\<rparr>)"
  by (simp add: ident_def)

lemma key_runs: "map key ts = k # ks \<longleftrightarrow> (\<exists>t us. ts = t # us \<and> key t = k \<and> map key us = ks)"
  by (cases ts) auto

lemma pathTail_toks:
  assumes "pp_toks st = ts @ us" "map key ts = concat (map (\<lambda>p. [(KindDot, ''.''), (KindIdent, p)]) ps)" "headKind us \<noteq> KindDot"
  shows "pathTail st = (ps, st\<lparr>pp_toks := us\<rparr>)"
  using assms
proof (induction ps arbitrary: st ts)
  case Nil
  then have "curKind st \<noteq> KindDot" "st\<lparr>pp_toks := us\<rparr> = st" by (simp_all add: cur_kind)
  then show ?case by (simp add: pathTail.simps [of st])
next
  case (Cons p ps)
  then obtain d i ts' where t: "ts = d # i # ts'" "tk_Kind d = KindDot" "tk_Kind i = KindIdent" "tk_Lit i = p"
    "map key ts' = concat (map (\<lambda>p. [(KindDot, ''.''), (KindIdent, p)]) ps)" by (auto simp: key_runs key_eq)
  have "pathTail (st\<lparr>pp_toks := ts' @ us\<rparr>) = (ps, st\<lparr>pp_toks := us\<rparr>)"
    using Cons.IH [of "st\<lparr>pp_toks := ts' @ us\<rparr>" ts'] t Cons.prems by simp
  moreover have "ident (advance st) = (Some p, st\<lparr>pp_toks := ts' @ us\<rparr>)"
    using t Cons.prems ident_Cons [of "advance st" i "ts' @ us"] by (simp add: advance_def)
  ultimately show ?case using t Cons.prems by (subst pathTail.simps) simp
qed

lemma pathToks_Cons: "pathToks (p # ps) = (KindIdent, p) # concat (map (\<lambda>p. [(KindDot, ''.''), (KindIdent, p)]) ps)"
  by (induction ps arbitrary: p) simp_all

lemma parseDottedPath_toks:
  assumes "parts \<noteq> []" "pp_toks st = ts @ us" "map key ts = pathToks parts" "headKind us \<noteq> KindDot"
  shows "parseDottedPath st = (parts, st\<lparr>pp_toks := us\<rparr>)"
proof -
  obtain p ps where p: "parts = p # ps" using assms(1) by (cases parts) auto
  then obtain t ts' where t: "ts = t # ts'" "tk_Kind t = KindIdent" "tk_Lit t = p"
    "map key ts' = concat (map (\<lambda>p. [(KindDot, ''.''), (KindIdent, p)]) ps)"
    using assms(3) unfolding p pathToks_Cons by (auto simp: key_runs key_eq)
  have "ident st = (Some p, st\<lparr>pp_toks := ts' @ us\<rparr>)" using ident_Cons [of st t "ts' @ us"] t assms(2) by simp
  moreover have "pathTail (st\<lparr>pp_toks := ts' @ us\<rparr>) = (ps, st\<lparr>pp_toks := us\<rparr>)"
    using pathTail_toks [of "st\<lparr>pp_toks := ts' @ us\<rparr>" ts' us ps] t assms(4) by simp
  ultimately show ?thesis using p by (simp add: parseDottedPath_def)
qed

subsection \<open>Chains of operands\<close>

text \<open>
  \<open>chain\<close>: having parsed \<open>ks\<close>, the loop \<open>joined\<close> stands at \<open>x\<close> with at most one unit of fuel spent per
  token.
\<close>

definition chain :: "nat \<Rightarrow> kind \<Rightarrow> expr parser \<Rightarrow> key list \<Rightarrow> expr \<Rightarrow> kind set \<Rightarrow> bool" where
  "chain n op pc ks x S \<longleftrightarrow>
     (\<forall>st ts us. pp_toks st = ts @ us \<longrightarrow> map key ts = ks \<longrightarrow> headKind us \<notin> S \<longrightarrow>
        (\<exists>m. n \<le> m + length ks \<and>
           do { (l, st1) \<leftarrow> pc st; joined n op pc l st1 } = joined m op pc x (st\<lparr>pp_toks := us\<rparr>)))"

lemma chain_base: "parses pc ks x S \<Longrightarrow> chain n op pc ks x S"
  unfolding chain_def by (intro allI impI exI [of _ n]) (simp add: parsesD)

lemma chain_step:
  assumes x: "chain n op pc kx x S" and y: "parses pc ky y S" and op: "op \<notin> S" "x \<noteq> NilExpr" "length kx < n"
  shows "chain n op pc (kx @ (op, s) # ky) (BinaryExpr op x y) S"
  unfolding chain_def
proof (intro allI impI)
  fix st :: pstate and ts us
  assume st: "pp_toks st = ts @ us" "map key ts = kx @ (op, s) # ky" "headKind us \<notin> S"
  then obtain ts1 o' ts2 where ts: "ts = ts1 @ o' # ts2" "map key ts1 = kx" "tk_Kind o' = op" "map key ts2 = ky"
    by (auto simp: map_eq_append_conv key_def)
  have "pp_toks st = ts1 @ (o' # ts2 @ us)" "headKind (o' # ts2 @ us) \<notin> S" using st ts op by simp_all
  with x ts(2) obtain m where m: "n \<le> m + length kx"
    "do { (l, st1) \<leftarrow> pc st; joined n op pc l st1 } = joined m op pc x (st\<lparr>pp_toks := o' # ts2 @ us\<rparr>)"
    unfolding chain_def by blast
  obtain m' where m': "m = Suc m'" using m(1) op(3) by (cases m) auto
  have "pc (st\<lparr>pp_toks := ts2 @ us\<rparr>) = Some (y, st\<lparr>pp_toks := us\<rparr>)"
    using parsesD [OF y, of "st\<lparr>pp_toks := ts2 @ us\<rparr>" ts2 us] ts st by simp
  then have "joined m op pc x (st\<lparr>pp_toks := o' # ts2 @ us\<rparr>) = joined m' op pc (BinaryExpr op x y) (st\<lparr>pp_toks := us\<rparr>)"
    using ts op by (simp add: m' advance_def)
  then show "\<exists>m. n \<le> m + length (kx @ (op, s) # ky) \<and>
      do { (l, st1) \<leftarrow> pc st; joined n op pc l st1 } = joined m op pc (BinaryExpr op x y) (st\<lparr>pp_toks := us\<rparr>)"
    using m m' by (intro exI [of _ m']) simp
qed

lemma chain_end:
  assumes "chain n op pc ks x S" "length ks < n"
  shows "parses (\<lambda>st. do { (l, st1) \<leftarrow> pc st; joined n op pc l st1 }) ks x (insert op S)"
proof (rule parsesI)
  fix st :: pstate and ts us
  assume st: "pp_toks st = ts @ us" "map key ts = ks" "headKind us \<notin> insert op S"
  with assms(1) obtain m where m: "n \<le> m + length ks"
    "do { (l, st1) \<leftarrow> pc st; joined n op pc l st1 } = joined m op pc x (st\<lparr>pp_toks := us\<rparr>)"
    unfolding chain_def by blast
  obtain m' where "m = Suc m'" using m(1) assms(2) by (cases m) auto
  then show "do { (l, st1) \<leftarrow> pc st; joined n op pc l st1 } = Some (x, st\<lparr>pp_toks := us\<rparr>)"
    using m(2) st by (simp add: cur_kind)
qed

subsection \<open>Levels of precedence\<close>

definition fol4 :: "kind set" where
  "fol4 = {KindDot, KindLParen}"

definition fol3 :: "kind set" where
  "fol3 = {KindDot, KindLParen, KindEqEq, KindBangEq, KindLt, KindLte, KindGt, KindGte}"

definition fol2 :: "kind set" where
  "fol2 = insert KindAndAnd fol3"

definition fol1 :: "kind set" where
  "fol1 = insert KindOrOr fol2"

abbreviation primaryP :: "go_text \<Rightarrow> nat \<Rightarrow> expr parser" where
  "primaryP T n \<equiv> parsePrimary T n (parseExpr T n)"

abbreviation comparisonP :: "go_text \<Rightarrow> nat \<Rightarrow> expr parser" where
  "comparisonP T n \<equiv> parseComparison (parseUnary n (primaryP T n))"

definition asUnary :: "go_text \<Rightarrow> key list \<Rightarrow> expr \<Rightarrow> bool" where
  "asUnary T ks e \<longleftrightarrow> (\<forall>n k. length ks < n \<longrightarrow> length ks < k \<longrightarrow> parses (parseUnary k (primaryP T n)) ks e fol4)"

definition asComparison :: "go_text \<Rightarrow> key list \<Rightarrow> expr \<Rightarrow> bool" where
  "asComparison T ks e \<longleftrightarrow> (\<forall>n. length ks < n \<longrightarrow> parses (comparisonP T n) ks e fol3)"

definition asAndChain :: "go_text \<Rightarrow> key list \<Rightarrow> expr \<Rightarrow> bool" where
  "asAndChain T ks e \<longleftrightarrow> (\<forall>n. length ks < n \<longrightarrow> chain n KindAndAnd (comparisonP T n) ks e fol3)"

definition asAnd :: "go_text \<Rightarrow> key list \<Rightarrow> expr \<Rightarrow> bool" where
  "asAnd T ks e \<longleftrightarrow> (\<forall>n. length ks < n \<longrightarrow> parses (parseAnd n (comparisonP T n)) ks e fol2)"

definition asOrChain :: "go_text \<Rightarrow> key list \<Rightarrow> expr \<Rightarrow> bool" where
  "asOrChain T ks e \<longleftrightarrow> (\<forall>n. length ks < n \<longrightarrow> chain n KindOrOr (parseAnd n (comparisonP T n)) ks e fol2)"

definition asExpr :: "go_text \<Rightarrow> key list \<Rightarrow> expr \<Rightarrow> bool" where
  "asExpr T ks e \<longleftrightarrow> (\<forall>n. length ks < n \<longrightarrow> parses (parseExpr T (Suc n)) ks e fol1)"

lemma isComparisonOp_fol: "isComparisonOp k \<longleftrightarrow> k \<in> fol3 \<and> k \<notin> fol4"
  by (auto simp: isComparisonOp_def fol3_def fol4_def)

lemma unary_comparison: "asUnary T ks e \<Longrightarrow> asComparison T ks e"
  unfolding asComparison_def
proof (intro allI impI parsesI)
  fix n and st :: pstate and ts us
  assume u: "asUnary T ks e" "length ks < n" and st: "pp_toks st = ts @ us" "map key ts = ks" "headKind us \<notin> fol3"
  have "headKind us \<notin> fol4" using st(3) by (auto simp: fol3_def fol4_def)
  with u st have "parseUnary n (primaryP T n) st = Some (e, st\<lparr>pp_toks := us\<rparr>)"
    unfolding asUnary_def by (blast intro: parsesD)
  then show "comparisonP T n st = Some (e, st\<lparr>pp_toks := us\<rparr>)"
    using st by (simp add: parseComparison_def cur_kind isComparisonOp_fol)
qed

lemma comparison_andChain: "asComparison T ks e \<Longrightarrow> asAndChain T ks e"
  by (simp add: asComparison_def asAndChain_def chain_base)

lemma andChain_and: "asAndChain T ks e \<Longrightarrow> asAnd T ks e"
  using chain_end by (fastforce simp: asAndChain_def asAnd_def parseAnd_def [abs_def] fol2_def)

lemma and_orChain: "asAnd T ks e \<Longrightarrow> asOrChain T ks e"
  by (simp add: asAnd_def asOrChain_def chain_base)

lemma orChain_expr: "asOrChain T ks e \<Longrightarrow> asExpr T ks e"
  using chain_end by (fastforce simp: asOrChain_def asExpr_def parseOr_def [abs_def] fol1_def)

lemmas level_up = orChain_expr and_orChain andChain_and comparison_andChain unary_comparison

text \<open>Parentheses bring an expression to the tightest level.\<close>

lemma parens_unary:
  assumes "asExpr T ks e"
  shows "asUnary T ((KindLParen, ''('') # ks @ [(KindRParen, '')'')]) e"
  unfolding asUnary_def
proof (intro allI impI parsesI)
  fix n k and st :: pstate and ts us
  assume len: "length ((KindLParen, ''('') # ks @ [(KindRParen, '')'')]) < n" "length ((KindLParen, ''('') # ks @ [(KindRParen, '')'')]) < k"
    and st: "pp_toks st = ts @ us" "map key ts = (KindLParen, ''('') # ks @ [(KindRParen, '')'')]"
  then obtain t ts' t' where t: "ts = t # ts' @ [t']" "tk_Kind t = KindLParen" "map key ts' = ks" "tk_Kind t' = KindRParen"
    by (auto simp: map_eq_append_conv map_eq_Cons_conv key_def)
  obtain m k' where n: "n = Suc m" "length ks < m" "k = Suc k'" using len by (cases n; cases k) auto
  have "parseExpr T n (st\<lparr>pp_toks := ts' @ t' # us\<rparr>) = Some (e, st\<lparr>pp_toks := t' # us\<rparr>)"
    using parsesD [of "parseExpr T (Suc m)" ks e fol1 "st\<lparr>pp_toks := ts' @ t' # us\<rparr>" ts' "t' # us"] assms n t
    by (simp add: asExpr_def fol1_def fol2_def fol3_def)
  then have "primaryP T n st = Some (e, st\<lparr>pp_toks := us\<rparr>)"
    using st t by (simp add: parsePrimary_def expect_def advance_def)
  then show "parseUnary k (primaryP T n) st = Some (e, st\<lparr>pp_toks := us\<rparr>)" using st t n by simp
qed

lemma bang_unary:
  assumes "asUnary T ks e"
  shows "asUnary T ((KindBang, ''!'') # ks) (UnaryExpr e)"
  unfolding asUnary_def
proof (intro allI impI parsesI)
  fix n k and st :: pstate and ts us
  assume len: "length ((KindBang, ''!'') # ks) < n" "length ((KindBang, ''!'') # ks) < k"
    and st: "pp_toks st = ts @ us" "map key ts = (KindBang, ''!'') # ks" "headKind us \<notin> fol4"
  then obtain t ts' where t: "ts = t # ts'" "tk_Kind t = KindBang" "map key ts' = ks" by (auto simp: map_eq_Cons_conv key_def)
  obtain k' where k': "k = Suc k'" "length ks < k'" using len by (cases k) auto
  have "parseUnary k' (primaryP T n) (st\<lparr>pp_toks := ts' @ us\<rparr>) = Some (e, st\<lparr>pp_toks := us\<rparr>)"
    using parsesD [of "parseUnary k' (primaryP T n)" ks e fol4 "st\<lparr>pp_toks := ts' @ us\<rparr>" ts' us] assms len k' t st
    by (simp add: asUnary_def)
  then show "parseUnary k (primaryP T n) st = Some (UnaryExpr e, st\<lparr>pp_toks := us\<rparr>)"
    using st t k' by (simp add: advance_def)
qed

lemma binary_comparison:
  assumes x: "asUnary T kx x" and y: "asUnary T ky y" and op: "isComparisonOp op" "x \<noteq> NilExpr"
  shows "asComparison T (kx @ (op, s) # ky) (BinaryExpr op x y)"
  unfolding asComparison_def
proof (intro allI impI parsesI)
  fix n and st :: pstate and ts us
  assume len: "length (kx @ (op, s) # ky) < n" and st: "pp_toks st = ts @ us" "map key ts = kx @ (op, s) # ky" "headKind us \<notin> fol3"
  then obtain ts1 o' ts2 where ts: "ts = ts1 @ o' # ts2" "map key ts1 = kx" "tk_Kind o' = op" "map key ts2 = ky"
    by (auto simp: map_eq_append_conv key_def)
  have f: "op \<notin> fol4" "headKind us \<notin> fol4" using op st(3) by (auto simp: isComparisonOp_fol fol3_def fol4_def)
  have "parseUnary n (primaryP T n) st = Some (x, st\<lparr>pp_toks := o' # ts2 @ us\<rparr>)"
    using parsesD [of "parseUnary n (primaryP T n)" kx x fol4 st ts1 "o' # ts2 @ us"] x len ts st f by (simp add: asUnary_def)
  moreover have "parseUnary n (primaryP T n) (st\<lparr>pp_toks := ts2 @ us\<rparr>) = Some (y, st\<lparr>pp_toks := us\<rparr>)"
    using parsesD [of "parseUnary n (primaryP T n)" ky y fol4 "st\<lparr>pp_toks := ts2 @ us\<rparr>" ts2 us] y len ts st f by (simp add: asUnary_def)
  ultimately show "comparisonP T n st = Some (BinaryExpr op x y, st\<lparr>pp_toks := us\<rparr>)"
    using op ts st by (simp add: parseComparison_def cur_kind advance_def isComparisonOp_fol [of "headKind us"])
qed

lemma binary_and:
  assumes "asAndChain T kx x" "asComparison T ky y" "x \<noteq> NilExpr"
  shows "asAndChain T (kx @ (KindAndAnd, s) # ky) (BinaryExpr KindAndAnd x y)"
  using assms by (auto simp: asAndChain_def asComparison_def fol3_def intro!: chain_step)

lemma binary_or:
  assumes "asOrChain T kx x" "asAnd T ky y" "x \<noteq> NilExpr"
  shows "asOrChain T (kx @ (KindOrOr, s) # ky) (BinaryExpr KindOrOr x y)"
  using assms by (auto simp: asOrChain_def asAnd_def fol2_def fol3_def intro!: chain_step)

subsection \<open>Operands\<close>

text \<open>An operand that is parsed by \<open>parsePrimary\<close>.\<close>

lemma primary_unary:
  assumes "ks \<noteq> []" "fst (hd ks) \<noteq> KindBang" "\<And>n. length ks < n \<Longrightarrow> parses (primaryP T n) ks e fol4"
  shows "asUnary T ks e"
  unfolding asUnary_def
proof (intro allI impI parsesI)
  fix n k and st :: pstate and ts us
  assume len: "length ks < n" "length ks < k" and st: "pp_toks st = ts @ us" "map key ts = ks" "headKind us \<notin> fol4"
  obtain t ts' where t: "ts = t # ts'" "tk_Kind t \<noteq> KindBang" using assms(1,2) st(2) by (cases ts) (auto simp: key_def)
  obtain k' where "k = Suc k'" using len by (cases k) auto
  then show "parseUnary k (primaryP T n) st = Some (e, st\<lparr>pp_toks := us\<rparr>)"
    using parsesD [OF assms(3) [OF len(1)] st] st t by simp
qed

definition startKinds :: "kind set" where
  "startKinds = {KindIdent, KindNumber, KindString, KindLParen, KindLBrace, KindBang}"

lemma exprToks_start: "wfExpr T isp e \<Longrightarrow> exprToks T e \<noteq> [] \<and> fst (hd (exprToks T e)) \<in> startKinds"
proof (induction T isp e rule: wfExpr.induct)
  case (2 T isp parts)
  then show ?case by (cases parts rule: pathToks.cases) (auto simp: wfPath_def startKinds_def)
next
  case (3 T isp v)
  then show ?case by (cases v) (auto simp: litToks_def startKinds_def)
next
  case (6 T isp parts args)
  then show ?case by (cases parts rule: pathToks.cases) (auto simp: wfPath_def startKinds_def)
qed (auto simp: parenToks_def startKinds_def)

text \<open>A label is an identifier before a colon; no expression starts like that.\<close>

definition unlabelled :: "key list \<Rightarrow> bool" where
  "unlabelled ks \<longleftrightarrow> (case ks of k # k' # ks' \<Rightarrow> \<not> (fst k = KindIdent \<and> fst k' = KindColon) | _ \<Rightarrow> True)"

lemma unlabelled_append: "unlabelled ks \<Longrightarrow> ks \<noteq> [] \<Longrightarrow> fst k \<noteq> KindColon \<Longrightarrow> unlabelled (ks @ k # ks')"
  by (cases ks rule: list.exhaust; cases "tl ks") (auto simp: unlabelled_def)

lemma unlabelled_path: "unlabelled (pathToks parts)"
  by (cases parts rule: pathToks.cases) (auto simp: unlabelled_def)

lemma exprToks_unlabelled: "wfExpr T isp e \<Longrightarrow> unlabelled (exprToks T e)"
proof (induction T isp e rule: wfExpr.induct)
  case (3 T isp v)
  then show ?case by (cases v) (auto simp: litToks_def unlabelled_def)
next
  case (5 T isp op x y)
  then have "op \<noteq> KindColon" by (auto simp: isComparisonOp_def)
  with 5 exprToks_start [of T isp x] show ?case
    by (auto simp: parenToks_def unlabelled_append) (auto simp: unlabelled_def split: list.split)
next
  case (6 T isp parts args)
  then have "pathToks parts \<noteq> []" by (cases parts rule: pathToks.cases) (auto simp: wfPath_def)
  then show ?case by (simp add: unlabelled_append unlabelled_path)
qed (auto simp: unlabelled_path, auto simp: unlabelled_def parenToks_def split: list.split)

lemma ref_unary:
  assumes "wfPath parts" "\<not> (length parts = 1 \<and> isTruthWord (hd parts))"
  shows "asUnary T (pathToks parts) (RefExpr parts)"
proof (rule primary_unary)
  obtain p ps where p: "parts = p # ps" using assms by (cases parts) (auto simp: wfPath_def)
  show "pathToks parts \<noteq> []" "fst (hd (pathToks parts)) \<noteq> KindBang" by (simp_all add: p pathToks_Cons)
  fix n
  show "parses (primaryP T n) (pathToks parts) (RefExpr parts) fol4"
  proof (rule parsesI)
    fix st :: pstate and ts us
    assume st: "pp_toks st = ts @ us" "map key ts = pathToks parts" "headKind us \<notin> fol4"
    then obtain t ts' where t: "ts = t # ts'" "tk_Kind t = KindIdent" "tk_Lit t = p" "ts' = [] \<longleftrightarrow> ps = []"
      "ts' \<noteq> [] \<longrightarrow> headKind (ts' @ us) = KindDot"
      unfolding p pathToks_Cons by (cases ps) (auto simp: map_eq_Cons_conv key_def)
    have "parseDottedPath st = (parts, st\<lparr>pp_toks := us\<rparr>)"
      using parseDottedPath_toks [OF _ st(1,2)] st(3) p by (simp add: fol4_def)
    moreover have "\<not> (isTruthWord p \<and> tk_Kind (peekt st) \<noteq> KindDot \<and> tk_Kind (peekt st) \<noteq> KindLParen)"
      using peek_kind [of st t "ts' @ us"] st t assms(2) p by auto
    ultimately show "primaryP T n st = Some (RefExpr parts, st\<lparr>pp_toks := us\<rparr>)"
      using st t p by (simp add: parsePrimary_def parseIdentExpr_def cur_kind [of "st\<lparr>pp_toks := us\<rparr>"] fol4_def)
  qed
qed

lemma lit_unary:
  assumes "wfLit T isp v"
  shows "asUnary T (litToks T v) (LitExpr v)"
proof (rule primary_unary)
  show "litToks T v \<noteq> []" "fst (hd (litToks T v)) \<noteq> KindBang" using assms by (cases v; simp add: litToks_def)+
  have num: "parseNumber T st = (LitExpr v, st\<lparr>pp_toks := us\<rparr>)" if "pp_toks st = t # us" "key t \<in> set (litToks T v)" "tk_Kind t = KindNumber" for st t us
  proof (cases v)
    case (AInt i)
    then have i: "0 \<le> i" "int64 i" "tk_Lit t = showInt i" using assms that by (auto simp: litToks_def key_def)
    moreover have "CHR ''.'' \<notin> set (showInt i)" using showInt_nonneg [OF i(1)] by (auto simp: list_all_iff isDigit_def between_def)
    ultimately show ?thesis using AInt that ParseInt_showInt [OF i(2)] by (simp add: parseNumber_def)
  next
    case (AFloat f)
    then have f: "decimalText (gt_g T f)" "gt_parse T (gt_g T f) = Some f" "tk_Lit t = gt_g T f" using assms that by (auto simp: litToks_def key_def)
    then have "CHR ''.'' \<in> set (gt_g T f)" by (auto elim: decimalText_parts)
    then show ?thesis using AFloat that f by (simp add: parseNumber_def)
  qed (use that assms in \<open>auto simp: litToks_def key_def\<close>)
  fix n
  show "parses (primaryP T n) (litToks T v) (LitExpr v) fol4"
  proof (rule parsesI)
    fix st :: pstate and ts us
    assume st: "pp_toks st = ts @ us" "map key ts = litToks T v" "headKind us \<notin> fol4"
    then obtain t where t: "ts = [t]" using assms by (cases v) (auto simp: litToks_def map_eq_Cons_conv)
    then have pp: "pp_toks st = t # us" and k: "litToks T v = [key t]" using st by auto
    show "primaryP T n st = Some (LitExpr v, st\<lparr>pp_toks := us\<rparr>)"
    proof (cases "tk_Kind t = KindNumber")
      case True
      then show ?thesis using num [OF pp _ True] pp k by (simp add: parsePrimary_def)
    next
      case False
      then show ?thesis
        using assms pp k peek_kind [OF pp] st(3)
        by (cases v) (auto simp: litToks_def key_def parsePrimary_def parseIdentExpr_def isTruthWord_def fol4_def split: if_splits)
    qed
  qed
qed

subsection \<open>Calls and objects\<close>

definition argToks :: "go_text \<Rightarrow> call_arg \<Rightarrow> key list" where
  "argToks T a = labelToks (fst a) @ exprToks T (snd a)"

definition fieldToks :: "go_text \<Rightarrow> string \<times> expr \<Rightarrow> key list" where
  "fieldToks T f = (KindIdent, fst f) # (KindColon, '':'') # exprToks T (snd f)"

definition wfArg :: "go_text \<Rightarrow> (string \<Rightarrow> bool) \<Rightarrow> call_arg \<Rightarrow> bool" where
  "wfArg T isp a \<longleftrightarrow> (case fst a of Some s \<Rightarrow> wfIdent s | None \<Rightarrow> True) \<and> wfExpr T isp (snd a)"

lemma call_forms:
  "exprToks T (CallExpr parts args) = pathToks parts @ (KindLParen, ''('') # commas (map (argToks T) args) @ [(KindRParen, '')'')]"
  "exprToks T (ObjectExpr fs) = (KindLBrace, ''{'') # commas (map (fieldToks T) fs) @ [(KindRBrace, ''}'')]"
  "wfExpr T isp (CallExpr parts args) \<longleftrightarrow> wfPath parts \<and> list_all (wfArg T isp) args"
  by (auto simp: argToks_def [abs_def] fieldToks_def [abs_def] wfArg_def [abs_def] case_prod_beta')

lemma wfExpr_not_Nil: "wfExpr T isp e \<Longrightarrow> e \<noteq> NilExpr"
  by auto

lemma argToks_start: "wfArg T isp a \<Longrightarrow> argToks T a \<noteq> [] \<and> fst (hd (argToks T a)) \<in> startKinds"
  using exprToks_start [of T isp "snd a"] by (auto simp: argToks_def labelToks_def wfArg_def startKinds_def split: option.splits)

lemma parseArg_toks:
  assumes a: "wfArg T isp a" and pe: "parses pe (exprToks T (snd a)) (snd a) fol1"
  shows "parses (parseArg pe) (argToks T a) (Some a) (insert KindColon fol1)"
proof (rule parsesI)
  fix st :: pstate and ts us
  assume st: "pp_toks st = ts @ us" "map key ts = argToks T a" "headKind us \<notin> insert KindColon fol1"
  show "parseArg pe st = Some (Some a, st\<lparr>pp_toks := us\<rparr>)"
  proof (cases "fst a")
    case None
    then have ks: "map key ts = exprToks T (snd a)" using st by (simp add: argToks_def labelToks_def)
    have wf: "wfExpr T isp (snd a)" using a by (simp add: wfArg_def)
    have "\<not> (curKind st = KindIdent \<and> tk_Kind (peekt st) = KindColon)"
    proof (cases ts rule: list.exhaust)
      case (Cons t ts')
      then show ?thesis using exprToks_unlabelled [OF wf] ks st peek_kind [of st t "ts' @ us"]
        by (cases ts') (auto simp: unlabelled_def key_def dest: sym)
    qed (use ks exprToks_start [OF wf] in simp)
    then show ?thesis using parsesD [OF pe st(1) ks] st(3) wfExpr_not_Nil [OF wf] None
      by (cases a) (auto simp: parseArg_def)
  next
    case (Some s)
    then obtain t c ts' where t: "ts = t # c # ts'" "tk_Kind t = KindIdent" "tk_Lit t = s" "tk_Kind c = KindColon"
      "map key ts' = exprToks T (snd a)" using st(2) by (auto simp: argToks_def labelToks_def map_eq_Cons_conv key_def)
    have "pe (st\<lparr>pp_toks := ts' @ us\<rparr>) = Some (snd a, st\<lparr>pp_toks := us\<rparr>)"
      using parsesD [OF pe, of "st\<lparr>pp_toks := ts' @ us\<rparr>" ts' us] t st(3) by simp
    then show ?thesis using t st peek_kind [of st t "c # ts' @ us"] Some by (cases a) (simp add: parseArg_def advance_def)
  qed
qed

lemma argList_toks:
  assumes "list_all (\<lambda>a. wfArg T isp a \<and> parses pe (exprToks T (snd a)) (snd a) fol1) args"
    "pp_toks st = ts @ us" "map key ts = commas (map (argToks T) args)" "headKind us = KindRParen" "length args < n"
  shows "argList n pe acc st = Some (acc @ args, st\<lparr>pp_toks := us\<rparr>)"
  using assms
proof (induction args arbitrary: acc st ts n)
  case Nil
  then have "curKind st = KindRParen" "st\<lparr>pp_toks := us\<rparr> = st" by (simp_all add: cur_kind)
  then show ?case using Nil by (cases n) simp_all
next
  case (Cons a args)
  obtain m where n: "n = Suc m" "length args < m" using Cons.prems(5) by (cases n) auto
  have a: "wfArg T isp a" "parses (parseArg pe) (argToks T a) (Some a) (insert KindColon fol1)"
    using Cons.prems(1) parseArg_toks [of T isp a pe] by simp_all
  have start: "curKind st \<noteq> KindRParen" "curKind st \<noteq> KindEOF" if "ts = ts1 @ ts2" "map key ts1 = argToks T a" for ts1 ts2
    using argToks_start [OF a(1)] that Cons.prems(2) headKind_run [OF that(2), of "ts2 @ us"]
    by (auto simp: cur_kind startKinds_def)
  show ?case
  proof (cases args)
    case Nil
    then have ks: "map key ts = argToks T a" using Cons.prems(3) by simp
    then show ?thesis using parsesD [OF a(2) Cons.prems(2) ks] Cons.prems(4) start [of ts "[]"] n Nil
      by (simp add: fol1_def fol2_def fol3_def cur_kind [of "st\<lparr>pp_toks := us\<rparr>"])
  next
    case (Cons b bs)
    then obtain ts1 c ts2 where ts: "ts = ts1 @ c # ts2" "map key ts1 = argToks T a" "tk_Kind c = KindComma"
      "map key ts2 = commas (map (argToks T) args)" using Cons.prems(3) by (auto simp: map_eq_append_conv key_def)
    have "parseArg pe st = Some (Some a, st\<lparr>pp_toks := c # ts2 @ us\<rparr>)"
      using parsesD [OF a(2), of st ts1 "c # ts2 @ us"] ts Cons.prems(2) by (simp add: fol1_def fol2_def fol3_def)
    moreover have "argList m pe (acc @ [a]) (st\<lparr>pp_toks := ts2 @ us\<rparr>) = Some ((acc @ [a]) @ args, st\<lparr>pp_toks := us\<rparr>)"
      using Cons.IH [of "st\<lparr>pp_toks := ts2 @ us\<rparr>" ts2 m "acc @ [a]"] Cons.prems ts(4) n by simp
    ultimately show ?thesis using start [OF ts(1,2)] ts n by (simp add: advance_def)
  qed
qed

lemma commas_length: "ks \<in> set kss \<Longrightarrow> length ks \<le> length (commas kss)"
  by (induction kss rule: commas.induct) auto

lemma commas_count: "list_all (\<lambda>ks. ks \<noteq> []) kss \<Longrightarrow> 2 * length kss \<le> Suc (length (commas kss))"
proof (induction kss rule: commas.induct)
  case (3 ks ks' kss)
  then have "1 \<le> length ks" by (simp add: Suc_le_eq)
  then show ?case using 3 by simp
qed (simp_all add: Suc_le_eq)

lemma parseArgs_toks:
  assumes "list_all (\<lambda>a. wfArg T isp a \<and> parses pe (exprToks T (snd a)) (snd a) fol1) args" "length args < n"
  shows "parses (parseArgs n pe) ((KindLParen, ''('') # commas (map (argToks T) args) @ [(KindRParen, '')'')]) args {}"
proof (rule parsesI)
  fix st :: pstate and ts us
  assume st: "pp_toks st = ts @ us" "map key ts = (KindLParen, ''('') # commas (map (argToks T) args) @ [(KindRParen, '')'')]"
  then obtain t ts' t' where t: "ts = t # ts' @ [t']" "tk_Kind t = KindLParen" "map key ts' = commas (map (argToks T) args)" "tk_Kind t' = KindRParen"
    by (auto simp: map_eq_append_conv map_eq_Cons_conv key_def)
  have "argList n pe [] (st\<lparr>pp_toks := ts' @ t' # us\<rparr>) = Some (args, st\<lparr>pp_toks := t' # us\<rparr>)"
    using argList_toks [OF assms(1), of "st\<lparr>pp_toks := ts' @ t' # us\<rparr>" ts' "t' # us" n "[]"] t assms(2) by simp
  then show "parseArgs n pe st = Some (args, st\<lparr>pp_toks := us\<rparr>)"
    using st t by (simp add: parseArgs_def expect_def advance_def)
qed

lemma call_unary:
  assumes wf: "wfExpr T isp (CallExpr parts args)" and args: "\<And>a. a \<in> set args \<Longrightarrow> asExpr T (exprToks T (snd a)) (snd a)"
  shows "asUnary T (exprToks T (CallExpr parts args)) (CallExpr parts args)"
proof (rule primary_unary)
  let ?ks = "(KindLParen, ''('') # commas (map (argToks T) args) @ [(KindRParen, '')'')]"
  have wfp: "wfPath parts" "list_all (wfArg T isp) args" using wf unfolding call_forms by simp_all
  obtain p ps where p: "parts = p # ps" using wfp by (cases parts) (auto simp: wfPath_def)
  show "exprToks T (CallExpr parts args) \<noteq> []" "fst (hd (exprToks T (CallExpr parts args))) \<noteq> KindBang"
    unfolding call_forms p pathToks_Cons by simp_all
  fix n assume n: "length (exprToks T (CallExpr parts args)) < n"
  then obtain m where m: "n = Suc m" by (cases n) auto
  have pe: "parses (parseExpr T n) (exprToks T (snd a)) (snd a) fol1" if "a \<in> set args" for a
  proof -
    have "length (argToks T a) \<le> length (commas (map (argToks T) args))" by (rule commas_length) (use that in simp)
    then have "length (exprToks T (snd a)) < m" using n m unfolding call_forms by (simp add: argToks_def)
    then show ?thesis using args [OF that] by (simp add: asExpr_def m)
  qed
  have "2 * length (map (argToks T) args) \<le> Suc (length (commas (map (argToks T) args)))"
    by (rule commas_count) (use wfp(2) argToks_start in \<open>auto simp: list_all_iff\<close>)
  then have "length args < n" using n unfolding call_forms by simp
  then have pargs: "parses (parseArgs n (parseExpr T n)) ?ks args {}"
    by (intro parseArgs_toks [of T isp]) (use pe wfp(2) in \<open>simp_all add: list_all_iff\<close>)
  show "parses (primaryP T n) (exprToks T (CallExpr parts args)) (CallExpr parts args) fol4"
  proof (rule parsesI)
    fix st :: pstate and ts us
    assume st: "pp_toks st = ts @ us" "map key ts = exprToks T (CallExpr parts args)"
    from st(2) have "map key ts = pathToks parts @ ?ks" unfolding call_forms .
    then obtain ts1 ts2 where t: "ts = ts1 @ ts2" "map key ts1 = pathToks parts" "map key ts2 = ?ks"
      unfolding map_eq_append_conv by metis
    obtain t ts1' where h1: "ts1 = t # ts1'" "tk_Kind t = KindIdent" "tk_Lit t = p"
      using t(2) unfolding p pathToks_Cons key_runs key_eq by blast
    obtain q ts2' where h2: "ts2 = q # ts2'" "tk_Kind q = KindLParen" using t(3) unfolding key_runs key_eq by blast
    note h = h1 h2
    have "ts1' \<noteq> [] \<longrightarrow> headKind (ts1' @ ts2 @ us) = KindDot"
      using t(2) h unfolding p pathToks_Cons by (cases ps) (auto simp: map_eq_Cons_conv key_def)
    then have pk: "tk_Kind (peekt st) = KindDot \<or> tk_Kind (peekt st) = KindLParen"
      using peek_kind [of st t "ts1' @ ts2 @ us"] st t h by (cases ts1') auto
    have "parseDottedPath st = (parts, st\<lparr>pp_toks := ts2 @ us\<rparr>)"
      using parseDottedPath_toks [of parts st ts1 "ts2 @ us"] st t h p by simp
    moreover have "parseArgs n (parseExpr T n) (st\<lparr>pp_toks := ts2 @ us\<rparr>) = Some (args, st\<lparr>pp_toks := us\<rparr>)"
      using parsesD [OF pargs, of "st\<lparr>pp_toks := ts2 @ us\<rparr>" ts2 us] t by simp
    ultimately show "primaryP T n st = Some (CallExpr parts args, st\<lparr>pp_toks := us\<rparr>)"
      using st t h pk p by (auto simp: parsePrimary_def parseIdentExpr_def)
  qed
qed

lemma objectFields_toks:
  assumes "list_all (\<lambda>f. parses pe (exprToks T (snd f)) (snd f) fol1) fs"
    "pp_toks st = ts @ us" "map key ts = commas (map (fieldToks T) fs)" "headKind us = KindRBrace" "2 * length fs < n"
  shows "objectFields n pe acc st = Some (acc @ fs, st\<lparr>pp_toks := us\<rparr>)"
  using assms
proof (induction fs arbitrary: acc st ts n)
  case Nil
  then have "curKind st = KindRBrace" "st\<lparr>pp_toks := us\<rparr> = st" by (simp_all add: cur_kind)
  then show ?case using Nil by (cases n) simp_all
next
  case (Cons f fs)
  obtain m where n: "n = Suc (Suc m)" "2 * length fs < m" using Cons.prems(5) by (cases n; cases "n - 1") auto
  define tail where "tail = (case fs of [] \<Rightarrow> [] | _ \<Rightarrow> (KindComma, '','') # commas (map (fieldToks T) fs))"
  have "map key ts = fieldToks T f @ tail" using Cons.prems(3) by (cases fs) (simp_all add: tail_def)
  then obtain t c ts1 ts2 where t: "ts = t # c # ts1 @ ts2" "tk_Kind t = KindIdent" "tk_Lit t = fst f" "tk_Kind c = KindColon"
    "map key ts1 = exprToks T (snd f)" "map key ts2 = tail"
    by (auto simp: fieldToks_def map_eq_append_conv map_eq_Cons_conv key_def)
  have follow: "headKind (ts2 @ us) = (if fs = [] then KindRBrace else KindComma)"
    using t(6) Cons.prems(4) by (cases fs) (auto simp: tail_def map_eq_Cons_conv key_def)
  then have "headKind (ts2 @ us) \<notin> fol1" by (simp add: fol1_def fol2_def fol3_def)
  then have "pe (st\<lparr>pp_toks := ts1 @ ts2 @ us\<rparr>) = Some (snd f, st\<lparr>pp_toks := ts2 @ us\<rparr>)"
    using parsesD [of pe "exprToks T (snd f)" "snd f" fol1 "st\<lparr>pp_toks := ts1 @ ts2 @ us\<rparr>" ts1 "ts2 @ us"] Cons.prems(1) t(5) by simp
  then have step: "objectFields n pe acc st = objectFields (Suc m) pe (acc @ [f]) (st\<lparr>pp_toks := ts2 @ us\<rparr>)"
    using Cons.prems(2) t n by (cases f) (simp add: expect_def advance_def)
  show ?case
  proof (cases fs)
    case Nil
    then show ?thesis unfolding step using follow t(6) Cons.prems(4) by (simp add: tail_def cur_kind)
  next
    case (Cons g gs)
    then obtain d ts3 where d: "ts2 = d # ts3" "tk_Kind d = KindComma" "map key ts3 = commas (map (fieldToks T) fs)"
      using t(6) by (auto simp: tail_def map_eq_Cons_conv key_def)
    have "objectFields m pe (acc @ [f]) (st\<lparr>pp_toks := ts3 @ us\<rparr>) = Some ((acc @ [f]) @ fs, st\<lparr>pp_toks := us\<rparr>)"
      using Cons.IH [of "st\<lparr>pp_toks := ts3 @ us\<rparr>" ts3 m "acc @ [f]"] Cons.prems d n by simp
    then show ?thesis unfolding step using d by (simp add: advance_def)
  qed
qed

lemma object_unary:
  assumes fs: "\<And>f. f \<in> set fs \<Longrightarrow> asExpr T (exprToks T (snd f)) (snd f)"
  shows "asUnary T (exprToks T (ObjectExpr fs)) (ObjectExpr fs)"
proof (rule primary_unary)
  fix n assume n: "length (exprToks T (ObjectExpr fs)) < n"
  then obtain m where m: "n = Suc m" by (cases n) auto
  have pe: "parses (parseExpr T n) (exprToks T (snd f)) (snd f) fol1" if "f \<in> set fs" for f
  proof -
    have "length (fieldToks T f) \<le> length (commas (map (fieldToks T) fs))" by (rule commas_length) (use that in simp)
    then have "length (exprToks T (snd f)) < m" using n m unfolding call_forms by (simp add: fieldToks_def)
    then show ?thesis using fs [OF that] by (simp add: asExpr_def m)
  qed
  have "2 * length (map (fieldToks T) fs) \<le> Suc (length (commas (map (fieldToks T) fs)))"
    by (rule commas_count) (simp add: list_all_iff fieldToks_def)
  then have len: "2 * length fs < n" using n unfolding call_forms by simp
  show "parses (primaryP T n) (exprToks T (ObjectExpr fs)) (ObjectExpr fs) fol4"
  proof (rule parsesI)
    fix st :: pstate and ts us
    assume st: "pp_toks st = ts @ us" "map key ts = exprToks T (ObjectExpr fs)"
    then obtain t ts' t' where t: "ts = t # ts' @ [t']" "tk_Kind t = KindLBrace" "map key ts' = commas (map (fieldToks T) fs)" "tk_Kind t' = KindRBrace"
      unfolding call_forms by (auto simp: map_eq_append_conv map_eq_Cons_conv key_def)
    have "objectFields n (parseExpr T n) [] (st\<lparr>pp_toks := ts' @ t' # us\<rparr>) = Some (fs, st\<lparr>pp_toks := t' # us\<rparr>)"
      using objectFields_toks [of "parseExpr T n" T fs "st\<lparr>pp_toks := ts' @ t' # us\<rparr>" ts' "t' # us" n "[]"] t len pe
      by (simp add: list_all_iff)
    then show "primaryP T n st = Some (ObjectExpr fs, st\<lparr>pp_toks := us\<rparr>)"
      using st t by (simp add: parsePrimary_def parseObjectLiteral_def expect_def advance_def)
  qed
qed (simp_all add: call_forms)

subsection \<open>Expressions\<close>

definition exprPrec :: "expr \<Rightarrow> nat" where
  "exprPrec e = (case e of BinaryExpr op x y \<Rightarrow> binPrec op | _ \<Rightarrow> 4)"

text \<open>How a printed expression without parentheses around it may be parsed.\<close>

definition readable :: "go_text \<Rightarrow> expr \<Rightarrow> bool" where
  "readable T e \<longleftrightarrow>
     (\<not> isBinary e \<longrightarrow> asUnary T (exprToks T e) e) \<and>
     (3 \<le> exprPrec e \<longrightarrow> asComparison T (exprToks T e) e) \<and>
     (2 \<le> exprPrec e \<longrightarrow> asAndChain T (exprToks T e) e) \<and>
     asOrChain T (exprToks T e) e"

lemma readable_unary: "asUnary T (exprToks T e) e \<Longrightarrow> readable T e"
  unfolding readable_def by (blast intro: level_up)

lemma readable_expr: "readable T e \<Longrightarrow> asExpr T (exprToks T e) e"
  unfolding readable_def by (blast intro: level_up)

lemma paren_readable:
  assumes "readable T e"
  shows "asUnary T (parenToks True (exprToks T e)) e"
  using parens_unary [OF readable_expr [OF assms]] by (simp add: parenToks_def)

lemma operand_unary:
  assumes "readable T e" "\<not> isBinary e \<or> b"
  shows "asUnary T (parenToks b (exprToks T e)) e"
  using assms paren_readable [OF assms(1)] by (cases b) (auto simp: parenToks_def readable_def)

lemma operand_comparison:
  assumes "readable T e" "3 \<le> exprPrec e \<or> b"
  shows "asComparison T (parenToks b (exprToks T e)) e"
  using assms paren_readable [OF assms(1)] by (cases b) (auto simp: parenToks_def readable_def intro: level_up)

lemma operand_andChain:
  assumes "readable T e" "2 \<le> exprPrec e \<or> b"
  shows "asAndChain T (parenToks b (exprToks T e)) e"
  using assms paren_readable [OF assms(1)] by (cases b) (auto simp: parenToks_def readable_def intro: level_up)

lemma operand_orChain:
  assumes "readable T e"
  shows "asOrChain T (parenToks b (exprToks T e)) e"
  using assms paren_readable [OF assms(1)] by (cases b) (auto simp: parenToks_def readable_def intro: level_up)

lemma prec_simps:
  "isComparisonOp op \<Longrightarrow> binPrec op = 3" "binPrec KindAndAnd = 2" "binPrec KindOrOr = 1"
  by (auto simp: isComparisonOp_def binPrec_def)

lemma operandParens_prec: "operandParens e op right \<longleftrightarrow> isBinary e \<and> (exprPrec e < binPrec op \<or> exprPrec e = binPrec op \<and> right)"
  by (auto simp: operandParens_def exprPrec_def isBinary_def split: expr.split)

lemma prec_cases: "wfExpr T isp e \<Longrightarrow> exprPrec e = (if \<not> isBinary e then 4 else if comparison e then 3 else exprPrec e) \<and> (comparison e \<or> exprPrec e = 1 \<or> exprPrec e = 2 \<or> \<not> isBinary e)"
  by (cases e) (auto simp: exprPrec_def isBinary_def comparison_def prec_simps)

lemma binary_readable:
  assumes wf: "wfExpr T isp (BinaryExpr op x y)" and x: "readable T x" and y: "readable T y"
  shows "readable T (BinaryExpr op x y)"
proof -
  have wfx: "x \<noteq> NilExpr" and wfy: "wfExpr T isp y" using wf by auto
  consider "isComparisonOp op" | "op = KindAndAnd" | "op = KindOrOr" using wf by auto
  then show ?thesis
  proof cases
    case 1
    then have "\<not> comparison x" using wf by simp
    then have "\<not> isBinary x \<or> operandParens x op False" "\<not> isBinary y \<or> operandParens y op True"
      using wf 1 prec_cases [of T isp x] prec_cases [OF wfy] by (auto simp: operandParens_prec prec_simps)
    then have "asComparison T (exprToks T (BinaryExpr op x y)) (BinaryExpr op x y)"
      unfolding exprToks.simps by (intro binary_comparison operand_unary x y 1 wfx)
    moreover have "isBinary (BinaryExpr op x y)" by (simp add: isBinary_def)
    ultimately show ?thesis unfolding readable_def by (blast intro: level_up)
  next
    case 2
    have "2 \<le> exprPrec x \<or> operandParens x op False" "3 \<le> exprPrec y \<or> operandParens y op True"
      using 2 by (auto simp: operandParens_prec prec_simps exprPrec_def isBinary_def split: expr.split)
    then have "asAndChain T (exprToks T (BinaryExpr op x y)) (BinaryExpr op x y)"
      unfolding exprToks.simps 2 by (intro binary_and operand_andChain operand_comparison x y wfx)
    moreover have "isBinary (BinaryExpr op x y)" "exprPrec (BinaryExpr op x y) = 2"
      using 2 by (simp_all add: isBinary_def exprPrec_def prec_simps)
    ultimately show ?thesis unfolding readable_def by (auto intro: level_up)
  next
    case 3
    have "2 \<le> exprPrec y \<or> operandParens y op True"
      using 3 by (auto simp: operandParens_prec prec_simps exprPrec_def isBinary_def split: expr.split)
    then have "asAnd T (parenToks (operandParens y op True) (exprToks T y)) y" by (intro andChain_and operand_andChain y)
    then have "asOrChain T (exprToks T (BinaryExpr op x y)) (BinaryExpr op x y)"
      unfolding exprToks.simps 3 by (intro binary_or operand_orChain x wfx) (simp add: 3)
    moreover have "isBinary (BinaryExpr op x y)" "exprPrec (BinaryExpr op x y) = 1"
      using 3 by (simp_all add: isBinary_def exprPrec_def prec_simps)
    ultimately show ?thesis unfolding readable_def by simp
  qed
qed

lemma expr_readable: "wfExpr T isp e \<Longrightarrow> readable T e"
proof (induction T isp e rule: wfExpr.induct)
  case (2 T isp parts)
  then show ?case by (intro readable_unary) (simp add: ref_unary)
next
  case (3 T isp v)
  then show ?case by (intro readable_unary) (simp add: lit_unary)
next
  case (4 T isp x)
  then have "asUnary T (parenToks (isBinary x) (exprToks T x)) x" by (intro operand_unary) auto
  then show ?case by (intro readable_unary) (simp add: bang_unary)
next
  case (5 T isp op x y)
  then show ?case by (intro binary_readable [of T isp]) auto
next
  case (6 T isp parts args)
  then show ?case
    by (intro readable_unary [OF call_unary [of T isp]] readable_expr) (auto simp: list_all_iff)
next
  case (7 T isp fs)
  then show ?case by (intro readable_unary [OF object_unary] readable_expr) (auto simp: list_all_iff)
qed simp

lemma parseExpr_toks:
  assumes "wfExpr T isp e" "Suc (length (exprToks T e)) < n"
  shows "parses (parseExpr T n) (exprToks T e) e fol1"
  using readable_expr [OF expr_readable [OF assms(1)]] assms(2) by (cases n) (auto simp: asExpr_def)

end
