(* ===== verification/Lang_Block.thy ===== *)
theory Lang_Block
  imports Lang_Round
begin

text \<open>
  String fields: a value printed on one line is quoted, a value of several lines is printed as an
  indented block between triple quotes, which the lexer strips of its indentation again.
\<close>

subsection \<open>Rows of a text\<close>

lemma splitLines_not_Nil: "splitLines s \<noteq> []"
  by (induction s) (auto split: list.split)

lemma splitLines_no_nl: "row \<in> set (splitLines s) \<Longrightarrow> CHR 0x0A \<notin> set row"
  by (induction s arbitrary: row) (auto split: if_splits list.splits)

lemma splitLines_sub: "row \<in> set (splitLines s) \<Longrightarrow> set row \<subseteq> set s"
  by (induction s arbitrary: row) (fastforce split: if_splits list.splits)+

lemma Join_splitLines: "Join (splitLines s) nl = s"
proof (induction s)
  case (Cons c s)
  obtain row rows where "splitLines s = row # rows" using splitLines_not_Nil by (cases "splitLines s") auto
  with Cons show ?case by (cases rows) (auto simp: nl_def)
qed simp

lemma splitLines_row: "CHR 0x0A \<notin> set row \<Longrightarrow> splitLines (row @ nl @ s) = row # splitLines s"
  by (induction row) (auto simp: nl_def)

lemma splitLines_last: "CHR 0x0A \<notin> set row \<Longrightarrow> splitLines row = [row]"
  by (induction row) auto

lemma splitLines_rows:
  "list_all (\<lambda>row. CHR 0x0A \<notin> set row) rows \<Longrightarrow> CHR 0x0A \<notin> set z \<Longrightarrow>
   splitLines (concat (map (\<lambda>row. row @ nl) rows) @ z) = rows @ [z]"
  by (induction rows) (simp_all add: splitLines_last splitLines_row)

lemma replaceCRLF_id: "CHR 0x0D \<notin> set s \<Longrightarrow> replaceCRLF s = s"
  by (induction s rule: replaceCRLF.induct) auto

subsection \<open>Indentation\<close>

definition spaces :: "string \<Rightarrow> bool" where
  "spaces ind \<longleftrightarrow> list_all (\<lambda>c. c = CHR '' '') ind"

lemma spaces_mem: "spaces ind \<Longrightarrow> c \<in> set ind \<Longrightarrow> c = CHR '' ''"
  by (induction ind) (auto simp: spaces_def)

lemma TrimSpace_space: "TrimSpace (CHR '' '' # s) = TrimSpace s"
proof -
  have "trimPrefixes space_encodings (CHR '' '' # s) = trimPrefixes space_encodings s"
    by (subst trimPrefixes.simps) (simp add: space_encodings_def)
  then show ?thesis by (simp add: TrimSpace_def)
qed

lemma TrimSpace_spaces: "spaces ind \<Longrightarrow> TrimSpace (ind @ s) = TrimSpace s"
  by (induction ind) (simp_all add: spaces_def TrimSpace_space)

lemma indentOf_spaces: "spaces ind \<Longrightarrow> indentOf (ind @ s) = length ind + indentOf s"
  by (induction ind) (auto simp: spaces_def indentOf_def isBlankByte_def)

text \<open>
  The texts a block gives back: no carriage return, no row of blanks only, and a row that is not
  indented.
\<close>

definition blockText :: "string \<Rightarrow> bool" where
  "blockText v \<longleftrightarrow>
     CHR 0x0D \<notin> set v \<and> list_all (\<lambda>row. row = [] \<or> TrimSpace row \<noteq> []) (splitLines v) \<and>
     list_ex (\<lambda>row. TrimSpace row \<noteq> [] \<and> indentOf row = 0) (splitLines v)"

definition indentRow :: "string \<Rightarrow> string \<Rightarrow> string" where
  "indentRow ind row = (if row = [] then [] else ind @ row)"

lemma minIndent_rows:
  assumes "spaces ind" "list_all (\<lambda>row. row = [] \<or> TrimSpace row \<noteq> []) rows"
  shows "(case minIndent (map (indentRow ind) rows) of None \<Rightarrow> \<forall>row \<in> set rows. TrimSpace row = []
          | Some n \<Rightarrow> length ind \<le> n \<and> (list_ex (\<lambda>row. TrimSpace row \<noteq> [] \<and> indentOf row = 0) rows \<longrightarrow> n = length ind))"
  using assms(2)
proof (induction rows)
  case (Cons row rows)
  have "list_all (\<lambda>row. row = [] \<or> TrimSpace row \<noteq> []) rows" using Cons.prems by simp
  note IH = Cons.IH [OF this]
  have row: "TrimSpace (indentRow ind row) = TrimSpace row" "row \<noteq> [] \<Longrightarrow> indentOf (indentRow ind row) = length ind + indentOf row"
    using TrimSpace_spaces [OF assms(1), of row] indentOf_spaces [OF assms(1), of row] by (simp_all add: indentRow_def)
  show ?case
  proof (cases "row = []")
    case True
    then show ?thesis using IH row by (auto split: option.splits)
  next
    case False
    then have "TrimSpace row \<noteq> []" "indentOf (indentRow ind row) = length ind + indentOf row" using Cons.prems row by simp_all
    then show ?thesis
    proof (cases "minIndent (map (indentRow ind) rows)")
      case None
      with IH have "\<forall>row \<in> set rows. TrimSpace row = []" by (simp only: option.case)
      then have "\<not> list_ex (\<lambda>row. TrimSpace row \<noteq> [] \<and> indentOf row = 0) rows" unfolding list_ex_iff by blast
      then show ?thesis using None row \<open>TrimSpace row \<noteq> []\<close> False by simp
    next
      case (Some n)
      with IH have "length ind \<le> n" "list_ex (\<lambda>row. TrimSpace row \<noteq> [] \<and> indentOf row = 0) rows \<longrightarrow> n = length ind"
        by (auto simp only: option.case)
      then show ?thesis using Some row \<open>TrimSpace row \<noteq> []\<close> False by (simp add: min_def)
    qed
  qed
qed simp

lemma normalize_block:
  assumes v: "blockText v" and ind: "spaces ind"
  shows "normalizeMultiline (nl @ concat (map (\<lambda>row. indentRow ind row @ nl) (splitLines v)) @ ind) = v"
proof -
  let ?rows = "map (indentRow ind) (splitLines v)" and ?x = "concat (map (\<lambda>row. indentRow ind row @ nl) (splitLines v)) @ ind"
  have sp: "CHR 0x0D \<notin> set ind" "CHR 0x0A \<notin> set ind" using spaces_mem [OF ind, of "CHR 0x0D"] spaces_mem [OF ind, of "CHR 0x0A"] by auto
  have "CHR 0x0D \<notin> set row" if "row \<in> set (splitLines v)" for row
    using splitLines_sub [OF that] v by (auto simp: blockText_def)
  then have cr: "CHR 0x0D \<notin> set (nl @ ?x)" using sp by (auto simp: nl_def indentRow_def split: if_splits)
  have x: "?x = concat (map (\<lambda>row. row @ nl) ?rows) @ ind" by (simp add: comp_def)
  have "splitLines ?x = ?rows @ [ind]" unfolding x
    by (rule splitLines_rows) (use sp splitLines_no_nl in \<open>auto simp: list_all_iff indentRow_def split: if_splits\<close>)
  moreover have "list_all isBlankByte ind" using spaces_mem [OF ind] by (simp add: list_all_iff isBlankByte_def)
  ultimately have norm: "normalizeMultiline (nl @ ?x) = Join (map (dedentLine (minIndent ?rows)) ?rows) nl"
    using replaceCRLF_id [OF cr] unfolding normalizeMultiline_def by (simp add: nl_def Let_def)
  have min: "minIndent ?rows = Some (length ind)"
    using minIndent_rows [OF ind, of "splitLines v"] v by (auto simp: blockText_def list_ex_iff split: option.splits)
  have "dedentLine (Some (length ind)) (indentRow ind row) = row" if "row \<in> set (splitLines v)" for row
    using v that TrimSpace_spaces [OF ind, of row] by (auto simp: blockText_def list_all_iff dedentLine_def indentRow_def)
  then have "map (dedentLine (minIndent ?rows)) ?rows = splitLines v" unfolding min by (simp add: map_idI)
  then show ?thesis unfolding norm by (simp add: Join_splitLines)
qed

subsection \<open>Reading a block\<close>

lemma scanMultilineBody_finds:
  assumes "lx_rest l = y @ tripleQuote @ r" "\<And>a b. y @ tripleQuote = a @ tripleQuote @ b \<Longrightarrow> b = []"
  shows "\<exists>l'. scanMultilineBody l = (True, l') \<and> lx_rest l' = tripleQuote @ r \<and> lx_diags l' = lx_diags l"
  using assms
proof (induction "length y" arbitrary: y l rule: less_induct)
  case less
  show ?case
  proof (cases y)
    case Nil
    then have "scanMultilineBody l = (True, l)" using less.prems by (subst scanMultilineBody.simps) (simp add: tripleQuote_def)
    then show ?thesis using Nil less.prems by simp
  next
    case (Cons c y')
    have ne: "lx_rest l \<noteq> []" using less.prems(1) Cons by simp
    have np: "\<not> prefix tripleQuote (lx_rest l)"
    proof
      assume "prefix tripleQuote (lx_rest l)"
      then obtain zs where zs: "y @ tripleQuote @ r = tripleQuote @ zs" using less.prems(1) by (auto simp: prefix_def)
      have "take 3 (y @ tripleQuote @ r) = tripleQuote" unfolding zs by (simp add: tripleQuote_def)
      moreover have "take 3 (y @ tripleQuote @ r) = take 3 (y @ tripleQuote)"
        using take_append [of 3 "y @ tripleQuote" r] by (simp add: tripleQuote_def)
      ultimately have "take 3 (y @ tripleQuote) = tripleQuote" by metis
      then obtain b where "y @ tripleQuote = [] @ tripleQuote @ b" using append_take_drop_id [of 3 "y @ tripleQuote"] by (metis append_Nil)
      moreover from this have "length b = length y" by (auto simp: tripleQuote_def dest: arg_cong [of _ _ length])
      ultimately show False using less.prems(2) [of "[]" b] Cons by auto
    qed
    then have step: "scanMultilineBody l = scanMultilineBody (lexAdvance l)" using ne by (subst scanMultilineBody.simps) simp
    obtain x where x: "x \<noteq> []" "moves x l (lexAdvance l)" using advance_moves [OF ne] by blast
    have sub: "\<exists>z. y = x @ z"
    proof (cases "c = CHR 0x22")
      case True
      then have "peek l = ([c], 1)" using peek_ascii [of l c] less.prems(1) Cons by simp
      then have "x = [c]" using advance_text [OF ne x(2)] less.prems(1) Cons by simp
      then show ?thesis using Cons by simp
    next
      case False
      have "fst (peek l) \<noteq> [CHR 0x22]"
      proof (cases "runeSize (lx_rest l)")
        case None
        then show ?thesis using ne by (simp add: peek_def runeError_def)
      next
        case (Some n)
        then show ?thesis using False ne runeSize_pos [OF Some] less.prems(1) Cons by (cases n) (auto simp: peek_def)
      qed
      then have "CHR 0x22 \<notin> set x" using advance_avoids [OF ne x(2)] by simp
      moreover have "x @ lx_rest (lexAdvance l) = y @ tripleQuote @ r" using moves_rest [OF x(2)] less.prems(1) by simp
      ultimately show ?thesis by (auto simp: append_eq_append_conv2 tripleQuote_def append_eq_Cons_conv)
    qed
    then obtain z where z: "y = x @ z" by blast
    have "\<exists>l'. scanMultilineBody (lexAdvance l) = (True, l') \<and> lx_rest l' = tripleQuote @ r \<and> lx_diags l' = lx_diags (lexAdvance l)"
    proof (rule less.hyps)
      show "length z < length y" using z x(1) by simp
      show "lx_rest (lexAdvance l) = z @ tripleQuote @ r" using moves_rest [OF x(2)] less.prems(1) z by simp
      show "b = []" if "z @ tripleQuote = a @ tripleQuote @ b" for a b
        using less.prems(2) [of "x @ a" b] that z by simp
    qed
    moreover have "lx_diags (lexAdvance l) = lx_diags l" by (simp add: lexAdvance_def split: prod.split)
    ultimately show ?thesis using step by simp
  qed
qed

lemma sublist_sep: "c \<notin> set w \<Longrightarrow> sublist w (x @ c # y) \<Longrightarrow> sublist w x \<or> sublist w y"
proof -
  assume c: "c \<notin> set w" and "sublist w (x @ c # y)"
  then obtain p s where e: "x @ c # y = p @ w @ s" by (auto simp: sublist_def)
  from append_eq_append_conv2 [THEN iffD1, OF this] obtain us where
    "x = p @ us \<and> us @ c # y = w @ s \<or> x @ us = p \<and> c # y = us @ w @ s" by blast
  then show ?thesis
  proof (elim disjE conjE)
    assume x: "x = p @ us" and e2: "us @ c # y = w @ s"
    from append_eq_append_conv2 [THEN iffD1, OF e2] obtain vs where "us = w @ vs \<or> w = us @ vs \<and> c # y = vs @ s" by blast
    then show ?thesis
    proof (elim disjE conjE)
      assume "us = w @ vs"
      then show ?thesis using x by simp
    next
      assume w: "w = us @ vs" and v: "c # y = vs @ s"
      then have "vs = []" using c by (cases vs) auto
      then show ?thesis using x w by simp
    qed
  next
    assume e3: "c # y = us @ w @ s"
    then show ?thesis
    proof (cases us)
      case Nil
      then have "w = []" using e3 c by (cases w) auto
      then show ?thesis by simp
    next
      case (Cons d us')
      then show ?thesis using e3 by (auto simp: sublist_def)
    qed
  qed
qed

lemma sublist_rows:
  assumes "w \<noteq> []" "CHR '' '' \<notin> set w" "CHR 0x0A \<notin> set w" "spaces ind"
    "sublist w (concat (map (\<lambda>row. indentRow ind row @ nl) rows) @ ind)"
  shows "\<exists>row \<in> set rows. sublist w row"
  using assms(5)
proof (induction rows)
  case Nil
  have "\<not> sublist w ind" using assms(1,2) spaces_mem [OF assms(4)] set_mono_sublist [of w ind] by (cases w) fastforce+
  then show ?case using Nil by simp
next
  case (Cons row rows)
  have ind: "sublist w (i @ t) \<Longrightarrow> sublist w t" if "spaces i" for i t
    using that
  proof (induction i)
    case (Cons c i)
    then have "sublist w [] \<or> sublist w (i @ t)" using sublist_sep [of c w "[]" "i @ t"] assms(2) by (simp add: spaces_def)
    then show ?case using Cons assms(1) by (auto simp: spaces_def)
  qed simp
  have "sublist w (indentRow ind row) \<or> sublist w (concat (map (\<lambda>row. indentRow ind row @ nl) rows) @ ind)"
    using sublist_sep [OF assms(3), of "indentRow ind row"] Cons.prems by (simp add: nl_def)
  moreover have "sublist w (indentRow ind row) \<Longrightarrow> sublist w row" using ind [OF assms(4)] by (simp add: indentRow_def split: if_splits)
  ultimately show ?case using Cons.IH by auto
qed

lemma splitLines_sublist: "row \<in> set (splitLines v) \<Longrightarrow> sublist row v"
proof -
  have "row \<in> set rows \<Longrightarrow> sublist row (Join rows nl)" for rows
  proof (induction rows "nl" rule: Join.induct)
    case (3 s t ss)
    then show ?case using sublist_appendI [of "Join (t # ss) nl" "s @ nl" "[]"]
      by (auto intro: sublist_order.order_trans)
  qed auto
  then show "row \<in> set (splitLines v) \<Longrightarrow> sublist row v" using Join_splitLines [of v] by metis
qed

lemma reads_block:
  assumes v: "blockText v" "\<not> sublist tripleQuote v" and ind: "spaces ind" "ind \<noteq> []"
  shows "reads (tripleQuote @ (nl @ concat (map (\<lambda>row. indentRow ind row @ nl) (splitLines v)) @ ind) @ tripleQuote) [(KindString, v)] r"
proof (rule reads_token)
  let ?y = "nl @ concat (map (\<lambda>row. indentRow ind row @ nl) (splitLines v)) @ ind"
  show "tripleQuote @ ?y @ tripleQuote \<noteq> []" "of_char (hd (tripleQuote @ ?y @ tripleQuote)) < (0x80 :: nat)"
    "hd (tripleQuote @ ?y @ tripleQuote) \<notin> {CHR 0x20, CHR 0x09, CHR 0x0D, CHR 0x0A, CHR ''/''}" by (simp_all add: tripleQuote_def)
  fix l :: lexer assume l: "lx_rest l = (tripleQuote @ ?y @ tripleQuote) @ r"
  then have l0: "lx_rest l = CHR 0x22 # CHR 0x22 # CHR 0x22 # ?y @ tripleQuote @ r" by (simp add: tripleQuote_def)
  show "Next l = scanMultilineString (lexPos l) l" if "skipTrivia l = l"
    using that peek_ascii [OF l0] l0 by (simp add: Next_def Let_def isIdentStart_def isRuneDigit_def between_def tripleQuote_def)
  have a3: "lx_rest (advance3 l) = s \<and> lx_diags (advance3 l) = lx_diags l" if "lx_rest l = CHR 0x22 # CHR 0x22 # CHR 0x22 # s" for l s
    using advance_ascii [OF that] advance_ascii [of "lexAdvance l" "CHR 0x22"] advance_ascii [of "lexAdvance (lexAdvance l)" "CHR 0x22"]
    by (simp add: advance3_def)
  have once: "b = []" if e: "?y @ tripleQuote = a @ tripleQuote @ b" for a b
  proof (rule ccontr)
    assume "b \<noteq> []"
    then obtain b' q where b: "b = b' @ [q]" by (cases b rule: rev_cases) auto
    obtain ind' where i: "ind = ind' @ [CHR '' '']" using ind spaces_mem [OF ind(1), of "last ind"] by (cases ind rule: rev_cases) auto
    define C where "C = concat (map (\<lambda>row. indentRow ind row @ nl) (splitLines v))"
    have "((nl @ C @ ind') @ CHR '' '' # [CHR 0x22, CHR 0x22]) @ [CHR 0x22] = (a @ tripleQuote @ b') @ [q]"
      using e unfolding b C_def [symmetric] by (auto simp: i tripleQuote_def)
    then have "(nl @ C @ ind') @ CHR '' '' # [CHR 0x22, CHR 0x22] = a @ tripleQuote @ b'"
      by (metis append1_eq_conv)
    then have "sublist tripleQuote ((nl @ C @ ind') @ CHR '' '' # [CHR 0x22, CHR 0x22])" by (metis sublist_def)
    then have "sublist tripleQuote (nl @ C @ ind') \<or> sublist tripleQuote [CHR 0x22, CHR 0x22]"
      by (rule sublist_sep [rotated]) (simp add: tripleQuote_def)
    then have "sublist tripleQuote (nl @ C @ ind')"
      using sublist_length_le [of tripleQuote "[CHR 0x22, CHR 0x22]"] by (auto simp: tripleQuote_def)
    then have "sublist tripleQuote (C @ ind')"
      using sublist_sep [of "CHR 0x0A" tripleQuote "[]"] by (simp add: nl_def tripleQuote_def)
    moreover have "sublist (C @ ind') (C @ ind)" by (rule prefix_imp_sublist) (simp add: i)
    ultimately have "sublist tripleQuote (concat (map (\<lambda>row. indentRow ind row @ nl) (splitLines v)) @ ind)"
      unfolding C_def by (rule sublist_order.order_trans)
    from sublist_rows [OF _ _ _ ind(1) this] obtain row where "row \<in> set (splitLines v)" "sublist tripleQuote row"
      by (auto simp: tripleQuote_def)
    then show False using splitLines_sublist v(2) sublist_order.order_trans by blast
  qed
  have l1: "lx_rest (advance3 l) = ?y @ tripleQuote @ r" "lx_diags (advance3 l) = lx_diags l" using a3 [OF l0] by simp_all
  have "\<exists>l'. scanMultilineBody (advance3 l) = (True, l') \<and> lx_rest l' = tripleQuote @ r \<and> lx_diags l' = lx_diags (advance3 l)"
    by (rule scanMultilineBody_finds [OF l1(1)]) (rule once)
  then obtain l' where
    l': "scanMultilineBody (advance3 l) = (True, l')" "lx_rest l' = tripleQuote @ r" "lx_diags l' = lx_diags (advance3 l)" by blast
  have "textBetween (advance3 l) l' = ?y" using l1 l' by (simp add: textBetween_def)
  moreover have "lx_rest (advance3 l') = r" "lx_diags (advance3 l') = lx_diags l" using a3 [of l' r] l' l1 by (simp_all add: tripleQuote_def)
  ultimately show "\<exists>p l'. scanMultilineString (lexPos l) l = (mkToken KindString v p, l') \<and> lx_rest l' = r \<and> lx_diags l' = lx_diags l"
    using l' normalize_block [OF v(1) ind(1)] by (auto simp: scanMultilineString_def Let_def)
qed simp

text \<open>What a printed string field is read as.\<close>

definition fieldText :: "(string \<Rightarrow> bool) \<Rightarrow> string \<Rightarrow> bool" where
  "fieldText isp v \<longleftrightarrow> (if CHR 0x0A \<notin> set v \<or> sublist tripleQuote v then plainText isp v else blockText v)"

lemma reads_spaced: "reads x [k] (CHR '' '' # y @ r) \<Longrightarrow> reads y ks r \<Longrightarrow> reads (x @ '' '' @ y) (k # ks) r"
  using reads_next [OF _ reads_skip [of "'' ''" y ks r], of x k] by simp

lemma reads_line: "reads x ks (CHR 0x0A # r) \<Longrightarrow> reads (x @ nl) ks r"
  using reads_append [OF _ reads_blank [of nl r], of x ks] by (simp add: nl_def)

lemma reads_field:
  assumes v: "fieldText isp v" and ind: "spaces ind" "ind \<noteq> []" and name: "wfIdent name"
  shows "reads (printStringField isp ind name v) [(KindIdent, name), (KindString, v)] r"
proof -
  have bl: "blank ind" using spaces_mem [OF ind(1)] by (simp add: blank_def list_all_iff)
  show ?thesis
  proof (cases "CHR 0x0A \<notin> set v \<or> sublist tripleQuote v")
    case True
    then have "reads (ind @ name @ '' '' @ quoteGo isp v @ nl) [(KindIdent, name), (KindString, v)] r"
      using v by (intro reads_skip [OF bl] reads_spaced reads_line reads_ident name reads_string) (simp_all add: fieldText_def)
    then show ?thesis using True by (simp add: printStringField_def)
  next
    case False
    then have b: "blockText v" "\<not> sublist tripleQuote v" using v by (simp_all add: fieldText_def)
    let ?y = "nl @ concat (map (\<lambda>row. indentRow ind row @ nl) (splitLines v)) @ ind"
    have "reads (ind @ name @ '' '' @ (tripleQuote @ ?y @ tripleQuote) @ nl) [(KindIdent, name), (KindString, v)] r"
      by (intro reads_skip [OF bl] reads_spaced reads_line reads_ident name reads_block b ind) simp_all
    moreover have "(\<lambda>row. indentRow ind row @ nl) = (\<lambda>row. if row = [] then nl else ind @ row @ nl)"
      by (simp add: fun_eq_iff indentRow_def)
    ultimately show ?thesis using False by (simp add: printStringField_def)
  qed
qed

end
