(* ===== verification/Lang_Format.thy ===== *)
theory Lang_Format
  imports Lang_Block
begin

text \<open>
  Formatting a workflow declaration keeps its tree: the text \<open>printWorkflow\<close> prints is lexed and
  parsed back to the declaration it was printed from.
\<close>

subsection \<open>Statements and their tokens\<close>

definition wfBranch :: "go_text \<Rightarrow> (string \<Rightarrow> bool) \<Rightarrow> string \<times> expr \<Rightarrow> bool" where
  "wfBranch T isp b \<longleftrightarrow> wfIdent (fst b) \<and> wfExpr T isp (snd b)"

definition wfBound :: "int \<Rightarrow> bool" where
  "wfBound i \<longleftrightarrow> 0 < i \<and> int64 i"

definition wfName :: "string option \<Rightarrow> bool" where
  "wfName i \<longleftrightarrow> (case i of Some s \<Rightarrow> wfIdent s | None \<Rightarrow> False)"

text \<open>
  A statement that is an expression starts with an identifier, and is not the bare word \<open>retry\<close> or
  \<open>approval\<close>, which would be taken for the head of another statement; the arguments of an approval
  are labelled.
\<close>

definition wfExprStmt :: "go_text \<Rightarrow> (string \<Rightarrow> bool) \<Rightarrow> expr \<Rightarrow> bool" where
  "wfExprStmt T isp e \<longleftrightarrow>
     wfExpr T isp e \<and> fst (hd (exprToks T e)) = KindIdent \<and>
     exprToks T e \<noteq> [(KindIdent, ''retry'')] \<and> exprToks T e \<noteq> [(KindIdent, ''approval'')]"

definition wfApproval :: "go_text \<Rightarrow> (string \<Rightarrow> bool) \<Rightarrow> string option \<Rightarrow> string option \<Rightarrow> string list \<Rightarrow> call_arg list \<Rightarrow> bool" where
  "wfApproval T isp b d redact ws \<longleftrightarrow>
     wfName b \<and> (case d of Some v \<Rightarrow> fieldText isp v | None \<Rightarrow> True) \<and> list_all (plainText isp) redact \<and>
     list_all (\<lambda>a. wfArg T isp a \<and> fst a \<noteq> None) ws"

fun wfStmt :: "go_text \<Rightarrow> (string \<Rightarrow> bool) \<Rightarrow> stmt \<Rightarrow> bool" where
  "wfStmt T isp (AssignStmt x e) \<longleftrightarrow> wfBranch T isp (x, e)"
| "wfStmt T isp (ExprStmt e) \<longleftrightarrow> wfExprStmt T isp e"
| "wfStmt T isp (ParallelStmt bs) \<longleftrightarrow> list_all (wfBranch T isp) bs"
| "wfStmt T isp (ReturnStmt e) \<longleftrightarrow> wfExpr T isp e"
| "wfStmt T isp (ApprovalStmt b d redact ws) \<longleftrightarrow> wfApproval T isp b d redact ws"
| "wfStmt T isp (IfStmt c th el) \<longleftrightarrow> wfExpr T isp c \<and> list_all (wfStmt T isp) th \<and> list_all (wfStmt T isp) el"
| "wfStmt T isp (ForStmt par v e body) \<longleftrightarrow> wfName v \<and> wfExpr T isp e \<and> list_all (wfStmt T isp) body"
| "wfStmt T isp (WhileStmt c bnd body) \<longleftrightarrow> wfExpr T isp c \<and> wfBound bnd \<and> list_all (wfStmt T isp) body"
| "wfStmt T isp (RetryStmt c bnd body) \<longleftrightarrow> wfExpr T isp c \<and> wfBound bnd \<and> list_all (wfStmt T isp) body"

abbreviation lbrace :: key where
  "lbrace \<equiv> (KindLBrace, ''{'')"

abbreviation rbrace :: key where
  "rbrace \<equiv> (KindRBrace, ''}'')"

definition branchToks :: "go_text \<Rightarrow> string \<times> expr \<Rightarrow> key list" where
  "branchToks T b = (KindIdent, fst b) # (KindEquals, ''='') # exprToks T (snd b)"

definition boundToks :: "int \<Rightarrow> key list" where
  "boundToks i = [(KindIdent, ''limit''), (KindNumber, showInt i)]"

definition descToks :: "string option \<Rightarrow> key list" where
  "descToks d = (case d of None \<Rightarrow> [] | Some v \<Rightarrow> [(KindIdent, ''description''), (KindString, v)])"

definition redactToks :: "string list \<Rightarrow> key list" where
  "redactToks redact =
     (if redact = [] then [] else (KindIdent, ''redactKeys'') # lbrace # map (Pair KindString) redact @ [rbrace])"

definition withToks :: "go_text \<Rightarrow> call_arg list \<Rightarrow> key list" where
  "withToks T ws = (if ws = [] then [] else (KindIdent, ''with'') # lbrace # concat (map (argToks T) ws) @ [rbrace])"

definition approvalToks :: "go_text \<Rightarrow> string option \<Rightarrow> string option \<Rightarrow> string list \<Rightarrow> call_arg list \<Rightarrow> key list" where
  "approvalToks T b d redact ws =
     (KindIdent, ''approval'') # (KindIdent, identName b) # lbrace # descToks d @ redactToks redact @ withToks T ws @ [rbrace]"

definition isIf :: "stmt \<Rightarrow> bool" where
  "isIf s = (case s of IfStmt c th el \<Rightarrow> True | _ \<Rightarrow> False)"

fun stmtToks :: "go_text \<Rightarrow> stmt \<Rightarrow> key list" where
  "stmtToks T (AssignStmt x e) = branchToks T (x, e)"
| "stmtToks T (ExprStmt e) = exprToks T e"
| "stmtToks T (ParallelStmt bs) = (KindParallel, ''parallel'') # lbrace # concat (map (branchToks T) bs) @ [rbrace]"
| "stmtToks T (ReturnStmt e) = (KindReturn, ''return'') # exprToks T e"
| "stmtToks T (ApprovalStmt b d redact ws) = approvalToks T b d redact ws"
| "stmtToks T (IfStmt c th el) =
     (KindIf, ''if'') # exprToks T c @ lbrace # concat (map (stmtToks T) th) @ rbrace #
     (if el = [] then []
      else (KindElse, ''else'') #
        (if length el = 1 \<and> list_all isIf el then concat (map (stmtToks T) el)
         else lbrace # concat (map (stmtToks T) el) @ [rbrace]))"
| "stmtToks T (ForStmt par v e body) =
     (if par then [(KindParallel, ''parallel'')] else []) @
     (KindFor, ''for'') # (KindIdent, identName v) # (KindIdent, ''in'') # exprToks T e @ lbrace # concat (map (stmtToks T) body) @ [rbrace]"
| "stmtToks T (WhileStmt c bnd body) =
     (KindWhile, ''while'') # exprToks T c @ boundToks bnd @ lbrace # concat (map (stmtToks T) body) @ [rbrace]"
| "stmtToks T (RetryStmt c bnd body) =
     (KindIdent, ''retry'') # (KindIdent, ''until'') # exprToks T c @ boundToks bnd @ lbrace # concat (map (stmtToks T) body) @ [rbrace]"

subsection \<open>Reading printed statements\<close>

lemma printBody_concat: "printBody T isp d ss = concat (map (printStmt T isp d) ss)"
  by (induction ss) simp_all

lemma reads_concat:
  "list_all (\<lambda>x. \<forall>r. reads (f x) (g x) r) xs \<Longrightarrow> reads y ks r \<Longrightarrow> reads (concat (map f xs) @ y) (concat (map g xs) @ ks) r"
  by (induction xs) (auto intro: reads_append)

lemma words [simp]:
  "wordKind ''if'' = KindIf" "wordKind ''else'' = KindElse" "wordKind ''for'' = KindFor" "wordKind ''while'' = KindWhile"
  "wordKind ''return'' = KindReturn" "wordKind ''parallel'' = KindParallel" "wordKind ''workflow'' = KindWorkflow"
  "wordText ''if''" "wordText ''else''" "wordText ''for''" "wordText ''while''" "wordText ''return''" "wordText ''parallel''"
  "wordText ''workflow''"
  by (simp_all add: wordKind_def keywordKinds_def wordText_def isIdentPart_def isIdentStart_def between_def)

lemma idents [simp]:
  "wfIdent ''in''" "wfIdent ''limit''" "wfIdent ''retry''" "wfIdent ''until''" "wfIdent ''approval''" "wfIdent ''description''"
  "wfIdent ''redactKeys''" "wfIdent ''with''" "wfIdent ''policy''" "wfIdent ''effects''"
  by (simp_all add: wfIdent_def keywordKinds_def wordText_def isIdentPart_def isIdentStart_def between_def)

lemma reads_if: "brk r \<Longrightarrow> reads ''if'' [(KindIf, ''if'')] r"
  and reads_else: "brk r \<Longrightarrow> reads ''else'' [(KindElse, ''else'')] r"
  and reads_for: "brk r \<Longrightarrow> reads ''for'' [(KindFor, ''for'')] r"
  and reads_while: "brk r \<Longrightarrow> reads ''while'' [(KindWhile, ''while'')] r"
  and reads_return: "brk r \<Longrightarrow> reads ''return'' [(KindReturn, ''return'')] r"
  and reads_parallel: "brk r \<Longrightarrow> reads ''parallel'' [(KindParallel, ''parallel'')] r"
  and reads_workflow: "brk r \<Longrightarrow> reads ''workflow'' [(KindWorkflow, ''workflow'')] r"
  using reads_word [of _ r] words brk_simps(9) by metis+

lemma reads_name: "wfIdent s \<Longrightarrow> brk r \<Longrightarrow> reads s [(KindIdent, s)] r"
  by (simp add: reads_ident)

lemma reads_equals: "reads ''='' [(KindEquals, ''='')] (CHR '' '' # r)"
  using reads_operator(2) [of "CHR ''=''" "''=''" KindEqEq "Some KindEquals" KindEquals "CHR '' '' # r"] by (simp add: operators_def)

lemma reads_arrow: "reads ''->'' [(KindArrow, ''->'')] r"
  using reads_operator(1) [of "CHR ''-''" "''>''" KindArrow None r] by (simp add: operators_def)

lemma reads_run: "reads x ks (CHR '' '' # y @ r) \<Longrightarrow> reads y ks' r \<Longrightarrow> reads (x @ '' '' @ y) (ks @ ks') r"
  using reads_append [OF _ reads_skip [of "'' ''" y ks' r], of x ks] by simp

lemma reads_brace_line: "reads y ks r \<Longrightarrow> reads (''{'' @ nl @ y) (lbrace # ks) r"
  by (intro reads_next reads_puncts reads_skip) simp_all

lemma reads_closing: "blank ind \<Longrightarrow> reads (ind @ ''}'' @ nl) [rbrace] r"
  by (intro reads_skip reads_line reads_puncts)

lemma reads_bound: "wfBound i \<Longrightarrow> brk r \<Longrightarrow> reads (showInt i) [(KindNumber, showInt i)] r"
  using showInt_nonneg [of i] by (simp add: wfBound_def reads_number)

lemma reads_branch: "wfBranch T isp b \<Longrightarrow> blank ind \<Longrightarrow> reads (ind @ fst b @ '' = '' @ printExpr T isp (snd b) @ nl) (branchToks T b) r"
proof -
  assume "wfBranch T isp b" "blank ind"
  then have "reads (ind @ fst b @ '' '' @ ''='' @ '' '' @ printExpr T isp (snd b) @ nl) (branchToks T b) r"
    unfolding branchToks_def wfBranch_def by (intro reads_skip reads_spaced reads_line reads_expr reads_name reads_equals) simp_all
  then show ?thesis by simp
qed

lemma printArg_label: "printArg T isp a = (case fst a of Some s \<Rightarrow> s @ '': '' | None \<Rightarrow> []) @ printExpr T isp (snd a)"
  by (cases a) (simp add: printArg_def split: option.split)

lemma reads_arg: "wfArg T isp a \<Longrightarrow> blank ind \<Longrightarrow> reads (ind @ printArg T isp a @ nl) (argToks T a) r"
  unfolding printArg_label argToks_def wfArg_def
  by (intro reads_skip reads_line reads_label reads_expr) simp_all

lemma wfName_ident: "wfName i \<Longrightarrow> wfIdent (identName i)"
  by (auto simp: wfName_def identName_def split: option.splits)

lemma spaces_indent [simp]: "spaces (indentAt d)" "spaces (indentAt d @ ''    '')"
  by (simp_all add: spaces_def indentAt_def list_all_iff)

lemma spaces_blank: "spaces ind \<Longrightarrow> blank ind"
  by (auto simp: spaces_def blank_def list_all_iff)

lemma reads_redact:
  assumes "list_all (plainText isp) redact" "blank ind" "reads y ks r"
  shows "reads ((if redact = [] then [] else ind @ ''redactKeys {'' @ concat (map (\<lambda>k. '' '' @ quoteGo isp k) redact) @ '' }'' @ nl) @ y)
    (redactToks redact @ ks) r"
proof (cases "redact = []")
  case False
  have one: "reads (concat (map (\<lambda>k. '' '' @ quoteGo isp k) redact) @ '' '' @ z) (map (Pair KindString) redact @ ks') r"
    if "reads z ks' r" for z ks'
    using assms(1)
  proof (induction redact)
    case (Cons k redact)
    then have "reads (concat (map (\<lambda>k. '' '' @ quoteGo isp k) redact) @ '' '' @ z) (map (Pair KindString) redact @ ks') r" by simp
    moreover have "brk ((concat (map (\<lambda>k. '' '' @ quoteGo isp k) redact) @ '' '' @ z) @ r)" by (cases redact) simp_all
    moreover have "plainText isp k" using Cons.prems by simp
    ultimately show ?case using reads_skip [OF _ reads_next [OF reads_string], of "'' ''"] by simp
  qed (use that reads_skip [of "'' ''"] in simp)
  have "reads (''}'' @ nl @ y) (rbrace # ks) r" by (intro reads_next reads_puncts reads_skip assms(3)) simp
  from one [OF this] have "reads (ind @ ''redactKeys'' @ '' '' @ ''{'' @ concat (map (\<lambda>k. '' '' @ quoteGo isp k) redact) @ '' '' @ ''}'' @ nl @ y)
      ((KindIdent, ''redactKeys'') # lbrace # map (Pair KindString) redact @ rbrace # ks) r"
    by (intro reads_skip [OF assms(2)] reads_spaced reads_next reads_puncts reads_name) simp_all
  then show ?thesis using False by (simp add: redactToks_def)
qed (use assms in \<open>simp add: redactToks_def\<close>)

lemma reads_with:
  assumes "list_all (wfArg T isp) ws" "blank ind" "blank arg" "reads y ks r"
  shows "reads ((if ws = [] then [] else ind @ ''with {'' @ nl @ concat (map (\<lambda>a. arg @ printArg T isp a @ nl) ws) @ ind @ ''}'' @ nl) @ y)
    (withToks T ws @ ks) r"
proof (cases "ws = []")
  case False
  have "reads ((ind @ ''}'' @ nl) @ y) ([rbrace] @ ks) r" by (intro reads_append reads_closing assms)
  then have "reads (concat (map (\<lambda>a. arg @ printArg T isp a @ nl) ws) @ (ind @ ''}'' @ nl) @ y) (concat (map (argToks T) ws) @ [rbrace] @ ks) r"
    using assms by (intro reads_concat) (auto simp: list_all_iff intro!: reads_arg)
  then have "reads (ind @ ''with'' @ '' '' @ ''{'' @ nl @ concat (map (\<lambda>a. arg @ printArg T isp a @ nl) ws) @ (ind @ ''}'' @ nl) @ y)
      ((KindIdent, ''with'') # lbrace # concat (map (argToks T) ws) @ [rbrace] @ ks) r"
    by (intro reads_skip [OF assms(2)] reads_spaced reads_brace_line reads_name) simp_all
  then show ?thesis using False by (simp add: withToks_def)
qed (use assms in \<open>simp add: withToks_def\<close>)

lemma reads_desc:
  assumes "case d of Some v \<Rightarrow> fieldText isp v | None \<Rightarrow> True" "spaces ind" "ind \<noteq> []" "reads y ks r"
  shows "reads ((case d of None \<Rightarrow> [] | Some v \<Rightarrow> printStringField isp ind ''description'' v) @ y) (descToks d @ ks) r"
proof (cases d)
  case (Some v)
  then have "reads (printStringField isp ind ''description'' v) [(KindIdent, ''description''), (KindString, v)] (y @ r)"
    using assms by (intro reads_field) simp_all
  from reads_append [OF this assms(4)] show ?thesis using Some by (simp add: descToks_def)
qed (use assms in \<open>simp add: descToks_def\<close>)

lemma reads_approval:
  assumes "wfApproval T isp b d redact ws"
  shows "reads (drop (length (indentAt dp)) (printApproval T isp (indentAt dp) b d redact ws)) (approvalToks T b d redact ws) r"
proof -
  let ?ind = "indentAt dp" and ?inner = "indentAt dp @ ''    ''"
  have wf: "wfIdent (identName b)" "list_all (wfArg T isp) ws" "list_all (plainText isp) redact" "case d of Some v \<Rightarrow> fieldText isp v | None \<Rightarrow> True"
    using assms wfName_ident by (auto simp: wfApproval_def list_all_iff)
  have bl: "blank ?inner" "blank (?inner @ ''    '')" by (simp_all add: spaces_blank) (simp add: blank_def list_all_iff indentAt_def)
  have "reads (?ind @ ''}'' @ nl) [rbrace] r" by (simp add: reads_closing del: append_Cons append_Nil)
  note 1 = reads_desc [OF wf(4) _ _ reads_redact [OF wf(3) bl(1) reads_with [OF wf(2) bl this]], of ?inner]
  have "reads (''approval'' @ '' '' @ identName b @ '' '' @ ''{'' @ nl @
      (case d of None \<Rightarrow> [] | Some v \<Rightarrow> printStringField isp ?inner ''description'' v) @
      (if redact = [] then [] else ?inner @ ''redactKeys {'' @ concat (map (\<lambda>k. '' '' @ quoteGo isp k) redact) @ '' }'' @ nl) @
      (if ws = [] then [] else ?inner @ ''with {'' @ nl @ concat (map (\<lambda>a. (?inner @ ''    '') @ printArg T isp a @ nl) ws) @ ?inner @ ''}'' @ nl) @
      ?ind @ ''}'' @ nl) (approvalToks T b d redact ws) r"
    unfolding approvalToks_def
    by (intro reads_spaced reads_brace_line reads_name wf(1) 1) simp_all
  then show ?thesis by (simp add: printApproval_def Let_def)
qed

text \<open>A printed statement is its indentation and the text behind it.\<close>

definition stmtText :: "go_text \<Rightarrow> (string \<Rightarrow> bool) \<Rightarrow> nat \<Rightarrow> stmt \<Rightarrow> string" where
  "stmtText T isp d s = drop (length (indentAt d)) (printStmt T isp d s)"

lemma printStmt_text: "printStmt T isp d s = indentAt d @ stmtText T isp d s"
  by (cases s) (simp_all add: stmtText_def printApproval_def Let_def)

lemma trim_if: "isIf s \<Longrightarrow> trimLeftSpaces (printStmt T isp d s) = stmtText T isp d s"
proof (cases s)
  case (IfStmt c th el)
  have "dropWhile (\<lambda>c. c = CHR '' '') (indentAt d @ y) = dropWhile (\<lambda>c. c = CHR '' '') y" for y
    by (rule dropWhile_append2) (use spaces_mem [OF spaces_indent(1)] in blast)
  then show ?thesis unfolding printStmt_text trimLeftSpaces_def using IfStmt by (simp add: stmtText_def)
qed (simp_all add: isIf_def)

definition elseText :: "go_text \<Rightarrow> (string \<Rightarrow> bool) \<Rightarrow> nat \<Rightarrow> stmt list \<Rightarrow> string" where
  "elseText T isp d el =
     (if el = [] then indentAt d @ ''}'' @ nl
      else if length el = 1 \<and> list_all isIf el then indentAt d @ ''} else '' @ concat (map (stmtText T isp d) el)
      else indentAt d @ ''} else {'' @ nl @ concat (map (printStmt T isp (d + 1)) el) @ indentAt d @ ''}'' @ nl)"

lemma stmtText_if:
  "stmtText T isp d (IfStmt c th el) =
     ''if '' @ printExpr T isp c @ '' {'' @ nl @ concat (map (printStmt T isp (d + 1)) th) @ elseText T isp d el"
proof -
  have "isIf e \<Longrightarrow> printStmt T isp d (IfStmt c th [e]) = indentAt d @ ''if '' @ printExpr T isp c @ '' {'' @ nl @ printBody T isp (d + 1) th @
      indentAt d @ ''} else '' @ stmtText T isp d e" for e
    using trim_if [of e T isp d] by (cases e) (simp_all add: isIf_def)
  moreover have "\<not> isIf e \<Longrightarrow> printStmt T isp d (IfStmt c th [e]) = indentAt d @ ''if '' @ printExpr T isp c @ '' {'' @ nl @ printBody T isp (d + 1) th @
      indentAt d @ ''} else {'' @ nl @ printBody T isp (d + 1) [e] @ indentAt d @ ''}'' @ nl" for e
    by (cases e) (simp_all add: isIf_def)
  moreover have "printStmt T isp d (IfStmt c th (e # e' # es)) = indentAt d @ ''if '' @ printExpr T isp c @ '' {'' @ nl @ printBody T isp (d + 1) th @
      indentAt d @ ''} else {'' @ nl @ printBody T isp (d + 1) (e # e' # es) @ indentAt d @ ''}'' @ nl" for e e' es
    by (cases e) simp_all
  ultimately show ?thesis
    by (cases el; cases "tl el"; cases "isIf (hd el)") (simp_all add: stmtText_def elseText_def printBody_concat)
qed

lemma reads_body:
  assumes "\<And>s r. s \<in> set ss \<Longrightarrow> reads (stmtText T isp d s) (stmtToks T s) r" "reads y ks r"
  shows "reads (concat (map (printStmt T isp d) ss) @ y) (concat (map (stmtToks T) ss) @ ks) r"
  by (rule reads_concat) (use assms in \<open>auto simp: list_all_iff printStmt_text intro!: reads_skip\<close>)

lemma reads_block_body:
  assumes "\<And>s r. s \<in> set ss \<Longrightarrow> reads (stmtText T isp (d + 1) s) (stmtToks T s) r"
  shows "reads (''{'' @ nl @ concat (map (printStmt T isp (d + 1)) ss) @ indentAt d @ ''}'' @ nl) (lbrace # concat (map (stmtToks T) ss) @ [rbrace]) r"
  by (intro reads_brace_line reads_body reads_closing assms) simp_all

lemma reads_else_part:
  assumes body: "\<And>s r. s \<in> set el \<Longrightarrow> reads (stmtText T isp (d + 1) s) (stmtToks T s) r"
    and nested: "\<And>s r. s \<in> set el \<Longrightarrow> reads (stmtText T isp d s) (stmtToks T s) r"
  shows "reads (elseText T isp d el)
    (rbrace # (if el = [] then [] else (KindElse, ''else'') #
        (if length el = 1 \<and> list_all isIf el then concat (map (stmtToks T) el) else lbrace # concat (map (stmtToks T) el) @ [rbrace]))) r"
proof -
  have rb: "reads (indentAt d @ ''}'' @ '' '' @ y) (rbrace # ks) r" if "reads y ks r" for y ks
    by (intro reads_skip [OF blank_simps(5)] reads_spaced reads_puncts that)
  consider "el = []" | e where "el = [e]" "isIf e" | "el \<noteq> []" "\<not> (length el = 1 \<and> list_all isIf el)"
    by (cases el; cases "tl el") auto
  then show ?thesis
  proof cases
    case 1
    then show ?thesis using reads_closing [of "indentAt d" r] by (simp add: elseText_def)
  next
    case 2
    then have "reads (''else'' @ '' '' @ stmtText T isp d e) ((KindElse, ''else'') # stmtToks T e) r"
      by (intro reads_spaced reads_else nested) simp_all
    from rb [OF this] show ?thesis using 2 by (simp add: elseText_def)
  next
    case 3
    have "reads (''else'' @ '' '' @ ''{'' @ nl @ concat (map (printStmt T isp (d + 1)) el) @ indentAt d @ ''}'' @ nl)
        ((KindElse, ''else'') # lbrace # concat (map (stmtToks T) el) @ [rbrace]) r"
      by (intro reads_spaced reads_else reads_block_body body) simp_all
    from rb [OF this] show ?thesis unfolding elseText_def if_not_P [OF 3(1)] if_not_P [OF 3(2)] by simp
  qed
qed

lemma reads_stmt: "wfStmt T isp s \<Longrightarrow> reads (stmtText T isp d s) (stmtToks T s) r"
proof (induction s arbitrary: d r)
  case (AssignStmt tgt e d r)
  then show ?case using reads_branch [of T isp "(tgt, e)" "[]"] by (simp add: stmtText_def)
next
  case (ExprStmt e d r)
  then show ?case by (simp add: stmtText_def wfExprStmt_def reads_line reads_expr)
next
  case (ParallelStmt bs d r)
  have "reads (concat (map (\<lambda>(x, e). indentAt (d + 1) @ x @ '' = '' @ printExpr T isp e @ nl) bs) @ indentAt d @ ''}'' @ nl)
      (concat (map (branchToks T) bs) @ [rbrace]) r"
    by (rule reads_concat) (use ParallelStmt reads_branch [of T isp _ "indentAt (d + 1)"] reads_closing [of "indentAt d" r] in
      \<open>fastforce simp: list_all_iff\<close>)+
  then have "reads (''parallel'' @ '' '' @ ''{'' @ nl @ concat (map (\<lambda>(x, e). indentAt (d + 1) @ x @ '' = '' @ printExpr T isp e @ nl) bs) @ indentAt d @ ''}'' @ nl)
      (stmtToks T (ParallelStmt bs)) r"
    unfolding stmtToks.simps by (intro reads_spaced reads_brace_line reads_parallel) simp_all
  then show ?case by (simp add: stmtText_def)
next
  case (ReturnStmt e d r)
  then have "reads (''return'' @ '' '' @ printExpr T isp e @ nl) ((KindReturn, ''return'') # exprToks T e) r"
    by (intro reads_spaced reads_return reads_line reads_expr) simp_all
  then show ?case by (simp add: stmtText_def)
next
  case (ApprovalStmt b dsc redact ws d r)
  then show ?case using reads_approval [of T isp b dsc redact ws d r] by (simp add: stmtText_def)
next
  case (IfStmt c th el d r)
  then have wf: "wfExpr T isp c" "\<And>s. s \<in> set th \<Longrightarrow> wfStmt T isp s" "\<And>s. s \<in> set el \<Longrightarrow> wfStmt T isp s" by (auto simp: list_all_iff)
  have "reads (''{'' @ nl @ concat (map (printStmt T isp (d + 1)) th) @ elseText T isp d el)
      (lbrace # concat (map (stmtToks T) th) @ rbrace # (if el = [] then [] else (KindElse, ''else'') #
        (if length el = 1 \<and> list_all isIf el then concat (map (stmtToks T) el) else lbrace # concat (map (stmtToks T) el) @ [rbrace]))) r"
    by (intro reads_brace_line reads_body reads_else_part IfStmt.IH wf)
  then have "reads (''if'' @ '' '' @ printExpr T isp c @ '' '' @ ''{'' @ nl @ concat (map (printStmt T isp (d + 1)) th) @ elseText T isp d el)
      (stmtToks T (IfStmt c th el)) r"
    unfolding stmtToks.simps by (intro reads_spaced reads_run reads_if reads_expr wf) simp_all
  then show ?case unfolding stmtText_if by simp
next
  case (ForStmt par v e body d r)
  then have wf: "wfExpr T isp e" "wfIdent (identName v)" "\<And>s. s \<in> set body \<Longrightarrow> wfStmt T isp s" by (auto simp: list_all_iff wfName_ident)
  have forT: "reads (''for'' @ '' '' @ identName v @ '' '' @ ''in'' @ '' '' @ printExpr T isp e @ '' '' @ ''{'' @ nl @
        concat (map (printStmt T isp (d + 1)) body) @ indentAt d @ ''}'' @ nl) (stmtToks T (ForStmt False v e body)) r"
    unfolding stmtToks.simps if_False append_Nil
    by (intro reads_spaced reads_run reads_for reads_name reads_expr reads_block_body ForStmt.IH wf) simp_all
  then have "reads (''parallel'' @ '' '' @ ''for'' @ '' '' @ identName v @ '' '' @ ''in'' @ '' '' @ printExpr T isp e @ '' '' @ ''{'' @ nl @
        concat (map (printStmt T isp (d + 1)) body) @ indentAt d @ ''}'' @ nl) ((KindParallel, ''parallel'') # stmtToks T (ForStmt False v e body)) r"
    by (intro reads_spaced reads_parallel) simp_all
  with forT show ?case by (cases par) (simp_all add: stmtText_def printBody_concat)
next
  case (WhileStmt c bnd body d r)
  then have wf: "wfExpr T isp c" "wfBound bnd" "\<And>s. s \<in> set body \<Longrightarrow> wfStmt T isp s" by (auto simp: list_all_iff)
  have toks: "stmtToks T (WhileStmt c bnd body) = (KindWhile, ''while'') # exprToks T c @ (KindIdent, ''limit'') # (KindNumber, showInt bnd) #
      lbrace # concat (map (stmtToks T) body) @ [rbrace]" by (simp add: boundToks_def)
  have "reads (''while'' @ '' '' @ printExpr T isp c @ '' '' @ ''limit'' @ '' '' @ showInt bnd @ '' '' @ ''{'' @ nl @
        concat (map (printStmt T isp (d + 1)) body) @ indentAt d @ ''}'' @ nl) (stmtToks T (WhileStmt c bnd body)) r"
    unfolding toks
    by (intro reads_spaced reads_run reads_while reads_name reads_bound reads_expr reads_block_body WhileStmt.IH wf) simp_all
  then show ?case by (simp add: stmtText_def printBody_concat)
next
  case (RetryStmt c bnd body d r)
  then have wf: "wfExpr T isp c" "wfBound bnd" "\<And>s. s \<in> set body \<Longrightarrow> wfStmt T isp s" by (auto simp: list_all_iff)
  have toks: "stmtToks T (RetryStmt c bnd body) = (KindIdent, ''retry'') # (KindIdent, ''until'') # exprToks T c @
      (KindIdent, ''limit'') # (KindNumber, showInt bnd) # lbrace # concat (map (stmtToks T) body) @ [rbrace]" by (simp add: boundToks_def)
  have "reads (''retry'' @ '' '' @ ''until'' @ '' '' @ printExpr T isp c @ '' '' @ ''limit'' @ '' '' @ showInt bnd @ '' '' @ ''{'' @ nl @
        concat (map (printStmt T isp (d + 1)) body) @ indentAt d @ ''}'' @ nl) (stmtToks T (RetryStmt c bnd body)) r"
    unfolding toks
    by (intro reads_spaced reads_run reads_name reads_bound reads_expr reads_block_body RetryStmt.IH wf) simp_all
  then show ?case by (simp add: stmtText_def printBody_concat)
qed

end
