(* ===== verification/Lang_Reparse.thy ===== *)
theory Lang_Reparse
  imports Lang_Format
begin

text \<open>
  The tokens of a printed workflow declaration are parsed back to the declaration, and with the reading
  of its text this gives the round trip through \<open>terfyn fmt\<close>.
\<close>

subsection \<open>Lists in brackets\<close>

definition folS :: "kind set" where
  "folS = fol1 \<union> {KindElse, KindEquals, KindColon, KindComma}"

lemmas fol_defs = folS_def fol1_def fol2_def fol3_def fol4_def

text \<open>\<open>loops\<close>: the loop \<open>p\<close> reads \<open>ks\<close> as \<open>x\<close> up to a token of kind \<open>k\<close>.\<close>

definition loops :: "'a parser \<Rightarrow> key list \<Rightarrow> 'a \<Rightarrow> kind \<Rightarrow> bool" where
  "loops p ks x k \<longleftrightarrow>
     (\<forall>st ts us. pp_toks st = ts @ us \<longrightarrow> map key ts = ks \<longrightarrow> headKind us = k \<longrightarrow> p st = Some (x, st\<lparr>pp_toks := us\<rparr>))"

lemma loopsD:
  "loops p ks x k \<Longrightarrow> pp_toks st = ts @ us \<Longrightarrow> map key ts = ks \<Longrightarrow> headKind us = k \<Longrightarrow> p st = Some (x, st\<lparr>pp_toks := us\<rparr>)"
  by (simp add: loops_def)

lemma bracket_parses:
  assumes "loops p ks x k'"
  shows "parses (\<lambda>st. case expect k st of (False, st1) \<Rightarrow> Some (z, st1)
      | (True, st1) \<Rightarrow> do { (x, st2) \<leftarrow> p st1; Some (f x, snd (expect k' st2)) }) ((k, s) # ks @ [(k', s')]) (f x) S"
proof (rule parsesI)
  fix st :: pstate and ts us
  assume st: "pp_toks st = ts @ us" "map key ts = (k, s) # ks @ [(k', s')]"
  then obtain t ts' t' where t: "ts = t # ts' @ [t']" "tk_Kind t = k" "map key ts' = ks" "tk_Kind t' = k'"
    by (auto simp: map_eq_append_conv map_eq_Cons_conv key_def)
  have "p (st\<lparr>pp_toks := ts' @ t' # us\<rparr>) = Some (x, st\<lparr>pp_toks := t' # us\<rparr>)"
    using loopsD [OF assms, of "st\<lparr>pp_toks := ts' @ t' # us\<rparr>" ts' "t' # us"] t by simp
  then show "(case expect k st of (False, st1) \<Rightarrow> Some (z, st1)
      | (True, st1) \<Rightarrow> do { (x, st2) \<leftarrow> p st1; Some (f x, snd (expect k' st2)) }) = Some (f x, st\<lparr>pp_toks := us\<rparr>)"
    using st t by (simp add: expect_def advance_def)
qed

text \<open>A loop that reads the items of a list one after the other.\<close>

lemma loops_items:
  assumes fin: "\<And>n acc st. headKind (pp_toks st) = k \<Longrightarrow> loop (Suc n) acc st = Some (acc, st)"
    and step: "\<And>n acc st x ts us. x \<in> set xs \<Longrightarrow> pp_toks st = ts @ us \<Longrightarrow> map key ts = g x \<Longrightarrow>
      headKind us = k \<or> (\<exists>y \<in> set xs. headKind us = fst (hd (g y))) \<Longrightarrow> loop (Suc n) acc st = loop n (acc @ [x]) (st\<lparr>pp_toks := us\<rparr>)"
    and ne: "\<And>x. x \<in> set xs \<Longrightarrow> g x \<noteq> []" and n: "length xs < n"
  shows "loops (loop n acc) (concat (map g xs)) (acc @ xs) k"
proof -
  have "loop n acc st = Some (acc @ ys, st\<lparr>pp_toks := us\<rparr>)"
    if "set ys \<subseteq> set xs" "pp_toks st = ts @ us" "map key ts = concat (map g ys)" "headKind us = k" "length ys < n" for ys st ts us n acc
    using that
  proof (induction ys arbitrary: acc st ts n)
    case Nil
    then have "st\<lparr>pp_toks := us\<rparr> = st" "headKind (pp_toks st) = k" by simp_all
    then show ?case using Nil fin by (cases n) simp_all
  next
    case (Cons y ys)
    obtain m where m: "n = Suc m" "length ys < m" using Cons.prems(5) by (cases n) auto
    obtain ts1 ts2 where t: "ts = ts1 @ ts2" "map key ts1 = g y" "map key ts2 = concat (map g ys)"
      using Cons.prems(3) by (auto simp: map_eq_append_conv)
    have "headKind (ts2 @ us) = k \<or> (\<exists>z \<in> set xs. headKind (ts2 @ us) = fst (hd (g z)))"
    proof (cases ys)
      case (Cons z zs)
      then have "g z \<noteq> []" using ne Cons.prems(1) by simp
      then have "headKind (ts2 @ us) = fst (hd (g z))" using t(3) Cons headKind_run [OF t(3), of us] by simp
      then show ?thesis using Cons Cons.prems(1) by auto
    qed (use t(3) Cons.prems(4) in simp)
    then have "loop n acc st = loop m (acc @ [y]) (st\<lparr>pp_toks := ts2 @ us\<rparr>)"
      using step [of y st ts1 "ts2 @ us" m acc] Cons.prems t m by simp
    then show ?case using Cons.IH [of "st\<lparr>pp_toks := ts2 @ us\<rparr>" ts2 m "acc @ [y]"] Cons.prems t m by simp
  qed
  from this [of xs] show ?thesis using n by (simp add: loops_def)
qed

lemma concat_length: "x \<in> set xs \<Longrightarrow> length (g x) \<le> length (concat (map g xs))"
  by (induction xs) auto

lemma concat_count: "(\<And>x. x \<in> set xs \<Longrightarrow> g x \<noteq> []) \<Longrightarrow> length xs \<le> length (concat (map g xs))"
proof (induction xs)
  case (Cons x xs)
  then have "0 < length (g x)" by simp
  then show ?case using Cons by (simp add: Suc_le_eq add_strict_increasing)
qed simp

lemma stringList_loops: "length ss < n \<Longrightarrow> loops (stringList n acc) (concat (map (\<lambda>s. [(KindString, s)]) ss)) (acc @ ss) KindRBrace"
  by (rule loops_items) (auto simp: cur_kind map_eq_Cons_conv key_def advance_def)

lemma parseStringListBlock_toks:
  assumes "length ss < n"
  shows "parses (parseStringListBlock n) (lbrace # map (Pair KindString) ss @ [rbrace]) ss S"
proof -
  have "concat (map (\<lambda>s. [(KindString, s)]) ss) = map (Pair KindString) ss" by (induction ss) simp_all
  with stringList_loops [OF assms, of "[]"] have "loops (stringList n []) (map (Pair KindString) ss) ss KindRBrace" by simp
  then show ?thesis unfolding parseStringListBlock_def [abs_def] by (rule bracket_parses [where f = "\<lambda>x. x"])
qed

lemma withArgs_loops:
  assumes "\<And>a. a \<in> set ws \<Longrightarrow> wfArg T isp a \<and> fst a \<noteq> None \<and> parses pe (exprToks T (snd a)) (snd a) fol1" "length ws < n"
  shows "loops (withArgs n pe acc) (concat (map (argToks T) ws)) (acc @ ws) KindRBrace"
proof (rule loops_items)
  have kind: "fst (hd (argToks T a)) = KindIdent" if "a \<in> set ws" for a
    using assms(1) [OF that] by (auto simp: argToks_def labelToks_def)
  fix n acc and st :: pstate and x ts us
  show "headKind (pp_toks st) = KindRBrace \<Longrightarrow> withArgs (Suc n) pe acc st = Some (acc, st)" by (simp add: cur_kind)
  show "argToks T x \<noteq> []" if "x \<in> set ws" using assms(1) [OF that] argToks_start by blast
  assume x: "x \<in> set ws" and st: "pp_toks st = ts @ us" "map key ts = argToks T x"
    and us: "headKind us = KindRBrace \<or> (\<exists>y \<in> set ws. headKind us = fst (hd (argToks T y)))"
  then have h: "headKind us \<in> {KindRBrace, KindIdent}" using kind by auto
  have "curKind st = KindIdent" using headKind_run [OF st(2), of us] argToks_start [of T isp x] assms(1) [OF x] kind [OF x] st
    by (simp add: cur_kind)
  moreover have "parseArg pe st = Some (Some x, st\<lparr>pp_toks := us\<rparr>)"
    by (rule parsesD [OF parseArg_toks st]) (use assms(1) [OF x] h in \<open>auto simp: fol_defs\<close>)
  ultimately show "withArgs (Suc n) pe acc st = withArgs n pe (acc @ [x]) (st\<lparr>pp_toks := us\<rparr>)"
    using h by (auto simp: cur_kind [of "st\<lparr>pp_toks := us\<rparr>"])
qed (rule assms(2))

lemma branchList_loops:
  assumes "\<And>b. b \<in> set bs \<Longrightarrow> parses pe (exprToks T (snd b)) (snd b) fol1" "length bs < n"
  shows "loops (branchList n pe acc) (concat (map (branchToks T) bs)) (acc @ bs) KindRBrace"
proof (rule loops_items)
  fix n acc and st :: pstate and x ts us
  show "headKind (pp_toks st) = KindRBrace \<Longrightarrow> branchList (Suc n) pe acc st = Some (acc, st)" by (simp add: cur_kind)
  show "branchToks T x \<noteq> []" by (simp add: branchToks_def)
  assume x: "x \<in> set bs" and st: "pp_toks st = ts @ us" "map key ts = branchToks T x"
    and us: "headKind us = KindRBrace \<or> (\<exists>y \<in> set bs. headKind us = fst (hd (branchToks T y)))"
  then have h: "headKind us \<notin> fol1" by (auto simp: branchToks_def fol_defs)
  obtain t e ts' where t: "ts = t # e # ts'" "tk_Kind t = KindIdent" "tk_Lit t = fst x" "tk_Kind e = KindEquals" "map key ts' = exprToks T (snd x)"
    using st(2) by (auto simp: branchToks_def map_eq_Cons_conv key_def)
  have "pe (st\<lparr>pp_toks := ts' @ us\<rparr>) = Some (snd x, st\<lparr>pp_toks := us\<rparr>)"
    using parsesD [OF assms(1) [OF x], of "st\<lparr>pp_toks := ts' @ us\<rparr>" ts' us] t h by simp
  then show "branchList (Suc n) pe acc st = branchList n pe (acc @ [x]) (st\<lparr>pp_toks := us\<rparr>)"
    using st t peek_kind [of st t "e # ts' @ us"] by (cases x) (simp add: advance_def)
qed (rule assms(2))

subsection \<open>Approvals\<close>

text \<open>One field of an approval, and an optional one.\<close>

lemma approvalFields_step:
  assumes st: "pp_toks st = t # ts @ us" "key t = (KindIdent, f)" "map key ts = ks" and f: "f \<notin> set seen"
    and field: "\<And>st p. pp_toks st = ts @ us \<Longrightarrow> approvalField n pe f p a st = Some (a', st\<lparr>pp_toks := us\<rparr>)"
  shows "approvalFields (Suc n) pe seen a st = approvalFields n pe (f # seen) a' (st\<lparr>pp_toks := us\<rparr>)"
proof -
  have "approvalField n pe f (tk_Pos t) a (st\<lparr>pp_toks := ts @ us\<rparr>) = Some (a', st\<lparr>pp_toks := us\<rparr>)"
    using field [of "st\<lparr>pp_toks := ts @ us\<rparr>"] by simp
  then show ?thesis using st f by (simp add: key_def advance_def)
qed

lemma approvalFields_option:
  assumes n: "0 < n" and st: "pp_toks st = ts @ us" "map key ts = (if b then (KindIdent, f) # ks else [])" and f: "f \<notin> set seen"
    and field: "\<And>m st p ts. b \<Longrightarrow> n = Suc m \<Longrightarrow> pp_toks st = ts @ us \<Longrightarrow> map key ts = ks \<Longrightarrow> approvalField m pe f p a st = Some (a', st\<lparr>pp_toks := us\<rparr>)"
    and same: "\<not> b \<Longrightarrow> a' = a"
  shows "\<exists>m seen'. n \<le> Suc m \<and> set seen' \<subseteq> insert f (set seen) \<and>
    approvalFields n pe seen a st = approvalFields m pe seen' a' (st\<lparr>pp_toks := us\<rparr>)"
proof (cases b)
  case True
  obtain m where m: "n = Suc m" using n by (cases n) auto
  obtain t ts' where t: "ts = t # ts'" "key t = (KindIdent, f)" "map key ts' = ks" using st(2) True by (auto simp: map_eq_Cons_conv)
  have "approvalFields (Suc m) pe seen a st = approvalFields m pe (f # seen) a' (st\<lparr>pp_toks := us\<rparr>)"
    by (rule approvalFields_step [OF _ t(2,3) f]) (use st t True m field in auto)
  then show ?thesis using m by (intro exI [of _ m] exI [of _ "f # seen"]) simp
next
  case False
  then have "st\<lparr>pp_toks := us\<rparr> = st" using st by simp
  then show ?thesis using same [OF False] by (intro exI [of _ n] exI [of _ seen]) auto
qed

lemma approvalFields_loops:
  assumes ws: "\<And>a. a \<in> set ws \<Longrightarrow> wfArg T isp a \<and> fst a \<noteq> None \<and> parses pe (exprToks T (snd a)) (snd a) fol1"
    and n: "length redact + length ws + 5 < n"
  shows "loops (approvalFields n pe [] noFields) (descToks d @ redactToks redact @ withToks T ws)
    \<lparr>af_Description = d, af_RedactKeys = redact, af_With = ws\<rparr> KindRBrace"
  unfolding loops_def
proof (intro allI impI)
  fix st :: pstate and ts us
  assume st: "pp_toks st = ts @ us" "map key ts = descToks d @ redactToks redact @ withToks T ws" "headKind us = KindRBrace"
  then obtain ts1 ts2 ts3 where t: "ts = ts1 @ ts2 @ ts3" "map key ts1 = descToks d" "map key ts2 = redactToks redact" "map key ts3 = withToks T ws"
    by (auto simp: map_eq_append_conv append_eq_map_conv)
  let ?a1 = "noFields\<lparr>af_Description := d\<rparr>" and ?a2 = "noFields\<lparr>af_Description := d, af_RedactKeys := redact\<rparr>"
  let ?a3 = "noFields\<lparr>af_Description := d, af_RedactKeys := redact, af_With := ws\<rparr>"
  have "\<exists>m seen. n \<le> Suc m \<and> set seen \<subseteq> insert ''description'' (set []) \<and>
      approvalFields n pe [] noFields st = approvalFields m pe seen ?a1 (st\<lparr>pp_toks := ts2 @ ts3 @ us\<rparr>)"
  proof (rule approvalFields_option)
    show "pp_toks st = ts1 @ (ts2 @ ts3 @ us)" using st t by simp
    show "map key ts1 = (if d \<noteq> None then (KindIdent, ''description'') # [(KindString, the d)] else [])"
      using t(2) by (auto simp: descToks_def)
    show "?a1 = noFields" if "\<not> d \<noteq> None" using that by (simp add: noFields_def)
    fix m p and st :: pstate and ts assume "d \<noteq> None" "pp_toks st = ts @ ts2 @ ts3 @ us" "map key ts = [(KindString, the d)]"
    then show "approvalField m pe ''description'' p noFields st = Some (?a1, st\<lparr>pp_toks := ts2 @ ts3 @ us\<rparr>)"
      by (auto simp: approvalField_def parseStringLit_def map_eq_Cons_conv key_def)
  qed (use n in simp_all)
  then obtain n1 s1 where 1: "n \<le> Suc n1" "set s1 \<subseteq> {''description''}"
    "approvalFields n pe [] noFields st = approvalFields n1 pe s1 ?a1 (st\<lparr>pp_toks := ts2 @ ts3 @ us\<rparr>)" by auto
  have "\<exists>m seen. n1 \<le> Suc m \<and> set seen \<subseteq> insert ''redactKeys'' (set s1) \<and>
      approvalFields n1 pe s1 ?a1 (st\<lparr>pp_toks := ts2 @ ts3 @ us\<rparr>) = approvalFields m pe seen ?a2 ((st\<lparr>pp_toks := ts2 @ ts3 @ us\<rparr>)\<lparr>pp_toks := ts3 @ us\<rparr>)"
  proof (rule approvalFields_option)
    show "pp_toks (st\<lparr>pp_toks := ts2 @ ts3 @ us\<rparr>) = ts2 @ (ts3 @ us)" by simp
    show "map key ts2 = (if redact \<noteq> [] then (KindIdent, ''redactKeys'') # (lbrace # map (Pair KindString) redact @ [rbrace]) else [])"
      using t(3) by (auto simp: redactToks_def)
    show "''redactKeys'' \<notin> set s1" using 1(2) by auto
    show "?a2 = ?a1" if "\<not> redact \<noteq> []" using that by (simp add: noFields_def)
    fix m p and st :: pstate and ts assume "n1 = Suc m" "pp_toks st = ts @ ts3 @ us" "map key ts = lbrace # map (Pair KindString) redact @ [rbrace]"
    then have "parseStringListBlock m st = Some (redact, st\<lparr>pp_toks := ts3 @ us\<rparr>)"
      using n 1(1) by (intro parsesD [OF parseStringListBlock_toks [of redact m "{}"]]) auto
    then show "approvalField m pe ''redactKeys'' p ?a1 st = Some (?a2, st\<lparr>pp_toks := ts3 @ us\<rparr>)" by (simp add: approvalField_def)
  qed (use n 1 in simp_all)
  then obtain n2 s2 where 2: "n1 \<le> Suc n2" "set s2 \<subseteq> {''description'', ''redactKeys''}"
    "approvalFields n pe [] noFields st = approvalFields n2 pe s2 ?a2 (st\<lparr>pp_toks := ts3 @ us\<rparr>)" using 1 by auto
  have "\<exists>m seen. n2 \<le> Suc m \<and> set seen \<subseteq> insert ''with'' (set s2) \<and>
      approvalFields n2 pe s2 ?a2 (st\<lparr>pp_toks := ts3 @ us\<rparr>) = approvalFields m pe seen ?a3 ((st\<lparr>pp_toks := ts3 @ us\<rparr>)\<lparr>pp_toks := us\<rparr>)"
  proof (rule approvalFields_option)
    show "pp_toks (st\<lparr>pp_toks := ts3 @ us\<rparr>) = ts3 @ us" by simp
    show "map key ts3 = (if ws \<noteq> [] then (KindIdent, ''with'') # (lbrace # concat (map (argToks T) ws) @ [rbrace]) else [])"
      using t(4) by (auto simp: withToks_def)
    show "''with'' \<notin> set s2" using 2(2) by auto
    show "?a3 = ?a2" if "\<not> ws \<noteq> []" using that by (simp add: noFields_def)
    fix m p and st :: pstate and ts assume m: "n2 = Suc m" "pp_toks st = ts @ us" "map key ts = lbrace # concat (map (argToks T) ws) @ [rbrace]"
    have "loops (withArgs m pe []) (concat (map (argToks T) ws)) ([] @ ws) KindRBrace"
      by (rule withArgs_loops) (use ws n m 1 2 in auto)
    then have "parses (parseApprovalWith m pe) (lbrace # concat (map (argToks T) ws) @ [rbrace]) ws {}"
      unfolding parseApprovalWith_def [abs_def] append_Nil by (rule bracket_parses [where f = "\<lambda>x. x"])
    from parsesD [OF this m(2,3)] show "approvalField m pe ''with'' p ?a2 st = Some (?a3, st\<lparr>pp_toks := us\<rparr>)" by (simp add: approvalField_def)
  qed (use n 1 2 in simp_all)
  then obtain n3 s3 where 3: "n2 \<le> Suc n3" "approvalFields n pe [] noFields st = approvalFields n3 pe s3 ?a3 (st\<lparr>pp_toks := us\<rparr>)"
    using 2 by auto
  obtain n4 where "n3 = Suc n4" using n 1 2 3 by (cases n3) auto
  then show "approvalFields n pe [] noFields st = Some (\<lparr>af_Description = d, af_RedactKeys = redact, af_With = ws\<rparr>, st\<lparr>pp_toks := us\<rparr>)"
    using 3(2) st(3) by (simp add: cur_kind noFields_def)
qed

lemma parseApproval_toks:
  assumes wf: "wfApproval T isp b d redact ws" and pe: "\<And>a. a \<in> set ws \<Longrightarrow> parses pe (exprToks T (snd a)) (snd a) fol1"
    and n: "length redact + length ws + 5 < n"
  shows "parses (parseApproval n pe) (approvalToks T b d redact ws) (ApprovalStmt b d redact ws) S"
proof (rule parsesI)
  fix st :: pstate and ts us
  assume st: "pp_toks st = ts @ us" "map key ts = approvalToks T b d redact ws"
  let ?ks = "descToks d @ redactToks redact @ withToks T ws"
  have eq: "approvalToks T b d redact ws = (KindIdent, ''approval'') # (KindIdent, identName b) # lbrace # ?ks @ [rbrace]"
    by (simp add: approvalToks_def)
  obtain t i ts' where t: "ts = t # i # ts'" "tk_Kind i = KindIdent" "tk_Lit i = identName b" "map key ts' = lbrace # ?ks @ [rbrace]"
    using st(2) unfolding eq map_eq_Cons_conv by (clarsimp simp: key_def)
  have b: "b = Some (identName b)" using wf by (auto simp: wfApproval_def wfName_def identName_def split: option.splits)
  have "loops (approvalFields n pe [] noFields) ?ks \<lparr>af_Description = d, af_RedactKeys = redact, af_With = ws\<rparr> KindRBrace"
    by (rule approvalFields_loops) (use wf pe n in \<open>auto simp: wfApproval_def list_all_iff\<close>)
  then have P: "parses (\<lambda>st. case expect KindLBrace st of (False, st2) \<Rightarrow> Some (ApprovalStmt b None [] [], st2)
        | (True, st2) \<Rightarrow> do { (a, st3) \<leftarrow> approvalFields n pe [] noFields st2;
              Some (ApprovalStmt b (af_Description a) (af_RedactKeys a) (af_With a), snd (expect KindRBrace st3)) })
      (lbrace # ?ks @ [rbrace]) (ApprovalStmt b d redact ws) {}"
    using bracket_parses [where f = "\<lambda>a. ApprovalStmt b (af_Description a) (af_RedactKeys a) (af_With a)"] by fastforce
  have "ident (advance st) = (b, st\<lparr>pp_toks := ts' @ us\<rparr>)"
    using st t b ident_Cons [of "advance st" i "ts' @ us"] by (simp add: advance_def)
  then show "parseApproval n pe st = Some (ApprovalStmt b d redact ws, st\<lparr>pp_toks := us\<rparr>)"
    using parsesD [OF P, of "st\<lparr>pp_toks := ts' @ us\<rparr>" ts' us] t(4) by (simp add: parseApproval_def)
qed

subsection \<open>Statements\<close>

definition stmtStarts :: "kind set" where
  "stmtStarts = {KindIdent, KindReturn, KindIf, KindFor, KindWhile, KindParallel}"

lemma stmtToks_start: "wfStmt T isp s \<Longrightarrow> stmtToks T s \<noteq> [] \<and> fst (hd (stmtToks T s)) \<in> stmtStarts"
proof (cases s)
  case (ExprStmt e)
  then show "wfStmt T isp s \<Longrightarrow> ?thesis" using exprToks_start [of T isp e] by (auto simp: wfExprStmt_def stmtStarts_def)
qed (auto simp: branchToks_def approvalToks_def stmtStarts_def)

lemma stmtList_loops:
  assumes "\<And>s. s \<in> set ss \<Longrightarrow> wfStmt T isp s \<and> parses ps (stmtToks T s) (Some s) folS" "length ss < n"
  shows "loops (stmtList n ps acc) (concat (map (stmtToks T) ss)) (acc @ ss) KindRBrace"
proof (rule loops_items)
  fix n acc and st :: pstate and x ts us
  show "headKind (pp_toks st) = KindRBrace \<Longrightarrow> stmtList (Suc n) ps acc st = Some (acc, st)" by (simp add: cur_kind)
  show "stmtToks T x \<noteq> []" if "x \<in> set ss" using assms(1) [OF that] stmtToks_start by blast
  assume x: "x \<in> set ss" and st: "pp_toks st = ts @ us" "map key ts = stmtToks T x"
    and us: "headKind us = KindRBrace \<or> (\<exists>y \<in> set ss. headKind us = fst (hd (stmtToks T y)))"
  then have "headKind us = KindRBrace \<or> headKind us \<in> stmtStarts" using assms(1) stmtToks_start by fastforce
  then have "headKind us \<notin> folS" by (auto simp: stmtStarts_def fol_defs)
  then have "ps st = Some (Some x, st\<lparr>pp_toks := us\<rparr>)" using assms(1) [OF x] st by (blast intro: parsesD)
  moreover have "curKind st \<in> stmtStarts"
    using headKind_run [OF st(2), of us] stmtToks_start [of T isp x] assms(1) [OF x] st by (simp add: cur_kind)
  ultimately show "stmtList (Suc n) ps acc st = stmtList n ps (acc @ [x]) (st\<lparr>pp_toks := us\<rparr>)"
    by (auto simp: stmtStarts_def)
qed (rule assms(2))

abbreviation bodyToks :: "go_text \<Rightarrow> stmt list \<Rightarrow> key list" where
  "bodyToks T ss \<equiv> lbrace # concat (map (stmtToks T) ss) @ [rbrace]"

definition stmtOK :: "go_text \<Rightarrow> stmt \<Rightarrow> bool" where
  "stmtOK T s \<longleftrightarrow>
     (\<forall>n. length (stmtToks T s) + 2 < n \<longrightarrow> parses (parseStmt T n) (stmtToks T s) (Some s) folS) \<and>
     (isIf s \<longrightarrow> (\<forall>n k. length (stmtToks T s) + 1 < n \<longrightarrow> length (stmtToks T s) < k \<longrightarrow>
        parses (parseIf k (parseExpr T n) (parseBlock n (parseStmt T n))) (stmtToks T s) s folS))"

lemma parseBlock_toks:
  assumes ok: "\<And>s. s \<in> set ss \<Longrightarrow> wfStmt T isp s \<and> stmtOK T s" and n: "length (bodyToks T ss) < n"
  shows "parses (parseBlock n (parseStmt T n)) (bodyToks T ss) ss S"
proof -
  have "parses (parseStmt T n) (stmtToks T s) (Some s) folS" if "s \<in> set ss" for s
    using ok [OF that] concat_length [OF that, of "stmtToks T"] n by (simp add: stmtOK_def)
  moreover have "length ss < n" using concat_count [of ss "stmtToks T"] ok stmtToks_start n by fastforce
  ultimately have "loops (stmtList n (parseStmt T n) []) (concat (map (stmtToks T) ss)) ([] @ ss) KindRBrace"
    using ok by (intro stmtList_loops [of ss T isp]) auto
  then show ?thesis unfolding parseBlock_def [abs_def] append_Nil by (rule bracket_parses [where f = "\<lambda>x. x"])
qed

lemma someStmt_toks: "parses p ks s S \<Longrightarrow> parses (someStmt p) ks (Some s) S"
  by (simp add: parses_def someStmt_def)

text \<open>Two parsers in sequence; the second starts with a token the first one stops at.\<close>

lemma parses_bind:
  assumes p: "parses p ks x S" and q: "parses (q x) ks' y S'" and ks': "ks' \<noteq> []" "fst (hd ks') \<notin> S"
  shows "parses (\<lambda>st. do { (x, st1) \<leftarrow> p st; q x st1 }) (ks @ ks') y S'"
proof (rule parsesI)
  fix st :: pstate and ts us
  assume st: "pp_toks st = ts @ us" "map key ts = ks @ ks'" "headKind us \<notin> S'"
  then obtain ts1 ts2 where t: "ts = ts1 @ ts2" "map key ts1 = ks" "map key ts2 = ks'" by (auto simp: map_eq_append_conv)
  have "p st = Some (x, st\<lparr>pp_toks := ts2 @ us\<rparr>)"
    using parsesD [OF p, of st ts1 "ts2 @ us"] st t headKind_run [OF t(3) ks'(1), of us] ks'(2) by simp
  moreover have "q x (st\<lparr>pp_toks := ts2 @ us\<rparr>) = Some (y, st\<lparr>pp_toks := us\<rparr>)"
    using parsesD [OF q, of "st\<lparr>pp_toks := ts2 @ us\<rparr>" ts2 us] st t by simp
  ultimately show "do { (x, st1) \<leftarrow> p st; q x st1 } = Some (y, st\<lparr>pp_toks := us\<rparr>)" by simp
qed

lemma parses_advance: "parses p ks x S \<Longrightarrow> parses (\<lambda>st. p (advance st)) (k # ks) x S"
  unfolding parses_def
proof (intro allI impI)
  fix st :: pstate and ts us
  assume p: "\<forall>st ts us. pp_toks st = ts @ us \<longrightarrow> map key ts = ks \<longrightarrow> headKind us \<notin> S \<longrightarrow> p st = Some (x, st\<lparr>pp_toks := us\<rparr>)"
    and st: "pp_toks st = ts @ us" "map key ts = k # ks" "headKind us \<notin> S"
  then obtain t ts' where "ts = t # ts'" "map key ts' = ks" by (auto simp: map_eq_Cons_conv)
  then show "p (advance st) = Some (x, st\<lparr>pp_toks := us\<rparr>)" using p st by (simp add: advance_def)
qed

lemma parses_return: "parses p ks x S \<Longrightarrow> parses (\<lambda>st. do { (x, st1) \<leftarrow> p st; Some (f x, st1) }) ks (f x) S"
  by (simp add: parses_def)

lemma parses_cong:
  assumes "parses q ks x S" "\<And>st ts us. pp_toks st = ts @ us \<Longrightarrow> map key ts = ks \<Longrightarrow> headKind us \<notin> S \<Longrightarrow> p st = q st"
  shows "parses p ks x S"
  using assms by (simp add: parses_def)

lemma boundClause_toks: "wfBound i \<Longrightarrow> parses (\<lambda>st. Some (boundClause st)) (boundToks i) i S"
proof (rule parsesI)
  fix st :: pstate and ts us
  assume i: "wfBound i" and st: "pp_toks st = ts @ us" "map key ts = boundToks i"
  then obtain t u where t: "ts = [t, u]" "tk_Kind t = KindIdent" "tk_Lit t = ''limit''" "tk_Kind u = KindNumber" "tk_Lit u = showInt i"
    by (auto simp: boundToks_def map_eq_Cons_conv key_def)
  have "CHR ''.'' \<notin> set (showInt i)" using showInt_nonneg [of i] i by (auto simp: wfBound_def list_all_iff isDigit_def between_def)
  then show "Some (boundClause st) = Some (i, st\<lparr>pp_toks := us\<rparr>)"
    using st t i ParseInt_showInt [of i] by (simp add: boundClause_def isWord_def parseLimit_def advance_def Let_def wfBound_def)
qed

lemma limited_toks:
  assumes c: "parses pe (exprToks T c) c fol1" and i: "wfBound i" and body: "parses pb (bodyToks T body) body S"
  shows "parses (\<lambda>st. do { (c, st1) \<leftarrow> pe st; let (lim, st2) = boundClause st1 in do { (b, st3) \<leftarrow> pb st2; Some (f c lim b, st3) } })
    (exprToks T c @ boundToks i @ bodyToks T body) (f c i body) S"
proof (rule parses_bind [OF c])
  have "parses (\<lambda>st1. do { (lim, st2) \<leftarrow> Some (boundClause st1); do { (b, st3) \<leftarrow> pb st2; Some (f c lim b, st3) } })
      (boundToks i @ bodyToks T body) (f c i body) S"
    by (rule parses_bind [OF boundClause_toks [OF i, of "{}"] parses_return [OF body]]) simp_all
  then show "parses (\<lambda>st1. let (lim, st2) = boundClause st1 in do { (b, st3) \<leftarrow> pb st2; Some (f c lim b, st3) })
      (boundToks i @ bodyToks T body) (f c i body) S" by (simp add: Let_def)
qed (simp_all add: boundToks_def fol_defs)

lemma parseWhile_toks:
  assumes "parses pe (exprToks T c) c fol1" "wfBound i" "parses pb (bodyToks T body) body S"
  shows "parses (parseWhile pe pb) (stmtToks T (WhileStmt c i body)) (WhileStmt c i body) S"
  using parses_advance [OF limited_toks [OF assms, of WhileStmt], of "(KindWhile, ''while'')"] by (simp add: parseWhile_def [abs_def])

lemma parseRetry_toks:
  assumes "parses pe (exprToks T c) c fol1" "wfBound i" "parses pb (bodyToks T body) body S"
  shows "parses (parseRetry pe pb) (stmtToks T (RetryStmt c i body)) (RetryStmt c i body) S"
  using parses_advance [OF parses_advance [OF limited_toks [OF assms, of RetryStmt], of "(KindIdent, ''until'')"], of "(KindIdent, ''retry'')"]
  by (simp add: parseRetry_def [abs_def])

lemma parseFor_toks:
  assumes e: "parses pe (exprToks T e) e fol1" and v: "wfName v" and body: "parses pb (bodyToks T body) body S"
  shows "parses (parseFor pe pb par) (stmtToks T (ForStmt False v e body)) (ForStmt par v e body) S"
proof (rule parsesI)
  fix st :: pstate and ts us
  assume st: "pp_toks st = ts @ us" "map key ts = stmtToks T (ForStmt False v e body)" "headKind us \<notin> S"
  let ?ks = "exprToks T e @ bodyToks T body"
  have eq: "stmtToks T (ForStmt False v e body) = (KindFor, ''for'') # (KindIdent, identName v) # (KindIdent, ''in'') # ?ks" by simp
  obtain t i w ts' where t: "ts = t # i # w # ts'" "tk_Kind i = KindIdent" "tk_Lit i = identName v"
      "tk_Kind w = KindIdent" "tk_Lit w = ''in''" "map key ts' = ?ks"
    using st(2) unfolding eq map_eq_Cons_conv by (clarsimp simp: key_def)
  have v': "v = Some (identName v)" using v by (auto simp: wfName_def identName_def split: option.splits)
  then have "ident (advance st) = (v, st\<lparr>pp_toks := w # ts' @ us\<rparr>)"
    using st t ident_Cons [of "advance st" i "w # ts' @ us"] by (simp add: advance_def)
  moreover have "parses (\<lambda>st. do { (c, st3) \<leftarrow> pe st; (b, st4) \<leftarrow> pb st3; Some (ForStmt par v c b, st4) }) ?ks (ForStmt par v e body) S"
    by (rule parses_bind [OF e parses_return [OF body]]) (simp_all add: fol_defs)
  from parsesD [OF this, of "st\<lparr>pp_toks := ts' @ us\<rparr>" ts' us]
  have "do { (c, st3) \<leftarrow> pe (st\<lparr>pp_toks := ts' @ us\<rparr>); (b, st4) \<leftarrow> pb st3; Some (ForStmt par v c b, st4) } = Some (ForStmt par v e body, st\<lparr>pp_toks := us\<rparr>)"
    using t st by simp
  ultimately show "parseFor pe pb par st = Some (ForStmt par v e body, st\<lparr>pp_toks := us\<rparr>)"
    using t by (simp add: parseFor_def isWord_def advance_def)
qed

definition elseToks :: "go_text \<Rightarrow> stmt list \<Rightarrow> key list" where
  "elseToks T el =
     (if el = [] then []
      else (KindElse, ''else'') #
        (if length el = 1 \<and> list_all isIf el then concat (map (stmtToks T) el) else bodyToks T el))"

lemma if_toks: "stmtToks T (IfStmt c th el) = (KindIf, ''if'') # exprToks T c @ bodyToks T th @ elseToks T el"
  by (simp add: elseToks_def)

lemma isIf_toks: "isIf s \<Longrightarrow> \<exists>ks. stmtToks T s = (KindIf, ''if'') # ks"
  by (cases s) (auto simp: isIf_def)

lemma key_split3:
  assumes "map key ts = k # a @ b @ c"
  obtains t ts1 ts2 ts3 where "ts = t # ts1 @ ts2 @ ts3" "map key ts1 = a" "map key ts2 = b" "map key ts3 = c"
  using assms by (auto simp: map_eq_Cons_conv map_eq_append_conv append_eq_map_conv)

lemma parseIf_toks:
  assumes c: "parses pe (exprToks T c) c fol1" and th: "parses pb (bodyToks T th) th {}"
    and nested: "\<And>e. el = [e] \<Longrightarrow> isIf e \<Longrightarrow> parses (parseIf k pe pb) (stmtToks T e) e folS"
    and el: "el \<noteq> [] \<Longrightarrow> \<not> (length el = 1 \<and> list_all isIf el) \<Longrightarrow> parses pb (bodyToks T el) el {}"
  shows "parses (parseIf (Suc k) pe pb) (stmtToks T (IfStmt c th el)) (IfStmt c th el) folS"
proof -
  let ?q = "\<lambda>st2. if curKind st2 = KindElse then
         (let st3 = advance st2 in
          if curKind st3 = KindIf then do { (s, st4) \<leftarrow> parseIf k pe pb st3; Some (IfStmt c th [s], st4) }
          else do { (el, st4) \<leftarrow> pb st3; Some (IfStmt c th el, st4) })
       else Some (IfStmt c th [], st2)"
  have q: "parses ?q (elseToks T el) (IfStmt c th el) folS"
  proof (rule parsesI)
    fix st :: pstate and ts us
    assume st: "pp_toks st = ts @ us" "map key ts = elseToks T el" "headKind us \<notin> folS"
    show "?q st = Some (IfStmt c th el, st\<lparr>pp_toks := us\<rparr>)"
    proof (cases "el = []")
      case True
      then have "ts = []" "st\<lparr>pp_toks := us\<rparr> = st" using st by (simp_all add: elseToks_def)
      moreover have "headKind us \<noteq> KindElse" using st(3) by (simp add: folS_def)
      ultimately show ?thesis using True st by (simp add: cur_kind)
    next
      case False
      then obtain t ts' where t: "ts = t # ts'" "tk_Kind t = KindElse"
        "map key ts' = (if length el = 1 \<and> list_all isIf el then concat (map (stmtToks T) el) else bodyToks T el)"
        using st(2) unfolding elseToks_def by (auto simp: map_eq_Cons_conv key_def)
      let ?st3 = "st\<lparr>pp_toks := ts' @ us\<rparr>"
      show ?thesis
      proof (cases "length el = 1 \<and> list_all isIf el")
        case True
        then obtain e where e: "el = [e]" "isIf e" by (cases el) auto
        then have "parseIf k pe pb ?st3 = Some (e, st\<lparr>pp_toks := us\<rparr>)"
          using parsesD [OF nested [OF e], of ?st3 ts' us] t st(3) by simp
        moreover have "curKind ?st3 = KindIf" using isIf_toks [OF e(2), of T] t(3) e by (auto simp: cur_kind map_eq_Cons_conv key_def)
        ultimately show ?thesis using st t e by (simp add: advance_def)
      next
        case noif: False
        then have "pb ?st3 = Some (el, st\<lparr>pp_toks := us\<rparr>)"
          using parsesD [OF el [OF False noif], of ?st3 ts' us] t by simp
        moreover have "curKind ?st3 = KindLBrace" using noif t(3) by (auto simp: cur_kind map_eq_Cons_conv key_def)
        ultimately show ?thesis using st t by (simp add: advance_def)
      qed
    qed
  qed
  show ?thesis
  proof (rule parsesI)
    fix st :: pstate and ts us
    assume st: "pp_toks st = ts @ us" "map key ts = stmtToks T (IfStmt c th el)" "headKind us \<notin> folS"
    obtain t ts1 ts2 ts3 where t: "ts = t # ts1 @ ts2 @ ts3" "map key ts1 = exprToks T c" "map key ts2 = bodyToks T th" "map key ts3 = elseToks T el"
      using key_split3 [OF st(2) [unfolded if_toks]] .
    have "headKind (ts2 @ ts3 @ us) = KindLBrace" using headKind_run [OF t(3), of "ts3 @ us"] by simp
    then have "pe (advance st) = Some (c, st\<lparr>pp_toks := ts2 @ ts3 @ us\<rparr>)"
      using parsesD [OF c, of "advance st" ts1 "ts2 @ ts3 @ us"] st t by (simp add: fol_defs advance_def)
    moreover have "pb (st\<lparr>pp_toks := ts2 @ ts3 @ us\<rparr>) = Some (th, st\<lparr>pp_toks := ts3 @ us\<rparr>)"
      using parsesD [OF th, of "st\<lparr>pp_toks := ts2 @ ts3 @ us\<rparr>" ts2 "ts3 @ us"] t by simp
    moreover have "?q (st\<lparr>pp_toks := ts3 @ us\<rparr>) = Some (IfStmt c th el, st\<lparr>pp_toks := us\<rparr>)"
      using parsesD [OF q, of "st\<lparr>pp_toks := ts3 @ us\<rparr>" ts3 us] t st by simp
    ultimately show "parseIf (Suc k) pe pb st = Some (IfStmt c th el, st\<lparr>pp_toks := us\<rparr>)" by simp
  qed
qed

lemma assign_toks:
  assumes "parses pe (exprToks T e) e fol1"
  shows "parses (stmtBody n pe pb) (branchToks T (x, e)) (Some (AssignStmt x e)) folS"
proof -
  have "parses pe (exprToks T e) e folS" by (rule parses_mono [OF assms]) (auto simp: folS_def)
  then have p: "parses (\<lambda>st. do { (v, st1) \<leftarrow> pe (advance (advance st)); Some (Some (AssignStmt x v), st1) }) (branchToks T (x, e)) (Some (AssignStmt x e)) folS"
    unfolding branchToks_def fst_conv snd_conv
    by (intro parses_return [where p = "\<lambda>st. pe (advance (advance st))"] parses_advance [where p = "\<lambda>st. pe (advance st)"] parses_advance)
  show ?thesis
  proof (rule parses_cong [OF p])
    fix st :: pstate and ts us
    assume "pp_toks st = ts @ us" "map key ts = branchToks T (x, e)"
    then obtain t u ts' where t: "pp_toks st = t # u # ts' @ us" "tk_Kind t = KindIdent" "tk_Lit t = x" "tk_Kind u = KindEquals"
      by (auto simp: branchToks_def map_eq_Cons_conv key_def)
    then have "tk_Kind (peekt st) = KindEquals" using peek_kind by simp
    then show "stmtBody n pe pb st = do { (v, st1) \<leftarrow> pe (advance (advance st)); Some (Some (AssignStmt x v), st1) }"
      using t by (simp add: stmtBody_def parseIdentStmt_def isWord_def)
  qed
qed

text \<open>After a leading identifier an expression ends or continues with one of the tokens in \<open>fol1\<close>.\<close>

definition continues :: "key list \<Rightarrow> bool" where
  "continues ks \<longleftrightarrow> (case ks of k # k' # ks' \<Rightarrow> fst k = KindIdent \<longrightarrow> fst k' \<in> fol1 | _ \<Rightarrow> True)"

lemma continues_append: "continues ks \<Longrightarrow> ks \<noteq> [] \<Longrightarrow> fst k \<in> fol1 \<Longrightarrow> continues (ks @ k # ks')"
  by (cases ks rule: list.exhaust; cases "tl ks") (auto simp: continues_def)

lemma continues_path: "continues (pathToks parts)"
  by (cases parts rule: pathToks.cases) (auto simp: continues_def fol_defs)

lemma exprToks_continues: "wfExpr T isp e \<Longrightarrow> continues (exprToks T e)"
proof (induction T isp e rule: wfExpr.induct)
  case (3 T isp v)
  then show ?case by (cases v) (auto simp: litToks_def continues_def)
next
  case (5 T isp op x y)
  then have "op \<in> fol1" by (auto simp: isComparisonOp_def fol_defs)
  with 5 exprToks_start [of T isp x] show ?case
    by (auto simp: parenToks_def continues_append) (auto simp: continues_def split: list.split)
next
  case (6 T isp parts args)
  then have "pathToks parts \<noteq> []" by (cases parts rule: pathToks.cases) (auto simp: wfPath_def)
  then show ?case by (simp add: continues_append continues_path fol_defs)
qed (auto simp: continues_path, auto simp: continues_def parenToks_def split: list.split)

lemma expr_toks:
  assumes e: "parses pe (exprToks T e) e fol1" and wf: "wfExprStmt T isp e"
  shows "parses (stmtBody n pe pb) (exprToks T e) (Some (ExprStmt e)) folS"
proof (rule parsesI)
  fix st :: pstate and ts us
  assume st: "pp_toks st = ts @ us" "map key ts = exprToks T e" "headKind us \<notin> folS"
  have wfe: "wfExpr T isp e" "fst (hd (exprToks T e)) = KindIdent" using wf by (simp_all add: wfExprStmt_def)
  obtain t ts' where t: "ts = t # ts'" using exprToks_start [OF wfe(1)] st(2) by (cases ts) auto
  have k: "tk_Kind t = KindIdent" using wfe(2) st(2) [symmetric] t by (simp add: key_def)
  have "headKind us \<notin> fol1" using st(3) by (simp add: folS_def)
  then have pe: "pe st = Some (e, st\<lparr>pp_toks := us\<rparr>)" using parsesD [OF e st(1,2)] by simp
  have pk: "tk_Kind (peekt st) = headKind (ts' @ us)" using peek_kind st(1) t by simp
  have "ts' = [] \<Longrightarrow> tk_Lit t \<noteq> ''retry'' \<and> tk_Lit t \<noteq> ''approval''"
    using wf st(2) [symmetric] t k by (auto simp: wfExprStmt_def key_def)
  moreover have "ts' = [] \<Longrightarrow> tk_Kind (peekt st) \<noteq> KindEquals" using pk st(3) by (simp add: folS_def)
  moreover have "ts' \<noteq> [] \<Longrightarrow> tk_Kind (peekt st) \<in> fol1"
    using exprToks_continues [OF wfe(1)] st(2) [symmetric] t k pk by (cases ts') (auto simp: continues_def key_def)
  ultimately have "parseIdentStmt n pe pb st = do { (x, st1) \<leftarrow> pe st; Some (if x = NilExpr then None else Some (ExprStmt x), st1) }"
    using st(1) t k by (cases "ts' = []") (auto simp: parseIdentStmt_def isWord_def fol_defs)
  then show "stmtBody n pe pb st = Some (Some (ExprStmt e), st\<lparr>pp_toks := us\<rparr>)"
    using pe st(1) t k wfExpr_not_Nil [OF wfe(1)] by (simp add: stmtBody_def)
qed

lemma wfExpr_parse: "wfExpr T isp e \<Longrightarrow> length (exprToks T e) + 1 < n \<Longrightarrow> parses (parseExpr T n) (exprToks T e) e fol1"
  using parseExpr_toks [of T isp e n] by simp

lemma if_parses:
  assumes wf: "wfStmt T isp (IfStmt c th el)" and ok: "\<And>s. s \<in> set th \<Longrightarrow> stmtOK T s" "\<And>s. s \<in> set el \<Longrightarrow> stmtOK T s"
    and n: "length (stmtToks T (IfStmt c th el)) + 1 < n" "length (stmtToks T (IfStmt c th el)) < k"
  shows "parses (parseIf k (parseExpr T n) (parseBlock n (parseStmt T n))) (stmtToks T (IfStmt c th el)) (IfStmt c th el) folS"
proof -
  obtain k' where k: "k = Suc k'" using n(2) by (cases k) auto
  note len = n [unfolded if_toks]
  have wfs: "wfExpr T isp c" "\<And>s. s \<in> set th \<Longrightarrow> wfStmt T isp s" "\<And>s. s \<in> set el \<Longrightarrow> wfStmt T isp s" using wf by (auto simp: list_all_iff)
  show ?thesis unfolding k
  proof (rule parseIf_toks)
    show "parses (parseExpr T n) (exprToks T c) c fol1" using len by (intro wfExpr_parse [OF wfs(1)]) simp
    show "parses (parseBlock n (parseStmt T n)) (bodyToks T th) th {}"
      by (rule parseBlock_toks [of th T isp]) (use wfs ok len in auto)
    fix e assume e: "el = [e]" "isIf e"
    then have "elseToks T el = (KindElse, ''else'') # stmtToks T e" by (simp add: elseToks_def)
    then have "length (stmtToks T e) + 1 < n" "length (stmtToks T e) < k'" using len k by simp_all
    then show "parses (parseIf k' (parseExpr T n) (parseBlock n (parseStmt T n))) (stmtToks T e) e folS"
      using ok(2) [of e] e by (simp add: stmtOK_def)
  next
    assume "el \<noteq> []" "\<not> (length el = 1 \<and> list_all isIf el)"
    then have "elseToks T el = (KindElse, ''else'') # bodyToks T el" unfolding elseToks_def by (simp only: if_False)
    then show "parses (parseBlock n (parseStmt T n)) (bodyToks T el) el {}"
      by (intro parseBlock_toks [of el T isp]) (use wfs ok len in auto)
  qed
qed

lemma stmtOK_body:
  assumes "\<not> isIf s" "\<And>n. length (stmtToks T s) + 1 < n \<Longrightarrow> parses (stmtBody n (parseExpr T n) (parseBlock n (parseStmt T n))) (stmtToks T s) (Some s) folS"
  shows "stmtOK T s"
  unfolding stmtOK_def
proof (intro conjI allI impI)
  fix n assume n: "length (stmtToks T s) + 2 < n"
  then obtain m where "n = Suc m" by (cases n) auto
  then show "parses (parseStmt T n) (stmtToks T s) (Some s) folS" using assms(2) [of m] n by simp
qed (use assms(1) in simp)

lemma stmt_ok: "wfStmt T isp s \<Longrightarrow> stmtOK T s"
proof (induction s)
  case (AssignStmt x e)
  show ?case
  proof (rule stmtOK_body)
    fix n assume "length (stmtToks T (AssignStmt x e)) + 1 < n"
    then show "parses (stmtBody n (parseExpr T n) (parseBlock n (parseStmt T n))) (stmtToks T (AssignStmt x e)) (Some (AssignStmt x e)) folS"
      using AssignStmt by (auto simp: branchToks_def wfBranch_def intro!: assign_toks [unfolded branchToks_def, simplified] wfExpr_parse)
  qed (simp add: isIf_def)
next
  case (ExprStmt e)
  show ?case
  proof (rule stmtOK_body)
    fix n assume "length (stmtToks T (ExprStmt e)) + 1 < n"
    then show "parses (stmtBody n (parseExpr T n) (parseBlock n (parseStmt T n))) (stmtToks T (ExprStmt e)) (Some (ExprStmt e)) folS"
      using ExprStmt by (auto simp: wfExprStmt_def intro!: expr_toks [of _ T e isp] wfExpr_parse)
  qed (simp add: isIf_def)
next
  case (ParallelStmt bs)
  show ?case
  proof (rule stmtOK_body)
    fix n assume n: "length (stmtToks T (ParallelStmt bs)) + 1 < n"
    have pe: "parses (parseExpr T n) (exprToks T (snd b)) (snd b) fol1" if "b \<in> set bs" for b
      using ParallelStmt that concat_length [OF that, of "branchToks T"] n
      by (intro wfExpr_parse) (auto simp: list_all_iff wfBranch_def branchToks_def)
    have "length bs < n" using concat_count [of bs "branchToks T"] n by (simp add: branchToks_def)
    then have "loops (branchList n (parseExpr T n) []) (concat (map (branchToks T) bs)) ([] @ bs) KindRBrace"
      using pe by (intro branchList_loops)
    then have "parses (parseParallel n (parseExpr T n)) (stmtToks T (ParallelStmt bs)) (ParallelStmt bs) folS"
      unfolding parseParallel_def [abs_def] append_Nil stmtToks.simps
      by (intro parses_advance [where p = "\<lambda>st. case expect KindLBrace st of (False, st1) \<Rightarrow> Some (ParallelStmt [], st1)
          | (True, st1) \<Rightarrow> do { (bs, st2) \<leftarrow> branchList n (parseExpr T n) [] st1; Some (ParallelStmt bs, snd (expect KindRBrace st2)) }"]
          bracket_parses)
    from someStmt_toks [OF this]
    show "parses (stmtBody n (parseExpr T n) (parseBlock n (parseStmt T n))) (stmtToks T (ParallelStmt bs)) (Some (ParallelStmt bs)) folS"
      by (rule parses_cong) (auto simp: stmtBody_def peekt_def map_eq_Cons_conv key_def)
  qed (simp add: isIf_def)
next
  case (ReturnStmt e)
  show ?case
  proof (rule stmtOK_body)
    fix n assume n: "length (stmtToks T (ReturnStmt e)) + 1 < n"
    have "parses (parseExpr T n) (exprToks T e) e fol1" using n ReturnStmt by (intro wfExpr_parse) auto
    then have "parses (parseExpr T n) (exprToks T e) e folS" by (rule parses_mono) (auto simp: folS_def)
    then have "parses (\<lambda>st. do { (v, st1) \<leftarrow> parseExpr T n (advance st); Some (Some (ReturnStmt v), st1) }) ((KindReturn, ''return'') # exprToks T e) (Some (ReturnStmt e)) folS"
      by (intro parses_return [where p = "\<lambda>st. parseExpr T n (advance st)"] parses_advance)
    then show "parses (stmtBody n (parseExpr T n) (parseBlock n (parseStmt T n))) (stmtToks T (ReturnStmt e)) (Some (ReturnStmt e)) folS"
      unfolding stmtToks.simps by (rule parses_cong) (auto simp: stmtBody_def map_eq_Cons_conv key_def)
  qed (simp add: isIf_def)
next
  case (ApprovalStmt b d redact ws)
  let ?s = "ApprovalStmt b d redact ws"
  have wf: "wfApproval T isp b d redact ws" using ApprovalStmt by simp
  show ?case
  proof (rule stmtOK_body)
    fix n assume n: "length (stmtToks T ?s) + 1 < n"
    have arg: "argToks T a \<noteq> []" if "a \<in> set ws" for a
      using wf that argToks_start [of T isp a] by (auto simp: wfApproval_def list_all_iff)
    have len: "length redact \<le> length (redactToks redact)" "length ws \<le> length (withToks T ws)"
      using concat_count [of ws "argToks T"] arg by (auto simp: redactToks_def withToks_def)
    have "parses (parseExpr T n) (exprToks T (snd a)) (snd a) fol1" if "a \<in> set ws" for a
    proof (rule wfExpr_parse)
      show "wfExpr T isp (snd a)" using wf that by (auto simp: wfApproval_def wfArg_def list_all_iff)
      have "length (argToks T a) \<le> length (withToks T ws)"
        using concat_length [OF that, of "argToks T"] that by (auto simp: withToks_def)
      then show "length (exprToks T (snd a)) + 1 < n" using n by (simp add: approvalToks_def argToks_def)
    qed
    then have "parses (parseApproval n (parseExpr T n)) (approvalToks T b d redact ws) ?s folS"
      using n len by (intro parseApproval_toks [OF wf]) (simp_all add: approvalToks_def)
    from someStmt_toks [OF this]
    show "parses (stmtBody n (parseExpr T n) (parseBlock n (parseStmt T n))) (stmtToks T ?s) (Some ?s) folS"
      unfolding stmtToks.simps
      by (rule parses_cong)
        (auto simp: approvalToks_def stmtBody_def parseIdentStmt_def isWord_def peekt_def map_eq_Cons_conv key_def)
  qed (simp add: isIf_def)
next
  case (IfStmt c th el)
  then have ok: "\<And>s. s \<in> set th \<Longrightarrow> stmtOK T s" "\<And>s. s \<in> set el \<Longrightarrow> stmtOK T s" by (auto simp: list_all_iff)
  note p = if_parses [OF IfStmt.prems ok]
  show ?case unfolding stmtOK_def
  proof (intro conjI allI impI)
    fix n assume n: "length (stmtToks T (IfStmt c th el)) + 2 < n"
    then obtain m where m: "n = Suc m" by (cases n) auto
    have "parses (stmtBody m (parseExpr T m) (parseBlock m (parseStmt T m))) (stmtToks T (IfStmt c th el)) (Some (IfStmt c th el)) folS"
    proof (rule parses_cong [OF someStmt_toks [OF p]])
      show "stmtBody m (parseExpr T m) (parseBlock m (parseStmt T m)) st = someStmt (parseIf m (parseExpr T m) (parseBlock m (parseStmt T m))) st"
        if "pp_toks st = ts @ us" "map key ts = stmtToks T (IfStmt c th el)" for st :: pstate and ts us
        using that unfolding if_toks by (auto simp: stmtBody_def map_eq_Cons_conv key_def)
    qed (use n m in simp_all)
    then show "parses (parseStmt T n) (stmtToks T (IfStmt c th el)) (Some (IfStmt c th el)) folS" by (simp add: m)
  qed (rule p)
next
  case (ForStmt par v e body)
  let ?s = "ForStmt par v e body"
  show ?case
  proof (rule stmtOK_body)
    fix n assume n: "length (stmtToks T ?s) + 1 < n"
    have wf: "wfExpr T isp e" "wfName v" "\<And>s. s \<in> set body \<Longrightarrow> wfStmt T isp s \<and> stmtOK T s" using ForStmt by (auto simp: list_all_iff)
    have "parses (parseExpr T n) (exprToks T e) e fol1" using n by (intro wfExpr_parse [OF wf(1)]) auto
    moreover have "parses (parseBlock n (parseStmt T n)) (bodyToks T body) body folS" by (rule parseBlock_toks [OF wf(3)]) (use n in auto)
    ultimately have p: "parses (parseFor (parseExpr T n) (parseBlock n (parseStmt T n)) q) (stmtToks T (ForStmt False v e body)) (ForStmt q v e body) folS" for q
      using wf(2) by (intro parseFor_toks)
    show "parses (stmtBody n (parseExpr T n) (parseBlock n (parseStmt T n))) (stmtToks T ?s) (Some ?s) folS"
    proof (cases par)
      case True
      then have eq: "stmtToks T ?s = (KindParallel, ''parallel'') # stmtToks T (ForStmt False v e body)" by simp
      have "parses (\<lambda>st. parseFor (parseExpr T n) (parseBlock n (parseStmt T n)) True (advance st)) (stmtToks T ?s) ?s folS"
        using parses_advance [OF p [of True], of "(KindParallel, ''parallel'')"] True unfolding eq by simp
      from someStmt_toks [OF this] show ?thesis
        by (rule parses_cong) (use eq in \<open>auto simp: stmtBody_def peekt_def someStmt_def map_eq_Cons_conv key_def\<close>)
    next
      case False
      then have "par = False" by simp
      then show ?thesis
        by (simp only:) (rule parses_cong [OF someStmt_toks [OF p [of False]]], auto simp: stmtBody_def map_eq_Cons_conv key_def)
    qed
  qed (simp add: isIf_def)
next
  case (WhileStmt c bnd body)
  let ?s = "WhileStmt c bnd body"
  show ?case
  proof (rule stmtOK_body)
    fix n assume n: "length (stmtToks T ?s) + 1 < n"
    have wf: "wfExpr T isp c" "wfBound bnd" "\<And>s. s \<in> set body \<Longrightarrow> wfStmt T isp s \<and> stmtOK T s" using WhileStmt by (auto simp: list_all_iff)
    have "parses (parseExpr T n) (exprToks T c) c fol1" using n by (intro wfExpr_parse [OF wf(1)]) auto
    moreover have "parses (parseBlock n (parseStmt T n)) (bodyToks T body) body folS" by (rule parseBlock_toks [OF wf(3)]) (use n in auto)
    ultimately have p: "parses (parseWhile (parseExpr T n) (parseBlock n (parseStmt T n))) (stmtToks T ?s) ?s folS"
      using wf(2) by (intro parseWhile_toks)
    show "parses (stmtBody n (parseExpr T n) (parseBlock n (parseStmt T n))) (stmtToks T ?s) (Some ?s) folS"
      by (rule parses_cong [OF someStmt_toks [OF p]]) (auto simp: stmtBody_def map_eq_Cons_conv key_def)
  qed (simp add: isIf_def)
next
  case (RetryStmt c bnd body)
  let ?s = "RetryStmt c bnd body"
  show ?case
  proof (rule stmtOK_body)
    fix n assume n: "length (stmtToks T ?s) + 1 < n"
    have wf: "wfExpr T isp c" "wfBound bnd" "\<And>s. s \<in> set body \<Longrightarrow> wfStmt T isp s \<and> stmtOK T s" using RetryStmt by (auto simp: list_all_iff)
    have "parses (parseExpr T n) (exprToks T c) c fol1" using n by (intro wfExpr_parse [OF wf(1)]) auto
    moreover have "parses (parseBlock n (parseStmt T n)) (bodyToks T body) body folS" by (rule parseBlock_toks [OF wf(3)]) (use n in auto)
    ultimately have p: "parses (parseRetry (parseExpr T n) (parseBlock n (parseStmt T n))) (stmtToks T ?s) ?s folS"
      using wf(2) by (intro parseRetry_toks)
    show "parses (stmtBody n (parseExpr T n) (parseBlock n (parseStmt T n))) (stmtToks T ?s) (Some ?s) folS"
      by (rule parses_cong [OF someStmt_toks [OF p]])
        (auto simp: stmtBody_def parseIdentStmt_def isWord_def peekt_def map_eq_Cons_conv key_def)
  qed (simp add: isIf_def)
qed

subsection \<open>Workflow declarations\<close>

fun splitDots :: "string \<Rightarrow> string list" where
  "splitDots [] = [[]]"
| "splitDots (c # s) =
     (if c = CHR ''.'' then [] # splitDots s
      else case splitDots s of [] \<Rightarrow> [[c]] | p # ps \<Rightarrow> (c # p) # ps)"

lemma splitDots_not_Nil: "splitDots s \<noteq> []"
  by (induction s) (auto split: list.split)

lemma dottedName_splitDots: "dottedName (splitDots s) = s"
proof (induction s)
  case (Cons c s)
  obtain p ps where "splitDots s = p # ps" using splitDots_not_Nil by (cases "splitDots s") auto
  with Cons show ?case by (cases ps) (auto simp: dottedName_def)
qed (simp add: dottedName_def)

definition wfEffect :: "string \<Rightarrow> bool" where
  "wfEffect e \<longleftrightarrow> wfPath (splitDots e) \<and> hd (splitDots e) \<noteq> ''tool''"

definition wfParam :: "string \<times> string option \<Rightarrow> bool" where
  "wfParam p \<longleftrightarrow> wfIdent (fst p) \<and> wfName (snd p)"

definition wfWorkflow :: "go_text \<Rightarrow> (string \<Rightarrow> bool) \<Rightarrow> workflow_decl \<Rightarrow> bool" where
  "wfWorkflow T isp w \<longleftrightarrow>
     wfName (wd_Name w) \<and> list_all wfParam (wd_Params w) \<and>
     (case wd_Result w of Some t \<Rightarrow> wfIdent t | None \<Rightarrow> True) \<and>
     (case wd_Description w of Some v \<Rightarrow> fieldText isp v | None \<Rightarrow> True) \<and>
     (case wd_Policy w of Some p \<Rightarrow> wfIdent p | None \<Rightarrow> True) \<and>
     list_all wfEffect (wd_Effects w) \<and> list_all (wfStmt T isp) (wd_Body w)"

definition paramToks :: "string \<times> string option \<Rightarrow> key list" where
  "paramToks p = [(KindIdent, fst p), (KindColon, '':''), (KindIdent, identName (snd p))]"

definition resultToks :: "string option \<Rightarrow> key list" where
  "resultToks t = (case t of None \<Rightarrow> [] | Some s \<Rightarrow> [(KindArrow, ''->''), (KindIdent, s)])"

definition policyToks :: "string option \<Rightarrow> key list" where
  "policyToks p = (case p of None \<Rightarrow> [] | Some s \<Rightarrow> [(KindIdent, ''policy''), (KindIdent, s)])"

definition effectToks :: "string list \<Rightarrow> key list" where
  "effectToks es =
     (if es = [] then [] else (KindIdent, ''effects'') # lbrace # commas (map (\<lambda>e. pathToks (splitDots e)) es) @ [rbrace])"

definition workflowToks :: "go_text \<Rightarrow> workflow_decl \<Rightarrow> key list" where
  "workflowToks T w =
     (KindWorkflow, ''workflow'') # (KindIdent, identName (wd_Name w)) # (KindLParen, ''('') #
     commas (map paramToks (wd_Params w)) @ (KindRParen, '')'') # resultToks (wd_Result w) @
     descToks (wd_Description w) @ policyToks (wd_Policy w) @ effectToks (wd_Effects w) @ bodyToks T (wd_Body w)"

text \<open>Reading the printed declaration.\<close>

lemma reads_effects:
  assumes "list_all wfEffect es"
  shows "reads (''effects { '' @ Join es '', '' @ '' }'') ((KindIdent, ''effects'') # lbrace # commas (map (\<lambda>e. pathToks (splitDots e)) es) @ [rbrace]) r"
proof -
  have "reads e (pathToks (splitDots e)) r'" if "e \<in> set es" "brk r'" for e r'
    using assms that reads_path [of "splitDots e" r'] by (auto simp: list_all_iff wfEffect_def dottedName_splitDots)
  then have "reads (Join es '', '') (commas (map (\<lambda>e. pathToks (splitDots e)) es)) (CHR '' '' # ''}'' @ r)"
    by (intro reads_Join) (auto simp: list_all2_map2 list_all2_same)
  then have "reads (''effects'' @ '' '' @ ''{'' @ '' '' @ Join es '', '' @ '' '' @ ''}'')
      ((KindIdent, ''effects'') # lbrace # commas (map (\<lambda>e. pathToks (splitDots e)) es) @ [rbrace]) r"
    by (intro reads_spaced reads_run reads_name reads_puncts) simp_all
  then show ?thesis by simp
qed

text \<open>Header clauses on the line of the declaration (\<open>a\<close> is a space) or on lines of their own (\<open>b\<close> is a newline).\<close>

lemma reads_clauses:
  assumes wf: "wfWorkflow T isp w" and a: "blank a" "blank b" "a \<noteq> []" "brk (b @ a)" "brk (b @ y @ r)" and y: "reads y ks r"
  shows "reads (concat (map (\<lambda>c. a @ c @ b) (headerTexts w)) @ y) (policyToks (wd_Policy w) @ effectToks (wd_Effects w) @ ks) r"
proof -
  let ?eff = "\<lambda>es. if es = [] then [] else a @ (''effects { '' @ Join es '', '' @ '' }'') @ b"
  have wfs: "list_all wfEffect (wd_Effects w)" "case wd_Policy w of Some p \<Rightarrow> wfIdent p | None \<Rightarrow> True"
    using wf by (simp_all add: wfWorkflow_def)
  have eff: "reads (?eff (wd_Effects w) @ y) (effectToks (wd_Effects w) @ ks) r"
  proof (cases "wd_Effects w = []")
    case False
    have "reads (a @ (''effects { '' @ Join (wd_Effects w) '', '' @ '' }'') @ b @ y)
        (((KindIdent, ''effects'') # lbrace # commas (map (\<lambda>e. pathToks (splitDots e)) (wd_Effects w)) @ [rbrace]) @ ks) r"
      by (rule reads_skip [OF a(1) reads_append [OF reads_effects [OF wfs(1)] reads_skip [OF a(2) y]]])
    then show ?thesis using False by (simp add: effectToks_def)
  qed (use y in \<open>simp add: effectToks_def\<close>)
  show ?thesis
  proof (cases "wd_Policy w")
    case None
    then show ?thesis using eff by (auto simp: headerTexts_def policyToks_def split: if_splits)
  next
    case (Some p)
    have "brk (b @ (?eff (wd_Effects w) @ y) @ r)"
      using a by (cases b; cases a) (auto simp: brk_def)
    then have "reads (a @ ''policy'' @ '' '' @ p @ b @ ?eff (wd_Effects w) @ y) ((KindIdent, ''policy'') # (KindIdent, p) # effectToks (wd_Effects w) @ ks) r"
      using wfs(2) Some eff by (intro reads_skip [OF a(1)] reads_spaced reads_next reads_skip [OF a(2)] reads_name) simp_all
    then show ?thesis using Some by (auto simp: headerTexts_def policyToks_def)
  qed
qed

lemma reads_workflow_decl:
  assumes wf: "wfWorkflow T isp w"
  shows "reads (printWorkflow T isp w) (workflowToks T w) []"
proof -
  have wfs: "wfIdent (identName (wd_Name w))" "case wd_Result w of Some t \<Rightarrow> wfIdent t | None \<Rightarrow> True"
    "\<And>s. s \<in> set (wd_Body w) \<Longrightarrow> wfStmt T isp s" "\<And>p. p \<in> set (wd_Params w) \<Longrightarrow> wfParam p"
    using wf wfName_ident by (auto simp: wfWorkflow_def list_all_iff)
  let ?body = "''{'' @ nl @ printBody T isp 1 (wd_Body w) @ ''}'' @ nl"
  let ?hdr = "case wd_Description w of
      Some v \<Rightarrow> nl @ printStringField isp ''    '' ''description'' v @ concat (map (\<lambda>c. ''    '' @ c @ nl) (headerTexts w)) @ ?body
    | None \<Rightarrow> concat (map (\<lambda>c. '' '' @ c @ []) (headerTexts w)) @ '' '' @ ?body"
  have body: "reads ?body (bodyToks T (wd_Body w)) []"
    using reads_block_body [of "wd_Body w" T isp 0 "[]"] reads_stmt [OF wfs(3)] by (simp add: printBody_concat indentAt_def)
  have hdr: "reads ?hdr (descToks (wd_Description w) @ policyToks (wd_Policy w) @ effectToks (wd_Effects w) @ bodyToks T (wd_Body w)) []"
  proof (cases "wd_Description w")
    case None
    have "reads (concat (map (\<lambda>c. '' '' @ c @ []) (headerTexts w)) @ '' '' @ ?body)
        (policyToks (wd_Policy w) @ effectToks (wd_Effects w) @ bodyToks T (wd_Body w)) []"
      by (rule reads_clauses [OF wf]) (use reads_skip [of "'' ''", OF _ body] in simp_all)
    then show ?thesis using None by (simp add: descToks_def)
  next
    case (Some v)
    have "reads (concat (map (\<lambda>c. ''    '' @ c @ nl) (headerTexts w)) @ ?body)
        (policyToks (wd_Policy w) @ effectToks (wd_Effects w) @ bodyToks T (wd_Body w)) []"
      by (rule reads_clauses [OF wf _ _ _ _ _ body]) (simp_all add: nl_def)
    from reads_desc [where isp = isp and d = "wd_Description w" and ind = "''    ''", OF _ _ _ this]
    have "reads (printStringField isp ''    '' ''description'' v @ concat (map (\<lambda>c. ''    '' @ c @ nl) (headerTexts w)) @ ?body)
        (descToks (wd_Description w) @ policyToks (wd_Policy w) @ effectToks (wd_Effects w) @ bodyToks T (wd_Body w)) []"
      using wf Some by (simp add: wfWorkflow_def spaces_def)
    from reads_skip [of nl, OF _ this] show ?thesis using Some by simp
  qed
  have start: "brk ?hdr"
  proof (cases "wd_Description w")
    case None
    then show ?thesis by (cases "headerTexts w") simp_all
  qed (simp add: nl_def)
  have result: "reads ((case wd_Result w of None \<Rightarrow> [] | Some t \<Rightarrow> '' '' @ ''->'' @ '' '' @ t) @ ?hdr)
      (resultToks (wd_Result w) @ descToks (wd_Description w) @ policyToks (wd_Policy w) @ effectToks (wd_Effects w) @ bodyToks T (wd_Body w)) []"
  proof (cases "wd_Result w")
    case None
    then show ?thesis using hdr by (simp add: resultToks_def)
  next
    case (Some t)
    then have "reads ('' '' @ ''->'' @ '' '' @ t @ ?hdr) ((KindArrow, ''->'') # (KindIdent, t) #
        descToks (wd_Description w) @ policyToks (wd_Policy w) @ effectToks (wd_Effects w) @ bodyToks T (wd_Body w)) []"
      using wfs(2) start by (intro reads_skip [of "'' ''"] reads_spaced reads_next reads_arrow reads_name hdr) simp_all
    then show ?thesis using Some by (simp add: resultToks_def)
  qed
  have "reads (fst p @ '':'' @ '' '' @ identName (snd p)) (paramToks p) r" if "p \<in> set (wd_Params w)" "brk r" for p r
    unfolding paramToks_def using wfs(4) [OF that(1)] that(2) wfName_ident
    by (intro reads_next reads_skip reads_name reads_puncts) (simp_all add: wfParam_def)
  then have params: "reads (Join (map (\<lambda>(x, t). x @ '': '' @ identName t) (wd_Params w)) '', '') (commas (map paramToks (wd_Params w))) (CHR '')'' # r)" for r
    by (intro reads_Join) (auto simp: list_all2_map1 list_all2_map2 list_all2_same)
  have "reads (''workflow'' @ '' '' @ identName (wd_Name w) @ ''('' @
      Join (map (\<lambda>(x, t). x @ '': '' @ identName t) (wd_Params w)) '', '' @ '')'' @
      (case wd_Result w of None \<Rightarrow> [] | Some t \<Rightarrow> '' '' @ ''->'' @ '' '' @ t) @ ?hdr) (workflowToks T w) []"
    unfolding workflowToks_def
    by (intro reads_spaced reads_next [OF reads_name [OF wfs(1)]] reads_next [OF reads_puncts(1)] reads_append reads_next [OF reads_puncts(2)] reads_workflow result)
      (use params in simp_all)
  moreover have "(@) '' '' = (#) CHR '' ''" by (simp add: fun_eq_iff)
  ultimately show ?thesis by (simp add: printWorkflow_def split: option.splits)
qed

text \<open>Parsing its tokens.\<close>

lemma paramList_toks:
  assumes "list_all wfParam ps" "pp_toks st = ts @ us" "map key ts = commas (map paramToks ps)" "headKind us = KindRParen" "length ps < n"
  shows "paramList n acc st = Some (acc @ ps, st\<lparr>pp_toks := us\<rparr>)"
  using assms
proof (induction ps arbitrary: acc st ts n)
  case Nil
  then have "curKind st = KindRParen" "st\<lparr>pp_toks := us\<rparr> = st" by (simp_all add: cur_kind)
  then show ?case using Nil by (cases n) simp_all
next
  case (Cons p ps)
  obtain m where n: "n = Suc m" "length ps < m" using Cons.prems(5) by (cases n) auto
  define tail where "tail = (case ps of [] \<Rightarrow> [] | _ \<Rightarrow> (KindComma, '','') # commas (map paramToks ps))"
  have "map key ts = paramToks p @ tail" using Cons.prems(3) by (cases ps) (simp_all add: tail_def)
  then obtain x c t ts' where t: "ts = x # c # t # ts'" "tk_Kind x = KindIdent" "tk_Lit x = fst p" "tk_Kind c = KindColon"
    "tk_Kind t = KindIdent" "tk_Lit t = identName (snd p)" "map key ts' = tail"
    by (auto simp: paramToks_def map_eq_Cons_conv key_def)
  have "snd p = Some (identName (snd p))" using Cons.prems(1) by (auto simp: wfParam_def wfName_def identName_def split: option.splits)
  then have p: "(tk_Lit x, Some (tk_Lit t)) = p" using t by (cases p) simp
  have step: "paramList n acc st = (if headKind (ts' @ us) = KindComma then paramList m (acc @ [p]) (st\<lparr>pp_toks := tl (ts' @ us)\<rparr>)
      else Some (acc @ [p], st\<lparr>pp_toks := ts' @ us\<rparr>))"
    using Cons.prems(2) t n p by (simp add: ident_def expect_def parseTypeRef_def advance_def cur_kind)
  show ?case
  proof (cases ps)
    case Nil
    then show ?thesis unfolding step using t(7) Cons.prems(4) by (simp add: tail_def)
  next
    case (Cons q qs)
    then obtain d ts2 where d: "ts' = d # ts2" "tk_Kind d = KindComma" "map key ts2 = commas (map paramToks ps)"
      using t(7) by (auto simp: tail_def map_eq_Cons_conv key_def)
    have "paramList m (acc @ [p]) (st\<lparr>pp_toks := ts2 @ us\<rparr>) = Some ((acc @ [p]) @ ps, st\<lparr>pp_toks := us\<rparr>)"
      using Cons.IH [of "st\<lparr>pp_toks := ts2 @ us\<rparr>" ts2 m "acc @ [p]"] Cons.prems d n by simp
    then show ?thesis unfolding step using d by simp
  qed
qed

lemma effectList_toks:
  assumes "list_all wfEffect es" "pp_toks st = ts @ us" "map key ts = commas (map (\<lambda>e. pathToks (splitDots e)) es)" "headKind us = KindRBrace" "length es < n"
  shows "effectList n acc st = Some (acc @ es, st\<lparr>pp_toks := us\<rparr>)"
  using assms
proof (induction es arbitrary: acc st ts n)
  case Nil
  then have "curKind st = KindRBrace" "st\<lparr>pp_toks := us\<rparr> = st" by (simp_all add: cur_kind)
  then show ?case using Nil by (cases n) simp_all
next
  case (Cons e es)
  obtain m where n: "n = Suc m" "length es < m" using Cons.prems(5) by (cases n) auto
  define tail where "tail = (case es of [] \<Rightarrow> [] | _ \<Rightarrow> (KindComma, '','') # commas (map (\<lambda>e. pathToks (splitDots e)) es))"
  have "map key ts = pathToks (splitDots e) @ tail" using Cons.prems(3) by (cases es) (simp_all add: tail_def)
  then obtain ts1 ts' where t: "ts = ts1 @ ts'" "map key ts1 = pathToks (splitDots e)" "map key ts' = tail"
    by (auto simp: map_eq_append_conv)
  have e: "splitDots e \<noteq> []" "hd (splitDots e) \<noteq> ''tool''" "pathToks (splitDots e) \<noteq> []" "fst (hd (pathToks (splitDots e))) = KindIdent"
    using Cons.prems(1) by (cases "splitDots e" rule: pathToks.cases; simp add: wfEffect_def wfPath_def)+
  have follow: "headKind (ts' @ us) = (if es = [] then KindRBrace else KindComma)"
    using t(3) Cons.prems(4) by (cases es) (auto simp: tail_def map_eq_Cons_conv key_def)
  have "parseDottedPath st = (splitDots e, st\<lparr>pp_toks := ts' @ us\<rparr>)"
    using parseDottedPath_toks [OF e(1), of st ts1 "ts' @ us"] Cons.prems(2) t follow by simp
  then have ref: "parseEffectRef st = (e, st\<lparr>pp_toks := ts' @ us\<rparr>)" using e by (simp add: parseEffectRef_def dottedName_splitDots)
  have "curKind st = KindIdent" using headKind_run [OF t(2) e(3), of "ts' @ us"] e(4) Cons.prems(2) t(1) by (simp add: cur_kind)
  then have step: "effectList n acc st = effectList m (acc @ [e]) (if headKind (ts' @ us) = KindComma then st\<lparr>pp_toks := tl (ts' @ us)\<rparr> else st\<lparr>pp_toks := ts' @ us\<rparr>)"
    using ref n by (simp add: cur_kind [of "st\<lparr>pp_toks := ts' @ us\<rparr>"] advance_def)
  show ?case
  proof (cases es)
    case Nil
    then have "ts' = []" using t(3) by (simp add: tail_def)
    then show ?thesis unfolding step using Nil Cons.prems(4) n by (cases m) (simp_all add: cur_kind)
  next
    case (Cons q qs)
    then obtain d ts2 where d: "ts' = d # ts2" "tk_Kind d = KindComma" "map key ts2 = commas (map (\<lambda>e. pathToks (splitDots e)) es)"
      using t(3) by (auto simp: tail_def map_eq_Cons_conv key_def)
    have "effectList m (acc @ [e]) (st\<lparr>pp_toks := ts2 @ us\<rparr>) = Some ((acc @ [e]) @ es, st\<lparr>pp_toks := us\<rparr>)"
      using Cons.IH [of "st\<lparr>pp_toks := ts2 @ us\<rparr>" ts2 m "acc @ [e]"] Cons.prems d n by simp
    then show ?thesis unfolding step using d by simp
  qed
qed

lemma parseEffects_toks:
  assumes "list_all wfEffect es" "length es < n"
  shows "parses (parseEffects n) (lbrace # commas (map (\<lambda>e. pathToks (splitDots e)) es) @ [rbrace]) es {}"
proof -
  have "loops (effectList n []) (commas (map (\<lambda>e. pathToks (splitDots e)) es)) es KindRBrace"
    unfolding loops_def using effectList_toks [OF assms(1) _ _ _ assms(2), of _ _ _ "[]"] by simp
  then show ?thesis unfolding parseEffects_def [abs_def] by (rule bracket_parses [where f = "\<lambda>x. x"])
qed

lemma parseParams_toks:
  assumes "list_all wfParam ps" "length ps < n"
  shows "parses (parseParams n) ((KindLParen, ''('') # commas (map paramToks ps) @ [(KindRParen, '')'')]) ps {}"
proof -
  have "loops (paramList n []) (commas (map paramToks ps)) ps KindRParen"
    unfolding loops_def using paramList_toks [OF assms(1) _ _ _ assms(2), of _ _ _ "[]"] by simp
  then show ?thesis unfolding parseParams_def [abs_def] by (rule bracket_parses [where f = "\<lambda>x. x"])
qed

text \<open>The header clauses, each of them optional.\<close>

lemma header_desc:
  assumes "0 < n" "pp_toks st = ts @ us" "map key ts = descToks v" "wd_Description d = None"
  shows "\<exists>m. n \<le> Suc m \<and> headerClauses n d st = headerClauses m (d\<lparr>wd_Description := v\<rparr>) (st\<lparr>pp_toks := us\<rparr>)"
proof (cases v)
  case None
  then have "st\<lparr>pp_toks := us\<rparr> = st" "d\<lparr>wd_Description := v\<rparr> = d" using assms by (simp_all add: descToks_def)
  then show ?thesis by (intro exI [of _ n]) simp
next
  case (Some s)
  then obtain t u where t: "ts = [t, u]" "tk_Kind t = KindIdent" "tk_Lit t = ''description''" "tk_Kind u = KindString" "tk_Lit u = s"
    using assms(3) by (auto simp: descToks_def map_eq_Cons_conv key_def)
  obtain m where "n = Suc m" using assms(1) by (cases n) auto
  then show ?thesis using assms(2,4) t Some by (intro exI [of _ m]) (simp add: isWord_def parseStringLit_def advance_def)
qed

lemma header_policy:
  assumes "0 < n" "pp_toks st = ts @ us" "map key ts = policyToks v" "wd_Policy d = None"
  shows "\<exists>m. n \<le> Suc m \<and> headerClauses n d st = headerClauses m (d\<lparr>wd_Policy := v\<rparr>) (st\<lparr>pp_toks := us\<rparr>)"
proof (cases v)
  case None
  then have "st\<lparr>pp_toks := us\<rparr> = st" "d\<lparr>wd_Policy := v\<rparr> = d" using assms by (simp_all add: policyToks_def)
  then show ?thesis by (intro exI [of _ n]) simp
next
  case (Some s)
  then obtain t u where t: "ts = [t, u]" "tk_Kind t = KindIdent" "tk_Lit t = ''policy''" "tk_Kind u = KindIdent" "tk_Lit u = s"
    using assms(3) by (auto simp: policyToks_def map_eq_Cons_conv key_def)
  obtain m where "n = Suc m" using assms(1) by (cases n) auto
  then show ?thesis using assms(2,4) t Some by (intro exI [of _ m]) (simp add: isWord_def ident_def advance_def)
qed

lemma header_effects:
  assumes "length es + 1 < n" "pp_toks st = ts @ us" "map key ts = effectToks es" "wd_Effects d = []" "list_all wfEffect es"
  shows "\<exists>m. n \<le> Suc m \<and> headerClauses n d st = headerClauses m (d\<lparr>wd_Effects := es\<rparr>) (st\<lparr>pp_toks := us\<rparr>)"
proof (cases "es = []")
  case True
  then have "st\<lparr>pp_toks := us\<rparr> = st" "d\<lparr>wd_Effects := es\<rparr> = d" using assms by (simp_all add: effectToks_def)
  then show ?thesis by (intro exI [of _ n]) simp
next
  case False
  let ?ks = "lbrace # commas (map (\<lambda>e. pathToks (splitDots e)) es) @ [rbrace]"
  have "map key ts = (KindIdent, ''effects'') # ?ks" using assms(3) False by (simp add: effectToks_def)
  then obtain t ts' where t: "ts = t # ts'" "tk_Kind t = KindIdent" "tk_Lit t = ''effects''" "map key ts' = ?ks"
    unfolding map_eq_Cons_conv by (clarsimp simp: key_def)
  obtain m where m: "n = Suc m" "length es < m" using assms(1) by (cases n) auto
  have "parseEffects m (st\<lparr>pp_toks := ts' @ us\<rparr>) = Some (es, st\<lparr>pp_toks := us\<rparr>)"
    using parsesD [OF parseEffects_toks [OF assms(5) m(2)], of "st\<lparr>pp_toks := ts' @ us\<rparr>" ts' us] t by simp
  then show ?thesis using assms(2,4) t m by (intro exI [of _ m]) (simp add: isWord_def advance_def)
qed

lemma headerClauses_toks:
  assumes n: "length es + 4 < n" and st: "pp_toks st = ts @ us" "map key ts = descToks v @ policyToks p @ effectToks es" "headKind us = KindLBrace"
    and d: "wd_Description d = None" "wd_Policy d = None" "wd_Effects d = []" and es: "list_all wfEffect es"
  shows "headerClauses n d st = Some (d\<lparr>wd_Description := v, wd_Policy := p, wd_Effects := es\<rparr>, st\<lparr>pp_toks := us\<rparr>)"
proof -
  obtain ts1 ts2 ts3 where t: "ts = ts1 @ ts2 @ ts3" "map key ts1 = descToks v" "map key ts2 = policyToks p" "map key ts3 = effectToks es"
    using st(2) by (auto simp: map_eq_append_conv append_eq_map_conv)
  obtain n1 where 1: "n \<le> Suc n1" "headerClauses n d st = headerClauses n1 (d\<lparr>wd_Description := v\<rparr>) (st\<lparr>pp_toks := ts2 @ ts3 @ us\<rparr>)"
    using header_desc [of n st ts1 "ts2 @ ts3 @ us" v d] n st t d by auto
  obtain n2 where 2: "n1 \<le> Suc n2" "headerClauses n d st = headerClauses n2 (d\<lparr>wd_Description := v, wd_Policy := p\<rparr>) (st\<lparr>pp_toks := ts3 @ us\<rparr>)"
    using header_policy [of n1 "st\<lparr>pp_toks := ts2 @ ts3 @ us\<rparr>" ts2 "ts3 @ us" p "d\<lparr>wd_Description := v\<rparr>"] n t d 1 by auto
  obtain n3 where 3: "n2 \<le> Suc n3" "headerClauses n d st = headerClauses n3 (d\<lparr>wd_Description := v, wd_Policy := p, wd_Effects := es\<rparr>) (st\<lparr>pp_toks := us\<rparr>)"
    using header_effects [of es n2 "st\<lparr>pp_toks := ts3 @ us\<rparr>" ts3 us "d\<lparr>wd_Description := v, wd_Policy := p\<rparr>"] n t d es 1 2 by auto
  obtain n4 where "n3 = Suc n4" using n 1 2 3 by (cases n3) auto
  then show ?thesis using 3(2) st(3) by (simp add: isWord_def cur_kind)
qed

lemma key_split4:
  assumes "map key ts = k # i # a @ b @ c @ d"
  obtains t u ts1 ts2 ts3 ts4 where "ts = t # u # ts1 @ ts2 @ ts3 @ ts4" "key u = i"
    "map key ts1 = a" "map key ts2 = b" "map key ts3 = c" "map key ts4 = d"
  using assms by (auto simp: map_eq_Cons_conv map_eq_append_conv append_eq_map_conv)

lemma pathToks_splitDots: "pathToks (splitDots e) \<noteq> []"
  using splitDots_not_Nil [of e] by (cases "splitDots e") (simp_all add: pathToks_Cons)

lemma parseWorkflow_toks:
  assumes wf: "wfWorkflow T isp w" and st: "pp_toks st = ts" "map key ts = workflowToks T w" and n: "length ts + 2 < n"
  shows "parseWorkflow T n st = Some (w, st\<lparr>pp_toks := []\<rparr>)"
proof -
  let ?c = "descToks (wd_Description w) @ policyToks (wd_Policy w) @ effectToks (wd_Effects w)"
  have wfs: "list_all wfParam (wd_Params w)" "list_all wfEffect (wd_Effects w)" "wd_Name w = Some (identName (wd_Name w))"
    "\<And>s. s \<in> set (wd_Body w) \<Longrightarrow> wfStmt T isp s \<and> stmtOK T s"
    using wf stmt_ok by (auto simp: wfWorkflow_def wfName_def identName_def list_all_iff split: option.splits)
  have len: "length (workflowToks T w) + 2 < n" using n st(2) by (metis length_map)
  have "map key ts = (KindWorkflow, ''workflow'') # (KindIdent, identName (wd_Name w)) #
     ((KindLParen, ''('') # commas (map paramToks (wd_Params w)) @ [(KindRParen, '')'')]) @ resultToks (wd_Result w) @ ?c @ bodyToks T (wd_Body w)"
    using st(2) by (simp add: workflowToks_def)
  then obtain t u ts1 ts2 ts3 ts4 where t: "ts = t # u # ts1 @ ts2 @ ts3 @ ts4" "key u = (KindIdent, identName (wd_Name w))"
    "map key ts1 = (KindLParen, ''('') # commas (map paramToks (wd_Params w)) @ [(KindRParen, '')'')]" "map key ts2 = resultToks (wd_Result w)"
    "map key ts3 = ?c" "map key ts4 = bodyToks T (wd_Body w)" by (rule key_split4)
  have name: "ident (advance st) = (wd_Name w, st\<lparr>pp_toks := ts1 @ ts2 @ ts3 @ ts4\<rparr>)"
    using st(1) t(1,2) wfs(3) ident_Cons [of "advance st" u "ts1 @ ts2 @ ts3 @ ts4"] by (simp add: advance_def key_def)
  have "2 * length (map paramToks (wd_Params w)) \<le> Suc (length (commas (map paramToks (wd_Params w))))"
    by (rule commas_count) (simp add: list_all_iff paramToks_def)
  then have np: "length (wd_Params w) < n" using len by (simp add: workflowToks_def)
  have "2 * length (map (\<lambda>e. pathToks (splitDots e)) (wd_Effects w)) \<le> Suc (length (commas (map (\<lambda>e. pathToks (splitDots e)) (wd_Effects w))))"
    by (rule commas_count) (simp add: list_all_iff pathToks_splitDots)
  then have ne: "length (wd_Effects w) + 4 < n" using len by (cases "wd_Effects w = []") (simp_all add: workflowToks_def effectToks_def)
  have params: "parseParams n (st\<lparr>pp_toks := ts1 @ ts2 @ ts3 @ ts4\<rparr>) = Some (wd_Params w, st\<lparr>pp_toks := ts2 @ ts3 @ ts4\<rparr>)"
    using parsesD [OF parseParams_toks [OF wfs(1) np], of "st\<lparr>pp_toks := ts1 @ ts2 @ ts3 @ ts4\<rparr>" ts1 "ts2 @ ts3 @ ts4"] t(3) by simp
  have h4: "headKind ts4 = KindLBrace" using headKind_run [OF t(6), of "[]"] by simp
  have h3: "headKind (ts3 @ ts4) \<in> {KindLBrace, KindIdent}"
    using t(5) h4 headKind_run [OF t(5), of ts4]
    by (cases "ts3 = []") (auto simp: descToks_def policyToks_def effectToks_def split: option.splits if_splits)
  have res: "parseResult (st\<lparr>pp_toks := ts2 @ ts3 @ ts4\<rparr>) = (wd_Result w, st\<lparr>pp_toks := ts3 @ ts4\<rparr>)"
    using t(4) h3
    by (cases "wd_Result w") (auto simp: resultToks_def parseResult_def parseTypeRef_def cur_kind advance_def map_eq_Cons_conv key_def)
  let ?d = "\<lparr>wd_Name = wd_Name w, wd_Params = wd_Params w, wd_Result = wd_Result w, wd_Description = None, wd_Policy = None, wd_Effects = [], wd_Body = []\<rparr>"
  have hdr: "headerClauses n ?d (st\<lparr>pp_toks := ts3 @ ts4\<rparr>) =
      Some (?d\<lparr>wd_Description := wd_Description w, wd_Policy := wd_Policy w, wd_Effects := wd_Effects w\<rparr>, st\<lparr>pp_toks := ts4\<rparr>)"
    using headerClauses_toks [of "wd_Effects w" n "st\<lparr>pp_toks := ts3 @ ts4\<rparr>" ts3 ts4 "wd_Description w" "wd_Policy w" ?d] ne t(5) h4 wfs(2) by simp
  have "parses (parseBlock n (parseStmt T n)) (bodyToks T (wd_Body w)) (wd_Body w) {}"
    by (rule parseBlock_toks [OF wfs(4)]) (use len in \<open>simp_all add: workflowToks_def\<close>)
  from parsesD [OF this, of "st\<lparr>pp_toks := ts4\<rparr>" ts4 "[]"]
  have body: "parseBlock n (parseStmt T n) (st\<lparr>pp_toks := ts4\<rparr>) = Some (wd_Body w, st\<lparr>pp_toks := []\<rparr>)" using t(6) by simp
  show ?thesis unfolding parseWorkflow_def name prod.case
    by (simp add: params res hdr body)
qed

lemma newParser_reads:
  assumes "reads src ks []"
  shows "map key (pp_toks (newParser src)) = ks \<and> pp_diags (newParser src) = [] \<and> lx_diags (snd (lexAll src)) = []"
proof -
  obtain ts l where l: "lexFrom (NewLexer src) = (ts @ fst (lexFrom l), snd (lexFrom l))" "lx_rest l = []" "map key ts = ks"
    "lx_diags l = lx_diags (NewLexer src)" using assms unfolding reads_def by (force simp: NewLexer_def)
  have "skipTrivia l = l" using l(2) by (subst skipTrivia.simps) simp
  then have "lexFrom l = ([mkToken KindEOF [] (lexPos l)], l)" using Next_EOF [of l] l(2) by (subst lexFrom.simps) (simp add: mkToken_def)
  then show ?thesis using l by (simp add: newParser_def lexAll_def NewLexer_def)
qed

text \<open>
  C7. Formatting keeps the program: the text \<open>printWorkflow\<close> prints for a workflow declaration is lexed
  and parsed, without a diagnostic and to its last token, back to the very declaration it was printed
  from. This covers every statement and expression form, the precedence and parenthesization of
  operators, string escapes and triple-quoted blocks. The declaration has to be one the language can
  write: identifiers that are no keywords, literals whose spelling the lexer knows, no comparison as the
  left operand of a comparison, labelled arguments in the \<open>with\<close> of an approval, and multiline texts
  without carriage returns, blank-only rows or common indentation.
\<close>

theorem format_round_trip:
  assumes "wfWorkflow T isp w"
  shows "\<exists>st. parseWorkflow T (enoughFuel (newParser (printWorkflow T isp w))) (newParser (printWorkflow T isp w)) = Some (w, st) \<and>
    pp_toks st = [] \<and> pp_diags st = [] \<and> lx_diags (snd (lexAll (printWorkflow T isp w))) = []"
proof -
  note r = newParser_reads [OF reads_workflow_decl [OF assms]]
  have "parseWorkflow T (enoughFuel (newParser (printWorkflow T isp w))) (newParser (printWorkflow T isp w)) =
      Some (w, (newParser (printWorkflow T isp w))\<lparr>pp_toks := []\<rparr>)"
    by (rule parseWorkflow_toks [OF assms refl]) (use r in \<open>simp_all add: enoughFuel_def\<close>)
  then show ?thesis using r by simp
qed

definition demo_decl :: workflow_decl where
  "demo_decl =
     \<lparr>wd_Name = Some ''triage'', wd_Params = [(''ticket'', Some ''Ticket'')], wd_Result = Some ''Report'',
      wd_Description = Some (''Sort a ticket.'' @ nl @ nl @ ''  Ask before closing it.''),
      wd_Policy = Some ''careful'', wd_Effects = [''repo.read'', ''model.call''],
      wd_Body =
        [AssignStmt ''x'' (CallExpr [''helper'', ''run''] [(Some ''input'', RefExpr [''ticket'', ''body'']), (None, LitExpr (AStr (''a'' @ nl @ ''b'')))]),
         IfStmt (BinaryExpr KindAndAnd (BinaryExpr KindOrOr (RefExpr [''a'']) (UnaryExpr (RefExpr [''b''])))
                   (BinaryExpr KindLt (RefExpr [''x'', ''n'']) (LitExpr (AInt 3))))
           [ExprStmt (CallExpr [''log''] [])]
           [IfStmt (LitExpr (ABool True)) [] [ReturnStmt (ObjectExpr [(''k'', LitExpr (AFloat (Fin (1 / 2))))])]],
         WhileStmt (RefExpr [''go'']) 5 [ParallelStmt [(''l'', RefExpr [''p'']), (''r'', RefExpr [''q''])]],
         ApprovalStmt (Some ''ok'') (Some ''Close?'') [''secret''] [(Some ''id'', RefExpr [''ticket'', ''id''])],
         ReturnStmt (RefExpr [''x''])]\<rparr>"

theorem format_round_trip_witness:
  "wfWorkflow demo_text (\<lambda>r. False) demo_decl \<and>
   (\<exists>st. parseWorkflow demo_text (enoughFuel (newParser (printWorkflow demo_text (\<lambda>r. False) demo_decl)))
        (newParser (printWorkflow demo_text (\<lambda>r. False) demo_decl)) = Some (demo_decl, st) \<and>
      pp_toks st = [] \<and> pp_diags st = [] \<and> lx_diags (snd (lexAll (printWorkflow demo_text (\<lambda>r. False) demo_decl))) = [])"
proof -
  have "wfWorkflow demo_text (\<lambda>r. False) demo_decl" by code_simp
  from format_round_trip [OF this] this show ?thesis by blast
qed

end
