(* ===== verification/Lang_Limits.thy ===== *)
theory Lang_Limits
  imports Lang_Reparse
begin

text \<open>
  Inputs outside the reach of \<open>format_round_trip\<close> on which formatting does not keep the program. Each is a
  tree the parser builds from text without a diagnostic.
\<close>

definition parseWhole :: "go_text \<Rightarrow> string \<Rightarrow> (expr \<times> parse_error list \<times> lex_error list \<times> key list) option" where
  "parseWhole T src =
     (case parseExpr T (enoughFuel (newParser src)) (newParser src) of
        None \<Rightarrow> None
      | Some (e, st) \<Rightarrow> Some (e, map snd (pp_diags st), map snd (lx_diags (snd (lexAll src))), map key (pp_toks st)))"

definition noRunes :: "string \<Rightarrow> bool" where
  "noRunes r = False"

text \<open>
  A comparison that is the left operand of a comparison is printed without its parentheses, and
  comparisons do not chain: the printed text no longer parses.
\<close>

definition chained :: expr where
  "chained = BinaryExpr KindEqEq (BinaryExpr KindEqEq (RefExpr [''a'']) (RefExpr [''b''])) (RefExpr [''c''])"

lemma comparison_parens_dropped:
  "parseWhole demo_text ''(a == b) == c'' = Some (chained, [], [], [])"
  "printExpr demo_text noRunes chained = ''a == b == c''"
  "map_option (\<lambda>(e, ds, r). ds) (parseWhole demo_text ''a == b == c'') = Some [ChainedComparison]"
  by code_simp+

text \<open>\<open>strconv.Quote\<close> writes escapes the lexer does not know; the string is changed with a diagnostic.\<close>

lemma quote_escapes_unknown:
  "printExpr demo_text noRunes (LitExpr (AStr [CHR 0x07])) = [CHR 0x22, CHR 0x5C, CHR ''a'', CHR 0x22]"
  "parseWhole demo_text [CHR 0x22, CHR 0x5C, CHR ''a'', CHR 0x22] = Some (LitExpr (AStr ''a''), [], [UnknownEscape ''a''], [])"
proof -
  show "printExpr demo_text noRunes (LitExpr (AStr [CHR 0x07])) = [CHR 0x22, CHR 0x5C, CHR ''a'', CHR 0x22]"
    by (simp add: printLit_def quoteGo_def quoteGoRune_def quoteGoAscii_def between_def)
qed code_simp

text \<open>
  A float of seven or more digits before the point is printed in exponent form, which the lexer takes
  apart; a float without a fraction is read back as an integer.
\<close>

lemma float_exponent_unreadable:
  "map_option (\<lambda>(e, ds, ls, ks). (ls, ks)) (parseWhole (demo_text\<lparr>gt_parse := \<lambda>s. Some (Fin 1)\<rparr>) ''1.0000005e+06'') =
     Some ([UnexpectedRune ''+''], [(KindIdent, ''e''), (KindError, ''+''), (KindNumber, ''06'')])"
  by code_simp

lemma float_becomes_int:
  "parseWhole (demo_text\<lparr>gt_parse := \<lambda>s. Some (Fin 2)\<rparr>) ''2.0'' = Some (LitExpr (AFloat (Fin 2)), [], [], [])"
  "parseWhole (demo_text\<lparr>gt_parse := \<lambda>s. Some (Fin 2)\<rparr>) ''2'' = Some (LitExpr (AInt 2), [], [], [])"
  by code_simp+

text \<open>A common indentation and a row of blanks do not survive the block form of a string field.\<close>

lemma block_loses_indentation:
  "normalizeMultiline (nl @ concat (map (\<lambda>row. indentRow ''    '' row @ nl) (splitLines (''  a'' @ nl @ ''  b''))) @ ''    '') = ''a'' @ nl @ ''b''"
  "normalizeMultiline (nl @ concat (map (\<lambda>row. indentRow ''    '' row @ nl) (splitLines (''a'' @ nl @ '' '' @ nl @ ''b''))) @ ''    '') =
     ''a'' @ nl @ nl @ ''b''"
  by code_simp+

text \<open>
  The arguments of an approval are printed on lines of their own without the comma between them: a
  reference before a parenthesis becomes a call.
\<close>

definition approvalArgs :: "string \<Rightarrow> call_arg list option" where
  "approvalArgs src = map_option fst (parseApprovalWith (enoughFuel (newParser src)) (parseExpr demo_text (enoughFuel (newParser src))) (newParser src))"

definition positional :: "call_arg list" where
  "positional = [(None, RefExpr [''x'']), (None, BinaryExpr KindAndAnd (BinaryExpr KindOrOr (RefExpr [''p'']) (RefExpr [''q''])) (RefExpr [''r'']))]"

lemma approval_comma_dropped:
  "approvalArgs ''{ x, (p || q) && r }'' = Some positional"
  "concat (map (\<lambda>a. printArg demo_text noRunes a @ nl) positional) = ''x'' @ nl @ ''(p || q) && r'' @ nl"
  "approvalArgs (''{'' @ nl @ ''x'' @ nl @ ''(p || q) && r'' @ nl @ ''}'') =
     Some [(None, BinaryExpr KindAndAnd (CallExpr [''x''] [(None, BinaryExpr KindOrOr (RefExpr [''p'']) (RefExpr [''q'']))]) (RefExpr [''r'']))]"
  by code_simp+

text \<open>An empty \<open>effects\<close> clause is read as no clause, so it is neither checked nor printed.\<close>

definition effectsOf :: "string \<Rightarrow> string list option" where
  "effectsOf src = map_option (\<lambda>(d, st). wd_Effects d) (parseWorkflow demo_text (enoughFuel (newParser src)) (newParser src))"

lemma empty_effects_is_absent:
  "effectsOf ''workflow w() effects { } { }'' = effectsOf ''workflow w() { }''"
  by code_simp

end
