(* ===== verification/Spec2Isabelle.thy ===== *)
theory Spec2Isabelle
  imports Effect_Check Policy_Compile Policy_Stricter Audit_Chain Plan_Converge Lang_Total Lang_Limits
begin

text \<open>
  Terfyn runs agent workflows under declared policies. A project is a graph of agents, tools,
  workflows and policies; it is checked statically, planned and applied to a deployment store, and
  its workflows are executed by an interpreter whose tool calls are admitted by a policy evaluator,
  may wait for a human, and are recorded in a tamper-evident trace. This development models those
  parts and states what they guarantee, alone and together.

  \<^bold>\<open>How the parts interact.\<close> Workflows are written in the agent language, whose source is lexed
  and parsed with error recovery and printed back by the formatter. \<open>plan\<close> compares the desired graph with the applied rows of an
  environment and fingerprints what it saw; \<open>apply\<close> carries the operations out in one transaction
  after checking the fingerprint. A workflow is lowered to a \<open>Program\<close> of the execution IR, whose
  digest enters the planned hash. The interpreter executes it, invoking leaves (tools, agents,
  workflows); a tool leaf asks \<open>CheckToolCall\<close> and, when a human is required, suspends the run with
  a durable memo and control record from which it is resumed. The static analysis in \<open>effects\<close>
  bounds what a workflow or an agent can reach and compares it with the policy's permits before
  anything runs. Every event is appended to the hash chain of its run.

  \<^bold>\<open>Theories.\<close> Sources are under \<open>src/internal\<close>.

  \<^descr> \<open>Go_Prelude\<close>: Go maps, strings (\<open>TrimSpace\<close>, \<open>IndexByte\<close>), UTF-8 runes, \<open>sort\<close>; the
    collections \<open>go_map_simps\<close> and \<open>trim_simps\<close>.
  \<^descr> \<open>Go_Json\<close>, \<open>Json_Num\<close>, \<open>Go_Sha256\<close>: JSON quoting with its inverse, decimal and time
    formatting; the canonical numbers of \<open>jsonnum\<close>; SHA-256 on \<open>32 word\<close>.
  \<^descr> \<open>Spec_Types\<close>, \<open>Spec_Effects\<close>, \<open>Spec_Presets\<close>, \<open>Spec_Limits\<close>, \<open>Shell_Safe\<close>, \<open>Tool_Uses\<close>,
    \<open>Tool_Manifest\<close>: the resource model of \<open>spec\<close> and \<open>tools\<close>: one record per struct, one
    function per function of the files named in each theory.
  \<^descr> \<open>Policy_Eval\<close>, \<open>Policy_Gate\<close>, \<open>Policy_Compile\<close>, \<open>Policy_Hitl\<close>, \<open>Policy_Stricter\<close>: the
    package \<open>policy\<close>. The Go interface \<open>PolicyEvaluator\<close> is the locale \<open>tool_gate\<close>, interpreted on
    the live evaluator, on compiled snapshots and on the stricter composition of two evaluators.
  \<^descr> \<open>Effect_Walk\<close>, \<open>Effect_Bound\<close>, \<open>Effect_Check\<close>: the package \<open>effects\<close>: the walk with its
    visited set, the bound of a root, and its comparison with policies and assertions.
  \<^descr> \<open>Audit_Chain\<close>: \<open>audit\<close> and the two trace statements of \<open>state/sqlite/runtime.go\<close>; the locale
    \<open>hash_chain\<close> holds for any hash and is interpreted on SHA-256 of the canonical event bytes.
  \<^descr> \<open>Exec_Eval\<close>, \<open>Exec_Interp\<close>, \<open>Exec_Digest\<close>: \<open>execir\<close>: programs, expressions, the interpreter
    (\<open>session\<close> is the record \<open>exec_state\<close>), and the content digest.
  \<^descr> \<open>Exec_Once\<close>, \<open>Exec_Resume\<close>, \<open>Exec_Bounds\<close>: theorems about the interpreter. The locale
    \<open>address_frame\<close> lifts a property of leaf calls to all programs; it is interpreted three times.
    \<open>Exec_Bounds\<close> also models \<open>analyze.go\<close>.
  \<^descr> \<open>Deploy_Store\<close>, \<open>Plan_Diff\<close>, \<open>Plan_Apply\<close>, \<open>Plan_Converge\<close>: the deployment tables of
    \<open>state/sqlite\<close>, \<open>plan/diff.go\<close>, planning and applying, and what they guarantee. The locale
    \<open>keyed_store\<close> is the contract of a table with upsert and delete.
  \<^descr> \<open>Lang_Lexer\<close>, \<open>Lang_Parser\<close>, \<open>Lang_Printer\<close>: \<open>lang/token.go\<close> and \<open>lexer.go\<close>; \<open>ast.go\<close> and
    the workflow declarations, statements, expressions and error recovery of \<open>parser.go\<close>; the same
    constructs of \<open>printer.go\<close>.
  \<^descr> \<open>Lang_Total\<close>: the parser ends on every input. \<open>Lang_Reads\<close>, \<open>Lang_Round\<close>, \<open>Lang_Block\<close>,
    \<open>Lang_Format\<close>, \<open>Lang_Reparse\<close>: printed text is read back, chunk by chunk, as token runs, as
    string blocks, as statements and as a whole workflow. \<open>Lang_Limits\<close>: the inputs on which
    formatting is not faithful.

  \<^bold>\<open>Modelling conventions.\<close> A struct is a record, a nilable pointer an \<open>option\<close>, an error result a
  sum with the error on the left, and a map an association list without duplicate keys whose order
  stands for one iteration order. Strings are byte strings. An \<open>int\<close> is an \<open>int\<close> with the
  wrap-around written out where the code can overflow; a \<open>float64\<close> is NaN, an infinity or a rational.
  Every function is total: recursion is structural, or has a termination proof by a measure (the
  walk by the names not yet on the stack, the needs-graph by the nodes left to schedule, the JSON
  difference by the size of the documents, the lexer by the bytes left). Only the parser takes fuel:
  the number of tokens plus three, which \<open>parser_terminates\<close> shows to be enough. Goroutines of forks, parallel loops
  and needs-graphs run in an order, and see each other's suspensions, as a schedule says that the theorems
  quantify over (\<open>Exec_Interp\<close> says why this covers the interleavings). A conversion of an \<open>int64\<close> to
  a \<open>float64\<close> rounds.

  \<^bold>\<open>Parameters.\<close> Code that is not in the repository is an argument: spellings of floats and values
  (\<open>go_text\<close>), \<open>strconv.Quote\<close> (concrete in \<open>Lang_Printer\<close>, over a table of printable runes), Unicode lower-casing, \<open>json.Unmarshal\<close>, the leaf invoker, the
  schedule, the finalizer of an apply. What a theorem needs of them is a named hypothesis with a
  concrete instance in its witness. SHA-256 is concrete; statements that rest on it name the collision.

  \<^bold>\<open>What is shown.\<close>
  \<^item> Static soundness: the effect walk collects exactly what is reachable; a graph that passes
    \<open>Check\<close> performs no effect outside its policies' permits; unless the preset is \<open>shell_safe\<close>, what is
    permitted without approval is never gated at run time, and the static notion of approval agrees
    with the evaluator.
  \<^item> Admission: an admitted call is declared in the manifest, approvals lift exactly the gate,
    missing metadata fails closed, \<open>shell_safe\<close> admits exactly the commands described, a compiled
    snapshot decides like the live policy, and a merged policy binds like both sides in its budgets,
    its iteration ceiling and, where both sides configure it, its review.
  \<^item> Human review: edits are accepted exactly when the lists allow them, a decision stays on its
    tool, redaction hides what it masks.
  \<^item> Execution: a completed leaf is never invoked again, in a run or after resuming, failing runs
    included; a run that is
    suspended and resumed any number of times ends like the uninterrupted one; the static
    invocation bounds hold for every run; number comparison is exact; canonical values survive
    a checkpoint.
  \<^item> Trace: appended histories verify, verification is exact, and the newest hash fixes the chained
    history (rows numbered 0 apart, where the verdict of the code is wrong).
  \<^item> Deployment: applying a fresh plan succeeds and converges, a stale plan is rejected, the digest
    identifies programs, the shown difference is faithful, and pruning keeps exactly what runs and environments can reach.
  \<^item> Language: lexing ends and covers the source, parsing ends on every input, and a printed workflow
    parses back to itself without a diagnostic.

  \<^bold>\<open>Not modelled.\<close> Of the agent language: declarations other than workflows, comments in the
  printer, the checker, lowering and raising. Tool transports, model
  providers, the command line, rendering and project loading: parsing, I/O and glue around the
  parts above. The risk summary and the effect sections of a plan: advisory output that \<open>apply\<close>
  never reads. The engine around the interpreter (\<open>engine\<close>), trace redaction, policy lint, JSON
  serialization of the IR and the run tables: planned next, in this order: redaction and truncation
  of recorded values, policy lint, run and checkpoint tables. Error and message texts, source
  positions and database failures are left out throughout.
\<close>

subsection \<open>The static check and the runtime gate\<close>

lemma lookupPolicy_resolvePolicy: "snd (lookupPolicy g n) = resolvePolicy (Some g) n"
  by (simp add: lookupPolicy_def resolvePolicy_def Let_def)

lemma approvalsOf_permissive:
  "ApprovalPermissive (case pol of None \<Rightarrow> None | Some p \<Rightarrow> ps_Approvals p) \<longleftrightarrow>
     (\<exists>p. pol = Some p \<and> ApprovalPermissive (ps_Approvals p))"
  by (cases pol) (simp_all add: ApprovalPermissive_def)

lemma requiresApproval_cases:
  assumes "ParseUses u = Inr (t, op)" "TrimSpace t = t"
  shows "witnessingRequiresApproval g pol u \<longleftrightarrow>
    (let a = (case pol of None \<Rightarrow> None | Some p \<Rightarrow> ps_Approvals p)
     in \<not> ApprovalPermissive a \<and>
        (ApprovalRequireAllTools a \<or> approvalRequired u a
         \<or> rs_RequiresApproval (resolvedSafetyForTool (Some g) (TrimSpace t))))"
  using assms
  by (auto simp: witnessingRequiresApproval_def approvalRequired_def resolvedSafetyForTool_def
      graphTool_def Let_def split: option.split)

text \<open>The evaluator's verdict once the manifest and the known-tool check have passed.\<close>

lemma CheckToolCall_gate:
  assumes "ParseUses (tc_Uses c) = Inr (t, op)" "ResolvedPresetName pol \<noteq> PresetShellSafe"
    and "inManifest (Some g) (tc_Uses c)"
    and "\<forall>p. pol = Some p \<longrightarrow> checkKnownTool (Some g) (tc_Uses c) (ps_Tools p) = None"
    and "\<not> actionApproved (tc_Uses c) (rc_ApprovedActions (tc_Run c))"
  shows "case CheckToolCall \<lparr>ev_graph = Some g, ev_policy = pol\<rparr> c of
      None \<Rightarrow> (let a = (case pol of None \<Rightarrow> None | Some p \<Rightarrow> ps_Approvals p)
               in ApprovalPermissive a \<or> \<not> (ApprovalRequireAllTools a \<or> approvalRequired (tc_Uses c) a
                    \<or> rs_RequiresApproval (resolvedSafetyForTool (Some g) (TrimSpace t))))
    | Some d \<Rightarrow> de_Reason d = ReasonApprovalRequired \<and>
        (let a = (case pol of None \<Rightarrow> None | Some p \<Rightarrow> ps_Approvals p)
         in \<not> ApprovalPermissive a \<and> (ApprovalRequireAllTools a \<or> approvalRequired (tc_Uses c) a
              \<or> rs_RequiresApproval (resolvedSafetyForTool (Some g) (TrimSpace t))))"
proof -
  have man: "checkOperationInManifest (Some g) (tc_Uses c) = None"
    using assms(3) by (simp add: checkOperationInManifest_None)
  have safety: "checkSafetyDerived (Some g) c =
      (if rs_RequiresApproval (resolvedSafetyForTool (Some g) (TrimSpace t))
       then denied ReasonApprovalRequired (tc_Uses c)
         [(''tool'', AStr t), (''source'', AStr (sourceString (td_Source (EffectiveToolDecision (Some g) None t))))]
       else None)"
    using assms(1,5) by (simp add: checkSafetyDerived_def EffectiveToolDecision_None Derive_def Let_def)
  show ?thesis
  proof (cases pol)
    case None
    then show ?thesis
      by (simp add: CheckToolCall_def man checkApprovalStage_def requiresToolCallApproval_def safety denied_def
          ApprovalPermissive_def ApprovalRequireAllTools_def approvalRequired_def)
  next
    case (Some p)
    with assms(4) have known: "checkKnownTool (Some g) (tc_Uses c) (ps_Tools p) = None" by blast
    show ?thesis
    proof (cases "ApprovalPermissive (ps_Approvals p)")
      case True
      then have "ps_Approvals p \<noteq> None" by (auto simp: ApprovalPermissive_def split: option.splits)
      with True Some show ?thesis by (simp add: CheckToolCall_def man known)
    next
      case False
      with Some assms(2,5) show ?thesis
        by (simp add: CheckToolCall_def man known checkApprovalStage_def requiresToolCallApproval_def
            checkApprovalGranted_def toolCallApprovalDenied_def safety denied_def Let_def)
    qed
  qed
qed

lemma static_runtime_agree:
  assumes "ParseUses (tc_Uses c) = Inr (t, op)" "TrimSpace t = t"
    and "ResolvedPresetName pol \<noteq> PresetShellSafe" "inManifest (Some g) (tc_Uses c)"
    and "\<forall>p. pol = Some p \<longrightarrow> checkKnownTool (Some g) (tc_Uses c) (ps_Tools p) = None"
    and "\<not> actionApproved (tc_Uses c) (rc_ApprovedActions (tc_Run c))"
  shows "ToolCallNeedsHitlWithEvaluator (CheckToolCall \<lparr>ev_graph = Some g, ev_policy = pol\<rparr>) c =
    Inr (witnessingRequiresApproval g pol (tc_Uses c))"
  using CheckToolCall_gate [OF assms(1,3-6)] assms(6)
  unfolding ToolCallNeedsHitlWithEvaluator_def requiresApproval_cases [OF assms(1,2)]
  by (auto simp: Let_def split: option.splits)

text \<open>An operation that does not require approval statically is admitted, or denied for another reason.\<close>

lemma unattended_admitted:
  assumes "ParseUses (tc_Uses c) = Inr (t, op)" "TrimSpace t = t"
    and "ResolvedPresetName pol \<noteq> PresetShellSafe" "\<not> witnessingRequiresApproval g pol (tc_Uses c)"
    and "inManifest (Some g) (tc_Uses c)"
    and "\<forall>p. pol = Some p \<longrightarrow> checkKnownTool (Some g) (tc_Uses c) (ps_Tools p) = None"
  shows "CheckToolCall \<lparr>ev_graph = Some g, ev_policy = pol\<rparr> c = None"
proof -
  let ?e = "\<lparr>ev_graph = Some g, ev_policy = pol\<rparr>" and ?c = "withApproved [] c"
  have c: "tc_Uses ?c = tc_Uses c" "rc_ApprovedActions (tc_Run ?c) = []" "withApproved (rc_ApprovedActions (tc_Run c)) ?c = c"
    by (simp_all add: withApproved_def)
  then have "\<not> actionApproved (tc_Uses ?c) (rc_ApprovedActions (tc_Run ?c))" by (simp add: actionApproved_def)
  from CheckToolCall_gate [of ?c t op pol g, OF _ assms(3) _ _ this] requiresApproval_cases [OF assms(1,2), of g pol] assms(1,4-6) c(1)
  have "CheckToolCall ?e ?c = None" by (auto simp: Let_def split: option.splits)
  then show ?thesis using ev.approvals_monotone [of ?e ?c "rc_ApprovedActions (tc_Run c)"] c by simp
qed

lemma denied_otherwise:
  assumes "\<not> inManifest (Some g) (tc_Uses c) \<or> (\<exists>p. pol = Some p \<and> checkKnownTool (Some g) (tc_Uses c) (ps_Tools p) \<noteq> None)"
    and "CheckToolCall \<lparr>ev_graph = Some g, ev_policy = pol\<rparr> c = Some d"
  shows "de_Reason d \<noteq> ReasonApprovalRequired"
  using assms checkOperationInManifest_reason [of "Some g" "tc_Uses c"] checkKnownTool_reason [of "Some g" "tc_Uses c"]
    checkOperationInManifest_None [of "Some g" "tc_Uses c"]
  by (fastforce simp: CheckToolCall_def split: option.splits if_splits)

subsection \<open>Properties\<close>

text \<open>
  C32. Plan and run agree: for a declared operation of a known tool, under any policy whose
  preset is not \<open>shell_safe\<close>, the runtime gate makes an unapproved call wait for a human
  exactly when the static effect check counts the operation as requiring approval.
\<close>

theorem static_check_agrees_with_runtime_gate:
  assumes "ParseUses (tc_Uses c) = Inr (t, op)" "TrimSpace t = t"
    and "ResolvedPresetName pol \<noteq> PresetShellSafe" "inManifest (Some g) (tc_Uses c)"
    and "\<forall>p. pol = Some p \<longrightarrow> checkKnownTool (Some g) (tc_Uses c) (ps_Tools p) = None"
    and "\<not> actionApproved (tc_Uses c) (rc_ApprovedActions (tc_Run c))"
  shows "ToolCallNeedsHitlWithEvaluator (CheckToolCall \<lparr>ev_graph = Some g, ev_policy = pol\<rparr>) c =
    Inr (witnessingRequiresApproval g pol (tc_Uses c))"
  using assms by (rule static_runtime_agree)

theorem static_check_agrees_with_runtime_gate_witness:
  "ToolCallNeedsHitlWithEvaluator (CheckToolCall \<lparr>ev_graph = Some demo_closed_graph, ev_policy = None\<rparr>)
     (demo_call ''tool.fs.read'' []) =
   Inr (witnessingRequiresApproval demo_closed_graph None (tc_Uses (demo_call ''tool.fs.read'' [])))"
proof (rule static_check_agrees_with_runtime_gate)
  show "ParseUses (tc_Uses (demo_call ''tool.fs.read'' [])) = Inr (''fs'', ''read'')" by code_simp
  show "TrimSpace ''fs'' = ''fs''" by code_simp
  show "ResolvedPresetName None \<noteq> PresetShellSafe" by code_simp
  show "inManifest (Some demo_closed_graph) (tc_Uses (demo_call ''tool.fs.read'' []))" by code_simp
  show "\<not> actionApproved (tc_Uses (demo_call ''tool.fs.read'' []))
      (rc_ApprovedActions (tc_Run (demo_call ''tool.fs.read'' [])))" by code_simp
qed simp

text \<open>
  C2. What the plan promises holds at run time: if the static check passes and a workflow
  reaches an operation one of whose effects is covered only by the unattended permit list,
  then a call of that operation is never stopped for approval under the workflow's policy, and
  it is admitted whenever the manifest declares the operation and the policy does not forbid the tool
  as unknown. This is for tool names without surrounding blanks, and for policies whose preset
  is not \<open>shell_safe\<close>: the static check does not count the gate of that preset.
\<close>

theorem unattended_permit_is_never_gated:
  assumes "Check (Some g) = []" "anyDeclaredToolEffects g" "name \<in> set (keys (g_Workflows g))"
    and "reachesGrant g [] name gr" "tc_Uses c = gr_uses gr"
    and "ParseUses (gr_uses gr) = Inr (t, op)" "TrimSpace t = t"
    and "pol = resolvePolicy (Some g) (case deref (g_Workflows g) name of
          None \<Rightarrow> [] | Some w \<Rightarrow> ws_Policy (wr_Spec w))"
    and "i \<in> set (ro_Effects (ResolveOperationEffects t op (toolSpecOf g t)))"
    and "\<not> identCovered (snd (permitLists pol)) i"
    and "ResolvedPresetName pol \<noteq> PresetShellSafe"
  shows "ToolCallNeedsHitlWithEvaluator (CheckToolCall \<lparr>ev_graph = Some g, ev_policy = pol\<rparr>) c \<noteq> Inr True \<and>
    (inManifest (Some g) (gr_uses gr) \<and>
     (\<forall>p. pol = Some p \<longrightarrow> checkKnownTool (Some g) (gr_uses gr) (ps_Tools p) = None) \<longrightarrow>
       CheckToolCall \<lparr>ev_graph = Some g, ev_policy = pol\<rparr> c = None)"
proof -
  let ?e = "\<lparr>ev_graph = Some g, ev_policy = pol\<rparr>"
  have trim: "resolvePolicy (Some g) (TrimSpace n) = resolvePolicy (Some g) n" for n
    by (simp add: resolvePolicy_def)
  have pol: "snd (policyFor g (deref (g_Workflows g) name)) = pol"
    by (cases "deref (g_Workflows g) name")
      (simp_all add: policyFor_def lookupPolicy_resolvePolicy trim assms(8))
  have "grantPermitted g pol gr"
    using checkBound_permits [OF Check_workflow [OF assms(1-3)] boundWorkflow_covers [OF assms(4)]]
    unfolding pol .
  with assms(6,9,10) have free: "\<not> witnessingRequiresApproval g pol (tc_Uses c)"
    by (auto simp: grantPermitted_def assms(5) Let_def)
  have admitted: "CheckToolCall ?e c = None"
    if "inManifest (Some g) (tc_Uses c)" "\<forall>p. pol = Some p \<longrightarrow> checkKnownTool (Some g) (tc_Uses c) (ps_Tools p) = None"
    using unattended_admitted [OF _ assms(7,11) free that] assms(5,6) by simp
  have "\<not> (\<exists>d. CheckToolCall ?e c = Some d \<and> de_Reason d = ReasonApprovalRequired)"
    using denied_otherwise [of g c pol] admitted by force
  then show ?thesis using admitted ev.needs_hitl_iff [of ?e c] unfolding assms(5) by blast
qed

theorem unattended_permit_is_never_gated_witness:
  "ToolCallNeedsHitlWithEvaluator (CheckToolCall
     \<lparr>ev_graph = Some (demo_effect_graph [demo_use ''a'' ''tool.fs.read'']),
      ev_policy = resolvePolicy (Some (demo_effect_graph [demo_use ''a'' ''tool.fs.read''])) ''p''\<rparr>)
     (demo_call ''tool.fs.read'' []) \<noteq> Inr True \<and>
   CheckToolCall \<lparr>ev_graph = Some (demo_effect_graph [demo_use ''a'' ''tool.fs.read'']),
      ev_policy = resolvePolicy (Some (demo_effect_graph [demo_use ''a'' ''tool.fs.read''])) ''p''\<rparr>
     (demo_call ''tool.fs.read'' []) = None"
proof -
  let ?g = "demo_effect_graph [demo_use ''a'' ''tool.fs.read'']"
  let ?pol = "resolvePolicy (Some ?g) ''p''"
  let ?gr = "parseGrant (TrimSpace ''tool.fs.read'')"
  have c: "Check (Some ?g) = []" by code_simp
  have d: "anyDeclaredToolEffects ?g" by code_simp
  have k: "''main'' \<in> set (keys (g_Workflows ?g))" by (simp add: demo_effect_graph_def)
  have "TrimSpace ''tool.fs.read'' \<noteq> []" by code_simp
  then have r: "reachesGrant ?g [] ''main'' ?gr" by (rule demo_reaches) simp
  have u: "tc_Uses (demo_call ''tool.fs.read'' []) = gr_uses ?gr" by code_simp
  have p: "ParseUses (gr_uses ?gr) = Inr (''fs'', ''read'')" by code_simp
  have t: "TrimSpace ''fs'' = ''fs''" by code_simp
  have q: "?pol = resolvePolicy (Some ?g) (case deref (g_Workflows ?g) ''main'' of
      None \<Rightarrow> [] | Some w \<Rightarrow> ws_Policy (wr_Spec w))"
    by (simp add: demo_effect_graph_def demo_workflow_def deref_def)
  have i: "''workspace.read'' \<in> set (ro_Effects (ResolveOperationEffects ''fs'' ''read'' (toolSpecOf ?g ''fs'')))"
    by code_simp
  have n: "\<not> identCovered (snd (permitLists ?pol)) ''workspace.read''" by code_simp
  have s: "ResolvedPresetName ?pol \<noteq> PresetShellSafe" by code_simp
  have m: "inManifest (Some ?g) (gr_uses ?gr)" by code_simp
  have "case ?pol of None \<Rightarrow> False | Some x \<Rightarrow> ps_Tools x = None" by code_simp
  then have w: "\<forall>x. ?pol = Some x \<longrightarrow> checkKnownTool (Some ?g) (gr_uses ?gr) (ps_Tools x) = None"
    by (auto simp: checkKnownTool_def)
  show ?thesis using unattended_permit_is_never_gated [OF c d k r u p t q i n s] m w by blast
qed

text \<open>
  Under \<open>shell_safe\<close> the two disagree: the evaluator gates every tool with side effects, the static
  check does not count that gate.
\<close>

lemma shell_safe_gate_not_counted:
  "\<not> witnessingRequiresApproval (demo_effect_graph []) (Some buildShellSafePreset) ''tool.fs.read''"
  "ToolCallNeedsHitlWithEvaluator
     (CheckToolCall \<lparr>ev_graph = Some (demo_effect_graph []), ev_policy = Some buildShellSafePreset\<rparr>)
     (demo_call ''tool.fs.read'' []) = Inr True"
  by code_simp+

end
